(* ===== verification/Prelude.thy ===== *)
theory Prelude
  imports Main "HOL-Library.Word"
begin

text \<open>
  Shared vocabulary of the development: the machine integer types of the C and C++
  sources, the named collections the component theories feed, generic lemmas on lists,
  words and remainders, and the two interfaces several components implement:

  \<^item> \<open>fifo_refinement\<close>: a bounded or unbounded queue seen through the list of
    elements it holds (the decode-ahead ring, the byte FIFO of libavutil);
  \<^item> \<open>incremental\<close>: a digest that is fed in pieces (Adler-32).
\<close>

unbundle bit_operations_syntax

type_synonym u8 = "8 word"
type_synonym u16 = "16 word"
type_synonym u32 = "32 word"
type_synonym u64 = "64 word"

named_theorems ring_simps \<open>equations about positions in a ring buffer\<close>
named_theorems word_facts \<open>reading machine words as numbers\<close>
named_theorems invars \<open>operations preserve their component's invariant\<close>

section \<open>Words\<close>

lemma unat_plus1 [word_facts]:
  fixes x :: "'a::len word"
  assumes "x < n"
  shows "unat (x + 1) = unat x + 1"
proof -
  have "x \<noteq> - 1" using assms by (metis word_order.extremum_strict)
  then show ?thesis by (metis add.commute unatSuc add_eq_0_iff2 add.inverse_inverse plus_1_eq_Suc Suc_eq_plus1)
qed

lemma unat_minus_le [word_facts]:
  fixes x y :: "'a::len word"
  assumes "y \<le> x"
  shows "unat (x - y) = unat x - unat y"
  using assms by (simp add: unat_sub)

lemma sint_small [word_facts]:
  fixes x :: "'a::len word"
  assumes "unat x < 2 ^ (LENGTH('a) - 1)"
  shows "sint x = int (unat x)"
proof -
  have "uint x = int (unat x)" by simp
  moreover have "int (unat x) < 2 ^ (LENGTH('a) - Suc 0)"
    using assms by (metis One_nat_def of_nat_less_iff of_nat_numeral of_nat_power)
  ultimately have "- (2 ^ (LENGTH('a) - Suc 0)) \<le> uint x" "uint x < 2 ^ (LENGTH('a) - Suc 0)"
    by (auto intro: order_trans [of _ 0])
  then have "signed_take_bit (LENGTH('a) - Suc 0) (uint x) = uint x"
    by (simp add: signed_take_bit_int_eq_self)
  then show ?thesis by (simp add: sint_uint)
qed

section \<open>Remainders\<close>

lemma mod_eq_close:
  fixes a b n :: nat
  assumes "a mod n = b mod n" "a \<le> b" "b < a + n"
  shows "a = b"
proof (rule ccontr)
  assume "a \<noteq> b"
  with assms(2) have "0 < b - a" by simp
  moreover have "n dvd b - a" using assms(1,2) by (metis mod_eq_dvd_iff_nat)
  ultimately have "n \<le> b - a" by (simp add: dvd_imp_le)
  with assms(3) show False using assms(2) by arith
qed

lemma Suc_mod_eq_iff [ring_simps]:
  fixes a b n :: nat
  assumes "a \<le> b" "b < a + n"
  shows "b mod n = a mod n \<longleftrightarrow> a = b"
  using mod_eq_close [of a n b] assms by auto

lemma mod_less_if_less [ring_simps]:
  fixes a b n :: nat
  shows "a < n \<Longrightarrow> b mod n < n"
  by simp

section \<open>Lists\<close>

lemma map_nth_upt_update [ring_simps]:
  assumes "\<And>k. k \<in> set ks \<Longrightarrow> f k \<noteq> i"
  shows "map (\<lambda>k. xs[i := y] ! f k) ks = map (\<lambda>k. xs ! f k) ks"
  by (rule map_cong [OF refl]) (metis assms nth_list_update_neq)

lemma take_drop_append_shift:
  "take n (drop m xs) @ take k (drop (m + n) xs) = take (n + k) (drop m xs)"
  by (simp add: take_add add.commute [of m n])

text \<open>A block copy into a buffer at a position: what \<open>memcpy\<close> does where it stays in bounds.\<close>

definition overwrite :: "'a list \<Rightarrow> nat \<Rightarrow> 'a list \<Rightarrow> 'a list" where
  "overwrite buf p xs = take p buf @ xs @ drop (p + length xs) buf"

lemma length_overwrite [simp]:
  "p + length xs \<le> length buf \<Longrightarrow> length (overwrite buf p xs) = length buf"
  by (simp add: overwrite_def)

lemma nth_overwrite [ring_simps]:
  assumes "p + length xs \<le> length buf" "i < length buf"
  shows "overwrite buf p xs ! i = (if p \<le> i \<and> i < p + length xs then xs ! (i - p) else buf ! i)"
  using assms by (auto simp: overwrite_def nth_append not_less)

lemma overwrite_Nil [simp]: "overwrite buf p [] = buf"
  by (simp add: overwrite_def)

lemma mod_two_turns [ring_simps]:
  fixes i n :: nat
  assumes "i < n + n"
  shows "i mod n = (if i < n then i else i - n)"
  using assms by (simp add: mod_if)

section \<open>Runs\<close>

text \<open>
  What a call gives: None when it does not return, Some None when it uses memory it must not, and the value
  otherwise.
\<close>

type_synonym 'a run = "'a option option"

definition andthen :: "'a run \<Rightarrow> ('a \<Rightarrow> 'b run) \<Rightarrow> 'b run" where
  "andthen m f = (case m of None \<Rightarrow> None | Some None \<Rightarrow> Some None | Some (Some x) \<Rightarrow> f x)"

lemma andthen_simps [simp]: "andthen (Some (Some x)) f = f x" "andthen (Some None) f = Some None" "andthen None f = None"
  by (simp_all add: andthen_def)

section \<open>Interface: queues seen as lists\<close>

text \<open>
  A sequence of queue operations: \<open>Put xs\<close> offers the elements \<open>xs\<close>, \<open>Get r\<close> asks for
  elements. An operation that the queue refuses (\<open>None\<close>: it is full, or it does not hold
  enough) leaves it unchanged. \<open>qrun\<close> returns what was accepted, what was handed out, and
  the final queue.
\<close>

datatype ('a, 'r) qop = Put "'a list" | Get 'r

fun qrun :: "('a list \<Rightarrow> 'q \<Rightarrow> 'q option) \<Rightarrow> ('r \<Rightarrow> 'q \<Rightarrow> ('a list \<times> 'q) option) \<Rightarrow>
    ('a, 'r) qop list \<Rightarrow> 'q \<Rightarrow> 'a list \<times> 'a list \<times> 'q" where
  "qrun put get [] q = ([], [], q)"
| "qrun put get (Put xs # ops) q =
     (case put xs q of
        None \<Rightarrow> qrun put get ops q
      | Some q' \<Rightarrow> let (i, out, q'') = qrun put get ops q' in (xs @ i, out, q''))"
| "qrun put get (Get r # ops) q =
     (case get r q of
        None \<Rightarrow> qrun put get ops q
      | Some (ys, q') \<Rightarrow> let (i, out, q'') = qrun put get ops q' in (i, ys @ out, q''))"

locale fifo_refinement =
  fixes inv :: "'q \<Rightarrow> bool"
    and content :: "'q \<Rightarrow> 'a list"
    and put :: "'a list \<Rightarrow> 'q \<Rightarrow> 'q option"
    and get :: "'r \<Rightarrow> 'q \<Rightarrow> ('a list \<times> 'q) option"
  assumes put_law: "inv q \<Longrightarrow> put xs q = Some q' \<Longrightarrow> inv q' \<and> content q' = content q @ xs"
    and get_law: "inv q \<Longrightarrow> get r q = Some (ys, q') \<Longrightarrow> inv q' \<and> content q = ys @ content q'"
begin

lemma qrun_fifo:
  "inv q \<Longrightarrow> qrun put get ops q = (i, out, q') \<Longrightarrow>
   inv q' \<and> content q @ i = out @ content q'"
proof (induction ops arbitrary: q i out q')
  case Nil
  then show ?case by simp
next
  case (Cons op ops)
  show ?case
  proof (cases op)
    case (Put xs)
    show ?thesis
    proof (cases "put xs q")
      case None
      with Put Cons show ?thesis by simp
    next
      case (Some q1)
      obtain i1 o1 q2 where r: "qrun put get ops q1 = (i1, o1, q2)" by (cases "qrun put get ops q1")
      from Cons.IH [OF _ r] put_law [OF Cons.prems(1) Some] Cons.prems(2) Put Some r
      show ?thesis by auto
    qed
  next
    case (Get r)
    show ?thesis
    proof (cases "get r q")
      case None
      with Get Cons show ?thesis by simp
    next
      case (Some p)
      obtain ys q1 where p: "p = (ys, q1)" by (cases p)
      obtain i1 o1 q2 where r: "qrun put get ops q1 = (i1, o1, q2)" by (cases "qrun put get ops q1")
      from Cons.IH [OF _ r] get_law [OF Cons.prems(1) Some [unfolded p]] Cons.prems(2) Get Some p r
      show ?thesis by auto
    qed
  qed
qed

end

section \<open>Interface: digests fed in pieces\<close>

text \<open>
  \<open>view\<close> is the part of a context that later calls depend on: a context may hold stale
  bytes that no call reads again.
\<close>

locale incremental =
  fixes inv :: "'s \<Rightarrow> bool"
    and view :: "'s \<Rightarrow> 'v"
    and update :: "'s \<Rightarrow> 'b list \<Rightarrow> 's"
  assumes inv_update: "inv s \<Longrightarrow> inv (update s xs)"
    and view_update: "inv s \<Longrightarrow> inv t \<Longrightarrow> view s = view t \<Longrightarrow> view (update s xs) = view (update t xs)"
    and update_nil: "inv s \<Longrightarrow> view (update s []) = view s"
    and update_append: "inv s \<Longrightarrow> view (update s (xs @ ys)) = view (update (update s xs) ys)"
begin

lemma inv_foldl: "inv s \<Longrightarrow> inv (foldl update s xss)"
  by (induction xss arbitrary: s) (auto intro: inv_update)

lemma view_foldl:
  "inv s \<Longrightarrow> inv t \<Longrightarrow> view s = view t \<Longrightarrow> view (foldl update s xss) = view (foldl update t xss)"
  by (induction xss arbitrary: s t) (auto intro: inv_update view_update)

lemma chunks:
  "inv s \<Longrightarrow> view (foldl update s xss) = view (update s (concat xss))"
proof (induction xss arbitrary: s)
  case Nil
  then show ?case by (simp add: update_nil)
next
  case (Cons xs xss)
  then have "view (foldl update (update s xs) xss) = view (update (update s xs) (concat xss))"
    by (blast intro: inv_update)
  with Cons.prems show ?case by (simp add: update_append)
qed

lemma same_bytes:
  assumes "inv s" "concat xss = concat yss"
  shows "view (foldl update s xss) = view (foldl update s yss)"
  using assms by (simp add: chunks)

end

end
