(* ===== verification/DecAhead.thy ===== *)
theory DecAhead
  imports Prelude Complex_Main
begin

text \<open>
  The decode-ahead engine of mplayerxp (mplayerxp/xmpcore/xmp_core.h and xmp_core.cpp): a
  ring of \<open>nframes\<close> frames between one decoder thread, the only writer of \<open>decoder_idx\<close>,
  and one player thread, the only writer of \<open>player_idx\<close>. The theory holds the record of
  the engine, every dae_ operation, the choice of threads (xmp_engine_compute_model), the
  interleaving of the two threads at the grain of their reads and writes of the indices,
  and what makes the ring correct: the player never overtakes the decoder, the decoder
  never overwrites a frame that is still to be shown, and frames are shown in decoding
  order.

  A \<open>float\<close> time stamp is a rational, one of the two infinities or no number; rounding is not modelled. The function pointers \<open>new_priv\<close> and \<open>free_priv\<close> of the engine, which
  no code of the repository sets, are arguments (\<open>None\<close> is NULL).
\<close>

section \<open>Data\<close>

datatype cfloat = Fin rat | HUGE_VALF | Minus_HUGE | NaNF

type_synonym any_t = nat \<comment> \<open>an opaque pointer; 0 is NULL\<close>

record xmp_frame_t =
  v_pts :: cfloat
  duration :: cfloat
  priv :: any_t

record dec_ahead_engine_t =
  player_idx :: u32
  decoder_idx :: u32
  nframes :: u32
  frame :: "xmp_frame_t list"
  sh :: any_t
  eof :: bool
  num_slow_frames :: u32
  num_played_frames :: int
  num_decoded_frames :: int
  num_dropped_frames :: int

type_synonym dae = dec_ahead_engine_t

section \<open>Operations\<close>

definition dae_reset :: "dae \<Rightarrow> dae" where
  "dae_reset it = it\<lparr>player_idx := 0, decoder_idx := 0, num_slow_frames := 0,
     num_played_frames := 0, num_decoded_frames := 0\<rparr>"

definition zero_frame :: xmp_frame_t where
  "zero_frame = \<lparr>v_pts = Fin 0, duration = Fin 0, priv = 0\<rparr>"

definition dae_init :: "dae \<Rightarrow> u32 \<Rightarrow> any_t \<Rightarrow> dae" where
  "dae_init it n s =
     dae_reset (it\<lparr>nframes := n, frame := replicate (unat n) zero_frame, sh := s\<rparr>)"

definition dae_uninit :: "dae \<Rightarrow> dae" where
  "dae_uninit it = it\<lparr>frame := []\<rparr>"

definition dae_next_played :: "dae \<Rightarrow> u32" where
  "dae_next_played it = (player_idx it + 1) mod nframes it"

definition dae_next_decoded :: "dae \<Rightarrow> u32" where
  "dae_next_decoded it = (decoder_idx it + 1) mod nframes it"

definition dae_prev_played :: "dae \<Rightarrow> u32" where
  "dae_prev_played it = (player_idx it - 1) mod nframes it"

definition dae_prev_decoded :: "dae \<Rightarrow> u32" where
  "dae_prev_decoded it = (decoder_idx it - 1) mod nframes it"

definition dae_try_inc_played :: "dae \<Rightarrow> int \<times> dae" where
  "dae_try_inc_played it =
     (let new_idx = (player_idx it + 1) mod nframes it
      in if new_idx = decoder_idx it
         then (0, it\<lparr>num_slow_frames := num_slow_frames it + 1\<rparr>)
         else (1, it\<lparr>num_slow_frames := 0, num_played_frames := num_played_frames it + 1\<rparr>))"

definition dae_inc_played :: "(dae \<Rightarrow> any_t \<Rightarrow> dae) option \<Rightarrow> dae \<Rightarrow> int \<times> dae" where
  "dae_inc_played free_priv it =
     (let new_idx = (player_idx it + 1) mod nframes it
      in if new_idx = decoder_idx it then (0, it)
         else let it' = (case free_priv of None \<Rightarrow> it
                         | Some f \<Rightarrow> f it (priv (frame it ! unat (player_idx it))))
              in (1, it'\<lparr>player_idx := new_idx\<rparr>))"

definition dae_inc_decoded :: "(dae \<Rightarrow> any_t \<times> dae) option \<Rightarrow> dae \<Rightarrow> int \<times> dae" where
  "dae_inc_decoded new_priv it =
     (let new_idx = (decoder_idx it + 1) mod nframes it
      in if new_idx = player_idx it then (0, it)
         else let it1 = it\<lparr>decoder_idx := new_idx\<rparr>;
                  it2 = (case new_priv of None \<Rightarrow> it1
                         | Some f \<Rightarrow> let (p, it') = f it1; i = unat (player_idx it')
                           in it'\<lparr>frame := (frame it')[i := (frame it' ! i)\<lparr>priv := p\<rparr>]\<rparr>)
              in (1, it2\<lparr>num_decoded_frames := num_decoded_frames it2 + 1\<rparr>))"

definition dae_get_decoder_outrun :: "dae \<Rightarrow> u32" where
  "dae_get_decoder_outrun it =
     (let d = (if decoder_idx it < player_idx it then decoder_idx it + nframes it
               else decoder_idx it)
      in d - player_idx it)"

text \<open>
  The same with its three reads of the indices apart, as they are in the code: the indices are volatile, and
  another thread may move them in between.
\<close>

definition outrun_reads :: "u32 \<Rightarrow> u32 \<Rightarrow> u32 \<Rightarrow> u32 \<Rightarrow> u32" where
  "outrun_reads n d player1 player2 = (if d < player1 then d + n else d) - player2"

definition dae_played_frame :: "dae \<Rightarrow> xmp_frame_t" where
  "dae_played_frame it = frame it ! unat (player_idx it)"

definition dae_decoded_frame :: "dae \<Rightarrow> xmp_frame_t" where
  "dae_decoded_frame it = frame it ! unat (decoder_idx it)"

definition dae_next_played_frame :: "dae \<Rightarrow> xmp_frame_t" where
  "dae_next_played_frame it = frame it ! unat (dae_next_played it)"

definition dae_next_decoded_frame :: "dae \<Rightarrow> xmp_frame_t" where
  "dae_next_decoded_frame it = frame it ! unat (dae_next_decoded it)"

definition dae_prev_played_frame :: "dae \<Rightarrow> xmp_frame_t" where
  "dae_prev_played_frame it = frame it ! unat (dae_prev_played it)"

definition dae_prev_decoded_frame :: "dae \<Rightarrow> xmp_frame_t" where
  "dae_prev_decoded_frame it = frame it ! unat (dae_prev_decoded it)"

definition dae_played_eof :: "dae \<Rightarrow> int" where
  "dae_played_eof it = (if v_pts (frame it ! unat (player_idx it)) = HUGE_VALF then 1 else 0)"

definition dae_decoded_eof :: "dae \<Rightarrow> int" where
  "dae_decoded_eof it = (if v_pts (frame it ! unat (decoder_idx it)) = HUGE_VALF then 1 else 0)"

definition dae_decoded_mark_eof :: "dae \<Rightarrow> dae" where
  "dae_decoded_mark_eof it =
     (let i = unat (decoder_idx it)
      in it\<lparr>frame := (frame it)[i := (frame it ! i)\<lparr>v_pts := HUGE_VALF\<rparr>]\<rparr>)"

text \<open>
  The spin loop of dae_wait_decoder_outrun against an environment: \<open>env t\<close> is the engine
  as the waiting thread sees it after \<open>t\<close> time slices. \<open>None\<close> is a loop that never ends.
\<close>

partial_function (option) wait_outrun_loop :: "(nat \<Rightarrow> dae) \<Rightarrow> u32 \<Rightarrow> nat \<Rightarrow> nat option" where
  "wait_outrun_loop env num_v_buffs t =
     (if dae_get_decoder_outrun (env (Suc t)) < num_v_buffs div 2
      then wait_outrun_loop env num_v_buffs (Suc t) else Some (Suc t))"

definition dae_wait_decoder_outrun :: "(nat \<Rightarrow> dae) option \<Rightarrow> u32 \<Rightarrow> nat \<Rightarrow> nat option" where
  "dae_wait_decoder_outrun it num_v_buffs t =
     (case it of None \<Rightarrow> Some t | Some env \<Rightarrow> wait_outrun_loop env num_v_buffs t)"

section \<open>The choice of threads\<close>

datatype xp_modes = XP_NA | XP_UniCore | XP_DualCore | XP_TripleCore | XP_MultiCore

abbreviation (input) "XMP_Run_AudioPlayer \<equiv> 0x01 :: u32"
abbreviation (input) "XMP_Run_AudioPlayback \<equiv> 0x02 :: u32"
abbreviation (input) "XMP_Run_VideoPlayer \<equiv> 0x04 :: u32"
abbreviation (input) "XMP_Run_VA_Decoder \<equiv> 0x08 :: u32"
abbreviation (input) "XMP_Run_AudioDecoder \<equiv> 0x10 :: u32"
abbreviation (input) "XMP_Run_VideoDecoder \<equiv> 0x20 :: u32"

definition xmp_test_model :: "u32 \<Rightarrow> u32 \<Rightarrow> bool" where
  "xmp_test_model flags v \<longleftrightarrow> flags AND v \<noteq> 0"

definition xmp_engine_compute_model :: "xp_modes \<Rightarrow> bool \<Rightarrow> bool \<Rightarrow> u32" where
  "xmp_engine_compute_model xp shv sha =
     (if \<not> shv \<and> sha then
        (case xp of XP_UniCore \<Rightarrow> XMP_Run_AudioPlayback
         | _ \<Rightarrow> XMP_Run_AudioPlayer OR XMP_Run_AudioDecoder)
      else if shv \<and> \<not> sha then XMP_Run_VideoPlayer OR XMP_Run_VideoDecoder
      else (case xp of
          XP_UniCore \<Rightarrow> XMP_Run_VideoPlayer OR XMP_Run_VA_Decoder OR XMP_Run_AudioPlayer
        | XP_DualCore \<Rightarrow> XMP_Run_VideoPlayer OR XMP_Run_VideoDecoder OR XMP_Run_AudioPlayback
        | _ \<Rightarrow> XMP_Run_VideoPlayer OR XMP_Run_VideoDecoder OR XMP_Run_AudioPlayer OR XMP_Run_AudioDecoder))"

section \<open>Index arithmetic\<close>

definition dae_ok :: "dae \<Rightarrow> bool" where
  "dae_ok it \<longleftrightarrow> 1 < nframes it \<and> length (frame it) = unat (nframes it) \<and>
     player_idx it < nframes it \<and> decoder_idx it < nframes it"

lemma unat_inc_mod [ring_simps]:
  fixes x n :: u32
  assumes "x < n"
  shows "unat ((x + 1) mod n) = (unat x + 1) mod unat n"
  using assms by (simp add: unat_mod word_facts)

lemma inc_mod_less:
  fixes x n :: u32
  assumes "x < n"
  shows "(x + 1) mod n < n"
  using assms by (metis word_mod_less_divisor word_gt_0_no word_coorder.not_eq_extremum word_not_simps(1))

text \<open>The distance from the player to the decoder, along the ring.\<close>

definition outrun :: "dae \<Rightarrow> nat" where
  "outrun it = unat (dae_get_decoder_outrun it)"

lemma outrun_eq:
  assumes "dae_ok it"
  shows "outrun it = (if decoder_idx it < player_idx it
     then unat (decoder_idx it) + unat (nframes it) - unat (player_idx it)
     else unat (decoder_idx it) - unat (player_idx it))"
proof (cases "decoder_idx it < player_idx it")
  case True
  let ?p = "player_idx it" and ?d = "decoder_idx it" and ?n = "nframes it"
  have lt: "unat ?d < unat ?p" "unat ?p < unat ?n"
    using True assms by (simp_all add: dae_ok_def word_less_nat_alt)
  have "?d + ?n - ?p = ?n - (?p - ?d)" by simp
  then have "unat (?d + ?n - ?p) = unat (?n - (?p - ?d))" by (simp only:)
  also have "\<dots> = unat ?n - (unat ?p - unat ?d)"
  proof -
    have "unat (?p - ?d) = unat ?p - unat ?d" using True by (simp add: unat_minus_le)
    moreover from this have "?p - ?d \<le> ?n" using lt by (simp add: word_le_nat_alt)
    ultimately show ?thesis by (simp add: unat_minus_le)
  qed
  finally show ?thesis using True lt by (simp add: outrun_def dae_get_decoder_outrun_def)
next
  case False
  then show ?thesis
    by (simp add: outrun_def dae_get_decoder_outrun_def unat_minus_le)
qed

lemma outrun_bound: "dae_ok it \<Longrightarrow> outrun it < unat (nframes it)"
  by (auto simp: outrun_eq dae_ok_def word_less_nat_alt)

lemma outrun_decoder: "dae_ok it \<Longrightarrow> (unat (player_idx it) + outrun it) mod unat (nframes it) = unat (decoder_idx it)"
  by (auto simp: outrun_eq dae_ok_def word_less_nat_alt)

lemma outrun_mod:
  assumes "dae_ok it" "unat (player_idx it) = p mod unat (nframes it)"
    and "unat (decoder_idx it) = d mod unat (nframes it)" "p \<le> d" "d < p + unat (nframes it)"
  shows "outrun it = d - p"
proof -
  let ?n = "unat (nframes it)"
  have "(p + outrun it) mod ?n = d mod ?n"
    using outrun_decoder [OF assms(1)] assms(2,3) by (simp add: mod_add_left_eq)
  moreover have "p + outrun it < p + ?n" using outrun_bound [OF assms(1)] by simp
  ultimately show ?thesis
    using mod_eq_close [of "p + outrun it" ?n d] mod_eq_close [of d ?n "p + outrun it"] assms(4,5)
    by (cases "p + outrun it \<le> d") auto
qed

section \<open>The ring as a queue of pictures\<close>

text \<open>
  The decoder draws into the surface of the video output that has the number \<open>decoder_idx\<close>, and then hands it over; the player
  shows the surface with its own number. The queue behind the ring: the pictures in the surfaces from \<open>player_idx\<close> up to, not
  including, \<open>decoder_idx\<close>. Its head is the picture on the screen, which dae_inc_played lets go. The stamps in the frame
  records are not part of it: the decoder goes on changing those of pictures it has handed over (DecAheadThreads).
\<close>

type_synonym picture = nat

definition ring_content :: "dae \<times> picture list \<Rightarrow> picture list" where
  "ring_content = (\<lambda>(it, surfaces). map (\<lambda>k. surfaces ! ((unat (player_idx it) + k) mod unat (nframes it))) [0..<outrun it])"

definition ring_put :: "picture list \<Rightarrow> dae \<times> picture list \<Rightarrow> (dae \<times> picture list) option" where
  "ring_put xs = (\<lambda>(it, surfaces). case xs of
       [x] \<Rightarrow> (let (r, it') = dae_inc_decoded None it
               in if r = 1 then Some (it', surfaces[unat (decoder_idx it) := x]) else None)
     | _ \<Rightarrow> None)"

definition ring_get :: "unit \<Rightarrow> dae \<times> picture list \<Rightarrow> (picture list \<times> dae \<times> picture list) option" where
  "ring_get u = (\<lambda>(it, surfaces). let (r, it') = dae_inc_played None it
     in if r = 1 then Some ([surfaces ! unat (player_idx it)], it', surfaces) else None)"

definition ring_ready :: "dae \<Rightarrow> bool" where
  "ring_ready it \<longleftrightarrow> dae_ok it \<and> 0 < outrun it"

definition ring_inv :: "dae \<times> picture list \<Rightarrow> bool" where
  "ring_inv = (\<lambda>(it, surfaces). ring_ready it \<and> length surfaces = unat (nframes it))"

text \<open>What is written into the frame records does not matter.\<close>

lemma ring_content_stamps:
  "length fs = length (frame it) \<Longrightarrow> ring_inv (it\<lparr>frame := fs\<rparr>, surfaces) = ring_inv (it, surfaces) \<and>
     ring_content (it\<lparr>frame := fs\<rparr>, surfaces) = ring_content (it, surfaces)"
  by (simp add: ring_inv_def ring_ready_def ring_content_def dae_ok_def outrun_def dae_get_decoder_outrun_def)

lemma outrun_inc_decoded:
  assumes ok: "dae_ok it" and free: "(decoder_idx it + 1) mod nframes it \<noteq> player_idx it"
    and it': "nframes it' = nframes it" "player_idx it' = player_idx it"
      "decoder_idx it' = (decoder_idx it + 1) mod nframes it" "length (frame it') = length (frame it)"
  shows "dae_ok it'" "outrun it' = outrun it + 1"
proof -
  let ?n = "unat (nframes it)" and ?p = "unat (player_idx it)"
  from ok have bnd: "player_idx it < nframes it" "decoder_idx it < nframes it" "1 < ?n"
    by (auto simp: dae_ok_def word_less_nat_alt)
  show ok': "dae_ok it'" using ok it' by (auto simp: dae_ok_def intro: inc_mod_less)
  have d: "unat (decoder_idx it') = (?p + outrun it + 1) mod ?n"
    using it' bnd outrun_decoder [OF ok] by (simp add: unat_inc_mod mod_Suc_eq flip: outrun_decoder [OF ok])
  have "outrun it + 1 < ?n"
  proof (rule ccontr)
    assume "\<not> ?thesis"
    then have "outrun it + 1 = ?n" using outrun_bound [OF ok] by simp
    then have "?p + outrun it + 1 = ?p + ?n" by simp
    then have "unat (decoder_idx it') = ?p" using d bnd by (simp only: mod_add_self2) (simp add: word_less_nat_alt)
    with free it' show False by (simp add: word_unat_eq_iff)
  qed
  then show "outrun it' = outrun it + 1"
    using outrun_mod [OF ok', of ?p "?p + outrun it + 1"] it' d bnd by (simp add: word_less_nat_alt)
qed

lemma outrun_inc_played:
  assumes inv: "ring_ready it" and free: "(player_idx it + 1) mod nframes it \<noteq> decoder_idx it"
    and it': "nframes it' = nframes it" "decoder_idx it' = decoder_idx it"
      "player_idx it' = (player_idx it + 1) mod nframes it" "length (frame it') = length (frame it)"
  shows "ring_ready it'" "outrun it = Suc (outrun it')"
proof -
  let ?n = "unat (nframes it)" and ?p = "unat (player_idx it)"
  from inv have ok: "dae_ok it" and pos: "0 < outrun it" by (simp_all add: ring_ready_def)
  from ok have bnd: "player_idx it < nframes it" "decoder_idx it < nframes it" "1 < ?n"
    by (auto simp: dae_ok_def word_less_nat_alt)
  have ok': "dae_ok it'" using ok it' by (auto simp: dae_ok_def intro: inc_mod_less)
  have p': "unat (player_idx it') = (?p + 1) mod ?n" using it' bnd by (simp add: unat_inc_mod)
  have d: "unat (decoder_idx it') = (?p + outrun it) mod ?n" using outrun_decoder [OF ok] it' by simp
  have o': "outrun it' = outrun it - 1"
    using outrun_mod [OF ok', of "?p + 1" "?p + outrun it"] it' p' d pos outrun_bound [OF ok] by simp
  have "outrun it \<noteq> 1"
  proof
    assume "outrun it = 1"
    then have "unat (player_idx it') = unat (decoder_idx it')" using p' d by simp
    with free it' show False by (simp add: word_unat_eq_iff)
  qed
  with o' pos show "ring_ready it'" "outrun it = Suc (outrun it')" using ok' by (auto simp: ring_ready_def)
qed

lemma ring_content_shift:
  assumes "1 < n"
  shows "map (\<lambda>k. f ((p + k) mod n)) [0..<Suc m] = f (p mod n) # map (\<lambda>k. f (((p + 1) mod n + k) mod n)) [0..<m]"
proof -
  have "map (\<lambda>k. f ((p + k) mod n)) [0..<Suc m] = f (p mod n) # map (\<lambda>k. f ((p + Suc k) mod n)) [0..<m]"
    by (simp add: upt_conv_Cons map_Suc_upt [symmetric] del: upt_Suc)
  then show ?thesis by (simp add: mod_simps)
qed

lemma ring_put_law:
  assumes inv: "ring_inv q" and put: "ring_put xs q = Some q'"
  shows "ring_inv q' \<and> ring_content q' = ring_content q @ xs"
proof -
  obtain it surfaces where q: "q = (it, surfaces)" by (cases q)
  let ?n = "unat (nframes it)" and ?p = "unat (player_idx it)" and ?d = "unat (decoder_idx it)"
  define it' where "it' = it\<lparr>decoder_idx := (decoder_idx it + 1) mod nframes it, num_decoded_frames := num_decoded_frames it + 1\<rparr>"
  obtain x where xs: "xs = [x]" and free: "(decoder_idx it + 1) mod nframes it \<noteq> player_idx it" and q': "q' = (it', surfaces[?d := x])"
    using put by (auto simp: q it'_def ring_put_def dae_inc_decoded_def Let_def split: list.splits if_splits prod.splits)
  have ok: "dae_ok it" and pos: "0 < outrun it" and len: "length surfaces = ?n" using inv by (simp_all add: ring_inv_def ring_ready_def q)
  have o: "dae_ok it'" "outrun it' = outrun it + 1"
    by (rule outrun_inc_decoded [OF ok free]; simp add: it'_def)+
  have same: "nframes it' = nframes it" "player_idx it' = player_idx it" by (simp_all add: it'_def)
  have d: "(?p + outrun it) mod ?n = ?d" by (rule outrun_decoder [OF ok])
  have "(?p + k) mod ?n \<noteq> ?d" if "k < outrun it" for k
    using that mod_eq_close [of "?p + k" ?n "?p + outrun it"] d outrun_bound [OF ok] by auto
  then have "map (\<lambda>k. surfaces[?d := x] ! ((?p + k) mod ?n)) [0..<outrun it] = ring_content q"
    unfolding ring_content_def q prod.case by (intro map_cong refl) (metis atLeastLessThan_iff atLeastLessThan_upt nth_list_update_neq)
  moreover have "surfaces[?d := x] ! ?d = x" using ok len by (simp add: dae_ok_def word_less_nat_alt)
  ultimately show ?thesis using o d xs pos len by (simp add: ring_inv_def ring_ready_def ring_content_def same q')
qed

lemma ring_get_law:
  assumes inv: "ring_inv q" and get: "ring_get u q = Some (ys, q')"
  shows "ring_inv q' \<and> ring_content q = ys @ ring_content q'"
proof -
  obtain it surfaces where q: "q = (it, surfaces)" by (cases q)
  let ?n = "unat (nframes it)" and ?p = "unat (player_idx it)"
  define it' where "it' = it\<lparr>player_idx := (player_idx it + 1) mod nframes it\<rparr>"
  have free: "(player_idx it + 1) mod nframes it \<noteq> decoder_idx it" and ys: "ys = [surfaces ! ?p]" and q': "q' = (it', surfaces)"
    using get by (auto simp: q it'_def ring_get_def dae_inc_played_def Let_def split: if_splits prod.splits)
  have inv': "ring_ready it" and len: "length surfaces = ?n" using inv by (simp_all add: ring_inv_def q)
  then have ok: "dae_ok it" by (simp add: ring_ready_def)
  have o: "ring_ready it'" "outrun it = Suc (outrun it')"
    by (rule outrun_inc_played [OF inv' free]; simp add: it'_def)+
  have "1 < ?n" "?p < ?n" "unat ((player_idx it + 1) mod nframes it) = (?p + 1) mod ?n"
    using ok unat_inc_mod [of "player_idx it" "nframes it"] by (auto simp: dae_ok_def word_less_nat_alt)
  then have "ring_content q = surfaces ! ?p # ring_content q'"
    using ring_content_shift [of ?n "\<lambda>i. surfaces ! i" ?p "outrun it'"] o(2)
    by (simp add: ring_content_def q q' it'_def del: upt_Suc)
  with o ys len show ?thesis by (simp add: ring_inv_def q' it'_def)
qed

interpretation ring: fifo_refinement ring_inv ring_content ring_put ring_get
  by unfold_locales (fact ring_put_law ring_get_law)+

text \<open>
  C2: The ring refines a queue of pictures: whatever sequence of pictures handed over by the decoder and advances by the
  player is run on a ring that holds at least one picture, the pictures that left it followed by
  those still in it are those it held followed by those accepted, in order. (Each operation runs as a whole; DecAheadThreads
  interleaves their parts. A ring that holds nothing, as after a reset, is not covered: there the player overtakes the decoder, see
  dae_reset_player_overtakes.)
\<close>

theorem ring_refines_queue:
  assumes "ring_inv (it, surfaces)" and "qrun ring_put ring_get ops (it, surfaces) = (ins, outs, q')"
  shows "ring_content (it, surfaces) @ ins = outs @ ring_content q' \<and> ring_inv q'"
  using ring.qrun_fifo [OF assms] by simp

definition example_ring :: dae where
  "example_ring = (dae_init \<lparr>player_idx = 0, decoder_idx = 0, nframes = 0, frame = [], sh = 0,
     eof = False, num_slow_frames = 0, num_played_frames = 0, num_decoded_frames = 0,
     num_dropped_frames = 0\<rparr> 3 1)\<lparr>decoder_idx := 1\<rparr>"

lemma example_ring_simps:
  "nframes example_ring = 3" "player_idx example_ring = 0" "decoder_idx example_ring = 1"
  "frame example_ring = [zero_frame, zero_frame, zero_frame]"
  by (simp_all add: example_ring_def dae_init_def dae_reset_def)
   (simp add: numeral_3_eq_3)

lemma example_ring_ok: "dae_ok example_ring" "outrun example_ring = 1"
  by (simp_all add: dae_ok_def outrun_def dae_get_decoder_outrun_def example_ring_simps)

theorem ring_refines_queue_witness:
  "ring_inv (example_ring, [7, 8, 9]) \<and>
   (\<exists>q'. qrun ring_put ring_get [Put [5], Get ()] (example_ring, [7, 8, 9]) = ([5], [7], q') \<and> ring_content q' = [5])"
proof -
  have i: "ring_inv (example_ring, [7, 8, 9])"
    using example_ring_ok by (simp add: ring_inv_def ring_ready_def example_ring_simps)
  obtain q' where r: "qrun ring_put ring_get [Put [5], Get ()] (example_ring, [7, 8, 9]) = ([5], [7], q')"
    by (simp add: ring_put_def ring_get_def dae_inc_decoded_def dae_inc_played_def example_ring_simps)
  have "ring_content (example_ring, [7, 8, 9]) = [7]"
    using example_ring_ok by (simp add: ring_content_def example_ring_simps)
  with ring_refines_queue [OF i r] have "ring_content q' = [5]" by simp
  with i r show ?thesis by blast
qed

section \<open>Waiting for the decoder\<close>

lemma wait_outrun_loop_sound:
  assumes "wait_outrun_loop env nb t = Some t'"
  shows "t < t' \<and> \<not> dae_get_decoder_outrun (env t') < nb div 2 \<and>
    (\<forall>u. t < u \<and> u < t' \<longrightarrow> dae_get_decoder_outrun (env u) < nb div 2)"
proof (rule wait_outrun_loop.raw_induct [where P = "\<lambda>env nb t t'. t < t' \<and>
      \<not> dae_get_decoder_outrun (env t') < nb div 2 \<and>
      (\<forall>u. t < u \<and> u < t' \<longrightarrow> dae_get_decoder_outrun (env u) < nb div 2)", OF _ assms])
  fix f env nb t t'
  assume IH: "\<And>env nb t t'. f env nb t = Some t' \<Longrightarrow> t < t' \<and>
      \<not> dae_get_decoder_outrun (env t') < nb div 2 \<and>
      (\<forall>u. t < u \<and> u < t' \<longrightarrow> dae_get_decoder_outrun (env u) < nb div 2)"
    and eq: "(if dae_get_decoder_outrun (env (Suc t)) < nb div 2 then f env nb (Suc t)
       else Some (Suc t)) = Some t'"
  show "t < t' \<and> \<not> dae_get_decoder_outrun (env t') < nb div 2 \<and>
      (\<forall>u. t < u \<and> u < t' \<longrightarrow> dae_get_decoder_outrun (env u) < nb div 2)"
  proof (cases "dae_get_decoder_outrun (env (Suc t)) < nb div 2")
    case True
    with eq have "f env nb (Suc t) = Some t'" by simp
    from IH [OF this] True show ?thesis by (metis Suc_lessI Suc_lessD)
  next
    case False
    with eq show ?thesis by auto
  qed
qed

lemma wait_outrun_loop_complete:
  assumes "\<not> dae_get_decoder_outrun (env (t + Suc k)) < nb div 2"
    and "\<forall>u. t < u \<and> u < t + Suc k \<longrightarrow> dae_get_decoder_outrun (env u) < nb div 2"
  shows "wait_outrun_loop env nb t = Some (t + Suc k)"
  using assms
proof (induction k arbitrary: t)
  case 0
  then show ?case by (simp add: wait_outrun_loop.simps [of env nb t])
next
  case (Suc k)
  have "wait_outrun_loop env nb (Suc t) = Some (Suc t + Suc k)"
    using Suc.prems by (intro Suc.IH) auto
  moreover have "dae_get_decoder_outrun (env (Suc t)) < nb div 2" using Suc.prems(2) by auto
  ultimately show ?case by (simp add: wait_outrun_loop.simps [of env nb t])
qed

text \<open>
  C34: dae_wait_decoder_outrun returns at the first time slice after its call at which the
  decoder is half a ring ahead, and at no other: in particular it returns if and only if
  there is such a slice.
\<close>

theorem dae_wait_first_outrun:
  "dae_wait_decoder_outrun (Some env) nb t = Some t' \<longleftrightarrow>
     t < t' \<and> \<not> dae_get_decoder_outrun (env t') < nb div 2 \<and>
     (\<forall>u. t < u \<and> u < t' \<longrightarrow> dae_get_decoder_outrun (env u) < nb div 2)"
proof
  assume "dae_wait_decoder_outrun (Some env) nb t = Some t'"
  then show "t < t' \<and> \<not> dae_get_decoder_outrun (env t') < nb div 2 \<and>
     (\<forall>u. t < u \<and> u < t' \<longrightarrow> dae_get_decoder_outrun (env u) < nb div 2)"
    by (intro wait_outrun_loop_sound) (simp add: dae_wait_decoder_outrun_def)
next
  assume *: "t < t' \<and> \<not> dae_get_decoder_outrun (env t') < nb div 2 \<and>
     (\<forall>u. t < u \<and> u < t' \<longrightarrow> dae_get_decoder_outrun (env u) < nb div 2)"
  then obtain k where "t' = t + Suc k" by (metis less_iff_Suc_add add_Suc_right)
  with * wait_outrun_loop_complete [of env t k nb]
  show "dae_wait_decoder_outrun (Some env) nb t = Some t'"
    by (simp add: dae_wait_decoder_outrun_def)
qed

theorem dae_wait_first_outrun_witness:
  "dae_wait_decoder_outrun (Some (\<lambda>_. example_ring)) 3 0 = Some 1"
  unfolding dae_wait_first_outrun
  by (auto simp: dae_get_decoder_outrun_def example_ring_simps)

text \<open>
  C36: A caller that waits while the threads are halted never returns if the decoder was less
  than half a ring ahead when it was halted: nobody moves the indices. MPXPSystem::seek is
  called between xmp_halt_threads and xmp_restart_threads and ends with such a wait.
\<close>

theorem dae_wait_halted_hangs:
  assumes "dae_get_decoder_outrun it < num_v_buffs div 2"
  shows "dae_wait_decoder_outrun (Some (\<lambda>_. it)) num_v_buffs t = None"
proof (cases "dae_wait_decoder_outrun (Some (\<lambda>_. it)) num_v_buffs t")
  case (Some t')
  then have "\<not> dae_get_decoder_outrun it < num_v_buffs div 2"
    by (auto dest: wait_outrun_loop_sound simp: dae_wait_decoder_outrun_def)
  with assms show ?thesis by simp
qed

theorem dae_wait_halted_hangs_witness:
  "dae_wait_decoder_outrun (Some (\<lambda>_. example_ring)) 4 7 = None"
  by (rule dae_wait_halted_hangs) (simp add: dae_get_decoder_outrun_def example_ring_simps)

section \<open>Reset and start-up\<close>

text \<open>
  C38: Right after dae_reset the test of dae_inc_played does not protect an empty ring: with
  three or more frames the player advances past the decoder, and the outrun then reads
  \<open>nframes - 1\<close> although nothing is decoded. The start-up waits for the decoder before it
  starts the players; xmp_restart_threads, after a seek, resets and restarts them at once.
\<close>

theorem dae_reset_player_overtakes:
  assumes "1 < nframes it"
  shows "dae_inc_played None (dae_reset it) = (1, (dae_reset it)\<lparr>player_idx := 1 mod nframes it\<rparr>) \<and>
    dae_get_decoder_outrun (dae_reset it) = 0 \<and>
    dae_get_decoder_outrun (snd (dae_inc_played None (dae_reset it))) = nframes it - 1"
proof -
  have one: "(1::u32) mod nframes it = 1"
    using assms by (simp add: word_mod_less_divisor mod_word_less)
  show ?thesis
    using assms by (simp add: dae_inc_played_def dae_reset_def Let_def one dae_get_decoder_outrun_def)
qed

theorem dae_reset_player_overtakes_witness:
  "dae_get_decoder_outrun (snd (dae_inc_played None (dae_reset example_ring))) = 2"
  using dae_reset_player_overtakes [of example_ring, THEN conjunct2, THEN conjunct2]
  by (simp add: example_ring_simps)

section \<open>Predecessors\<close>

lemma pred_mod_iff:
  fixes m n :: nat
  assumes "0 < n" "0 < m"
  shows "(m - 1) mod n = n - 1 \<longleftrightarrow> n dvd m"
proof -
  have "m mod n = Suc (m - 1) mod n" using assms by simp
  also have "\<dots> = (if Suc ((m - 1) mod n) = n then 0 else Suc ((m - 1) mod n))"
    by (simp add: mod_Suc)
  finally show ?thesis using assms by (auto simp: dvd_eq_mod_eq_0 split: if_splits)
qed

lemma minus1_mod_iff:
  fixes n :: u32
  assumes "0 < n"
  shows "(- 1) mod n = n - 1 \<longleftrightarrow> unat n dvd 2 ^ 32"
proof -
  have n: "0 < unat n" using assms by (simp add: word_less_nat_alt)
  have m1: "unat (- 1 :: u32) = 2 ^ 32 - 1"
    by (simp only: unsigned_minus_1_eq_mask mask_eq_exp_minus_1) simp
  have "n \<noteq> 0" using assms by auto
  then have u: "unat (n - 1) = unat n - 1" by (rule unat_minus_one)
  have "(- 1) mod n = n - 1 \<longleftrightarrow> unat ((- 1) mod n) = unat n - 1"
    unfolding u [symmetric] by (rule word_unat_eq_iff)
  also have "\<dots> \<longleftrightarrow> (2 ^ 32 - 1) mod unat n = unat n - 1"
    by (simp only: unat_mod m1)
  also have "\<dots> \<longleftrightarrow> unat n dvd 2 ^ 32" using n by (rule pred_mod_iff) (rule zero_less_power, simp)
  finally show ?thesis .
qed

lemma prev_next_index:
  fixes n x :: u32
  assumes "0 < n" "x < n"
  shows "((x + 1) mod n - 1) mod n = (if x = n - 1 then (- 1) mod n else x)"
proof (cases "x = n - 1")
  case True
  then show ?thesis by simp
next
  case False
  then have "x + 1 \<noteq> n" by auto
  then have "unat (x + 1) \<noteq> unat n" by (simp only: word_unat_eq_iff) simp
  then have "x + 1 < n" using unat_plus1 [OF assms(2)] assms(2) by (simp only: word_less_nat_alt)
  then have "(x + 1) mod n = x + 1" by (rule mod_word_less)
  then show ?thesis using False assms(2) by (simp add: mod_word_less)
qed

text \<open>
  C33: The predecessor of an index is computed in unsigned arithmetic, \<open>(idx - 1) % nframes\<close>.
  Stepping forward and back returns to the same index for every position of the ring if and
  only if \<open>nframes\<close> divides \<open>2 ^ 32\<close>, that is, is a power of two: for any other ring the
  predecessor of index 0 is wrong.
\<close>

theorem dae_prev_inverts_next_iff:
  assumes "0 < n"
  shows "(\<forall>it. nframes it = n \<and> decoder_idx it < n \<longrightarrow>
      dae_prev_decoded (it\<lparr>decoder_idx := dae_next_decoded it\<rparr>) = decoder_idx it) \<longleftrightarrow>
    unat n dvd 2 ^ 32"
proof
  have eq: "dae_prev_decoded (it\<lparr>decoder_idx := dae_next_decoded it\<rparr>) =
      (if decoder_idx it = n - 1 then (- 1) mod n else decoder_idx it)"
    if "nframes it = n" "decoder_idx it < n" for it
    using prev_next_index [OF assms that(2)] that(1)
    by (simp add: dae_prev_decoded_def dae_next_decoded_def)
  {
    assume all: "\<forall>it. nframes it = n \<and> decoder_idx it < n \<longrightarrow>
      dae_prev_decoded (it\<lparr>decoder_idx := dae_next_decoded it\<rparr>) = decoder_idx it"
    let ?it = "example_ring\<lparr>nframes := n, decoder_idx := n - 1\<rparr>"
    have "unat (n - 1) < unat n" using assms by (metis measure_unat less_irrefl)
    then have it: "nframes ?it = n" "decoder_idx ?it < n" by (simp_all add: word_less_nat_alt)
    from all it have "dae_prev_decoded (?it\<lparr>decoder_idx := dae_next_decoded ?it\<rparr>) = decoder_idx ?it"
      by blast
    with eq [OF it] have "(- 1) mod n = n - 1" by simp
    with minus1_mod_iff [OF assms] show "unat n dvd 2 ^ 32" by blast
  next
    assume "unat n dvd 2 ^ 32"
    with minus1_mod_iff [OF assms] have "(- 1) mod n = n - 1" by blast
    with eq show "\<forall>it. nframes it = n \<and> decoder_idx it < n \<longrightarrow>
      dae_prev_decoded (it\<lparr>decoder_idx := dae_next_decoded it\<rparr>) = decoder_idx it"
      by auto
  }
qed

theorem dae_prev_inverts_next_iff_witness:
  "\<not> (\<forall>it. nframes it = 10 \<and> decoder_idx it < 10 \<longrightarrow>
      dae_prev_decoded (it\<lparr>decoder_idx := dae_next_decoded it\<rparr>) = decoder_idx it)"
  by (subst dae_prev_inverts_next_iff) (simp_all add: dvd_eq_mod_eq_0)

section \<open>One consumer and one producer per stream\<close>

text \<open>
  C34: For every mode and every non-empty choice of streams xmp_engine_compute_model plans
  exactly one thread that plays each present stream and exactly one that decodes it, and none
  for an absent one.
\<close>

theorem xmp_model_one_thread_per_stream:
  assumes "shv \<or> sha" and "m = xmp_engine_compute_model xp shv sha"
  shows "xmp_test_model m XMP_Run_VideoPlayer = shv \<and>
    (xmp_test_model m XMP_Run_VideoDecoder \<or> xmp_test_model m XMP_Run_VA_Decoder) = shv \<and>
    \<not> (xmp_test_model m XMP_Run_VideoDecoder \<and> xmp_test_model m XMP_Run_VA_Decoder) \<and>
    (xmp_test_model m XMP_Run_AudioPlayer \<or> xmp_test_model m XMP_Run_AudioPlayback) = sha \<and>
    \<not> (xmp_test_model m XMP_Run_AudioPlayer \<and> xmp_test_model m XMP_Run_AudioPlayback) \<and>
    length (filter (xmp_test_model m) [XMP_Run_AudioDecoder, XMP_Run_VA_Decoder, XMP_Run_AudioPlayback])
      = (if sha then 1 else 0)"
  using assms
  by (cases xp; cases shv; cases sha) (simp_all add: xmp_engine_compute_model_def xmp_test_model_def)

theorem xmp_model_one_thread_per_stream_witness:
  "xmp_test_model (xmp_engine_compute_model XP_DualCore True True) XMP_Run_AudioPlayback"
  using xmp_model_one_thread_per_stream [of True True _ XP_DualCore, OF _ refl]
  by (simp add: xmp_engine_compute_model_def xmp_test_model_def)

end
