(* ===== verification/DecAheadThreads.thy ===== *)
theory DecAheadThreads
  imports DecAhead
begin

text \<open>
  The player thread (xmp_video_player and mpxp_play_video in xmp_vplayer.cpp), the decoder thread
  (xmp_video_decoder and reorder_pts_in_mpeg in xmp_vdecoder.cpp) and the start-up in main.cpp, interleaved at the
  grain of the reads and writes of what they share: a thread may be suspended between the test of dae_inc_played or dae_inc_decoded
  and the write that follows it, between two stamps, and between two reads of an index. A run ends with a seek: xmp_restart_threads resets the
  indices and does not wait for the decoder again (see dae_reset_player_overtakes in DecAhead).
\<close>

section \<open>The two halves of the index operations\<close>

definition inc_played_test :: "dae \<Rightarrow> u32 option" where
  "inc_played_test it =
     (let new_idx = (player_idx it + 1) mod nframes it
      in if new_idx = decoder_idx it then None else Some new_idx)"

definition inc_played_commit :: "u32 \<Rightarrow> dae \<Rightarrow> dae" where
  "inc_played_commit new_idx it = it\<lparr>player_idx := new_idx\<rparr>"

definition inc_decoded_test :: "dae \<Rightarrow> u32 option" where
  "inc_decoded_test it =
     (let new_idx = (decoder_idx it + 1) mod nframes it
      in if new_idx = player_idx it then None else Some new_idx)"

definition inc_decoded_commit :: "u32 \<Rightarrow> dae \<Rightarrow> dae" where
  "inc_decoded_commit new_idx it =
     it\<lparr>decoder_idx := new_idx, num_decoded_frames := num_decoded_frames it + 1\<rparr>"

lemma dae_inc_played_halves:
  "dae_inc_played None it =
     (case inc_played_test it of None \<Rightarrow> (0, it) | Some i \<Rightarrow> (1, inc_played_commit i it))"
  by (simp add: dae_inc_played_def inc_played_test_def inc_played_commit_def Let_def)

lemma dae_inc_decoded_halves:
  "dae_inc_decoded None it =
     (case inc_decoded_test it of None \<Rightarrow> (0, it) | Some i \<Rightarrow> (1, inc_decoded_commit i it))"
  by (simp add: dae_inc_decoded_def inc_decoded_test_def inc_decoded_commit_def Let_def)

section \<open>The stamps of the frames\<close>

text \<open>Floats, without rounding.\<close>

fun float_less :: "cfloat \<Rightarrow> cfloat \<Rightarrow> bool" where
  "float_less (Fin x) (Fin y) = (x < y)"
| "float_less (Fin x) HUGE_VALF = True"
| "float_less Minus_HUGE (Fin y) = True"
| "float_less Minus_HUGE HUGE_VALF = True"
| "float_less x y = False"

fun float_minus :: "cfloat \<Rightarrow> cfloat \<Rightarrow> cfloat" where
  "float_minus (Fin x) (Fin y) = Fin (x - y)"
| "float_minus (Fin x) HUGE_VALF = Minus_HUGE"
| "float_minus (Fin x) Minus_HUGE = HUGE_VALF"
| "float_minus HUGE_VALF (Fin y) = HUGE_VALF"
| "float_minus HUGE_VALF Minus_HUGE = HUGE_VALF"
| "float_minus Minus_HUGE (Fin y) = Minus_HUGE"
| "float_minus Minus_HUGE HUGE_VALF = Minus_HUGE"
| "float_minus x y = NaNF"

fun plus_one :: "cfloat \<Rightarrow> cfloat" where
  "plus_one (Fin x) = Fin (x + 1)"
| "plus_one x = x"

text \<open>A write to the record of a frame. Only the decoder thread writes there.\<close>

datatype stamp_write = Pts u32 cfloat | Dur u32 cfloat

fun write_stamp :: "stamp_write \<Rightarrow> xmp_frame_t list \<Rightarrow> xmp_frame_t list" where
  "write_stamp (Pts i v) fra = fra[unat i := (fra ! unat i)\<lparr>v_pts := v\<rparr>]"
| "write_stamp (Dur i v) fra = fra[unat i := (fra ! unat i)\<lparr>duration := v\<rparr>]"

definition pts_at :: "xmp_frame_t list \<Rightarrow> u32 \<Rightarrow> cfloat" where
  "pts_at fra i = v_pts (fra ! unat i)"

text \<open>
  The block that stores the stamps of a decoded frame: its own two, and if the stamps of the file are good the duration of the frame
  before it, which the player may be showing.
\<close>

definition store_writes :: "bool \<Rightarrow> cfloat \<Rightarrow> cfloat \<Rightarrow> cfloat \<Rightarrow> dae \<Rightarrow> stamp_write list" where
  "store_writes bad_pts pts timer dur it =
     (let idx = decoder_idx it; prev = dae_prev_decoded it; own = [Pts idx (if bad_pts then timer else pts), Dur idx dur];
          fra = fold write_stamp own (frame it)
      in if bad_pts then own else own @ [Dur prev (float_minus pts (pts_at fra prev))])"

text \<open>
  One turn of the loop of reorder_pts_in_mpeg, which moves the stamp of the new frame back over greater ones: its condition, apart from the
  comparison with the player's index, and its writes. The frame with the number \<open>idx0\<close> is the one behind in the turn before.
\<close>

definition reorder_goes_on :: "xmp_frame_t list \<Rightarrow> u32 \<Rightarrow> u32 \<Rightarrow> bool" where
  "reorder_goes_on fra idx1 idx2 \<longleftrightarrow> float_less (pts_at fra idx1) (pts_at fra idx2) \<and> float_less (pts_at fra idx2) (plus_one (pts_at fra idx1))"

definition reorder_writes :: "u32 \<Rightarrow> u32 \<Rightarrow> u32 \<Rightarrow> u32 \<Rightarrow> u32 \<Rightarrow> xmp_frame_t list \<Rightarrow> stamp_write list" where
  "reorder_writes n cur idx0 idx1 idx2 fra0 =
     (let w1 = [Pts idx1 (pts_at fra0 idx2), Pts idx2 (pts_at fra0 idx1)]; fra = fold write_stamp w1 fra0;
          w2 = [Dur idx2 (float_minus (pts_at fra idx1) (pts_at fra idx2))];
          idx3 = (idx2 - 1) mod n;
          w3 = (if float_less (pts_at fra idx3) (pts_at fra idx2) \<and> float_less (float_minus (pts_at fra idx2) (pts_at fra idx3)) (Fin 1)
                then [Dur idx3 (float_minus (pts_at fra idx2) (pts_at fra idx3))] else []);
          w4 = (if idx1 \<noteq> cur then [Dur idx1 (float_minus (pts_at fra idx0) (pts_at fra idx1))] else [])
      in w1 @ w2 @ w3 @ w4)"

section \<open>The interleaved system\<close>

text \<open>
  Program counters. The player: not started, while the main thread waits for the decoder to be half a ring ahead (\<open>P_Counted\<close>: it has
  read the decoder's index), at the top of its loop, in mpxp_play_video before and after dae_try_inc_played, about to select the next surface, with
  the surface selected, between the test and the write of dae_inc_played, about to return 0, and at its end. The decoder: at
  the top of its loop, writing stamps one by one (with the three indices reorder_pts_in_mpeg goes on with, if it does), at the condition of
  that loop, with the frame complete, between the test and the write of dae_inc_decoded, after marking the end, and at its end.
\<close>

datatype player_pc = P_Off | P_Counted u32 | P_Top | P_Play | P_Refused | P_Blit | P_Selected | P_Passed u32 | P_Return | P_End
datatype decoder_pc = D_Top | D_Write "stamp_write list" "(u32 \<times> u32 \<times> u32) option" | D_Reorder u32 u32 u32 | D_Stored | D_Passed u32 | D_Mark | D_End

text \<open>
  The surfaces of the video output, the one that is selected for the screen, and the options bad_pts and frame_reorder, beside the engine.
  \<open>played\<close>, \<open>decoded\<close>, \<open>shown\<close> and \<open>hist\<close> are ghosts: how often each index has advanced, the number of the picture
  that was selected last, and the pictures, with the stamps they were stored with, in the order they were handed over.
\<close>

record dae_sys =
  eng :: dae
  surfaces :: "picture list"
  screen :: "u32 option"
  bad_pts :: bool
  frame_reorder :: bool
  ppc :: player_pc
  dpc :: decoder_pc
  played :: nat
  decoded :: nat
  shown :: nat
  hist :: "(picture \<times> cfloat) list"

definition start_sys :: "dae \<Rightarrow> u32 \<Rightarrow> any_t \<Rightarrow> picture list \<Rightarrow> bool \<Rightarrow> bool \<Rightarrow> dae_sys" where
  "start_sys it n s ps bad ro = \<lparr>eng = dae_init it n s, surfaces = ps, screen = None, bad_pts = bad, frame_reorder = ro, ppc = P_Off, dpc = D_Top,
     played = 0, decoded = 0, shown = 0, hist = []\<rparr>"

definition stored :: "dae_sys \<Rightarrow> picture \<times> cfloat" where
  "stored s = (surfaces s ! unat (decoder_idx (eng s)), v_pts (dae_decoded_frame (eng s)))"

definition put_frames :: "xmp_frame_t list \<Rightarrow> dae_sys \<Rightarrow> dae_sys" where
  "put_frames fs s = s\<lparr>eng := (eng s)\<lparr>frame := fs\<rparr>\<rparr>"

definition set_eof :: "bool \<Rightarrow> dae_sys \<Rightarrow> dae_sys" where
  "set_eof b s = s\<lparr>eng := (eng s)\<lparr>eof := b\<rparr>\<rparr>"

inductive xp_step :: "dae_sys \<Rightarrow> dae_sys \<Rightarrow> bool" where
  main_counts:
    "ppc s = P_Off \<Longrightarrow> xp_step s (s\<lparr>ppc := P_Counted (decoder_idx (eng s))\<rparr>)"
| main_waits:
    "ppc s = P_Counted d \<Longrightarrow> outrun_reads (nframes (eng s)) d (player_idx (eng s)) (player_idx (eng s)) < nframes (eng s) div 2 \<Longrightarrow>
     xp_step s (s\<lparr>ppc := P_Off\<rparr>)"
| players_start:
    "ppc s = P_Counted d \<Longrightarrow> \<not> outrun_reads (nframes (eng s)) d (player_idx (eng s)) (player_idx (eng s)) < nframes (eng s) div 2 \<Longrightarrow>
     xp_step s (set_eof False (s\<lparr>ppc := P_Top\<rparr>))"
| player_leaves:
    "ppc s = P_Top \<Longrightarrow> eof (eng s) \<Longrightarrow> xp_step s (s\<lparr>ppc := P_End\<rparr>)"
| player_plays:
    "ppc s = P_Top \<Longrightarrow> \<not> eof (eng s) \<Longrightarrow> xp_step s (s\<lparr>ppc := P_Play\<rparr>)"
| player_final:
    "ppc s = P_Play \<Longrightarrow> eof (eng s) \<Longrightarrow> dae_played_eof (eng s) = 1 \<Longrightarrow> xp_step s (set_eof True (s\<lparr>ppc := P_Top\<rparr>))"
| player_refused:
    "ppc s = P_Play \<Longrightarrow> dae_try_inc_played (eng s) = (0, e) \<Longrightarrow> xp_step s (s\<lparr>eng := e, ppc := P_Refused\<rparr>)"
| player_forced:
    "ppc s = P_Refused \<Longrightarrow> eof (eng s) \<Longrightarrow> xp_step s (s\<lparr>ppc := P_Blit\<rparr>)"
| player_stalls:
    "ppc s = P_Refused \<Longrightarrow> \<not> eof (eng s) \<Longrightarrow> xp_step s (s\<lparr>ppc := P_Return\<rparr>)"
| player_try:
    "ppc s = P_Play \<Longrightarrow> dae_try_inc_played (eng s) = (1, e) \<Longrightarrow> xp_step s (s\<lparr>eng := e, ppc := P_Blit\<rparr>)"
| player_no_sound:
    "ppc s = P_Blit \<Longrightarrow> xp_step s (s\<lparr>ppc := P_Return\<rparr>)"
| player_select:
    "ppc s = P_Blit \<Longrightarrow> xp_step s (s\<lparr>screen := Some (dae_next_played (eng s)), shown := Suc (played s), ppc := P_Selected\<rparr>)"
| player_busy:
    "ppc s = P_Selected \<Longrightarrow> inc_played_test (eng s) = None \<Longrightarrow> xp_step s (s\<lparr>ppc := P_Return\<rparr>)"
| player_test:
    "ppc s = P_Selected \<Longrightarrow> inc_played_test (eng s) = Some i \<Longrightarrow> xp_step s (s\<lparr>ppc := P_Passed i\<rparr>)"
| player_commit:
    "ppc s = P_Passed i \<Longrightarrow> xp_step s (s\<lparr>eng := inc_played_commit i (eng s), ppc := P_Return, played := Suc (played s)\<rparr>)"
| player_returns:
    "ppc s = P_Return \<Longrightarrow> xp_step s (set_eof False (s\<lparr>ppc := P_Top\<rparr>))"
| decoder_leaves:
    "dpc s = D_Top \<Longrightarrow> eof (eng s) \<Longrightarrow> xp_step s (s\<lparr>dpc := D_End\<rparr>)"
| decoder_marks:
    "dpc s = D_Top \<Longrightarrow> \<not> eof (eng s) \<Longrightarrow> xp_step s (s\<lparr>eng := dae_decoded_mark_eof (eng s), dpc := D_Mark\<rparr>)"
| decoder_ends:
    "dpc s = D_Mark \<Longrightarrow> xp_step s (set_eof True (s\<lparr>dpc := D_End\<rparr>))"
| decoder_drops:
    "dpc s = D_Top \<Longrightarrow> \<not> eof (eng s) \<Longrightarrow> xp_step s (s\<lparr>surfaces := (surfaces s)[unat (decoder_idx (eng s)) := p]\<rparr>)"
| decoder_decodes:
    "dpc s = D_Top \<Longrightarrow> \<not> eof (eng s) \<Longrightarrow>
     xp_step s (s\<lparr>surfaces := (surfaces s)[unat (decoder_idx (eng s)) := p],
       dpc := D_Write (store_writes (bad_pts s) pts timer dur (eng s))
         (if frame_reorder s then Some (0, decoder_idx (eng s), dae_prev_decoded (eng s)) else None)\<rparr>)"
| decoder_write:
    "dpc s = D_Write (w # ws) nx \<Longrightarrow> xp_step s (put_frames (write_stamp w (frame (eng s))) (s\<lparr>dpc := D_Write ws nx\<rparr>))"
| decoder_written:
    "dpc s = D_Write [] nx \<Longrightarrow> xp_step s (s\<lparr>dpc := (case nx of None \<Rightarrow> D_Stored | Some (idx0, idx1, idx2) \<Rightarrow> D_Reorder idx0 idx1 idx2)\<rparr>)"
| decoder_reorders:
    "dpc s = D_Reorder idx0 idx1 idx2 \<Longrightarrow> player_idx (eng s) \<noteq> idx2 \<Longrightarrow> reorder_goes_on (frame (eng s)) idx1 idx2 \<Longrightarrow>
     xp_step s (s\<lparr>dpc := D_Write (reorder_writes (nframes (eng s)) (decoder_idx (eng s)) idx0 idx1 idx2 (frame (eng s)))
       (Some (idx1, idx2, (idx2 - 1) mod nframes (eng s)))\<rparr>)"
| decoder_ordered:
    "dpc s = D_Reorder idx0 idx1 idx2 \<Longrightarrow> player_idx (eng s) = idx2 \<or> \<not> reorder_goes_on (frame (eng s)) idx1 idx2 \<Longrightarrow>
     xp_step s (s\<lparr>dpc := D_Stored\<rparr>)"
| decoder_test:
    "dpc s = D_Stored \<Longrightarrow> inc_decoded_test (eng s) = Some i \<Longrightarrow> xp_step s (s\<lparr>dpc := D_Passed i\<rparr>)"
| decoder_commit:
    "dpc s = D_Passed i \<Longrightarrow>
     xp_step s (s\<lparr>eng := inc_decoded_commit i (eng s), dpc := D_Top, decoded := Suc (decoded s), hist := hist s @ [stored s]\<rparr>)"

inductive xp_reachable :: "u32 \<Rightarrow> dae_sys \<Rightarrow> bool" for n where
  start: "length ps = unat n \<Longrightarrow> xp_reachable n (start_sys it n sh0 ps bad ro)"
| step: "xp_reachable n s \<Longrightarrow> xp_step s t \<Longrightarrow> xp_reachable n t"

text \<open>The players run, or have run to their end.\<close>

fun running :: "player_pc \<Rightarrow> bool" where
  "running P_Off = False"
| "running (P_Counted d) = False"
| "running pc = True"

definition started :: "dae_sys \<Rightarrow> bool" where
  "started s \<longleftrightarrow> running (ppc s)"

text \<open>
  The invariant: both indices follow their ghost counters, a passed test stays true, what the main thread has counted was there, the
  surfaces between the indices hold the pictures handed over, and so do the frames hold their stamps unless these are reordered.
\<close>

definition ring_ok :: "u32 \<Rightarrow> dae_sys \<Rightarrow> bool" where
  "ring_ok n s \<longleftrightarrow> nframes (eng s) = n \<and> length (frame (eng s)) = unat n \<and> length (surfaces s) = unat n \<and>
     unat (player_idx (eng s)) = played s mod unat n \<and>
     unat (decoder_idx (eng s)) = decoded s mod unat n"

fun player_ok :: "nat \<Rightarrow> player_pc \<Rightarrow> nat \<Rightarrow> nat \<Rightarrow> bool" where
  "player_ok n P_Off p d = (p = 0)"
| "player_ok n (P_Counted i) p d = (p = 0 \<and> unat i \<le> d)"
| "player_ok n (P_Passed i) p d = (unat i = (p + 1) mod n \<and> p + 1 < d)"
| "player_ok n pc p d = (p < d)"

fun decoder_ok :: "nat \<Rightarrow> decoder_pc \<Rightarrow> nat \<Rightarrow> nat \<Rightarrow> bool" where
  "decoder_ok n (D_Passed i) p d = (unat i = (d + 1) mod n \<and> d + 1 < p + n)"
| "decoder_ok n pc p d = True"

definition gap_ok :: "u32 \<Rightarrow> dae_sys \<Rightarrow> bool" where
  "gap_ok n s \<longleftrightarrow> played s \<le> decoded s \<and> decoded s < played s + unat n \<and>
     player_ok (unat n) (ppc s) (played s) (decoded s) \<and> decoder_ok (unat n) (dpc s) (played s) (decoded s)"

fun selected :: "player_pc \<Rightarrow> bool" where
  "selected P_Selected = True"
| "selected (P_Passed i) = True"
| "selected pc = False"

fun screen_at :: "nat \<Rightarrow> u32 option \<Rightarrow> nat \<Rightarrow> nat \<Rightarrow> bool" where
  "screen_at n None k p = (k = 0 \<and> p = 0)"
| "screen_at n (Some i) k p = (unat i = k mod n \<and> (k = p \<or> k = Suc p))"

definition screen_ok :: "u32 \<Rightarrow> dae_sys \<Rightarrow> bool" where
  "screen_ok n s \<longleftrightarrow> screen_at (unat n) (screen s) (shown s) (played s) \<and> (selected (ppc s) \<longrightarrow> shown s = Suc (played s))"

definition queue_ok :: "nat \<Rightarrow> bool \<Rightarrow> xmp_frame_t list \<Rightarrow> picture list \<Rightarrow> (picture \<times> cfloat) list \<Rightarrow> nat \<Rightarrow> nat \<Rightarrow> bool" where
  "queue_ok n ro fra ps h p d \<longleftrightarrow> length h = d \<and> (\<forall>k. p \<le> k \<and> k < d \<longrightarrow> ps ! (k mod n) = fst (h ! k)) \<and>
     (\<not> ro \<longrightarrow> (\<forall>k. p \<le> k \<and> k < d \<longrightarrow> v_pts (fra ! (k mod n)) = snd (h ! k)))"

definition hist_ok :: "u32 \<Rightarrow> dae_sys \<Rightarrow> bool" where
  "hist_ok n s \<longleftrightarrow> queue_ok (unat n) (frame_reorder s) (frame (eng s)) (surfaces s) (hist s) (played s) (decoded s)"

text \<open>Without reordering, the stamps that are still to be written are the new frame's, or durations.\<close>

fun own_or_duration :: "u32 \<Rightarrow> stamp_write \<Rightarrow> bool" where
  "own_or_duration d (Pts i v) = (i = d)"
| "own_or_duration d (Dur i v) = True"

fun plain_writes :: "u32 \<Rightarrow> decoder_pc \<Rightarrow> bool" where
  "plain_writes d (D_Write ws nx) = (nx = None \<and> (\<forall>w \<in> set ws. own_or_duration d w))"
| "plain_writes d (D_Reorder i j k) = False"
| "plain_writes d pc = True"

definition pending_ok :: "dae_sys \<Rightarrow> bool" where
  "pending_ok s \<longleftrightarrow> frame_reorder s \<or> plain_writes (decoder_idx (eng s)) (dpc s)"

definition sys_inv :: "u32 \<Rightarrow> dae_sys \<Rightarrow> bool" where
  "sys_inv n s \<longleftrightarrow> 2 < n \<and> ring_ok n s \<and> gap_ok n s \<and> screen_ok n s \<and> hist_ok n s \<and> pending_ok s"

lemma ring_ok_dae_ok:
  assumes "2 < n" "ring_ok n s"
  shows "dae_ok (eng s)"
proof -
  from assms have "0 < unat n" by (simp add: word_less_nat_alt)
  then have "unat (player_idx (eng s)) < unat n" "unat (decoder_idx (eng s)) < unat n"
    using assms(2) by (simp_all add: ring_ok_def)
  then show ?thesis using assms by (auto simp: ring_ok_def dae_ok_def word_less_nat_alt)
qed

lemma sys_outrun:
  assumes "sys_inv n s"
  shows "outrun (eng s) = decoded s - played s"
proof -
  from assms have "dae_ok (eng s)" by (auto simp: sys_inv_def intro: ring_ok_dae_ok)
  then show ?thesis
    using assms by (intro outrun_mod) (auto simp: sys_inv_def ring_ok_def gap_ok_def)
qed

lemma sys_inv_start:
  assumes "2 < n" "length ps = unat n"
  shows "sys_inv n (start_sys it n s ps bad ro)"
  using assms
  by (auto simp: sys_inv_def ring_ok_def gap_ok_def hist_ok_def screen_ok_def pending_ok_def queue_ok_def started_def start_sys_def dae_init_def
      dae_reset_def word_less_nat_alt)

text \<open>What a successful or failed test of the indices says about the counters.\<close>

lemma played_test_iff:
  assumes "sys_inv n s"
  shows "(player_idx (eng s) + 1) mod n = decoder_idx (eng s) \<longleftrightarrow> played s + 1 = decoded s"
    and "unat ((player_idx (eng s) + 1) mod n) = (played s + 1) mod unat n"
proof -
  have ok: "dae_ok (eng s)" "nframes (eng s) = n" and r: "ring_ok n s" and g: "gap_ok n s"
    and n: "2 < unat n"
    using assms by (auto simp: sys_inv_def ring_ok_def word_less_nat_alt intro: ring_ok_dae_ok)
  show *: "unat ((player_idx (eng s) + 1) mod n) = (played s + 1) mod unat n"
    using ok r by (simp add: dae_ok_def unat_inc_mod ring_ok_def mod_simps)
  have "(player_idx (eng s) + 1) mod n = decoder_idx (eng s) \<longleftrightarrow>
      (played s + 1) mod unat n = decoded s mod unat n"
    using * r by (simp add: ring_ok_def word_unat_eq_iff)
  also have "\<dots> \<longleftrightarrow> played s + 1 = decoded s"
  proof (cases "played s = decoded s")
    case True
    then show ?thesis using mod_eq_close [of "decoded s" "unat n" "Suc (decoded s)"] n by auto
  next
    case False
    then show ?thesis using g mod_eq_close [of "played s + 1" "unat n" "decoded s"]
      by (auto simp: gap_ok_def)
  qed
  finally show "(player_idx (eng s) + 1) mod n = decoder_idx (eng s) \<longleftrightarrow> played s + 1 = decoded s" .
qed

lemma decoded_test_iff:
  assumes "sys_inv n s"
  shows "(decoder_idx (eng s) + 1) mod n = player_idx (eng s) \<longleftrightarrow> decoded s + 1 = played s + unat n"
    and "unat ((decoder_idx (eng s) + 1) mod n) = (decoded s + 1) mod unat n"
proof -
  have ok: "dae_ok (eng s)" "nframes (eng s) = n" and r: "ring_ok n s" and g: "gap_ok n s"
    and n: "2 < unat n"
    using assms by (auto simp: sys_inv_def ring_ok_def word_less_nat_alt intro: ring_ok_dae_ok)
  show *: "unat ((decoder_idx (eng s) + 1) mod n) = (decoded s + 1) mod unat n"
    using ok r by (simp add: dae_ok_def unat_inc_mod ring_ok_def mod_simps)
  have "(decoder_idx (eng s) + 1) mod n = player_idx (eng s) \<longleftrightarrow>
      (decoded s + 1) mod unat n = (played s + unat n) mod unat n"
    using * r by (simp add: ring_ok_def word_unat_eq_iff)
  also have "\<dots> \<longleftrightarrow> decoded s + 1 = played s + unat n"
    using g mod_eq_close [of "decoded s + 1" "unat n" "played s + unat n"]
    by (auto simp: gap_ok_def)
  finally show "(decoder_idx (eng s) + 1) mod n = player_idx (eng s) \<longleftrightarrow> decoded s + 1 = played s + unat n" .
qed

section \<open>Every step keeps the invariant\<close>

lemmas inv_defs = sys_inv_def ring_ok_def gap_ok_def screen_ok_def hist_ok_def pending_ok_def started_def

lemma try_inc_played_frame:
  assumes "dae_try_inc_played it = (r, e)"
  shows "nframes e = nframes it \<and> frame e = frame it \<and> player_idx e = player_idx it \<and>
    decoder_idx e = decoder_idx it \<and> eof e = eof it"
  using assms by (auto simp: dae_try_inc_played_def Let_def split: if_splits)

text \<open>Steps of the player that only change its counter, or what the ring does not depend on.\<close>

lemma player_moves_inv [invars]:
  assumes "sys_inv n s" "nframes e = nframes (eng s)" "frame e = frame (eng s)"
    and "player_idx e = player_idx (eng s)" "decoder_idx e = decoder_idx (eng s)"
    and "started s" "pc \<in> {P_Top, P_Play, P_Refused, P_Blit, P_Return, P_End}"
  shows "sys_inv n (s\<lparr>eng := e, ppc := pc\<rparr>)"
proof -
  have g: "played s < decoded s" using assms(1,6) by (cases "ppc s") (auto simp: sys_inv_def gap_ok_def started_def)
  have p: "player_ok (unat n) pc (played s) (decoded s)" "\<not> selected pc" using g assms(7) by auto
  show ?thesis using assms(1) unfolding inv_defs by (simp add: assms(2-5) p)
qed

lemma decoder_moves_inv [invars]:
  assumes "sys_inv n s" "pc \<in> {D_Top, D_Stored, D_Mark, D_End}"
  shows "sys_inv n (s\<lparr>dpc := pc\<rparr>)"
proof -
  have "decoder_ok (unat n) pc (played s) (decoded s)" "plain_writes (decoder_idx (eng s)) pc" using assms(2) by auto
  then show ?thesis using assms(1) unfolding inv_defs by simp
qed

lemma set_eof_inv [invars]: "sys_inv n s \<Longrightarrow> sys_inv n (set_eof b s)"
  by (simp add: inv_defs set_eof_def)

lemma unat_decoder_first:
  assumes "sys_inv n s" "\<not> started s"
  shows "unat (decoder_idx (eng s)) = decoded s" "player_idx (eng s) = 0"
proof -
  have "played s = 0" using assms by (cases "ppc s") (auto simp: sys_inv_def gap_ok_def started_def)
  then show "unat (decoder_idx (eng s)) = decoded s" "player_idx (eng s) = 0" using assms(1) by (auto simp: sys_inv_def ring_ok_def gap_ok_def word_unat_eq_iff)
qed

lemma main_counts_inv [invars]:
  assumes "sys_inv n s" "ppc s = P_Off"
  shows "sys_inv n (s\<lparr>ppc := P_Counted (decoder_idx (eng s))\<rparr>)"
  using assms unat_decoder_first(1) [OF assms(1)] by (auto simp: inv_defs)

lemma players_start_inv [invars]:
  assumes inv: "sys_inv n s" and pc: "ppc s = P_Counted d"
    and "\<not> outrun_reads (nframes (eng s)) d (player_idx (eng s)) (player_idx (eng s)) < nframes (eng s) div 2"
  shows "sys_inv n (s\<lparr>ppc := P_Top\<rparr>)"
proof -
  have "\<not> started s" using pc by (simp add: started_def)
  then have "player_idx (eng s) = 0" using unat_decoder_first [OF inv] by simp
  then have "\<not> d < n div 2" "2 < unat n" using assms(1,3) by (auto simp: outrun_reads_def sys_inv_def ring_ok_def word_less_nat_alt)
  then have "0 < unat d" by (simp add: word_less_nat_alt unat_div)
  then have "0 < decoded s" "played s = 0" using inv pc by (auto simp: sys_inv_def gap_ok_def)
  then show ?thesis using inv pc by (auto simp: inv_defs)
qed

lemma player_select_inv [invars]:
  assumes inv: "sys_inv n s" and "ppc s = P_Blit"
  shows "sys_inv n (s\<lparr>screen := Some (dae_next_played (eng s)), shown := Suc (played s), ppc := P_Selected\<rparr>)"
proof -
  have "unat (dae_next_played (eng s)) = Suc (played s) mod unat n"
    using played_test_iff(2) [OF inv] inv by (simp add: dae_next_played_def sys_inv_def ring_ok_def)
  then show ?thesis using assms by (simp add: inv_defs)
qed

lemma player_test_inv [invars]:
  assumes inv: "sys_inv n s" and "ppc s = P_Selected" "inc_played_test (eng s) = Some i"
  shows "sys_inv n (s\<lparr>ppc := P_Passed i\<rparr>)"
proof -
  have i: "i = (player_idx (eng s) + 1) mod n" "i \<noteq> decoder_idx (eng s)"
    using assms by (auto simp: inc_played_test_def Let_def sys_inv_def ring_ok_def split: if_splits)
  then have "unat i = (played s + 1) mod unat n" "played s + 1 \<noteq> decoded s"
    using played_test_iff [OF inv] by auto
  with assms show ?thesis by (auto simp: inv_defs)
qed

lemma player_commit_inv [invars]:
  assumes "sys_inv n s" "ppc s = P_Passed i"
  shows "sys_inv n (s\<lparr>eng := inc_played_commit i (eng s), ppc := P_Return, played := Suc (played s)\<rparr>)"
proof -
  have "queue_ok N ro fra ps h p d \<Longrightarrow> queue_ok N ro fra ps h (Suc p) d" for N ro fra ps h p d by (simp add: queue_ok_def)
  moreover have "decoder_ok N pc p d \<Longrightarrow> decoder_ok N pc (Suc p) d" for N pc p d by (cases pc) auto
  moreover have "screen_at N sc (Suc p) p \<Longrightarrow> screen_at N sc (Suc p) (Suc p)" for N sc p by (cases sc) auto
  ultimately show ?thesis using assms by (auto simp: inv_defs inc_played_commit_def)
qed

text \<open>The slot of the decoder is not one of those between the indices.\<close>

lemma decoder_slot:
  assumes "sys_inv n s" "played s \<le> k" "k < decoded s"
  shows "unat (decoder_idx (eng s)) \<noteq> k mod unat n"
  using assms mod_eq_close [of k "unat n" "decoded s"] by (auto simp: sys_inv_def ring_ok_def gap_ok_def)

lemma surface_inv:
  assumes "sys_inv n s"
  shows "sys_inv n (s\<lparr>surfaces := (surfaces s)[unat (decoder_idx (eng s)) := p]\<rparr>)"
proof -
  have "(surfaces s)[unat (decoder_idx (eng s)) := p] ! (k mod unat n) = surfaces s ! (k mod unat n)" if "played s \<le> k" "k < decoded s" for k
    using decoder_slot [OF assms that] by simp
  then show ?thesis using assms by (simp add: inv_defs queue_ok_def)
qed

lemma decoder_decodes_inv [invars]:
  assumes "sys_inv n s" "dpc s = D_Top"
  shows "sys_inv n (s\<lparr>surfaces := (surfaces s)[unat (decoder_idx (eng s)) := p],
       dpc := D_Write (store_writes (bad_pts s) pts timer dur (eng s))
         (if frame_reorder s then Some (0, decoder_idx (eng s), dae_prev_decoded (eng s)) else None)\<rparr>)"
proof -
  have "w \<in> set (store_writes (bad_pts s) pts timer dur (eng s)) \<Longrightarrow> own_or_duration (decoder_idx (eng s)) w" for w
    by (auto simp: store_writes_def Let_def split: if_splits)
  then show ?thesis using surface_inv [OF assms(1), of p] by (auto simp: inv_defs)
qed

lemma write_stamp_length [simp]: "length (write_stamp w fra) = length fra"
  by (cases w) auto

lemma frames_inv:
  assumes "sys_inv n s" "length fs = length (frame (eng s))"
    and "\<not> frame_reorder s \<Longrightarrow> (\<And>j. j < unat n \<Longrightarrow> j \<noteq> unat (decoder_idx (eng s)) \<Longrightarrow> v_pts (fs ! j) = v_pts (frame (eng s) ! j))"
  shows "sys_inv n (put_frames fs s)"
proof -
  have "0 < unat n" using assms(1) by (auto simp: sys_inv_def word_less_nat_alt)
  then have "v_pts (fs ! (k mod unat n)) = v_pts (frame (eng s) ! (k mod unat n))" if "played s \<le> k" "k < decoded s" "\<not> frame_reorder s" for k
    using assms(3) [OF that(3), of "k mod unat n"] decoder_slot [OF assms(1) that(1,2)] by auto
  then show ?thesis using assms(1,2) by (simp add: inv_defs put_frames_def queue_ok_def)
qed

lemma own_or_duration_elsewhere:
  assumes "own_or_duration d w" "j \<noteq> unat d"
  shows "v_pts (write_stamp w fra ! j) = v_pts (fra ! j)"
proof (cases w)
  case (Pts i v)
  then show ?thesis using assms by simp
next
  case (Dur i v)
  then show ?thesis by (cases "unat i < length fra"; cases "unat i = j") (simp_all add: list_update_beyond)
qed

lemma decoder_write_inv [invars]:
  assumes "sys_inv n s" "dpc s = D_Write (w # ws) nx"
  shows "sys_inv n (put_frames (write_stamp w (frame (eng s))) (s\<lparr>dpc := D_Write ws nx\<rparr>))"
proof -
  have "sys_inv n (s\<lparr>dpc := D_Write ws nx\<rparr>)" using assms by (simp add: inv_defs) blast
  moreover have "own_or_duration (decoder_idx (eng s)) w" if "\<not> frame_reorder s" using assms that by (simp add: sys_inv_def pending_ok_def)
  ultimately show ?thesis using own_or_duration_elsewhere by (intro frames_inv) auto
qed

lemma decoder_written_inv [invars]:
  assumes "sys_inv n s" "dpc s = D_Write [] nx"
  shows "sys_inv n (s\<lparr>dpc := (case nx of None \<Rightarrow> D_Stored | Some (idx0, idx1, idx2) \<Rightarrow> D_Reorder idx0 idx1 idx2)\<rparr>)"
  using assms by (cases nx) (auto simp: inv_defs)

lemma decoder_reorders_inv [invars]:
  assumes "sys_inv n s" "dpc s = D_Reorder i j k"
  shows "sys_inv n (s\<lparr>dpc := D_Write ws (Some x)\<rparr>)"
  using assms by (auto simp: inv_defs)

lemma decoder_marks_inv [invars]:
  assumes "sys_inv n s"
  shows "sys_inv n (s\<lparr>eng := dae_decoded_mark_eof (eng s), dpc := D_Mark\<rparr>)"
proof -
  have "sys_inv n (put_frames (frame (dae_decoded_mark_eof (eng s))) (s\<lparr>dpc := D_Mark\<rparr>))"
    using decoder_moves_inv [OF assms, of D_Mark] by (intro frames_inv) (auto simp: dae_decoded_mark_eof_def Let_def)
  moreover have "put_frames (frame (dae_decoded_mark_eof (eng s))) (s\<lparr>dpc := D_Mark\<rparr>) = s\<lparr>eng := dae_decoded_mark_eof (eng s), dpc := D_Mark\<rparr>"
    by (cases s) (simp add: put_frames_def dae_decoded_mark_eof_def Let_def)
  ultimately show ?thesis by simp
qed

lemma decoder_test_inv [invars]:
  assumes inv: "sys_inv n s" and "inc_decoded_test (eng s) = Some i"
  shows "sys_inv n (s\<lparr>dpc := D_Passed i\<rparr>)"
proof -
  have i: "i = (decoder_idx (eng s) + 1) mod n" "i \<noteq> player_idx (eng s)"
    using assms by (auto simp: inc_decoded_test_def Let_def sys_inv_def ring_ok_def split: if_splits)
  then have "unat i = (decoded s + 1) mod unat n" "decoded s + 1 \<noteq> played s + unat n"
    using decoded_test_iff [OF inv] by auto
  with assms show ?thesis by (simp add: inv_defs)
qed

lemma decoder_commit_inv [invars]:
  assumes inv: "sys_inv n s" and pc: "dpc s = D_Passed i"
  shows "sys_inv n (s\<lparr>eng := inc_decoded_commit i (eng s), dpc := D_Top, decoded := Suc (decoded s), hist := hist s @ [stored s]\<rparr>)"
proof -
  have "player_ok N p k d \<Longrightarrow> player_ok N p k (Suc d)" for N p k d by (cases p) auto
  then show ?thesis using assms
    by (auto simp: inv_defs inc_decoded_commit_def dae_decoded_frame_def stored_def queue_ok_def nth_append less_Suc_eq)
qed

lemma xp_step_inv: "xp_step s t \<Longrightarrow> sys_inv n s \<Longrightarrow> sys_inv n t"
proof (induction rule: xp_step.induct)
  case (main_waits s d)
  then show ?case by (auto simp: inv_defs)
next
  case (player_refused s e)
  then show ?case using player_moves_inv [of n s e P_Refused] try_inc_played_frame [OF player_refused(2)] by (simp add: started_def)
next
  case (player_try s e)
  then show ?case using player_moves_inv [of n s e P_Blit] try_inc_played_frame [OF player_try(2)] by (simp add: started_def)
next
  case (player_leaves s)
  then show ?case using player_moves_inv [of n s "eng s" P_End] by (simp add: started_def)
next
  case (player_plays s)
  then show ?case using player_moves_inv [of n s "eng s" P_Play] by (simp add: started_def)
next
  case (player_final s)
  then show ?case using player_moves_inv [of n s "eng s" P_Top] set_eof_inv by (simp add: started_def)
next
  case (player_forced s)
  then show ?case using player_moves_inv [of n s "eng s" P_Blit] by (simp add: started_def)
next
  case (player_stalls s)
  then show ?case using player_moves_inv [of n s "eng s" P_Return] by (simp add: started_def)
next
  case (player_no_sound s)
  then show ?case using player_moves_inv [of n s "eng s" P_Return] by (simp add: started_def)
next
  case (player_busy s)
  then show ?case using player_moves_inv [of n s "eng s" P_Return] by (simp add: started_def)
next
  case (player_returns s)
  then show ?case using player_moves_inv [of n s "eng s" P_Top] set_eof_inv by (simp add: started_def)
next
  case (players_start s d)
  then show ?case by (intro set_eof_inv players_start_inv)
next
  case decoder_decodes
  from decoder_decodes(3,1) show ?case by (rule decoder_decodes_inv)
next
  case (decoder_ordered s i j k)
  then show ?case by (simp add: decoder_moves_inv)
qed (auto intro: invars surface_inv)

lemma xp_reachable_inv: "xp_reachable n s \<Longrightarrow> 2 < n \<Longrightarrow> sys_inv n s"
  by (induction rule: xp_reachable.induct) (auto intro: sys_inv_start xp_step_inv)

section \<open>What the interleaving guarantees\<close>

lemma started_facts:
  assumes "xp_reachable n s" "2 < n" "started s"
  shows "played s < decoded s" "decoded s < played s + unat n" "length (hist s) = decoded s"
    and "played s \<le> k \<Longrightarrow> k < decoded s \<Longrightarrow> surfaces s ! (k mod unat n) = fst (hist s ! k)"
    and "unat (player_idx (eng s)) = played s mod unat n"
    and "unat (decoder_idx (eng s)) = decoded s mod unat n"
    and "outrun (eng s) = decoded s - played s"
proof -
  have inv: "sys_inv n s" using assms(1,2) by (rule xp_reachable_inv)
  show "played s < decoded s"
    using inv assms(3) by (cases "ppc s") (auto simp: sys_inv_def gap_ok_def started_def)
  show "decoded s < played s + unat n" "length (hist s) = decoded s"
    using inv by (auto simp: sys_inv_def gap_ok_def hist_ok_def queue_ok_def)
  show "played s \<le> k \<Longrightarrow> k < decoded s \<Longrightarrow> surfaces s ! (k mod unat n) = fst (hist s ! k)"
    using inv by (auto simp: sys_inv_def hist_ok_def queue_ok_def)
  show "unat (player_idx (eng s)) = played s mod unat n" "unat (decoder_idx (eng s)) = decoded s mod unat n"
    using inv by (auto simp: sys_inv_def ring_ok_def)
  show "outrun (eng s) = decoded s - played s" using inv by (rule sys_outrun)
qed

text \<open>A run to a started system, for the witnesses below.\<close>

lemma reach_started:
  "\<exists>s. xp_reachable 3 s \<and> started s \<and> ppc s = P_Top \<and> played s = 0 \<and> decoded s = 1 \<and> hist s = [(7, Fin 5)] \<and> screen s = None \<and> \<not> frame_reorder s"
proof -
  define it :: dae where "it = \<lparr>player_idx = 0, decoder_idx = 0, nframes = 0, frame = [], sh = 0,
     eof = False, num_slow_frames = 0, num_played_frames = 0, num_decoded_frames = 0,
     num_dropped_frames = 0\<rparr>"
  define f :: xmp_frame_t where "f = \<lparr>v_pts = Fin 5, duration = Fin 1, priv = 0\<rparr>"
  define e0 where "e0 = dae_init it 3 1"
  define g where "g = f\<lparr>duration := Fin 0\<rparr>"
  let ?S = "\<lambda>e w p d k h. \<lparr>eng = e, surfaces = w, screen = None, bad_pts = True, frame_reorder = False, ppc = p, dpc = d, played = 0, decoded = k, shown = 0, hist = h\<rparr>"
  let ?e1 = "e0\<lparr>frame := [g, zero_frame, zero_frame]\<rparr>" and ?e2 = "e0\<lparr>frame := [f, zero_frame, zero_frame]\<rparr>"
  let ?w = "[7, 0, 0]" and ?ws = "[Pts 0 (Fin 5), Dur 0 (Fin 1)]"
  have e0: "nframes e0 = 3" "player_idx e0 = 0" "decoder_idx e0 = 0" "eof e0 = False" "frame e0 = [zero_frame, zero_frame, zero_frame]"
    by (simp_all add: e0_def it_def dae_init_def dae_reset_def) (simp add: numeral_3_eq_3)
  have r0: "xp_reachable 3 (?S e0 [0, 0, 0] P_Off D_Top 0 [])"
    using xp_reachable.start [of "[0, 0, 0]" 3 it 1 True False] by (simp add: start_sys_def e0_def)
  have s1: "xp_step (?S e0 [0, 0, 0] P_Off D_Top 0 []) (?S e0 ?w P_Off (D_Write ?ws None) 0 [])"
    using decoder_decodes [where s = "?S e0 [0, 0, 0] P_Off D_Top 0 []" and p = 7 and pts = "Fin 5" and timer = "Fin 5" and dur = "Fin 1"] by (simp add: e0 store_writes_def Let_def)
  have s2: "xp_step (?S e0 ?w P_Off (D_Write ?ws None) 0 []) (?S ?e1 ?w P_Off (D_Write [Dur 0 (Fin 1)] None) 0 [])"
    using decoder_write [of "?S e0 ?w P_Off (D_Write ?ws None) 0 []"] by (simp add: e0 put_frames_def g_def f_def zero_frame_def)
  have s3: "xp_step (?S ?e1 ?w P_Off (D_Write [Dur 0 (Fin 1)] None) 0 []) (?S ?e2 ?w P_Off (D_Write [] None) 0 [])"
    using decoder_write [of "?S ?e1 ?w P_Off (D_Write [Dur 0 (Fin 1)] None) 0 []"] by (simp add: e0 put_frames_def g_def f_def)
  have s4: "xp_step (?S ?e2 ?w P_Off (D_Write [] None) 0 []) (?S ?e2 ?w P_Off D_Stored 0 [])"
    using decoder_written [of "?S ?e2 ?w P_Off (D_Write [] None) 0 []" None] by simp
  have s5: "xp_step (?S ?e2 ?w P_Off D_Stored 0 []) (?S ?e2 ?w P_Off (D_Passed 1) 0 [])"
    using decoder_test [of "?S ?e2 ?w P_Off D_Stored 0 []" 1] by (simp add: inc_decoded_test_def e0 Let_def)
  define e3 where "e3 = inc_decoded_commit 1 ?e2"
  have s6: "xp_step (?S ?e2 ?w P_Off (D_Passed 1) 0 []) (?S e3 ?w P_Off D_Top 1 [(7, Fin 5)])"
    using decoder_commit [of "?S ?e2 ?w P_Off (D_Passed 1) 0 []" 1] by (simp add: e3_def stored_def dae_decoded_frame_def e0 f_def)
  have s7: "xp_step (?S e3 ?w P_Off D_Top 1 [(7, Fin 5)]) (?S e3 ?w (P_Counted 1) D_Top 1 [(7, Fin 5)])"
    using main_counts [of "?S e3 ?w P_Off D_Top 1 [(7, Fin 5)]"] by (simp add: e3_def inc_decoded_commit_def)
  have s8: "xp_step (?S e3 ?w (P_Counted 1) D_Top 1 [(7, Fin 5)]) (set_eof False (?S e3 ?w P_Top D_Top 1 [(7, Fin 5)]))"
    using players_start [of "?S e3 ?w (P_Counted 1) D_Top 1 [(7, Fin 5)]" 1] by (simp add: e3_def inc_decoded_commit_def outrun_reads_def e0)
  note r1 = xp_reachable.step [OF r0 s1]
  note r2 = xp_reachable.step [OF r1 s2]
  note r3 = xp_reachable.step [OF r2 s3]
  note r4 = xp_reachable.step [OF r3 s4]
  note r5 = xp_reachable.step [OF r4 s5]
  note r6 = xp_reachable.step [OF r5 s6]
  note r7 = xp_reachable.step [OF r6 s7]
  note r8 = xp_reachable.step [OF r7 s8]
  have "?thesis" by (rule exI [of _ "set_eof False (?S e3 ?w P_Top D_Top 1 [(7, Fin 5)])"]) (use r8 in \<open>simp add: set_eof_def started_def\<close>)
  then show ?thesis .
qed

text \<open>
  C1: In every interleaving of the two threads that starts from dae_init, lets the main
  thread wait for the decoder and has not come to a seek, once the players run the surface under \<open>player_idx\<close> holds exactly
  the picture the decoder handed over as number \<open>played\<close>, with the stamp it was stored with unless stamps are reordered, and
  the surface that is selected for the screen holds the picture with the number \<open>shown\<close>, which is that one or the one after it: pictures are
  shown in decoding order, none before it is complete, and the decoder never draws into the one on the screen. The one exception is the surface
  of the decoder itself, which the player selects when it is forced on at the end of the stream.
\<close>

theorem xp_frames_in_order:
  assumes "xp_reachable n s" and "2 < n" and "started s"
  shows "surfaces s ! unat (player_idx (eng s)) = fst (hist s ! played s) \<and> played s < length (hist s) \<and>
    player_idx (eng s) \<noteq> decoder_idx (eng s) \<and>
    (\<not> frame_reorder s \<longrightarrow> v_pts (dae_played_frame (eng s)) = snd (hist s ! played s)) \<and>
    (\<forall>i. screen s = Some i \<and> i \<noteq> decoder_idx (eng s) \<longrightarrow>
      surfaces s ! unat i = fst (hist s ! shown s) \<and> shown s < length (hist s) \<and> (shown s = played s \<or> shown s = Suc (played s)))"
proof -
  note f = started_facts [OF assms]
  have inv: "sys_inv n s" using xp_reachable_inv [OF assms(1,2)] .
  have d: "player_idx (eng s) \<noteq> decoder_idx (eng s)"
    using f mod_eq_close [of "played s" "unat n" "decoded s"] by auto
  have p: "\<not> frame_reorder s \<longrightarrow> v_pts (dae_played_frame (eng s)) = snd (hist s ! played s)"
    using inv f(1,5) by (simp add: sys_inv_def hist_ok_def queue_ok_def dae_played_frame_def)
  have "surfaces s ! unat i = fst (hist s ! shown s) \<and> shown s < length (hist s) \<and> (shown s = played s \<or> shown s = Suc (played s))"
    if "screen s = Some i" "i \<noteq> decoder_idx (eng s)" for i
  proof -
    have k: "unat i = shown s mod unat n" "shown s = played s \<or> shown s = Suc (played s)"
      using inv that(1) by (auto simp: sys_inv_def screen_ok_def)
    then have "shown s \<noteq> decoded s" using that(2) f(6) by (auto simp: word_unat_eq_iff)
    then show ?thesis using k f(1,3) f(4) [of "shown s"] by auto
  qed
  then show ?thesis using d p f(1,3,5) f(4) [of "played s"] by simp
qed

theorem xp_frames_in_order_witness:
  "\<exists>s. xp_reachable 3 s \<and> started s \<and> surfaces s ! unat (player_idx (eng s)) = 7 \<and> v_pts (dae_played_frame (eng s)) = Fin 5 \<and>
     player_idx (eng s) \<noteq> decoder_idx (eng s)"
proof -
  obtain s where s: "xp_reachable 3 s" "started s" "played s = 0" "hist s = [(7, Fin 5)]" "\<not> frame_reorder s"
    using reach_started by blast
  with xp_frames_in_order [OF s(1) _ s(2)] show ?thesis by (intro exI [of _ s]) simp
qed

text \<open>Nothing goes back.\<close>

lemma xp_step_mono: "xp_step s t \<Longrightarrow> played s \<le> played t \<and> decoded s \<le> decoded t \<and> (started s \<longrightarrow> started t)"
  by (induction rule: xp_step.induct) (auto simp: started_def set_eof_def put_frames_def)

lemma xp_steps_mono: "xp_step\<^sup>*\<^sup>* s t \<Longrightarrow> played s \<le> played t \<and> decoded s \<le> decoded t \<and> (started s \<longrightarrow> started t)"
  by (induction rule: rtranclp_induct) (auto dest: xp_step_mono)

lemma xp_steps_reachable: "xp_step\<^sup>*\<^sup>* s t \<Longrightarrow> xp_reachable n s \<Longrightarrow> xp_reachable n t"
  by (induction rule: rtranclp_induct) (auto intro: xp_reachable.step)

lemma outrun_reads_value:
  assumes "unat d = D mod unat n" "unat p1 = P mod unat n" "unat p2 = Q mod unat n" "P \<le> Q" "Q < D" "D < P + unat n" "2 * unat n \<le> 2 ^ 32"
  shows "unat (outrun_reads n d p1 p2) = D - Q + (if d < p1 \<and> \<not> p1 \<le> p2 then unat n else 0)"
proof -
  let ?n = "unat n"
  have n: "0 < ?n" using assms(4-6) by simp
  have D: "D = ?n * (D div ?n) + unat d" and P: "P = ?n * (P div ?n) + unat p1" and Q: "Q = ?n * (Q div ?n) + unat p2"
    by (simp_all add: assms(1-3))
  have b: "unat d < ?n" "unat p1 < ?n" "unat p2 < ?n" using n by (simp_all add: assms(1-3))
  have pq: "P div ?n \<le> Q div ?n" "Q div ?n \<le> D div ?n" using assms(4,5) by (simp_all add: div_le_mono)
  have "D div ?n \<le> (P + ?n) div ?n" using assms(6) by (simp add: div_le_mono)
  then have "D div ?n \<le> P div ?n + 1" using n by simp
  then consider (same) "D div ?n = P div ?n" "Q div ?n = P div ?n"
    | (late) "D div ?n = P div ?n + 1" "Q div ?n = P div ?n" | (both) "D div ?n = P div ?n + 1" "Q div ?n = P div ?n + 1"
    using pq by linarith
  then show ?thesis
  proof cases
    case same
    then have e: "D = ?n * (P div ?n) + unat d" "Q = ?n * (P div ?n) + unat p2" using D Q by simp_all
    then have "unat p1 \<le> unat p2" "unat p2 < unat d" using P assms(4,5) by linarith+
    moreover have "D - Q = unat d - unat p2" using e by simp
    ultimately show ?thesis by (simp add: outrun_reads_def word_less_nat_alt word_le_nat_alt unat_minus_le)
  next
    case late
    then have e: "D = ?n * (P div ?n) + ?n + unat d" "Q = ?n * (P div ?n) + unat p2" using D Q by simp_all
    then have "unat p1 \<le> unat p2" "unat d < unat p1" using P assms(4,6) b by linarith+
    moreover have "D - Q = unat d + ?n - unat p2" using e by simp
    moreover have "unat (d + n) = unat d + ?n" using b(1) assms(7) by (intro unat_add_lem [THEN iffD1]) simp
    ultimately show ?thesis using b by (simp add: outrun_reads_def word_less_nat_alt word_le_nat_alt unat_minus_le)
  next
    case both
    then have e: "D = ?n * (P div ?n) + ?n + unat d" "Q = ?n * (P div ?n) + ?n + unat p2" using D Q by simp_all
    then have "unat d < unat p1" "unat p2 < unat d" using P assms(5,6) by linarith+
    moreover have "D - Q = unat d - unat p2" using e by simp
    moreover have "unat (d + n) = unat d + ?n" using b(1) assms(7) by (intro unat_add_lem [THEN iffD1]) simp
    ultimately show ?thesis using b by (simp add: outrun_reads_def word_less_nat_alt word_le_nat_alt unat_minus_le)
  qed
qed

text \<open>
  C8: Once the players run, the number that dae_get_decoder_outrun computes for the decoder thread, whose own index does not move meanwhile, is
  that of the pictures that are decoded and not yet left behind, at least 1 and at most \<open>nframes - 1\<close>, if the player does not move
  between the function's two reads of its index. If it does, the result may be too great by \<open>nframes\<close>, and is so exactly if the
  player has gone past the end of the ring in between. (The ring has at most half as many frames as 32 bits can count.)
\<close>

theorem xp_outrun_bounds:
  assumes "xp_reachable n s1" and "2 < n" and "2 * unat n \<le> 2 ^ 32" and "started s1"
    and "xp_step\<^sup>*\<^sup>* s1 s2" and "xp_step\<^sup>*\<^sup>* s2 s3" and "decoded s3 = decoded s1"
  shows "unat (outrun_reads n (decoder_idx (eng s1)) (player_idx (eng s2)) (player_idx (eng s3))) =
      decoded s3 - played s3 + (if player_idx (eng s3) < player_idx (eng s2) then unat n else 0) \<and>
    1 \<le> decoded s3 - played s3 \<and> decoded s3 - played s3 < unat n \<and>
    (player_idx (eng s3) < player_idx (eng s2) \<longrightarrow> played s2 < played s3)"
proof -
  have r: "xp_reachable n s2" "xp_reachable n s3" "started s2" "started s3"
    using assms xp_steps_reachable xp_steps_mono by blast+
  have m: "played s1 \<le> played s2" "played s2 \<le> played s3" "decoded s2 = decoded s1"
    using xp_steps_mono [OF assms(5)] xp_steps_mono [OF assms(6)] assms(7) by auto
  note f1 = started_facts [OF assms(1,2,4)] and f2 = started_facts [OF r(1) assms(2) r(3)] and f3 = started_facts [OF r(2) assms(2) r(4)]
  have v: "unat (outrun_reads n (decoder_idx (eng s1)) (player_idx (eng s2)) (player_idx (eng s3))) =
      decoded s1 - played s3 + (if decoder_idx (eng s1) < player_idx (eng s2) \<and> \<not> player_idx (eng s2) \<le> player_idx (eng s3) then unat n else 0)"
    by (rule outrun_reads_value [OF f1(6) f2(5) f3(5)]) (use m f2 f3 assms(3,7) in auto)
  have moved: "played s2 < played s3" if "player_idx (eng s3) < player_idx (eng s2)"
    using that m(2) f2(5) f3(5) by (cases "played s2 = played s3") (auto simp: word_less_nat_alt)
  have "decoder_idx (eng s1) < player_idx (eng s2)" if "player_idx (eng s3) < player_idx (eng s2)"
  proof (rule ccontr)
    assume "\<not> decoder_idx (eng s1) < player_idx (eng s2)"
    then have l: "played s2 mod unat n \<le> decoded s1 mod unat n" "played s3 mod unat n < played s2 mod unat n"
      using that f1(6) f2(5) f3(5) by (auto simp: word_less_nat_alt)
    have lt: "played s2 < played s3" "played s3 < decoded s1" "decoded s1 < played s2 + unat n" using moved [OF that] f3(1) f2(2) m(3) assms(7) by auto
    have "played s2 div unat n < played s3 div unat n"
    proof (rule ccontr)
      assume "\<not> ?thesis"
      then have "played s2 div unat n = played s3 div unat n" using lt(1) div_le_mono [of "played s2" "played s3" "unat n"] by simp
      then show False using l(2) lt(1) by (metis add_less_cancel_left div_mult_mod_eq less_asym)
    qed
    moreover have "played s3 div unat n \<le> decoded s1 div unat n" using lt(2) by (simp add: div_le_mono)
    ultimately have "unat n * (played s2 div unat n) + unat n \<le> unat n * (decoded s1 div unat n)"
      by (metis Suc_leI add.commute le_trans mult_Suc_right mult_le_mono2)
    then show False using l(1) lt(3) mult_div_mod_eq [of "unat n" "played s2"] mult_div_mod_eq [of "unat n" "decoded s1"] by linarith
  qed
  then show ?thesis using v moved f3 assms(7) by (auto simp: not_le)
qed

theorem xp_outrun_bounds_witness:
  "\<exists>s. xp_reachable 3 s \<and> started s \<and> unat (outrun_reads 3 (decoder_idx (eng s)) (player_idx (eng s)) (player_idx (eng s))) = 1"
proof -
  obtain s where s: "xp_reachable 3 s" "started s" "played s = 0" "decoded s = 1"
    using reach_started by blast
  with xp_outrun_bounds [OF s(1) _ _ s(2) rtranclp.rtrancl_refl rtranclp.rtrancl_refl] show ?thesis by (intro exI [of _ s]) simp
qed

text \<open>
  C5: The two threads cannot block each other: in every reachable state at least one of
  dae_inc_played and dae_inc_decoded succeeds. This is where the three buffers demanded by
  run_ahead_engine are used: a ring of two frames with one frame of outrun refuses both.
\<close>

theorem xp_no_mutual_block:
  assumes "xp_reachable n s" and "2 < n"
  shows "fst (dae_inc_played None (eng s)) = 1 \<or> fst (dae_inc_decoded None (eng s)) = 1"
proof (rule ccontr)
  assume "\<not> ?thesis"
  then have blocked: "(player_idx (eng s) + 1) mod nframes (eng s) = decoder_idx (eng s)"
      "(decoder_idx (eng s) + 1) mod nframes (eng s) = player_idx (eng s)"
    by (auto simp: dae_inc_played_def dae_inc_decoded_def Let_def split: if_splits)
  have inv: "sys_inv n s" using assms by (rule xp_reachable_inv)
  then have n: "nframes (eng s) = n" by (simp add: sys_inv_def ring_ok_def)
  from played_test_iff(1) [OF inv] decoded_test_iff(1) [OF inv] blocked n
  have "unat n = 2" by simp
  with assms(2) show False by (simp add: word_less_nat_alt)
qed

theorem xp_no_mutual_block_witness:
  "\<exists>s. xp_reachable 3 s \<and>
     (fst (dae_inc_played None (eng s)) = 1 \<or> fst (dae_inc_decoded None (eng s)) = 1)"
proof -
  obtain s where s: "xp_reachable 3 s" using reach_started by blast
  with xp_no_mutual_block [OF s] show ?thesis by (intro exI [of _ s]) simp
qed

end
