(* ===== verification/Fifo.thy ===== *)
theory Fifo
  imports Prelude
begin

text \<open>
  The byte FIFO of libavutil (lavc/libavutil/fifo.c, fifo.h): a ring of bytes with read and
  write pointers and 32-bit running indices. Pointers are offsets into the buffer, \<open>end\<close> is
  its length. The memory a call to av_malloc returns is an argument (\<open>None\<close> is NULL), as are
  the call-backs that produce or consume bytes.
\<close>

record av_fifo =
  buffer :: "u8 list"
  rptr :: nat
  wptr :: nat
  rndx :: u32
  wndx :: u32

abbreviation (input) "ENOMEM \<equiv> (12::int)"
abbreviation (input) "EINVAL \<equiv> (22::int)"

section \<open>Operations\<close>

definition av_fifo_reset :: "av_fifo \<Rightarrow> av_fifo" where
  "av_fifo_reset f = f\<lparr>wptr := 0, rptr := 0, wndx := 0, rndx := 0\<rparr>"

definition av_fifo_alloc :: "u8 list option \<Rightarrow> av_fifo option" where
  "av_fifo_alloc mem = (case mem of None \<Rightarrow> None
     | Some buf \<Rightarrow> Some (av_fifo_reset \<lparr>buffer = buf, rptr = 0, wptr = 0, rndx = 0, wndx = 0\<rparr>))"

definition av_fifo_size :: "av_fifo \<Rightarrow> int" where
  "av_fifo_size f = sint (wndx f - rndx f)"

definition av_fifo_space :: "av_fifo \<Rightarrow> int" where
  "av_fifo_space f = int (length (buffer f)) - av_fifo_size f"

definition av_fifo_drain :: "av_fifo \<Rightarrow> nat \<Rightarrow> av_fifo" where
  "av_fifo_drain f sz =
     (let r = rptr f + sz;
          r' = (if r \<ge> length (buffer f) then r - length (buffer f) else r)
      in f\<lparr>rptr := r', rndx := rndx f + of_nat sz\<rparr>)"

text \<open>
  The writing loop. \<open>source src len\<close> is the call-back: its return value, the bytes it puts at
  the write pointer and the state of \<open>src\<close> after it. With no call-back the code copies from
  memory, which is the source \<open>mem_source\<close>.
\<close>

definition mem_source :: "u8 list \<Rightarrow> nat \<Rightarrow> int \<times> u8 list \<times> u8 list" where
  "mem_source src len = (1, take len src, drop len src)"

partial_function (option) fifo_write_loop ::
  "('s \<Rightarrow> nat \<Rightarrow> int \<times> u8 list \<times> 's) \<Rightarrow> u8 list \<Rightarrow> nat \<Rightarrow> u32 \<Rightarrow> 's \<Rightarrow> nat \<Rightarrow>
     (u8 list \<times> nat \<times> u32 \<times> nat) option" where
  "fifo_write_loop source buf wp wn src sz =
     (let len = min (length buf - wp) sz;
          (ret, bytes, src') = source src len
      in if ret \<le> 0 then Some (buf, wp, wn, sz)
         else let buf' = overwrite buf wp bytes;
                  wp1 = wp + len;
                  wp' = (if wp1 \<ge> length buf' then 0 else wp1);
                  wn' = wn + of_nat len;
                  sz' = sz - len
              in if sz' > 0 then fifo_write_loop source buf' wp' wn' src' sz'
                 else Some (buf', wp', wn', sz'))"

definition av_fifo_generic_write ::
  "('s \<Rightarrow> nat \<Rightarrow> int \<times> u8 list \<times> 's) \<Rightarrow> av_fifo \<Rightarrow> 's \<Rightarrow> nat \<Rightarrow> (nat \<times> av_fifo) option" where
  "av_fifo_generic_write source f src sz =
     (case fifo_write_loop source (buffer f) (wptr f) (wndx f) src sz of
        None \<Rightarrow> None
      | Some (buf, wp, wn, rest) \<Rightarrow> Some (sz - rest, f\<lparr>buffer := buf, wndx := wn, wptr := wp\<rparr>))"

text \<open>The reading loop: \<open>sink dest bytes\<close> is the call-back, or the copy to memory (append).\<close>

partial_function (option) av_fifo_generic_read ::
  "('d \<Rightarrow> u8 list \<Rightarrow> 'd) \<Rightarrow> av_fifo \<Rightarrow> 'd \<Rightarrow> nat \<Rightarrow> ('d \<times> av_fifo) option" where
  "av_fifo_generic_read sink f dest sz =
     (let len = min (length (buffer f) - rptr f) sz;
          dest' = sink dest (take len (drop (rptr f) (buffer f)));
          f' = av_fifo_drain f len;
          sz' = sz - len
      in if sz' > 0 then av_fifo_generic_read sink f' dest' sz' else Some (dest', f'))"

definition av_fifo_peek2 :: "av_fifo \<Rightarrow> int \<Rightarrow> int" where
  "av_fifo_peek2 f offs =
     (let ptr = int (rptr f) + offs; e = int (length (buffer f))
      in if ptr \<ge> e then ptr - e
         else if ptr < 0 then e - (0 - ptr) else ptr)"

definition av_fifo_realloc2 :: "(u32 \<Rightarrow> u8 list option) \<Rightarrow> av_fifo \<Rightarrow> u32 \<Rightarrow> (int \<times> av_fifo) option" where
  "av_fifo_realloc2 malloc f new_size =
     (let old_size = of_nat (length (buffer f)) :: u32
      in if old_size < new_size then
           let len = nat (av_fifo_size f)
           in case av_fifo_alloc (malloc new_size) of
                None \<Rightarrow> Some (- ENOMEM, f)
              | Some f2 \<Rightarrow>
                  (case av_fifo_generic_read (@) f [] len of
                     None \<Rightarrow> None
                   | Some (bytes, _) \<Rightarrow>
                       let f2' = f2\<lparr>buffer := overwrite (buffer f2) 0 bytes,
                                    wptr := wptr f2 + len, wndx := wndx f2 + of_nat len\<rparr>
                       in Some (0, f2'))
         else Some (0, f))"

definition av_fifo_grow :: "(u32 \<Rightarrow> u8 list option) \<Rightarrow> av_fifo \<Rightarrow> u32 \<Rightarrow> (int \<times> av_fifo) option" where
  "av_fifo_grow malloc f sz =
     (let old_size = of_nat (length (buffer f)) :: u32;
          used = word_of_int (av_fifo_size f) :: u32
      in if sz + used < sz then Some (- EINVAL, f)
         else let sz' = sz + used
              in if old_size < sz' then av_fifo_realloc2 malloc f (max sz' (2 * sz'))
                 else Some (0, f))"

section \<open>Well-formed FIFOs and their content\<close>

definition fill :: "av_fifo \<Rightarrow> nat" where
  "fill f = unat (wndx f - rndx f)"

definition fifo_ok :: "av_fifo \<Rightarrow> bool" where
  "fifo_ok f \<longleftrightarrow> rptr f < length (buffer f) \<and> wptr f = (rptr f + fill f) mod length (buffer f) \<and>
     fill f \<le> length (buffer f) \<and> length (buffer f) < 2 ^ 31"

definition fifo_bytes :: "av_fifo \<Rightarrow> u8 list" where
  "fifo_bytes f = map (\<lambda>k. buffer f ! ((rptr f + k) mod length (buffer f))) [0..<fill f]"

lemma length_fifo_bytes [simp]: "length (fifo_bytes f) = fill f"
  by (simp add: fifo_bytes_def)

lemma av_fifo_size_fill:
  assumes "fifo_ok f"
  shows "av_fifo_size f = int (fill f)"
  using assms by (simp add: fifo_ok_def av_fifo_size_def fill_def sint_small)

lemma av_fifo_space_fill:
  assumes "fifo_ok f"
  shows "av_fifo_space f = int (length (buffer f) - fill f)"
  using assms by (simp add: av_fifo_space_def av_fifo_size_fill fifo_ok_def of_nat_diff)

section \<open>Writing\<close>

text \<open>Copying a block into the ring takes at most two turns of the loop.\<close>

definition ring_write :: "u8 list \<Rightarrow> nat \<Rightarrow> u8 list \<Rightarrow> u8 list" where
  "ring_write buf p xs =
     (let len = min (length buf - p) (length xs)
      in overwrite (overwrite buf p (take len xs)) 0 (drop len xs))"

lemma ring_write_props [ring_simps]:
  assumes "p < length buf" "length xs \<le> length buf"
  shows "length (ring_write buf p xs) = length buf"
    and "i < length buf \<Longrightarrow> ring_write buf p xs ! i =
      (if (\<exists>k < length xs. i = (p + k) mod length buf)
       then xs ! ((i + length buf - p) mod length buf) else buf ! i)"
proof -
  show *: "length (ring_write buf p xs) = length buf"
    using assms by (simp add: ring_write_def Let_def min_def)
  assume i: "i < length buf"
  have ex: "(\<exists>k < length xs. i = (p + k) mod length buf) \<longleftrightarrow>
      (p \<le> i \<and> i < p + length xs) \<or> (i < p \<and> i + length buf < p + length xs)"
    (is "?E \<longleftrightarrow> ?R")
  proof
    assume ?E
    then obtain k where "k < length xs" "i = (p + k) mod length buf" by blast
    then show ?R using assms by (cases "p + k < length buf") (simp_all add: mod_two_turns, linarith)
  next
    assume ?R
    then show ?E
    proof
      assume "p \<le> i \<and> i < p + length xs"
      then show ?E using i by (intro exI [of _ "i - p"]) auto
    next
      assume "i < p \<and> i + length buf < p + length xs"
      then show ?E using i assms by (intro exI [of _ "i + length buf - p"]) auto
    qed
  qed
  show "ring_write buf p xs ! i =
      (if (\<exists>k < length xs. i = (p + k) mod length buf)
       then xs ! ((i + length buf - p) mod length buf) else buf ! i)"
    unfolding ex using assms i
    by (auto simp: ring_write_def Let_def min_def nth_overwrite mod_two_turns not_less add.commute)
qed

lemma fifo_write_loop_mem:
  assumes "p < length buf" "length xs \<le> length buf"
  shows "fifo_write_loop mem_source buf p wn xs (length xs) =
     Some (ring_write buf p xs, (p + length xs) mod length buf, wn + of_nat (length xs), 0)"
proof (cases "length xs \<le> length buf - p")
  case True
  then show ?thesis using assms
    by (subst fifo_write_loop.simps) (auto simp: mem_source_def Let_def ring_write_def min_def mod_if)
next
  case False
  let ?len = "length buf - p"
  have rest: "fifo_write_loop mem_source (overwrite buf p (take ?len xs)) 0 (wn + of_nat ?len)
      (drop ?len xs) (length xs - ?len) =
    Some (ring_write buf p xs, length xs - ?len, wn + of_nat (length xs), 0)"
    using False assms
    by (subst fifo_write_loop.simps) (auto simp: mem_source_def Let_def ring_write_def min_def)
  have "fifo_write_loop mem_source buf p wn xs (length xs) =
      fifo_write_loop mem_source (overwrite buf p (take ?len xs)) 0 (wn + of_nat ?len)
        (drop ?len xs) (length xs - ?len)"
    using False assms by (subst fifo_write_loop.simps) (simp add: mem_source_def Let_def min_def)
  moreover have "(p + length xs) mod length buf = length xs - ?len"
    using False assms by (auto simp: mod_two_turns)
  ultimately show ?thesis using rest by simp
qed

lemma of_nat_fill:
  assumes "fill f + k < 2 ^ 32"
  shows "unat (wndx f + of_nat k - rndx f) = fill f + k"
proof -
  have "wndx f + of_nat k - rndx f = (wndx f - rndx f) + of_nat k" by simp
  also have "unat \<dots> = fill f + k"
    using assms by (simp add: fill_def unat_word_ariths unat_of_nat)
  finally show ?thesis .
qed

lemma ring_write_seen:
  fixes b xs :: "u8 list" and r fl i :: nat
  defines "n \<equiv> length b" and "w \<equiv> (r + fl) mod length b"
  assumes "r < n" "fl + length xs \<le> n" "i < fl + length xs"
  shows "ring_write b w xs ! ((r + i) mod n) = (if i < fl then b ! ((r + i) mod n) else xs ! (i - fl))"
proof -
  let ?j = "(r + i) mod n"
  have lt: "w < n" "?j < n" using assms(3) by (simp_all add: w_def n_def mod_less_if_less)
  have at: "ring_write b w xs ! ?j = (if (\<exists>k < length xs. ?j = (w + k) mod n)
      then xs ! ((?j + n - w) mod n) else b ! ?j)"
    using ring_write_props(2) [of w b xs ?j] lt assms(4) unfolding n_def by linarith
  have hit: "?j = (w + k) mod n \<longleftrightarrow> i = fl + k" if "k < length xs" for k
  proof -
    have "(w + k) mod n = (r + (fl + k)) mod n" by (simp add: w_def n_def mod_simps add.assoc)
    then show ?thesis
      using mod_eq_close [of "r + i" n "r + (fl + k)"] mod_eq_close [of "r + (fl + k)" n "r + i"]
        assms(4,5) that by (cases "i \<le> fl + k") auto
  qed
  show ?thesis
  proof (cases "i < fl")
    case True
    then show ?thesis using at hit by auto
  next
    case False
    let ?k = "i - fl"
    have k: "?k < length xs" "i = fl + ?k" using False assms(5) by auto
    then have jk: "?j = (w + ?k) mod n" using hit by blast
    have "(?j + n - w) mod n = ?k"
      using lt k assms(4) by (auto simp: jk mod_two_turns)
    moreover have "\<exists>k < length xs. ?j = (w + k) mod n" using jk k by blast
    ultimately have "ring_write b w xs ! ?j = xs ! ?k" using at by presburger
    then show ?thesis using False by simp
  qed
qed

lemma av_fifo_write_appends:
  assumes ok: "fifo_ok f" and space: "int (length xs) \<le> av_fifo_space f"
  shows "\<exists>f'. av_fifo_generic_write mem_source f xs (length xs) = Some (length xs, f') \<and>
    fifo_ok f' \<and> fifo_bytes f' = fifo_bytes f @ xs \<and> length (buffer f') = length (buffer f)"
proof -
  let ?n = "length (buffer f)" and ?r = "rptr f"
  define buf where "buf = ring_write (buffer f) (wptr f) xs"
  define g where "g = f\<lparr>buffer := buf, wndx := wndx f + of_nat (length xs), wptr := (wptr f + length xs) mod ?n\<rparr>"
  from ok have r: "?r < ?n" and w: "wptr f = (?r + fill f) mod ?n" and fl: "fill f \<le> ?n" "?n < 2 ^ 31"
    by (simp_all add: fifo_ok_def)
  have len: "fill f + length xs \<le> ?n" using space fl by (simp add: av_fifo_space_fill [OF ok])
  have wlt: "wptr f < ?n" using r w by (metis mod_less_divisor gr_zeroI not_less_zero)
  have g: "buffer g = buf" "rptr g = ?r" "wptr g = (wptr f + length xs) mod ?n" "length buf = ?n"
    using wlt len by (simp_all add: g_def buf_def ring_write_props)
  have fl': "fill g = fill f + length xs"
    using of_nat_fill [of f "length xs"] len fl by (simp add: fill_def g_def)
  have "av_fifo_generic_write mem_source f xs (length xs) = Some (length xs, g)"
    using wlt len by (simp add: av_fifo_generic_write_def fifo_write_loop_mem buf_def g_def)
  moreover have "fifo_ok g"
    using r w fl len by (simp add: fifo_ok_def fl' g mod_simps add.assoc)
  moreover have "fifo_bytes g = fifo_bytes f @ xs"
  proof (rule nth_equalityI)
    show "length (fifo_bytes g) = length (fifo_bytes f @ xs)" by (simp add: fifo_bytes_def fl')
    fix i assume "i < length (fifo_bytes g)"
    then have "i < fill f + length xs" by (simp add: fifo_bytes_def fl')
    then show "fifo_bytes g ! i = (fifo_bytes f @ xs) ! i"
      using ring_write_seen [OF r len, of i, folded w buf_def] by (auto simp: fifo_bytes_def fl' g nth_append)
  qed
  ultimately show ?thesis using g by auto
qed

section \<open>Reading\<close>

lemma drain_ok [invars]:
  assumes ok: "fifo_ok f" and n: "n \<le> fill f" "n \<le> length (buffer f) - rptr f"
  shows "fifo_ok (av_fifo_drain f n)" "fill (av_fifo_drain f n) = fill f - n"
    "rptr (av_fifo_drain f n) = (rptr f + n) mod length (buffer f)"
    "buffer (av_fifo_drain f n) = buffer f"
proof -
  let ?g = "av_fifo_drain f n" and ?n = "length (buffer f)"
  from ok have r: "rptr f < ?n" and w: "wptr f = (rptr f + fill f) mod ?n" and fl: "fill f \<le> ?n" "?n < 2 ^ 31"
    by (simp_all add: fifo_ok_def)
  show b: "buffer ?g = buffer f" by (simp add: av_fifo_drain_def Let_def)
  show rp: "rptr ?g = (rptr f + n) mod ?n"
    using r n fl by (simp add: av_fifo_drain_def Let_def mod_two_turns)
  have "wndx f - (rndx f + of_nat n) = (wndx f - rndx f) - of_nat n" by simp
  moreover have "of_nat n \<le> wndx f - rndx f"
    using n fl by (simp add: word_le_nat_alt unat_of_nat fill_def)
  moreover have "unat (of_nat n :: u32) = n" using n fl by (simp add: unat_of_nat)
  ultimately have "unat (wndx f - (rndx f + of_nat n)) = fill f - n"
    by (simp only: unat_minus_le fill_def)
  then show f: "fill ?g = fill f - n" by (simp add: fill_def av_fifo_drain_def Let_def)
  have "wptr ?g = (rptr f + n + (fill f - n)) mod ?n"
    using w n by (simp add: av_fifo_drain_def Let_def)
  then have "wptr ?g = ((rptr f + n) mod ?n + (fill f - n)) mod ?n" by (simp only: mod_add_left_eq)
  then show "fifo_ok ?g"
    using r fl n f rp b by (auto simp: fifo_ok_def mod_less_if_less)
qed

lemma fifo_bytes_drain:
  assumes ok: "fifo_ok f" and n: "n \<le> fill f" "n \<le> length (buffer f) - rptr f"
  shows "take n (drop (rptr f) (buffer f)) = take n (fifo_bytes f)"
    and "fifo_bytes (av_fifo_drain f n) = drop n (fifo_bytes f)"
proof -
  show "take n (drop (rptr f) (buffer f)) = take n (fifo_bytes f)"
    using n by (intro nth_equalityI) (auto simp: fifo_bytes_def)
  have "fifo_bytes (av_fifo_drain f n) =
      map (\<lambda>k. buffer f ! (((rptr f + n) mod length (buffer f) + k) mod length (buffer f))) [0..<fill f - n]"
    by (simp add: fifo_bytes_def drain_ok [OF assms])
  also have "\<dots> = drop n (fifo_bytes f)"
    by (intro nth_equalityI) (auto simp: fifo_bytes_def mod_simps add.assoc)
  finally show "fifo_bytes (av_fifo_drain f n) = drop n (fifo_bytes f)" .
qed

lemma av_fifo_read_last:
  assumes "fifo_ok f" "n \<le> fill f" "n \<le> length (buffer f) - rptr f"
  shows "av_fifo_generic_read (@) f dest n = Some (dest @ take n (fifo_bytes f), av_fifo_drain f n)"
proof -
  have "min (length (buffer f) - rptr f) n = n" using assms(3) by simp
  then show ?thesis
    by (simp add: av_fifo_generic_read.simps [of "(@)" f dest n] Let_def fifo_bytes_drain(1) [OF assms])
qed

lemma av_fifo_read_wrap:
  assumes ok: "fifo_ok f" and n: "n \<le> fill f" "length (buffer f) - rptr f < n"
  shows "av_fifo_generic_read (@) f dest n =
    (let len = length (buffer f) - rptr f
     in av_fifo_generic_read (@) (av_fifo_drain f len) (dest @ take len (fifo_bytes f)) (n - len))"
proof -
  let ?len = "length (buffer f) - rptr f"
  have "min ?len n = ?len" "0 < n - ?len" "?len \<le> fill f" using n by auto
  then show ?thesis
    using fifo_bytes_drain(1) [OF ok, of ?len]
    by (simp add: av_fifo_generic_read.simps [of "(@)" f dest n] Let_def)
qed

lemma av_fifo_read_takes:
  assumes ok: "fifo_ok f" and n: "int n \<le> av_fifo_size f"
  shows "\<exists>f'. av_fifo_generic_read (@) f dest n = Some (dest @ take n (fifo_bytes f), f') \<and>
    fifo_ok f' \<and> fifo_bytes f' = drop n (fifo_bytes f) \<and> buffer f' = buffer f"
proof (cases "n \<le> length (buffer f) - rptr f")
  case True
  have "n \<le> fill f" using n by (simp add: av_fifo_size_fill [OF ok])
  note l = ok this True
  then show ?thesis
    using av_fifo_read_last [OF l] drain_ok [OF l] fifo_bytes_drain [OF l] by simp
next
  case False
  define len where "len = length (buffer f) - rptr f"
  define g where "g = av_fifo_drain f len"
  have nf: "n \<le> fill f" using n by (simp add: av_fifo_size_fill [OF ok])
  with False have l: "fifo_ok f" "len \<le> fill f" "len \<le> length (buffer f) - rptr f"
    using ok by (auto simp: len_def)
  note g = drain_ok [OF l, folded g_def] fifo_bytes_drain [OF l, folded g_def]
  have "rptr g = 0" using g(3) ok by (auto simp: fifo_ok_def len_def)
  with nf False ok g have m: "fifo_ok g" "n - len \<le> fill g" "n - len \<le> length (buffer g) - rptr g"
    by (auto simp: fifo_ok_def len_def)
  note h = drain_ok [OF m] fifo_bytes_drain [OF m]
  have "len < n" using False by (simp add: len_def)
  then have "take len (fifo_bytes f) @ take (n - len) (fifo_bytes g) = take n (fifo_bytes f)"
    "drop (n - len) (fifo_bytes g) = drop n (fifo_bytes f)"
    by (simp_all add: g(6) flip: take_add)
  moreover have "av_fifo_generic_read (@) f dest n =
      av_fifo_generic_read (@) g (dest @ take len (fifo_bytes f)) (n - len)"
    using av_fifo_read_wrap [OF ok nf] False by (simp add: Let_def len_def g_def)
  ultimately show ?thesis
    using av_fifo_read_last [OF m] h g by simp
qed

section \<open>The FIFO as a queue\<close>

definition fifo_put :: "u8 list \<Rightarrow> av_fifo \<Rightarrow> av_fifo option" where
  "fifo_put xs f =
     (if int (length xs) \<le> av_fifo_space f
      then map_option snd (av_fifo_generic_write mem_source f xs (length xs)) else None)"

definition fifo_get :: "nat \<Rightarrow> av_fifo \<Rightarrow> (u8 list \<times> av_fifo) option" where
  "fifo_get n f = (if int n \<le> av_fifo_size f then av_fifo_generic_read (@) f [] n else None)"

interpretation byte_fifo: fifo_refinement fifo_ok fifo_bytes fifo_put fifo_get
proof unfold_locales
  fix f f' :: av_fifo and xs :: "u8 list"
  assume "fifo_ok f" "fifo_put xs f = Some f'"
  then show "fifo_ok f' \<and> fifo_bytes f' = fifo_bytes f @ xs"
    using av_fifo_write_appends [of f xs] by (auto simp: fifo_put_def split: if_splits)
next
  fix f f' :: av_fifo and n ys
  assume "fifo_ok f" "fifo_get n f = Some (ys, f')"
  then show "fifo_ok f' \<and> fifo_bytes f = ys @ fifo_bytes f'"
    using av_fifo_read_takes [of f n "[]"] by (auto simp: fifo_get_def split: if_splits)
qed

text \<open>
  C16: The byte FIFO is a queue of bytes: whatever sequence of writes that fit and reads of
  available bytes is run from a well-formed FIFO, the bytes read followed by those it still
  holds are those it held followed by those written, in order.
\<close>

theorem av_fifo_is_a_queue:
  assumes "fifo_ok f" and "qrun fifo_put fifo_get ops f = (written, bytes, f')"
  shows "fifo_bytes f @ written = bytes @ fifo_bytes f' \<and> fifo_ok f'"
  using byte_fifo.qrun_fifo [OF assms] by blast

definition example_fifo :: av_fifo where
  "example_fifo = \<lparr>buffer = [10, 20, 30, 40], rptr = 3, wptr = 1, rndx = 0xFFFFFFFF, wndx = 1\<rparr>"

lemma example_fifo_fill: "fill example_fifo = 2"
  by (simp add: fill_def example_fifo_def)

lemma example_fifo_ok: "fifo_ok example_fifo" "fifo_bytes example_fifo = [40, 10]"
proof -
  show "fifo_ok example_fifo"
    unfolding fifo_ok_def example_fifo_fill by (simp add: example_fifo_def)
  show "fifo_bytes example_fifo = [40, 10]"
    unfolding fifo_bytes_def example_fifo_fill by (simp add: example_fifo_def upt_rec)
qed

theorem av_fifo_is_a_queue_witness:
  "fifo_ok example_fifo \<and> (\<exists>f'. qrun fifo_put fifo_get [Put [1, 2], Get 3] example_fifo = ([1, 2], [40, 10, 1], f') \<and>
     fifo_bytes f' = [2])"
proof -
  obtain f1 where f1: "fifo_put [1, 2] example_fifo = Some f1"
      "fifo_ok f1" "fifo_bytes f1 = [40, 10, 1, 2]"
    using av_fifo_write_appends [of example_fifo "[1, 2]"] example_fifo_ok
    by (auto simp: fifo_put_def av_fifo_space_def av_fifo_size_def example_fifo_def)
  have "fill f1 = 4" using arg_cong [OF f1(3), of length] by simp
  then obtain f2 where f2: "fifo_get 3 f1 = Some ([40, 10, 1], f2)"
    using av_fifo_read_takes [of f1 3 "[]"] f1(2,3)
    by (auto simp: fifo_get_def av_fifo_size_fill numeral_3_eq_3)
  have "qrun fifo_put fifo_get [Put [1, 2], Get 3] example_fifo = ([1, 2], [40, 10, 1], f2)"
    by (simp add: f1 f2)
  from av_fifo_is_a_queue [OF example_fifo_ok(1) this] this show ?thesis
    using example_fifo_ok by auto
qed

section \<open>Growing\<close>

definition malloc_ok :: "(u32 \<Rightarrow> u8 list option) \<Rightarrow> bool" where
  "malloc_ok malloc \<longleftrightarrow> (\<forall>n b. malloc n = Some b \<longrightarrow> length b = unat n)"

lemma av_fifo_realloc2_grows:
  assumes ok: "fifo_ok f" and mem: "malloc n = Some b" "length b = unat n"
    and big: "length (buffer f) < unat n" "unat n < 2 ^ 31"
  shows "\<exists>f'. av_fifo_realloc2 malloc f n = Some (0, f') \<and> fifo_ok f' \<and>
    fifo_bytes f' = fifo_bytes f \<and> length (buffer f') = unat n"
proof -
  let ?bytes = "fifo_bytes f" and ?len = "fill f"
  define g where "g = \<lparr>buffer = overwrite b 0 ?bytes, rptr = 0, wptr = ?len, rndx = 0, wndx = of_nat ?len\<rparr>"
  from ok have fl: "?len \<le> length (buffer f)" "length (buffer f) < 2 ^ 31" by (simp_all add: fifo_ok_def)
  have lb: "length ?bytes = ?len" by (simp add: fifo_bytes_def)
  have small: "(of_nat (length (buffer f)) :: u32) < n"
    using fl big by (simp add: word_less_nat_alt unat_of_nat)
  obtain h where "av_fifo_generic_read (@) f [] ?len = Some (?bytes, h)"
    using av_fifo_read_takes [OF ok, of ?len "[]"] lb by (auto simp: av_fifo_size_fill [OF ok])
  then have "av_fifo_realloc2 malloc f n = Some (0, g)"
    using small mem
    by (simp add: av_fifo_realloc2_def Let_def av_fifo_alloc_def av_fifo_reset_def g_def
        av_fifo_size_fill [OF ok])
  moreover have fg: "fill g = ?len" using fl by (simp add: fill_def g_def unat_of_nat)
  moreover have lg: "length (buffer g) = unat n" using mem fl big lb by (simp add: g_def)
  moreover have "fifo_ok g" using fl big fg lg by (simp add: fifo_ok_def) (simp add: g_def)
  moreover have "fifo_bytes g = ?bytes"
  proof (rule nth_equalityI)
    show "length (fifo_bytes g) = length ?bytes" by (simp add: fifo_bytes_def fg)
    fix i assume "i < length (fifo_bytes g)"
    then have i: "i < ?len" by (simp add: fifo_bytes_def fg)
    then have "fifo_bytes g ! i = buffer g ! i"
      using fl big lg fg by (simp add: fifo_bytes_def g_def)
    also have "\<dots> = ?bytes ! i" using i lb by (simp add: g_def overwrite_def nth_append)
    finally show "fifo_bytes g ! i = ?bytes ! i" .
  qed
  ultimately show ?thesis by blast
qed

text \<open>
  C36: av_fifo_grow never loses a byte: if memory runs out it reports ENOMEM and leaves the
  FIFO as it was; otherwise it reports 0, the content is unchanged and at least the requested
  space is free. (Sizes up to a quarter of the 32-bit range, below which \<open>int\<close> is exact.)
\<close>

theorem av_fifo_grow_keeps_content:
  assumes ok: "fifo_ok f" and mem: "malloc_ok malloc" and sz: "unat sz + fill f < 2 ^ 30"
  shows "\<exists>r f'. av_fifo_grow malloc f sz = Some (r, f') \<and> fifo_ok f' \<and> fifo_bytes f' = fifo_bytes f \<and>
    (r = - ENOMEM \<and> f' = f \<or> r = 0 \<and> int (unat sz) \<le> av_fifo_space f')"
proof -
  let ?used = "word_of_int (av_fifo_size f) :: u32" and ?old = "of_nat (length (buffer f)) :: u32"
  have u: "unat ?used = fill f"
    using sz by (simp add: av_fifo_size_fill [OF ok] unat_of_nat)
  have s: "unat (sz + ?used) = unat sz + fill f" using sz by (simp add: unat_word_ariths u)
  have t: "unat (2 * (sz + ?used)) = 2 * (unat sz + fill f)"
    using unat_mult_lem [of 2 "sz + ?used"] s sz by simp
  define new where "new = max (sz + ?used) (2 * (sz + ?used))"
  have n: "unat new = 2 * (unat sz + fill f)" using s t by (simp add: new_def max_def word_le_nat_alt)
  have fl: "fill f \<le> length (buffer f)" "length (buffer f) < 2 ^ 31" using ok by (simp_all add: fifo_ok_def)
  have o: "unat ?old = length (buffer f)" using fl by (simp add: unat_of_nat)
  have grow: "av_fifo_grow malloc f sz =
      (if ?old < sz + ?used then av_fifo_realloc2 malloc f new else Some (0, f))"
    using s by (simp add: av_fifo_grow_def Let_def new_def word_less_nat_alt)
  show ?thesis
  proof (cases "?old < sz + ?used")
    case False
    then have "unat sz + fill f \<le> length (buffer f)" using s o by (simp add: word_less_nat_alt)
    then have "unat sz \<le> length (buffer f) - fill f" by arith
    then have "int (unat sz) \<le> av_fifo_space f" by (simp only: av_fifo_space_fill [OF ok] of_nat_le_iff)
    with False grow ok show ?thesis by auto
  next
    case True
    then have lt: "length (buffer f) < unat sz + fill f" using s o by (simp add: word_less_nat_alt)
    show ?thesis
    proof (cases "malloc new")
      case None
      have "?old < new" using lt n o by (simp add: word_less_nat_alt)
      with None True grow ok show ?thesis
        by (auto simp: av_fifo_realloc2_def Let_def av_fifo_alloc_def)
    next
      case (Some b)
      with mem have "length b = unat new" by (simp add: malloc_ok_def)
      from av_fifo_realloc2_grows [where malloc = malloc, OF ok Some this] lt n sz obtain f' where
        f': "av_fifo_realloc2 malloc f new = Some (0, f')" "fifo_ok f'" "fifo_bytes f' = fifo_bytes f"
          "length (buffer f') = unat new" by auto
      then have "fill f' = fill f" by (metis length_fifo_bytes)
      then have "unat sz \<le> length (buffer f') - fill f'" using f' n by arith
      then have "int (unat sz) \<le> av_fifo_space f'" by (simp only: av_fifo_space_fill [OF f'(2)] of_nat_le_iff)
      with f' True grow show ?thesis by auto
    qed
  qed
qed

theorem av_fifo_grow_keeps_content_witness:
  "\<exists>r f'. av_fifo_grow (\<lambda>n. Some (replicate (unat n) 0)) example_fifo 5 = Some (r, f') \<and>
     fifo_bytes f' = [40, 10] \<and> (r = - ENOMEM \<and> f' = example_fifo \<or> r = 0 \<and> 5 \<le> av_fifo_space f')"
proof -
  have "malloc_ok (\<lambda>n. Some (replicate (unat n) 0))" by (simp add: malloc_ok_def)
  moreover have "unat (5::u32) + fill example_fifo < 2 ^ 30" by (simp add: fill_def example_fifo_def)
  ultimately show ?thesis
    using av_fifo_grow_keeps_content [OF example_fifo_ok(1)] example_fifo_ok(2) by fastforce
qed

text \<open>
  C35: Peeking at an offset inside the content yields the position in the buffer of exactly
  that byte, across the wrap.
\<close>

theorem av_fifo_peek2_reads:
  assumes "fifo_ok f" and "k < fill f"
  shows "0 \<le> av_fifo_peek2 f (int k) \<and> av_fifo_peek2 f (int k) < int (length (buffer f)) \<and>
    buffer f ! nat (av_fifo_peek2 f (int k)) = fifo_bytes f ! k"
proof -
  have lt: "rptr f + k < length (buffer f) + length (buffer f)" using assms by (simp add: fifo_ok_def)
  then have "av_fifo_peek2 f (int k) = int ((rptr f + k) mod length (buffer f))"
    by (auto simp: av_fifo_peek2_def Let_def mod_two_turns)
  moreover have "(rptr f + k) mod length (buffer f) < length (buffer f)"
    using assms by (auto simp: fifo_ok_def mod_less_if_less)
  ultimately show ?thesis using assms by (simp add: fifo_bytes_def)
qed

theorem av_fifo_peek2_reads_witness:
  "av_fifo_peek2 example_fifo 1 = 0 \<and> buffer example_fifo ! nat (av_fifo_peek2 example_fifo 1) = 10"
  using av_fifo_peek2_reads [OF example_fifo_ok(1), of 1] example_fifo_ok(2)
  by (simp add: example_fifo_def fill_def av_fifo_peek2_def)

end
