(* ===== verification/AvTree.thy ===== *)
theory AvTree
  imports Prelude
begin

text \<open>
  The balanced tree of libavutil (lavc/libavutil/tree.c): search with neighbours, insertion
  and removal by the same recursive routine, enumeration of a range; and its client in the
  NUT demuxer and muxer (lavc/libavformat/nut.c), which keeps the sync points of a file in
  such a tree. A tree owns its nodes, so a pointer to a node is the tree below it and NULL is
  \<open>Null\<close>; \<open>*next\<close>, the spare node that insertion consumes and removal hands back, is a tree
  too. Child 0 is the first subtree, child 1 the second.
\<close>

datatype 'a avtree = Null | Node (elem: 'a) (state: int) (child0: "'a avtree") (child1: "'a avtree")

section \<open>Operations\<close>

text \<open>\<open>next\<close> is the array of two element pointers, or \<open>None\<close> for a NULL array.\<close>

type_synonym 'a neighbours = "'a option \<times> 'a option"

fun av_tree_find :: "'a avtree \<Rightarrow> 'k \<Rightarrow> ('k \<Rightarrow> 'a \<Rightarrow> int) \<Rightarrow> 'a neighbours option \<Rightarrow>
    'a option \<times> 'a neighbours option" where
  "av_tree_find Null key cmp next = (None, next)"
| "av_tree_find (Node e s l r) key cmp next =
     (let v = cmp key e in
      if v \<noteq> 0 then
        let next' = map_option (\<lambda>(n0, n1). if v < 0 then (n0, Some e) else (Some e, n1)) next
        in if v < 0 then av_tree_find l key cmp next' else av_tree_find r key cmp next'
      else
        let next' = (if next = None then None
              else snd (av_tree_find r key cmp (snd (av_tree_find l key cmp next))))
        in (Some e, next'))"

text \<open>
  The two rotations: \<open>i\<close> is the side of the higher child (\<open>True\<close>: child 1). The node has its
  new, even and non-zero, state. Without the grandchild that the double rotation needs, or
  without the child, the code would follow a NULL pointer; the tree is then returned as it is.
\<close>

fun av_tree_rotate :: "bool \<Rightarrow> 'a avtree \<Rightarrow> 'a avtree" where
  "av_tree_rotate True (Node e s l (Node ce cs g cr)) =
     (if cs * 2 = - s then
        (case g of Node ge gs g0 g1 \<Rightarrow>
           Node ge 0 (Node e (if gs > 0 then -1 else 0) l g0) (Node ce (if gs < 0 then 1 else 0) g1 cr)
         | Null \<Rightarrow> Node e s l (Node ce cs g cr))
      else
        let ts = (if cs \<noteq> 0 then 0 else s div 2)
        in Node ce (- ts) (Node e ts l g) cr)"
| "av_tree_rotate False (Node e s (Node ce cs cl g) r) =
     (if cs * 2 = - s then
        (case g of Node ge gs g0 g1 \<Rightarrow>
           Node ge 0 (Node ce (if gs > 0 then -1 else 0) cl g0) (Node e (if gs < 0 then 1 else 0) g1 r)
         | Null \<Rightarrow> Node e s (Node ce cs cl g) r)
      else
        let ts = (if cs \<noteq> 0 then 0 else s div 2)
        in Node ce (- ts) cl (Node e ts g r))"
| "av_tree_rotate i t = t"

text \<open>
  What happens after the recursive call on child \<open>neg\<close> (\<open>True\<close>: child 1) has returned
  \<open>ret\<close>, the new child and the new \<open>*next\<close>.
\<close>

definition av_tree_update :: "'a \<Rightarrow> int \<Rightarrow> 'a avtree \<Rightarrow> 'a avtree \<Rightarrow> bool \<Rightarrow> 'a \<Rightarrow>
    'a option \<Rightarrow> 'a avtree \<Rightarrow> 'a option \<times> 'a avtree \<times> 'a avtree" where
  "av_tree_update e s l r neg key ret next =
     (if ret = None then
        let i = (neg \<noteq> (next \<noteq> Null));
            s' = s + (if i then 1 else - 1);
            t = Node e s' l r;
            t' = (if even s' \<and> s' \<noteq> 0 then av_tree_rotate i t else t)
        in if (state t' = 0) \<noteq> (next \<noteq> Null) then (Some key, t', next) else (ret, t', next)
      else (ret, Node e s l r, next))"

fun av_tree_insert :: "('a \<Rightarrow> 'a \<Rightarrow> int) \<Rightarrow> 'a avtree \<Rightarrow> 'a \<Rightarrow> 'a avtree \<Rightarrow>
    'a option \<times> 'a avtree \<times> 'a avtree" where
  "av_tree_insert cmp Null key next =
     (case next of Null \<Rightarrow> (Some key, Null, Null) | Node _ s l r \<Rightarrow> (None, Node key s l r, Null))"
| "av_tree_insert cmp (Node e s l r) key next =
     (let v = cmp e key in
      if v = 0 \<and> next \<noteq> Null then (Some e, Node e s l r, next)
      else if v = 0 \<and> l = Null \<and> r = Null then (None, Null, Node e s l r)
      else if v = 0 \<and> l \<noteq> Null then
        let ne = the (fst (the (snd (av_tree_find l key cmp (Some (None, None))))));
            (ret, l', next') = av_tree_insert cmp l ne next
        in av_tree_update ne s l' r False ne ret next'
      else if v = 0 then
        let ne = the (snd (the (snd (av_tree_find r key cmp (Some (None, None))))));
            (ret, r', next') = av_tree_insert cmp r ne next
        in av_tree_update ne s l r' True ne ret next'
      else if v < 0 then
        let (ret, r', next') = av_tree_insert cmp r key next
        in av_tree_update e s l r' True key ret next'
      else
        let (ret, l', next') = av_tree_insert cmp l key next
        in av_tree_update e s l' r False key ret next')"

text \<open>\<open>cmp\<close> is \<open>None\<close> for a NULL function; \<open>enu\<close> is run on a state of its own.\<close>

fun av_tree_enumerate :: "'a avtree \<Rightarrow> ('a \<Rightarrow> int) option \<Rightarrow> ('a \<Rightarrow> 's \<Rightarrow> 's) \<Rightarrow> 's \<Rightarrow> 's" where
  "av_tree_enumerate Null cmp enu st = st"
| "av_tree_enumerate (Node e s l r) cmp enu st =
     (let v = (case cmp of None \<Rightarrow> 0 | Some f \<Rightarrow> f e);
          st1 = (if v \<ge> 0 then av_tree_enumerate l cmp enu st else st);
          st2 = (if v = 0 then enu e st1 else st1)
      in if v \<le> 0 then av_tree_enumerate r cmp enu st2 else st2)"

section \<open>Heights and balance\<close>

fun inorder :: "'a avtree \<Rightarrow> 'a list" where
  "inorder Null = []"
| "inorder (Node e s l r) = inorder l @ e # inorder r"

fun ht :: "'a avtree \<Rightarrow> int" where
  "ht Null = 0"
| "ht (Node e s l r) = 1 + max (ht l) (ht r)"

text \<open>The check of the test program of tree.c: the state is the difference of the heights.\<close>

fun avl :: "'a avtree \<Rightarrow> bool" where
  "avl Null = True"
| "avl (Node e s l r) = (s = ht r - ht l \<and> - 1 \<le> s \<and> s \<le> 1 \<and> avl l \<and> avl r)"

lemma ht_nonneg [simp]: "0 \<le> ht t"
  by (induction t) auto

lemma ht_0_iff [simp]: "ht t = 0 \<longleftrightarrow> t = Null"
  by (cases t) (auto simp: add_nonneg_eq_0_iff max_def)

lemma rotate_True:
  assumes "avl l" "avl r" "ht r = ht l + 2"
  shows "avl (av_tree_rotate True (Node e 2 l r)) \<and>
    inorder (av_tree_rotate True (Node e 2 l r)) = inorder (Node e 2 l r) \<and>
    ht (av_tree_rotate True (Node e 2 l r)) =
      (if state (av_tree_rotate True (Node e 2 l r)) = 0 then ht r else ht r + 1)"
proof (cases r)
  case Null
  with assms(3) ht_nonneg [of l] show ?thesis by simp
next
  case (Node ce cs g cr)
  show ?thesis
  proof (cases "cs = -1")
    case True
    then obtain ge gs g0 g1 where g: "g = Node ge gs g0 g1"
      using assms Node ht_nonneg [of l] ht_nonneg [of cr] by (cases g) auto
    with True Node assms show ?thesis by (auto simp: max_def split: if_splits)
  next
    case False
    then show ?thesis using Node assms by (auto simp: max_def Let_def split: if_splits)
  qed
qed

lemma rotate_False:
  assumes "avl l" "avl r" "ht l = ht r + 2"
  shows "avl (av_tree_rotate False (Node e (-2) l r)) \<and>
    inorder (av_tree_rotate False (Node e (-2) l r)) = inorder (Node e (-2) l r) \<and>
    ht (av_tree_rotate False (Node e (-2) l r)) =
      (if state (av_tree_rotate False (Node e (-2) l r)) = 0 then ht l else ht l + 1)"
proof (cases l)
  case Null
  with assms(3) ht_nonneg [of r] show ?thesis by simp
next
  case (Node ce cs cl g)
  show ?thesis
  proof (cases "cs = 1")
    case True
    then obtain ge gs g0 g1 where g: "g = Node ge gs g0 g1"
      using assms Node ht_nonneg [of r] ht_nonneg [of cl] by (cases g) auto
    with True Node assms show ?thesis by (auto simp: max_def split: if_splits)
  next
    case False
    then show ?thesis using Node assms by (auto simp: max_def Let_def split: if_splits)
  qed
qed

text \<open>
  \<open>grown h h' ret next\<close>: how the height of a subtree has changed when a call returns. NULL
  says that it changed, by one up if the spare node was consumed, by one down if a node was
  handed back.
\<close>

definition grown :: "int \<Rightarrow> int \<Rightarrow> 'a option \<Rightarrow> 'a avtree \<Rightarrow> bool" where
  "grown h h' ret next \<longleftrightarrow>
     h' = (if ret = None then (if next = Null then h + 1 else h - 1) else h)"

lemma rebalance:
  fixes l r :: "'a avtree" and S :: int and i :: bool and e :: 'a
  defines "T \<equiv> (if even S \<and> S \<noteq> 0 then av_tree_rotate i (Node e S l r) else Node e S l r)"
  assumes "avl l" "avl r" "S = ht r - ht l" "- 2 \<le> S" "S \<le> 2" "S = 2 \<Longrightarrow> i" "S = - 2 \<Longrightarrow> \<not> i"
  shows "avl T" "inorder T = inorder l @ e # inorder r"
    "ht T = (if even S \<and> S \<noteq> 0 \<and> state T = 0 then max (ht l) (ht r) else 1 + max (ht l) (ht r))"
    "odd S \<or> S = 0 \<Longrightarrow> state T = S"
proof -
  consider "S = 2" | "S = - 2" | "S = 0 \<or> S = 1 \<or> S = -1" using assms(5,6) by fastforce
  then have "avl T \<and> inorder T = inorder l @ e # inorder r \<and>
    ht T = (if even S \<and> S \<noteq> 0 \<and> state T = 0 then max (ht l) (ht r) else 1 + max (ht l) (ht r)) \<and>
    (odd S \<or> S = 0 \<longrightarrow> state T = S)"
  proof cases
    case 1
    moreover have "ht r = ht l + 2" using 1 assms(4) by simp
    ultimately show ?thesis using rotate_True [of l r e] assms by (auto simp: T_def max_def)
  next
    case 2
    moreover have "ht l = ht r + 2" using 2 assms(4) by simp
    ultimately show ?thesis using rotate_False [of l r e] assms by (auto simp: T_def max_def)
  next
    case 3
    then have "T = Node e S l r" by (auto simp: T_def)
    then show ?thesis using 3 assms by auto
  qed
  then show "avl T" "inorder T = inorder l @ e # inorder r"
    "ht T = (if even S \<and> S \<noteq> 0 \<and> state T = 0 then max (ht l) (ht r) else 1 + max (ht l) (ht r))"
    "odd S \<or> S = 0 \<Longrightarrow> state T = S" by blast+
qed

lemma grown_arith:
  fixes hl hr hl0 hr0 hT S s d st :: int
  assumes "s = hr0 - hl0" "- 1 \<le> s" "s \<le> 1" "d = 1 \<or> d = - 1"
    and "S = (if neg then s + d else s - d)" "hl = (if neg then hl0 else hl0 + d)"
    and "hr = (if neg then hr0 + d else hr0)"
    and hT: "hT = (if even S \<and> S \<noteq> 0 \<and> st = 0 then max hl hr else 1 + max hl hr)"
    and st: "odd S \<or> S = 0 \<longrightarrow> st = S"
  shows "hT = (if (st = 0) = (d = - 1) then 1 + max hl0 hr0 + d else 1 + max hl0 hr0)"
proof -
  consider "s = - 1" | "s = 0" | "s = 1" using assms(2,3) by linarith
  then show ?thesis
    using assms(4) by cases (elim disjE; cases neg; use assms in \<open>simp add: max_def\<close>)+
qed

lemma update_avl:
  fixes l r :: "'a avtree"
  defines "c \<equiv> \<lambda>neg l r. if neg then r else l"
  assumes old: "avl (Node e0 s l0 r0)" and new: "avl l" "avl r" and keep: "c (\<not> neg) l r = c (\<not> neg) l0 r0"
    and g: "grown (ht (c neg l0 r0)) (ht (c neg l r)) ret next"
    and upd: "av_tree_update e s l r neg key ret next = (ret', t', next')"
  shows "next' = next \<and> avl t' \<and> inorder t' = inorder l @ e # inorder r \<and>
    grown (ht (Node e0 s l0 r0)) (ht t') ret' next \<and> (ret' = None \<longrightarrow> ret = None)"
proof (cases "ret = None")
  case False
  with assms show ?thesis by (cases neg) (auto simp: av_tree_update_def grown_def)
next
  case ret: True
  define i where "i = (neg \<noteq> (next \<noteq> Null))"
  define S where "S = s + (if i then 1 else - 1)"
  define T where "T = (if even S \<and> S \<noteq> 0 then av_tree_rotate i (Node e S l r) else Node e S l r)"
  have S: "S = ht r - ht l" "- 2 \<le> S" "S \<le> 2" "S = 2 \<Longrightarrow> i" "S = - 2 \<Longrightarrow> \<not> i"
    using old keep g ret by (auto simp: S_def i_def c_def grown_def split: if_splits)
  note T = rebalance [of l r S i e, OF new S, folded T_def]
  have "(ret', t', next') = (if (state T = 0) \<noteq> (next \<noteq> Null) then (Some key, T, next) else (None, T, next))"
    using upd ret
    unfolding av_tree_update_def Let_def i_def [symmetric] S_def [symmetric] T_def [symmetric] by (auto split: if_splits)
  then have res: "t' = T" "next' = next" "ret' = None \<longleftrightarrow> (state T = 0) = (next \<noteq> Null)"
    by (auto split: if_splits)
  define d :: int where "d = (if next = Null then 1 else - 1)"
  have h: "s = ht r0 - ht l0" "- 1 \<le> s" "s \<le> 1"
      "neg \<Longrightarrow> l = l0" "\<not> neg \<Longrightarrow> r = r0" "neg \<Longrightarrow> ht r = ht r0 + d" "\<not> neg \<Longrightarrow> ht l = ht l0 + d"
    using old keep g ret by (auto simp: c_def grown_def d_def)
  have Sd: "S = (if neg then s + d else s - d)" "i = (neg = (d = 1))" "d = 1 \<or> d = - 1"
    by (auto simp: S_def i_def d_def)
  have gr: "grown (ht (Node e0 s l0 r0)) (ht T) ret' next \<longleftrightarrow>
      ht T = (if (state T = 0) = (d = - 1) then 1 + max (ht l0) (ht r0) + d else 1 + max (ht l0) (ht r0))"
    using res(3) by (auto simp: grown_def d_def)
  have "grown (ht (Node e0 s l0 r0)) (ht T) ret' next"
    unfolding gr
    by (rule grown_arith [OF h(1-3) Sd(3) Sd(1), of "ht l" "ht r"]) (use h T(3,4) S in auto)
  with T res ret show ?thesis by simp
qed

section \<open>Interface: the comparison call-back\<close>

text \<open>
  What tree.c needs of \<open>cmp\<close> on the elements it is given (\<open>dom\<close>): only the sign of the
  result counts, and the sign is that of a total preorder.
\<close>

locale tree_order =
  fixes cmp :: "'a \<Rightarrow> 'a \<Rightarrow> int"
    and dom :: "'a \<Rightarrow> bool"
  assumes cmp_flip: "dom x \<Longrightarrow> dom y \<Longrightarrow> cmp x y < 0 \<longleftrightarrow> cmp y x > 0"
    and cmp_trans: "dom x \<Longrightarrow> dom y \<Longrightarrow> dom z \<Longrightarrow> cmp x y \<le> 0 \<Longrightarrow> cmp y z \<le> 0 \<Longrightarrow> cmp x z \<le> 0"
begin

definition ord :: "'a list \<Rightarrow> bool" where
  "ord xs \<longleftrightarrow> sorted_wrt (\<lambda>x y. cmp x y < 0) xs \<and> (\<forall>x \<in> set xs. dom x)"

lemma cmp_less_trans:
  "dom x \<Longrightarrow> dom y \<Longrightarrow> dom z \<Longrightarrow> cmp x y < 0 \<Longrightarrow> cmp y z \<le> 0 \<Longrightarrow> cmp x z < 0"
  by (metis cmp_flip cmp_trans le_less_linear less_imp_le linorder_not_less)

lemma cmp_le_less_trans:
  "dom x \<Longrightarrow> dom y \<Longrightarrow> dom z \<Longrightarrow> cmp x y \<le> 0 \<Longrightarrow> cmp y z < 0 \<Longrightarrow> cmp x z < 0"
  by (metis cmp_flip cmp_trans le_less_linear less_imp_le linorder_not_less)

lemma cmp_zero_flip: "dom x \<Longrightarrow> dom y \<Longrightarrow> cmp x y = 0 \<longleftrightarrow> cmp y x = 0"
  by (metis cmp_flip linorder_neqE less_irrefl)

lemma cmp_pos_flip: "dom x \<Longrightarrow> dom y \<Longrightarrow> 0 < cmp x y \<longleftrightarrow> cmp y x < 0"
  using cmp_flip by auto

lemma ord_append_Cons:
  "ord (xs @ e # ys) \<longleftrightarrow> ord xs \<and> ord ys \<and> dom e \<and> (\<forall>x \<in> set xs. cmp x e < 0) \<and>
    (\<forall>y \<in> set ys. cmp e y < 0)"
proof -
  have "\<lbrakk>\<forall>x \<in> set xs. dom x; \<forall>y \<in> set ys. dom y; dom e; \<forall>x \<in> set xs. cmp x e < 0;
      \<forall>y \<in> set ys. cmp e y < 0; x \<in> set xs; y \<in> set ys\<rbrakk> \<Longrightarrow> cmp x y < 0" for x y
    by (meson cmp_less_trans less_imp_le)
  then show ?thesis by (auto simp: ord_def sorted_wrt_append)
qed

definition below :: "'a \<Rightarrow> 'a list \<Rightarrow> 'a list" where
  "below key xs = filter (\<lambda>e. cmp e key < 0) xs"

definition above :: "'a \<Rightarrow> 'a list \<Rightarrow> 'a list" where
  "above key xs = filter (\<lambda>e. 0 < cmp e key) xs"

lemma below_above_all:
  assumes "dom key" "\<forall>x \<in> set xs. dom x" "dom e"
  shows "\<forall>x \<in> set xs. cmp x e < 0 \<Longrightarrow> cmp e key \<le> 0 \<Longrightarrow> below key xs = xs \<and> above key xs = []"
    and "\<forall>x \<in> set xs. cmp e x < 0 \<Longrightarrow> 0 \<le> cmp e key \<Longrightarrow> below key xs = [] \<and> above key xs = xs"
proof -
  assume *: "\<forall>x \<in> set xs. cmp x e < 0" "cmp e key \<le> 0"
  have "cmp x key < 0" if "x \<in> set xs" for x
    using that * assms cmp_less_trans by blast
  then show "below key xs = xs \<and> above key xs = []"
    by (auto simp: below_def above_def filter_id_conv filter_empty_conv dest: less_asym)
next
  assume *: "\<forall>x \<in> set xs. cmp e x < 0" "0 \<le> cmp e key"
  have "0 < cmp x key" if "x \<in> set xs" for x
  proof -
    have "cmp key e \<le> 0" using * assms by (metis cmp_flip linorder_not_less)
    then have "cmp key x < 0" using that * assms cmp_le_less_trans by blast
    then show ?thesis using that assms cmp_flip by blast
  qed
  then show "below key xs = [] \<and> above key xs = xs"
    by (auto simp: below_def above_def filter_id_conv filter_empty_conv dest: less_asym)
qed

definition nbrs :: "'a \<Rightarrow> 'a list \<Rightarrow> 'a neighbours \<Rightarrow> 'a neighbours" where
  "nbrs key xs n =
     (if below key xs = [] then fst n else Some (last (below key xs)),
      if above key xs = [] then snd n else Some (hd (above key xs)))"

lemma ord_NodeD:
  assumes "ord (inorder (Node e s l r))"
  shows "ord (inorder l)" "ord (inorder r)" "dom e" "\<forall>x \<in> set (inorder l). cmp x e < 0"
    "\<forall>y \<in> set (inorder r). cmp e y < 0" "\<forall>x \<in> set (inorder l). dom x" "\<forall>y \<in> set (inorder r). dom y"
  using assms unfolding inorder.simps ord_append_Cons by (auto simp: ord_def)

lemma find_spec:
  assumes "dom key"
  shows "ord (inorder t) \<Longrightarrow> av_tree_find t key cmp next =
     (List.find (\<lambda>e. cmp key e = 0) (inorder t), map_option (nbrs key (inorder t)) next)"
proof (induction t arbitrary: "next")
  case Null
  then show ?case by (cases "next") (auto simp: nbrs_def below_def above_def)
next
  case (Node e s l r)
  note o = ord_NodeD [OF Node.prems]
  note IH = Node.IH(1) [OF o(1)] Node.IH(2) [OF o(2)]
  have noL: "List.find (\<lambda>e. cmp key e = 0) (inorder l) = None" if "cmp e key \<le> 0"
  proof -
    have "cmp x key < 0" if "x \<in> set (inorder l)" for x
      using that \<open>cmp e key \<le> 0\<close> o assms cmp_less_trans by blast
    then show ?thesis using o assms cmp_zero_flip by (fastforce simp: find_None_iff)
  qed
  have noR: "List.find (\<lambda>e. cmp key e = 0) (inorder r) = None" if "cmp key e \<le> 0"
  proof -
    have "cmp key x < 0" if "x \<in> set (inorder r)" for x
      using that \<open>cmp key e \<le> 0\<close> o assms cmp_le_less_trans by blast
    then show ?thesis by (fastforce simp: find_None_iff)
  qed
  have bL: "cmp e key \<le> 0 \<Longrightarrow> below key (inorder l) = inorder l \<and> above key (inorder l) = []"
    and bR: "0 \<le> cmp e key \<Longrightarrow> below key (inorder r) = [] \<and> above key (inorder r) = inorder r"
    using below_above_all [OF assms o(6) o(3)] below_above_all [OF assms o(7) o(3)] o by blast+
  have flips: "cmp key e < 0 \<longleftrightarrow> 0 < cmp e key" "0 < cmp key e \<longleftrightarrow> cmp e key < 0" "cmp key e = 0 \<longleftrightarrow> cmp e key = 0"
    using assms o(3) cmp_flip cmp_zero_flip by auto
  have split: "below key (inorder l @ e # inorder r) = below key (inorder l) @ (if cmp e key < 0 then [e] else []) @ below key (inorder r)"
    "above key (inorder l @ e # inorder r) = above key (inorder l) @ (if 0 < cmp e key then [e] else []) @ above key (inorder r)"
    by (auto simp: below_def above_def)
  have fnd: "List.find P (xs @ ys) = (case List.find P xs of None \<Rightarrow> List.find P ys | Some y \<Rightarrow> Some y)"
    for P :: "'a \<Rightarrow> bool" and xs ys by (induction xs) auto
  consider "cmp key e < 0" | "cmp key e = 0" | "0 < cmp key e" by linarith
  then show ?case
  proof cases
    case 1
    then have pos: "0 < cmp e key" using flips by simp
    have "List.find (\<lambda>e. cmp key e = 0) (inorder r) = None" using noR 1 by simp
    then show ?thesis using IH 1 pos bR
      by (cases "next") (auto simp: fnd nbrs_def split hd_append split: option.splits)
  next
    case 2
    then have z: "cmp e key = 0" using flips by simp
    then show ?thesis using IH 2 bL bR noL
      by (cases "next") (auto simp: fnd nbrs_def split split: option.splits)
  next
    case 3
    then have neg: "cmp e key < 0" using flips by simp
    have "List.find (\<lambda>e. cmp key e = 0) (inorder l) = None" using noL neg by simp
    then show ?thesis using IH 3 neg bL
      by (cases "next") (auto simp: fnd nbrs_def split split: option.splits)
  qed
qed

lemma below_above_Node:
  assumes "dom key" "ord (inorder (Node e s l r))"
  shows "cmp e key < 0 \<Longrightarrow> below key (inorder (Node e s l r)) = inorder l @ e # below key (inorder r) \<and>
      above key (inorder (Node e s l r)) = above key (inorder r)"
    and "0 < cmp e key \<Longrightarrow> below key (inorder (Node e s l r)) = below key (inorder l) \<and>
      above key (inorder (Node e s l r)) = above key (inorder l) @ e # inorder r"
    and "cmp e key = 0 \<Longrightarrow> below key (inorder (Node e s l r)) = inorder l \<and>
      above key (inorder (Node e s l r)) = inorder r"
proof -
  note o = ord_NodeD [OF assms(2)]
  have bL: "cmp e key \<le> 0 \<Longrightarrow> below key (inorder l) = inorder l \<and> above key (inorder l) = []"
    and bR: "0 \<le> cmp e key \<Longrightarrow> below key (inorder r) = [] \<and> above key (inorder r) = inorder r"
    using below_above_all [OF assms(1) o(6) o(3)] below_above_all [OF assms(1) o(7) o(3)] o by blast+
  have app: "below key (xs @ ys) = below key xs @ below key ys" "above key (xs @ ys) = above key xs @ above key ys"
    "below key (x # ys) = (if cmp x key < 0 then x # below key ys else below key ys)"
    "above key (x # ys) = (if 0 < cmp x key then x # above key ys else above key ys)" for xs ys x
    by (auto simp: below_def above_def)
  show "cmp e key < 0 \<Longrightarrow> below key (inorder (Node e s l r)) = inorder l @ e # below key (inorder r) \<and>
      above key (inorder (Node e s l r)) = above key (inorder r)"
    and "0 < cmp e key \<Longrightarrow> below key (inorder (Node e s l r)) = below key (inorder l) \<and>
      above key (inorder (Node e s l r)) = above key (inorder l) @ e # inorder r"
    and "cmp e key = 0 \<Longrightarrow> below key (inorder (Node e s l r)) = inorder l \<and>
      above key (inorder (Node e s l r)) = inorder r"
    using bL bR by (simp_all add: app)
qed

definition has :: "'a \<Rightarrow> 'a list \<Rightarrow> bool" where
  "has key xs \<longleftrightarrow> (\<exists>e \<in> set xs. cmp e key = 0)"

lemma has_Node:
  assumes "dom key" "ord (inorder (Node e s l r))"
  shows "cmp e key < 0 \<Longrightarrow> has key (inorder (Node e s l r)) \<longleftrightarrow> has key (inorder r)"
    and "0 < cmp e key \<Longrightarrow> has key (inorder (Node e s l r)) \<longleftrightarrow> has key (inorder l)"
proof -
  note o = ord_NodeD [OF assms(2)]
  show "cmp e key < 0 \<Longrightarrow> has key (inorder (Node e s l r)) \<longleftrightarrow> has key (inorder r)"
  proof -
    assume "cmp e key < 0"
    then have "cmp x key < 0" if "x \<in> set (inorder l)" for x
      using that o assms(1) cmp_less_trans [of x e key] by auto
    with \<open>cmp e key < 0\<close> show ?thesis by (fastforce simp: has_def)
  qed
  show "0 < cmp e key \<Longrightarrow> has key (inorder (Node e s l r)) \<longleftrightarrow> has key (inorder l)"
  proof -
    assume "0 < cmp e key"
    then have "cmp key x < 0" if "x \<in> set (inorder r)" for x
      using that o assms(1) cmp_le_less_trans [of key e x] cmp_flip [of key e] by auto
    then have "0 < cmp x key" if "x \<in> set (inorder r)" for x
      using that o assms(1) cmp_flip by blast
    with \<open>0 < cmp e key\<close> show ?thesis by (fastforce simp: has_def)
  qed
qed

text \<open>
  A call that adds (\<open>next\<close> a fresh node) or removes (\<open>next\<close> NULL) below the root, put together
  with the update of the root: \<open>ok\<close> is what a call promises.
\<close>

definition ok :: "'a avtree \<Rightarrow> 'a list \<Rightarrow> bool \<Rightarrow> 'a option \<times> 'a avtree \<times> 'a avtree \<Rightarrow> bool" where
  "ok t xs add res \<longleftrightarrow> (case res of (ret, t', n) \<Rightarrow>
     (n = Null) = add \<and> avl t' \<and> inorder t' = xs \<and> grown (ht t) (ht t') ret n)"

lemma ok_update_right:
  assumes "avl (Node e0 s l r)" "ok r xs add (ret, r', n)"
  shows "ok (Node e0 s l r) (inorder l @ e # xs) add (av_tree_update e s l r' True key ret n)"
proof -
  obtain ret' t' n' where u: "av_tree_update e s l r' True key ret n = (ret', t', n')"
    by (cases "av_tree_update e s l r' True key ret n")
  show ?thesis
    using update_avl [OF assms(1) _ _ _ _ u] assms unfolding u by (auto simp: ok_def)
qed

lemma ok_update_left:
  assumes "avl (Node e0 s l r)" "ok l xs add (ret, l', n)"
  shows "ok (Node e0 s l r) (xs @ e # inorder r) add (av_tree_update e s l' r False key ret n)"
proof -
  obtain ret' t' n' where u: "av_tree_update e s l' r False key ret n = (ret', t', n')"
    by (cases "av_tree_update e s l' r False key ret n")
  show ?thesis
    using update_avl [OF assms(1) _ _ _ _ u] assms unfolding u by (auto simp: ok_def)
qed

lemma insert_found:
  assumes "dom key"
  shows "ord (inorder t) \<Longrightarrow> has key (inorder t) \<Longrightarrow> next \<noteq> Null \<Longrightarrow>
    \<exists>e. e \<in> set (inorder t) \<and> cmp e key = 0 \<and> av_tree_insert cmp t key next = (Some e, t, next)"
proof (induction t)
  case Null
  then show ?case by (simp add: has_def)
next
  case (Node e s l r)
  note o = ord_NodeD [OF Node.prems(1)]
  consider "cmp e key = 0" | "cmp e key < 0" | "0 < cmp e key" by linarith
  then show ?case
  proof cases
    case 1
    with Node.prems show ?thesis by simp
  next
    case 2
    then have "has key (inorder r)" using has_Node(1) [OF assms Node.prems(1)] Node.prems(2) by blast
    from Node.IH(2) [OF o(2) this Node.prems(3)] 2 show ?thesis
      by (auto simp: av_tree_update_def)
  next
    case 3
    then have "has key (inorder l)" using has_Node(2) [OF assms Node.prems(1)] Node.prems(2) by blast
    from Node.IH(1) [OF o(1) this Node.prems(3)] 3 show ?thesis
      by (auto simp: av_tree_update_def)
  qed
qed

lemma insert_new:
  assumes "dom key"
  shows "avl t \<Longrightarrow> ord (inorder t) \<Longrightarrow> \<not> has key (inorder t) \<Longrightarrow>
    ok t (below key (inorder t) @ key # above key (inorder t)) True
      (av_tree_insert cmp t key (Node x 0 Null Null))"
proof (induction t)
  case Null
  then show ?case by (simp add: ok_def grown_def below_def above_def)
next
  case (Node e s l r)
  note o = ord_NodeD [OF Node.prems(2)]
  note ba = below_above_Node [OF assms Node.prems(2)]
  have "cmp e key \<noteq> 0" using Node.prems(3) by (auto simp: has_def)
  then consider "cmp e key < 0" | "0 < cmp e key" by linarith
  then show ?case
  proof cases
    case 1
    obtain ret r' n where c: "av_tree_insert cmp r key (Node x 0 Null Null) = (ret, r', n)"
      by (cases "av_tree_insert cmp r key (Node x 0 Null Null)")
    have "\<not> has key (inorder r)" using has_Node(1) [OF assms Node.prems(2) 1] Node.prems(3) by blast
    with Node.IH(2) [OF _ o(2)] Node.prems(1) c
    have "ok r (below key (inorder r) @ key # above key (inorder r)) True (ret, r', n)" by simp
    from ok_update_right [OF Node.prems(1) this, of e key] 1 c ba(1) show ?thesis by simp
  next
    case 2
    obtain ret l' n where c: "av_tree_insert cmp l key (Node x 0 Null Null) = (ret, l', n)"
      by (cases "av_tree_insert cmp l key (Node x 0 Null Null)")
    have "\<not> has key (inorder l)" using has_Node(2) [OF assms Node.prems(2) 2] Node.prems(3) by blast
    with Node.IH(1) [OF _ o(1)] Node.prems(1) c
    have "ok l (below key (inorder l) @ key # above key (inorder l)) True (ret, l', n)" by simp
    from ok_update_left [OF Node.prems(1) this, of e key] 2 c ba(2) show ?thesis by simp
  qed
qed

lemma remove_absent:
  assumes "dom key"
  shows "ord (inorder t) \<Longrightarrow> \<not> has key (inorder t) \<Longrightarrow> av_tree_insert cmp t key Null = (Some key, t, Null)"
proof (induction t)
  case Null
  then show ?case by simp
next
  case (Node e s l r)
  note o = ord_NodeD [OF Node.prems(1)]
  have "cmp e key \<noteq> 0" using Node.prems(2) by (auto simp: has_def)
  then consider "cmp e key < 0" | "0 < cmp e key" by linarith
  then show ?case
    using Node.IH(1) [OF o(1)] Node.IH(2) [OF o(2)] has_Node [OF assms Node.prems(1)] Node.prems(2)
    by cases (simp_all add: av_tree_update_def)
qed

lemma neighbour_of_removed:
  assumes "dom key" "ord (inorder (Node e s l r))" "cmp e key = 0"
  shows "l \<noteq> Null \<Longrightarrow> the (fst (the (snd (av_tree_find l key cmp (Some (None, None)))))) = last (inorder l)"
    and "r \<noteq> Null \<Longrightarrow> the (snd (the (snd (av_tree_find r key cmp (Some (None, None)))))) = hd (inorder r)"
proof -
  note o = ord_NodeD [OF assms(2)]
  have ne: "t \<noteq> Null \<Longrightarrow> inorder t \<noteq> []" for t :: "'a avtree" by (cases t) auto
  have bL: "below key (inorder l) = inorder l" and bR: "above key (inorder r) = inorder r"
    using below_above_all [OF assms(1) o(6) o(3)] below_above_all [OF assms(1) o(7) o(3)] o assms(3) by auto
  show "l \<noteq> Null \<Longrightarrow> the (fst (the (snd (av_tree_find l key cmp (Some (None, None)))))) = last (inorder l)"
    using find_spec [OF assms(1) o(1)] bL ne [of l] by (simp add: nbrs_def)
  show "r \<noteq> Null \<Longrightarrow> the (snd (the (snd (av_tree_find r key cmp (Some (None, None)))))) = hd (inorder r)"
    using find_spec [OF assms(1) o(2)] bR ne [of r] by (simp add: nbrs_def)
qed

lemma below_above_ends:
  assumes "ord xs" "xs \<noteq> []"
  shows "below (last xs) xs @ above (last xs) xs = butlast xs" "below (hd xs) xs @ above (hd xs) xs = tl xs"
    "dom (last xs)" "dom (hd xs)" "has (last xs) xs" "has (hd xs) xs"
proof -
  have irr: "dom x \<Longrightarrow> cmp x x = 0" for x using cmp_flip [of x x] by (metis less_asym linorder_neqE)
  have ends: "dom (last xs)" "dom (hd xs)" using assms by (auto simp: ord_def)
  then show "dom (last xs)" "dom (hd xs)" by auto
  show "has (last xs) xs" "has (hd xs) xs"
    using irr ends assms(2) unfolding has_def by (meson hd_in_set last_in_set)+
  have 1: "xs = butlast xs @ [last xs]" and 2: "xs = hd xs # tl xs" using assms(2) by auto
  have "\<forall>x \<in> set (butlast xs). cmp x (last xs) < 0"
    using assms(1) ord_append_Cons [of "butlast xs" "last xs" "[]"] 1 by simp
  then have "below (last xs) (butlast xs @ [last xs]) @ above (last xs) (butlast xs @ [last xs]) = butlast xs"
    using irr [OF ends(1)] by (auto simp: below_def above_def filter_id_conv filter_empty_conv dest: less_asym)
  then show "below (last xs) xs @ above (last xs) xs = butlast xs" using 1 by simp
  have "\<forall>x \<in> set (tl xs). cmp (hd xs) x < 0" "\<forall>x \<in> set (tl xs). dom x"
    using assms(1) ord_append_Cons [of "[]" "hd xs" "tl xs"] 2 by (auto simp: ord_def)
  then have "\<forall>x \<in> set (tl xs). 0 < cmp x (hd xs)" using cmp_pos_flip ends(2) by blast
  then have "below (hd xs) (hd xs # tl xs) @ above (hd xs) (hd xs # tl xs) = tl xs"
    using irr [OF ends(2)] by (auto simp: below_def above_def filter_id_conv filter_empty_conv dest: less_asym)
  then show "below (hd xs) xs @ above (hd xs) xs = tl xs" using 2 by simp
qed

lemma remove_present:
  "dom key \<Longrightarrow> avl t \<Longrightarrow> ord (inorder t) \<Longrightarrow> has key (inorder t) \<Longrightarrow>
   ok t (below key (inorder t) @ above key (inorder t)) False (av_tree_insert cmp t key Null)"
proof (induction t arbitrary: key)
  case Null
  then show ?case by (simp add: has_def)
next
  case (Node e s l r)
  note o = ord_NodeD [OF Node.prems(3)]
  note ba = below_above_Node [OF Node.prems(1,3)]
  note h = has_Node [OF Node.prems(1,3)]
  note nb = neighbour_of_removed [OF Node.prems(1,3)]
  have ne: "t \<noteq> Null \<Longrightarrow> inorder t \<noteq> []" for t :: "'a avtree" by (cases t) auto
  have bl: "xs \<noteq> [] \<Longrightarrow> butlast xs @ last xs # ys = xs @ ys" for xs ys :: "'a list"
    by (induction xs) auto
  have bal: "avl l" "avl r" using Node.prems(2) by auto
  consider "cmp e key = 0" "l = Null" "r = Null" | "cmp e key = 0" "l \<noteq> Null" | "cmp e key = 0" "l = Null" "r \<noteq> Null"
    | "cmp e key < 0" | "0 < cmp e key" by linarith
  then show ?case
  proof cases
    case 1
    with Node.prems ba(3) show ?thesis by (simp add: ok_def grown_def)
  next
    case 2
    let ?x = "last (inorder l)"
    note ends = below_above_ends [OF o(1) ne [OF 2(2)]]
    obtain ret l' n where c: "av_tree_insert cmp l ?x Null = (ret, l', n)" by (cases "av_tree_insert cmp l ?x Null")
    have "ok l (butlast (inorder l)) False (ret, l', n)"
      using Node.IH(1) [OF ends(3) bal(1) o(1) ends(5)] c ends(1) by simp
    from ok_update_left [OF Node.prems(2) this, of ?x ?x] 2 c ba(3) nb(1) bl [OF ne [OF 2(2)]] show ?thesis by (simp add: Let_def)
  next
    case 3
    let ?x = "hd (inorder r)"
    note ends = below_above_ends [OF o(2) ne [OF 3(3)]]
    obtain ret r' n where c: "av_tree_insert cmp r ?x Null = (ret, r', n)" by (cases "av_tree_insert cmp r ?x Null")
    have "ok r (tl (inorder r)) False (ret, r', n)"
      using Node.IH(2) [OF ends(4) bal(2) o(2) ends(6)] c ends(2) by simp
    from ok_update_right [OF Node.prems(2) this, of ?x ?x] 3 c ba(3) nb(2) ne [OF 3(3)] show ?thesis by (simp add: Let_def)
  next
    case 4
    obtain ret r' n where c: "av_tree_insert cmp r key Null = (ret, r', n)" by (cases "av_tree_insert cmp r key Null")
    have "ok r (below key (inorder r) @ above key (inorder r)) False (ret, r', n)"
      using Node.IH(2) [OF Node.prems(1) bal(2) o(2)] h(1) [OF 4] Node.prems(4) c by simp
    from ok_update_right [OF Node.prems(2) this, of e key] 4 c ba(1) show ?thesis by (simp add: Let_def)
  next
    case 5
    obtain ret l' n where c: "av_tree_insert cmp l key Null = (ret, l', n)" by (cases "av_tree_insert cmp l key Null")
    have "ok l (below key (inorder l) @ above key (inorder l)) False (ret, l', n)"
      using Node.IH(1) [OF Node.prems(1) bal(1) o(1)] h(2) [OF 5] Node.prems(4) c by simp
    from ok_update_left [OF Node.prems(2) this, of e key] 5 c ba(2) show ?thesis by (simp add: Let_def)
  qed
qed

end

section \<open>Enumeration\<close>

text \<open>
  The range call-back grades the elements; the grades must not decrease along the tree. Then
  exactly the elements of grade 0 are visited, in order.
\<close>

lemma enumerate_all: "av_tree_enumerate t None enu st = fold enu (inorder t) st"
  by (induction t arbitrary: st) (auto simp: Let_def)

lemma enumerate_range:
  "sorted (map f (inorder t)) \<Longrightarrow>
   av_tree_enumerate t (Some f) enu st = fold enu (filter (\<lambda>e. f e = 0) (inorder t)) st"
proof (induction t arbitrary: st)
  case Null
  then show ?case by simp
next
  case (Node e s l r)
  then have o: "sorted (map f (inorder l))" "sorted (map f (inorder r))"
    "\<forall>x \<in> set (inorder l). f x \<le> f e" "\<forall>x \<in> set (inorder r). f e \<le> f x"
    by (auto simp: sorted_append)
  have "f e < 0 \<Longrightarrow> filter (\<lambda>e. f e = 0) (inorder l) = []" "0 < f e \<Longrightarrow> filter (\<lambda>e. f e = 0) (inorder r) = []"
    using o(3,4) by (fastforce simp: filter_empty_conv)+
  with Node.IH o show ?case by (auto simp: Let_def)
qed

section \<open>Properties\<close>

text \<open>
  C27: Insertion with a spare node. For every comparison that orders the elements, a balanced
  ordered tree stays balanced and ordered. If an element compares equal to the key, the tree
  and the spare node come back unchanged with that element; otherwise the spare node is
  consumed and the key stands between the smaller and the greater elements.
\<close>

theorem av_tree_insert_adds:
  assumes "tree_order cmp D" "D key" "avl t"
    and "sorted_wrt (\<lambda>x y. cmp x y < 0) (inorder t)" "\<forall>x \<in> set (inorder t). D x"
    and "av_tree_insert cmp t key (Node x 0 Null Null) = (ret, t', n)"
  shows "avl t' \<and> sorted_wrt (\<lambda>x y. cmp x y < 0) (inorder t') \<and>
    (if \<exists>e \<in> set (inorder t). cmp e key = 0
     then t' = t \<and> n = Node x 0 Null Null \<and> (\<exists>e \<in> set (inorder t). ret = Some e \<and> cmp e key = 0)
     else n = Null \<and>
       inorder t' = filter (\<lambda>e. cmp e key < 0) (inorder t) @ key # filter (\<lambda>e. 0 < cmp e key) (inorder t))"
proof -
  note o = tree_order.ord_def [OF assms(1)]
  note defs = tree_order.has_def [OF assms(1)] tree_order.ok_def [OF assms(1)]
    tree_order.below_def [OF assms(1)] tree_order.above_def [OF assms(1)]
  have ord: "tree_order.ord cmp D (inorder t)" using assms(4,5) o by simp
  show ?thesis
  proof (cases "tree_order.has cmp key (inorder t)")
    case True
    from tree_order.insert_found [OF assms(1,2) ord True, of "Node x 0 Null Null"] assms(3,4,6) True
    show ?thesis by (auto simp: defs)
  next
    case False
    let ?b = "filter (\<lambda>e. cmp e key < 0) (inorder t)" and ?a = "filter (\<lambda>e. 0 < cmp e key) (inorder t)"
    have r: "n = Null" "avl t'" "inorder t' = ?b @ key # ?a"
      using tree_order.insert_new [OF assms(1,2,3) ord False, of x] assms(6) by (auto simp: defs)
    have "tree_order.ord cmp D (?b @ key # ?a)"
      unfolding tree_order.ord_append_Cons [OF assms(1)]
      using assms(2,4,5) tree_order.cmp_pos_flip [OF assms(1)] by (auto simp: o sorted_wrt_filter)
    with r False show ?thesis by (auto simp: o defs)
  qed
qed

lemma int_tree_order: "tree_order (\<lambda>x y. x - y :: int) (\<lambda>_. True)"
  by unfold_locales auto

lemma av_tree_insert_adds_witness:
  "inorder (fst (snd (av_tree_insert (\<lambda>x y. x - y :: int) (Node 1 1 Null (Node 2 0 Null Null)) 3 (Node 0 0 Null Null)))) = [1, 2, 3]"
  using av_tree_insert_adds [OF int_tree_order TrueI, of "Node 1 1 Null (Node 2 0 Null Null)" 3 0 None
      "Node 2 0 (Node 1 0 Null Null) (Node 3 0 Null Null)" Null]
  by (simp add: av_tree_update_def)

text \<open>
  C29: Removal, that is, a call without a spare node. If an element compares equal to the key,
  a node is handed back and exactly the other elements remain, in order, in a balanced tree;
  otherwise the tree is unchanged and the key itself is returned.
\<close>

theorem av_tree_insert_removes:
  assumes "tree_order cmp D" "D key" "avl t"
    and "sorted_wrt (\<lambda>x y. cmp x y < 0) (inorder t)" "\<forall>x \<in> set (inorder t). D x"
    and "av_tree_insert cmp t key Null = (ret, t', n)"
  shows "avl t' \<and>
    (if \<exists>e \<in> set (inorder t). cmp e key = 0
     then n \<noteq> Null \<and> inorder t' = filter (\<lambda>e. cmp e key < 0) (inorder t) @ filter (\<lambda>e. 0 < cmp e key) (inorder t)
     else n = Null \<and> t' = t \<and> ret = Some key)"
proof -
  note defs = tree_order.has_def [OF assms(1)] tree_order.ok_def [OF assms(1)]
    tree_order.below_def [OF assms(1)] tree_order.above_def [OF assms(1)]
  have ord: "tree_order.ord cmp D (inorder t)" using assms(4,5) tree_order.ord_def [OF assms(1)] by simp
  show ?thesis
  proof (cases "tree_order.has cmp key (inorder t)")
    case True
    from tree_order.remove_present [OF assms(1,2,3) ord True] assms(6) True show ?thesis
      by (auto simp: defs)
  next
    case False
    from tree_order.remove_absent [OF assms(1,2) ord False] assms(3,6) False show ?thesis
      by (auto simp: defs)
  qed
qed

lemma av_tree_insert_removes_witness:
  "inorder (fst (snd (av_tree_insert (\<lambda>x y. x - y :: int)
     (Node 2 1 (Node 1 0 Null Null) (Node 4 0 (Node 3 0 Null Null) (Node 5 0 Null Null))) 2 Null))) = [1, 3, 4, 5]"
  using av_tree_insert_removes [OF int_tree_order TrueI, of
      "Node 2 1 (Node 1 0 Null Null) (Node 4 0 (Node 3 0 Null Null) (Node 5 0 Null Null))" 2]
  by (simp add: av_tree_update_def split_beta)

text \<open>
  C39: Search. The result is the element that compares equal to the key, if there is one, and
  \<open>next\<close> receives the neighbours of the key: the greatest smaller element and the smallest
  greater one; where there is none, the caller's entry stays.
\<close>

theorem av_tree_find_neighbours:
  assumes "tree_order cmp D" "D key"
    and "sorted_wrt (\<lambda>x y. cmp x y < 0) (inorder t)" "\<forall>x \<in> set (inorder t). D x"
  shows "av_tree_find t key cmp (Some (n0, n1)) =
    (let below = filter (\<lambda>e. cmp e key < 0) (inorder t); above = filter (\<lambda>e. 0 < cmp e key) (inorder t)
     in (List.find (\<lambda>e. cmp key e = 0) (inorder t),
         Some (if below = [] then n0 else Some (last below), if above = [] then n1 else Some (hd above))))"
  using tree_order.find_spec [OF assms(1,2), of t "Some (n0, n1)"] assms
  by (simp add: tree_order.ord_def tree_order.nbrs_def tree_order.below_def tree_order.above_def Let_def)

lemma av_tree_find_neighbours_witness:
  "av_tree_find (Node 2 0 (Node 1 0 Null Null) (Node 4 0 Null Null)) 3 (\<lambda>x y. x - y :: int) (Some (None, None)) =
     (None, Some (Some 2, Some 4))"
  by (subst av_tree_find_neighbours [OF int_tree_order TrueI]) (simp_all add: Let_def)

end
