(* ===== verification/Nut.thy ===== *)
theory Nut
  imports AvTree
begin

text \<open>
  Sync points of the NUT container (lavc/libavformat/nut.c, nut.h and write_index in
  nutenc.c): the two comparison functions with their truncation to int, the tree of sync
  points, the position part of the index the muxer writes, and the reconstruction of a
  timestamp from its low bits. The comparison by position is the call-back the tree of
  AvTree is run with, and the interpretation below proves it fit for that.
\<close>

record Syncpoint =
  pos :: u64
  back_ptr :: u64
  ts :: "64 word"

text \<open>
  \<open>pos\<close> is unsigned, so \<open>>>\<close> shifts in zeros; \<open>ts\<close> is signed, so it copies the sign. The
  64-bit difference is returned as int, its low 32 bits.
\<close>

definition ff_nut_sp_pos_cmp :: "Syncpoint \<Rightarrow> Syncpoint \<Rightarrow> int" where
  "ff_nut_sp_pos_cmp a b =
     sint (ucast (drop_bit 32 (pos a - pos b) - drop_bit 32 (pos b - pos a)) :: u32)"

definition ff_nut_sp_pts_cmp :: "Syncpoint \<Rightarrow> Syncpoint \<Rightarrow> int" where
  "ff_nut_sp_pts_cmp a b =
     sint (ucast (signed_drop_bit 32 (ts a - ts b) - signed_drop_bit 32 (ts b - ts a)) :: u32)"

record NUTContext =
  sp_count :: nat
  syncpoints :: "Syncpoint avtree"

text \<open>The new node is zeroed by av_mallocz; insertion sets its element.\<close>

definition ff_nut_add_sp :: "NUTContext \<Rightarrow> u64 \<Rightarrow> u64 \<Rightarrow> 64 word \<Rightarrow> NUTContext" where
  "ff_nut_add_sp nut p bp t =
     (let nut = nut\<lparr>sp_count := sp_count nut + 1\<rparr>;
          sp = \<lparr>pos = p, back_ptr = bp, ts = t\<rparr>;
          (_, tree, _) = av_tree_insert ff_nut_sp_pos_cmp (syncpoints nut) sp (Node sp 0 Null Null)
      in nut\<lparr>syncpoints := tree\<rparr>)"

text \<open>
  The loop of write_index that writes positions, with its counter running down. \<open>next_node\<close>
  lives outside the loop; \<open>None\<close> is the dereference of a NULL \<open>next_node[1]\<close>.
\<close>

fun write_index_positions :: "nat \<Rightarrow> Syncpoint avtree \<Rightarrow> Syncpoint \<Rightarrow> Syncpoint neighbours \<Rightarrow> u64 list option" where
  "write_index_positions 0 tree dummy next_node = Some []"
| "write_index_positions (Suc n) tree dummy next_node =
     (let next_node = the (snd (av_tree_find tree dummy ff_nut_sp_pos_cmp (Some next_node)))
      in case snd next_node of
           None \<Rightarrow> None
         | Some sp \<Rightarrow> map_option (Cons (drop_bit 4 (pos sp) - drop_bit 4 (pos dummy)))
             (write_index_positions n tree (dummy\<lparr>pos := pos sp\<rparr>) next_node))"

definition write_index :: "NUTContext \<Rightarrow> u64 list option" where
  "write_index nut = write_index_positions (sp_count nut) (syncpoints nut) \<lparr>pos = 0, back_ptr = 0, ts = 0\<rparr> (None, None)"

text \<open>
  The reader of that part of the index (decode_index in nutdec.c): each value must be positive
  as int64_t, and is added to the one before. \<open>None\<close> is \<open>goto fail\<close>.
\<close>

fun read_index_positions :: "u64 \<Rightarrow> u64 list \<Rightarrow> u64 list option" where
  "read_index_positions prev [] = Some []"
| "read_index_positions prev (v # vs) =
     (if sint v \<le> 0 then None
      else map_option (Cons (v + prev)) (read_index_positions (v + prev) vs))"

text \<open>\<open>mask / 2\<close> divides an int64_t; \<open>1 << msb_pts_shift\<close> is computed in int.\<close>

definition ff_lsb2full :: "int \<Rightarrow> nat \<Rightarrow> int \<Rightarrow> int" where
  "ff_lsb2full last_pts msb_pts_shift lsb =
     (let mask = push_bit msb_pts_shift 1 - 1; delta = last_pts - mask div 2
      in ((lsb - delta) AND mask) + delta)"

section \<open>The comparisons are signs of differences\<close>

definition small_sp :: "Syncpoint \<Rightarrow> bool" where
  "small_sp sp \<longleftrightarrow> uint (pos sp) < 2 ^ 62"

lemma halves_sum:
  fixes d :: int
  assumes "0 < d" "d < 2 ^ 62"
  obtains c where "(- d) div 2 ^ 32 = - c" "0 < d div 2 ^ 32 + c" "d div 2 ^ 32 + c < 2 ^ 31" "0 \<le> d div 2 ^ 32"
proof -
  define q where "q = d div 2 ^ 32"
  have "d = q * 4294967296 + d mod 4294967296" unfolding q_def by simp
  moreover have "0 \<le> d mod 4294967296" "d mod 4294967296 < 4294967296" by simp_all
  moreover have "d < 4611686018427387904" using assms(2) by simp
  ultimately have "0 \<le> q" "q < 1073741824" using assms(1) by linarith+
  then have q: "0 \<le> q" "q < 2 ^ 30" by simp_all
  show thesis
  proof (cases "d mod 2 ^ 32 = 0")
    case True
    have "d = q * 2 ^ 32 + d mod 2 ^ 32" unfolding q_def by (rule div_mult_mod_eq [symmetric])
    with True have "q \<noteq> 0" using assms(1) by auto
    moreover have "(- d) div 2 ^ 32 = - q" using True unfolding q_def by (subst zdiv_zminus1_eq_if) simp_all
    ultimately show ?thesis using that [of q] q by (simp only: q_def [symmetric]) simp
  next
    case False
    then have "(- d) div 2 ^ 32 = - (q + 1)" unfolding q_def by (subst zdiv_zminus1_eq_if) simp_all
    then show ?thesis using that [of "q + 1"] q by (simp only: q_def [symmetric]) simp
  qed
qed

lemma uint_shift_right: "uint (drop_bit n x) = uint (x :: 'a::len word) div 2 ^ n"
  unfolding unsigned_drop_bit_eq bintr_uint [OF order_refl] by (rule drop_bit_eq_div)

lemma low_word_of_int:
  assumes "uint w mod 2 ^ 32 = m mod 2 ^ 32" "- (2 ^ 31) \<le> m" "m < 2 ^ 31"
  shows "sint (ucast (w :: u64) :: u32) = m"
proof -
  have "(ucast w :: u32) = word_of_int m"
    by (rule word_uint_eqI) (use assms(1) in \<open>simp add: unsigned_ucast_eq take_bit_eq_mod uint_word_of_int\<close>)
  then show ?thesis using assms(2,3) by (simp add: sint_sbintrunc' signed_take_bit_int_eq_self)
qed

lemma pos_cmp_sign:
  assumes "small_sp a" "small_sp b"
  shows "sgn (ff_nut_sp_pos_cmp a b) = sgn (uint (pos a) - uint (pos b))"
proof -
  define d where "d = uint (pos a) - uint (pos b)"
  have dr: "- (2 ^ 62) < d" "d < 2 ^ 62"
    using assms uint_ge_0 [of "pos a"] uint_ge_0 [of "pos b"] unfolding small_sp_def d_def by linarith+
  let ?w = "drop_bit 32 (pos a - pos b) - drop_bit 32 (pos b - pos a)"
  have u: "uint ?w = (d mod 2 ^ 64 div 2 ^ 32 - (- d) mod 2 ^ 64 div 2 ^ 32) mod 2 ^ 64"
    by (simp only: uint_word_ariths uint_shift_right d_def) simp
  have m: "uint ?w mod 2 ^ 32 = (d mod 2 ^ 64 div 2 ^ 32 - (- d) mod 2 ^ 64 div 2 ^ 32) mod 2 ^ 32"
    unfolding u by (rule mod_mod_cancel) (simp add: le_imp_power_dvd)
  have shift: "(- e) mod 2 ^ 64 div 2 ^ 32 = 2 ^ 32 + (- e) div 2 ^ 32" if "0 < e" "e < 2 ^ 62" for e :: int
  proof -
    have "(- e) mod 2 ^ 64 = (- e + 2 ^ 64) mod 2 ^ 64" by (simp only: mod_add_self2)
    also have "\<dots> = - e + 2 ^ 64" by (rule mod_pos_pos_trivial) (use that in simp_all)
    also have "\<dots> = - e + 2 ^ 32 * 2 ^ 32" by simp
    finally show ?thesis by (simp only: div_mult_self4 [where b = "2 ^ 32 :: int"] div_mult_self1) simp
  qed
  have "\<exists>k. ff_nut_sp_pos_cmp a b = k \<and> sgn k = sgn d"
  proof (cases "d = 0")
    case True
    then show ?thesis using low_word_of_int [of ?w 0] m by (simp add: ff_nut_sp_pos_cmp_def)
  next
    case False
    define e where "e = abs d"
    have "0 < e" "e < 2 ^ 62" using False dr by (auto simp: e_def)
    from halves_sum [OF this] obtain c where c: "(- e) div 2 ^ 32 = - c" "0 < e div 2 ^ 32 + c"
      "e div 2 ^ 32 + c < 2 ^ 31" "0 \<le> e div 2 ^ 32" by metis
    have em: "e mod 2 ^ 64 = e" using \<open>0 < e\<close> \<open>e < 2 ^ 62\<close> by (simp add: mod_pos_pos_trivial)
    note sh = shift [OF \<open>0 < e\<close> \<open>e < 2 ^ 62\<close>] em c(1)
    show ?thesis
    proof (cases "0 < d")
      case True
      then have "e = d" by (simp add: e_def)
      then have "d mod 2 ^ 64 div 2 ^ 32 - (- d) mod 2 ^ 64 div 2 ^ 32 = e div 2 ^ 32 + c + (-1) * 2 ^ 32"
        using sh by simp
      then have "uint ?w mod 2 ^ 32 = (e div 2 ^ 32 + c) mod 2 ^ 32" unfolding m by (simp only: mod_mult_self1)
      from low_word_of_int [OF this] c True show ?thesis by (simp add: ff_nut_sp_pos_cmp_def)
    next
      case neg: False
      then have "d = - e" using False by (simp add: e_def)
      then have "d mod 2 ^ 64 div 2 ^ 32 - (- d) mod 2 ^ 64 div 2 ^ 32 = - (e div 2 ^ 32 + c) + 1 * 2 ^ 32"
        using sh by simp
      then have "uint ?w mod 2 ^ 32 = (- (e div 2 ^ 32 + c)) mod 2 ^ 32" unfolding m by (simp only: mod_mult_self1)
      from low_word_of_int [OF this] c neg False show ?thesis by (simp add: ff_nut_sp_pos_cmp_def)
    qed
  qed
  then show ?thesis by (simp add: d_def)
qed

lemma pos_cmp_iff:
  assumes "small_sp a" "small_sp b"
  shows "ff_nut_sp_pos_cmp a b < 0 \<longleftrightarrow> pos a < pos b" "0 < ff_nut_sp_pos_cmp a b \<longleftrightarrow> pos b < pos a"
    "ff_nut_sp_pos_cmp a b = 0 \<longleftrightarrow> pos a = pos b" "ff_nut_sp_pos_cmp a b \<le> 0 \<longleftrightarrow> pos a \<le> pos b"
  using pos_cmp_sign [OF assms]
  by (auto simp: word_less_def word_le_def word_uint_eq_iff sgn_if split: if_splits)

interpretation sp_order: tree_order ff_nut_sp_pos_cmp small_sp
  by unfold_locales (auto simp: pos_cmp_iff)

section \<open>The set of sync points and the index\<close>

definition nut_inv :: "NUTContext \<Rightarrow> bool" where
  "nut_inv nut \<longleftrightarrow> avl (syncpoints nut) \<and> sp_order.ord (inorder (syncpoints nut)) \<and>
     sp_count nut = length (inorder (syncpoints nut))"

lemma add_sp_new:
  assumes "nut_inv nut" "uint p < 2 ^ 62" "p \<notin> pos ` set (inorder (syncpoints nut))"
  shows "nut_inv (ff_nut_add_sp nut p bp t)"
    and "set (inorder (syncpoints (ff_nut_add_sp nut p bp t))) = insert \<lparr>pos = p, back_ptr = bp, ts = t\<rparr> (set (inorder (syncpoints nut)))"
proof -
  define sp where "sp = \<lparr>pos = p, back_ptr = bp, ts = t\<rparr>"
  let ?T = "syncpoints nut"
  have sm: "small_sp sp" using assms(2) by (simp add: sp_def small_sp_def)
  have o: "avl ?T" "sp_order.ord (inorder ?T)" and cnt: "sp_count nut = length (inorder ?T)"
    using assms(1) by (auto simp: nut_inv_def)
  have smT: "\<forall>x \<in> set (inorder ?T). small_sp x" using o(2) by (simp add: sp_order.ord_def)
  have "ff_nut_sp_pos_cmp x sp \<noteq> 0" if "x \<in> set (inorder ?T)" for x
    using assms(3) that smT sm by (auto simp: pos_cmp_iff sp_def)
  then have nh: "\<not> sp_order.has sp (inorder ?T)" by (simp add: sp_order.has_def)
  obtain ret t' n where r: "av_tree_insert ff_nut_sp_pos_cmp ?T sp (Node sp 0 Null Null) = (ret, t', n)"
    by (cases "av_tree_insert ff_nut_sp_pos_cmp ?T sp (Node sp 0 Null Null)")
  have t': "avl t'" "inorder t' = sp_order.below sp (inorder ?T) @ sp # sp_order.above sp (inorder ?T)"
    using sp_order.insert_new [OF sm o nh, of sp] r by (auto simp: sp_order.ok_def)
  have "sp_order.ord (inorder t')"
    unfolding t'(2) sp_order.ord_append_Cons
    using o(2) sm smT by (auto simp: sp_order.ord_def sp_order.below_def sp_order.above_def sorted_wrt_filter pos_cmp_iff)
  moreover have part: "ff_nut_sp_pos_cmp x sp < 0 \<or> 0 < ff_nut_sp_pos_cmp x sp" if "x \<in> set (inorder ?T)" for x
    using nh that by (auto simp: sp_order.has_def linorder_neq_iff)
  have "length (inorder t') = Suc (length (inorder ?T))"
  proof -
    have "filter (\<lambda>e. \<not> ff_nut_sp_pos_cmp e sp < 0) (inorder ?T) = sp_order.above sp (inorder ?T)"
      unfolding sp_order.above_def by (rule filter_cong [OF refl]) (use part in fastforce)
    then show ?thesis
      using sum_length_filter_compl [of "\<lambda>e. ff_nut_sp_pos_cmp e sp < 0" "inorder ?T"]
      by (simp add: t'(2) sp_order.below_def)
  qed
  ultimately show "nut_inv (ff_nut_add_sp nut p bp t)"
    using t'(1) r cnt by (simp add: nut_inv_def ff_nut_add_sp_def sp_def [symmetric])
  have "set (inorder t') = insert sp (set (inorder ?T))"
    using part by (auto simp: t'(2) sp_order.below_def sp_order.above_def)
  then show "set (inorder (syncpoints (ff_nut_add_sp nut p bp t))) = insert \<lparr>pos = p, back_ptr = bp, ts = t\<rparr> (set (inorder ?T))"
    using r by (simp add: ff_nut_add_sp_def sp_def [symmetric])
qed

fun deltas :: "u64 \<Rightarrow> u64 list \<Rightarrow> u64 list" where
  "deltas p [] = []"
| "deltas p (x # xs) = (drop_bit 4 x - drop_bit 4 p) # deltas x xs"

lemma write_positions:
  assumes "sp_order.ord (as @ bs)" "inorder tree = as @ bs" "small_sp dummy"
    and "\<forall>a \<in> set as. pos a \<le> pos dummy" "\<forall>b \<in> set bs. pos dummy < pos b"
  shows "write_index_positions (length bs) tree dummy next = Some (deltas (pos dummy) (map pos bs))"
  using assms
proof (induction bs arbitrary: as dummy "next")
  case Nil
  then show ?case by simp
next
  case (Cons b bs)
  have sm: "\<forall>x \<in> set (as @ b # bs). small_sp x" using Cons.prems(1) by (simp add: sp_order.ord_def)
  have "filter (\<lambda>e. 0 < ff_nut_sp_pos_cmp e dummy) (as @ b # bs) = b # bs"
    using Cons.prems(3-5) sm by (fastforce simp: pos_cmp_iff filter_empty_conv filter_id_conv not_less)
  then have ab: "sp_order.above dummy (as @ b # bs) = b # bs" by (simp add: sp_order.above_def)
  obtain n0 n1 where f: "av_tree_find tree dummy ff_nut_sp_pos_cmp (Some next) =
      (List.find (\<lambda>e. ff_nut_sp_pos_cmp dummy e = 0) (as @ b # bs), Some (n0, n1))" and "n1 = Some b"
    using sp_order.find_spec [OF Cons.prems(3), of tree "Some next"] Cons.prems(1,2) ab
    by (simp add: sp_order.nbrs_def)
  have srt: "\<forall>a \<in> set as. pos a < pos b" "\<forall>c \<in> set bs. pos b < pos c"
    using Cons.prems(1) sm unfolding sp_order.ord_append_Cons by (auto simp: pos_cmp_iff)
  have "write_index_positions (length bs) tree (dummy\<lparr>pos := pos b\<rparr>) (n0, n1) =
      Some (deltas (pos (dummy\<lparr>pos := pos b\<rparr>)) (map pos bs))"
    by (rule Cons.IH [of "as @ [b]"])
      (use Cons.prems sm srt in \<open>auto simp: small_sp_def intro: less_imp_le\<close>)
  then show ?case using f \<open>n1 = Some b\<close> by simp
qed

lemma read_deltas:
  assumes "sorted_wrt (\<lambda>x y. drop_bit 4 x < drop_bit 4 y) (p # xs)" "\<forall>x \<in> set xs. uint x < 2 ^ 62"
  shows "read_index_positions (drop_bit 4 p) (deltas p xs) = Some (map (drop_bit 4) xs)"
  using assms
proof (induction xs arbitrary: p)
  case Nil
  then show ?case by simp
next
  case (Cons x xs)
  let ?v = "drop_bit 4 x - drop_bit 4 p"
  have lt: "drop_bit 4 p < drop_bit 4 x" using Cons.prems(1) by simp
  then have lt': "unat (drop_bit 4 p) < unat (drop_bit 4 x)" by (simp only: word_less_nat_alt)
  have "unat (drop_bit 4 x) \<le> unat x" unfolding unat_drop_bit_eq by (simp add: drop_bit_eq_div)
  moreover have "unat x < 2 ^ 62"
    using Cons.prems(2) unfolding unat_eq_nat_uint by (subst nat_less_iff) simp_all
  moreover have v: "unat ?v = unat (drop_bit 4 x) - unat (drop_bit 4 p)"
    using lt by (intro unat_minus_le less_imp_le)
  ultimately have "unat ?v < 2 ^ 62" "0 < unat ?v" using lt' by linarith+
  then have "unat ?v < 2 ^ (LENGTH(64) - 1)" by simp
  from sint_small [OF this] \<open>0 < unat ?v\<close> have "0 < sint ?v" by (simp only: of_nat_0_less_iff)
  then show ?case using Cons.IH [of x] Cons.prems by simp
qed

definition add_sps :: "(u64 \<times> u64 \<times> 64 word) list \<Rightarrow> NUTContext \<Rightarrow> NUTContext" where
  "add_sps sps nut = foldl (\<lambda>n (p, bp, t). ff_nut_add_sp n p bp t) nut sps"

lemma add_sps_inv:
  assumes "nut_inv nut" "\<forall>p \<in> set (map fst sps). uint p < 2 ^ 62" "distinct (map fst sps)"
    and "set (map fst sps) \<inter> pos ` set (inorder (syncpoints nut)) = {}"
  shows "nut_inv (add_sps sps nut) \<and>
    pos ` set (inorder (syncpoints (add_sps sps nut))) = set (map fst sps) \<union> pos ` set (inorder (syncpoints nut))"
  using assms
proof (induction sps arbitrary: nut)
  case Nil
  then show ?case by (simp add: add_sps_def)
next
  case (Cons sp sps)
  obtain p bp t where sp: "sp = (p, bp, t)" by (cases sp)
  let ?n = "ff_nut_add_sp nut p bp t"
  have 1: "uint p < 2 ^ 62" "p \<notin> pos ` set (inorder (syncpoints nut))" using Cons.prems sp by auto
  note new = add_sp_new [OF Cons.prems(1) 1, of bp t]
  have "nut_inv (add_sps sps ?n) \<and>
    pos ` set (inorder (syncpoints (add_sps sps ?n))) = set (map fst sps) \<union> pos ` set (inorder (syncpoints ?n))"
    by (rule Cons.IH) (use new Cons.prems sp in auto)
  then show ?case using new sp by (simp add: add_sps_def)
qed

definition empty_nut :: NUTContext where
  "empty_nut = \<lparr>sp_count = 0, syncpoints = Null\<rparr>"

lemma add_sps_sorted:
  assumes "\<forall>p \<in> set (map fst sps). uint p < 2 ^ 62" "distinct (map fst sps)"
  shows "map pos (inorder (syncpoints (add_sps sps empty_nut))) = sort (map fst sps)"
    and "nut_inv (add_sps sps empty_nut)"
proof -
  let ?T = "inorder (syncpoints (add_sps sps empty_nut))"
  have e: "nut_inv (add_sps sps empty_nut)" "pos ` set ?T = set (map fst sps)"
    using add_sps_inv [of empty_nut sps] assms by (simp_all add: nut_inv_def empty_nut_def sp_order.ord_def)
  then show "nut_inv (add_sps sps empty_nut)" by simp
  have o: "sp_order.ord ?T" using e(1) by (simp add: nut_inv_def)
  have "sorted_wrt (\<lambda>x y. pos x < pos y) ?T"
    by (rule sorted_wrt_mono_rel [of _ "\<lambda>x y. ff_nut_sp_pos_cmp x y < 0"])
      (use o in \<open>auto simp: sp_order.ord_def pos_cmp_iff\<close>)
  then have "sorted_wrt (<) (map pos ?T)" by (simp add: sorted_wrt_map)
  then have "sorted (map pos ?T)" "distinct (map pos ?T)" by (simp_all add: strict_sorted_iff)
  then show "map pos ?T = sort (map fst sps)"
    using e(2) assms(2) by (intro sorted_distinct_set_unique) simp_all
qed

section \<open>Properties\<close>

text \<open>
  C39: Whatever the order in which sync points are added, the index the muxer writes exists
  (no NULL neighbour is followed) and the demuxer reads back from it the positions of all
  sync points in ascending order, in units of 16 bytes. Positions must be distinct in these
  units, not in the first 16 bytes and below 2^62.
\<close>

theorem nut_index_roundtrip:
  assumes "distinct (map (drop_bit 4 \<circ> fst) sps)"
    and "\<forall>p \<in> set (map fst sps). 16 \<le> p \<and> uint p < 2 ^ 62"
  shows "\<exists>vs. write_index (add_sps sps empty_nut) = Some vs \<and>
    read_index_positions 0 vs = Some (map (drop_bit 4) (sort (map fst sps)))"
proof -
  let ?nut = "add_sps sps empty_nut" and ?s = "sort (map fst sps)"
  have d: "distinct (map fst sps)" "\<forall>p \<in> set (map fst sps). uint p < 2 ^ 62"
    using assms by (auto simp: distinct_map intro: inj_on_imageI2)
  note s = add_sps_sorted [OF d(2,1)]
  let ?T = "inorder (syncpoints ?nut)" and ?dummy = "\<lparr>pos = 0, back_ptr = 0, ts = 0\<rparr>"
  have "\<forall>p \<in> set ?s. 0 < p" using assms(2) by (auto intro: less_le_trans [of 0 16])
  then have pos: "\<forall>b \<in> set ?T. pos ?dummy < pos b" unfolding s(1) [symmetric] by simp
  have inv: "sp_order.ord ?T" "sp_count ?nut = length ?T" using s(2) by (auto simp: nut_inv_def)
  have "write_index ?nut = Some (deltas 0 ?s)"
    using write_positions [of "[]" ?T "syncpoints ?nut" ?dummy "(None, None)"] inv pos
    by (simp add: write_index_def s(1) small_sp_def)
  moreover have "sorted_wrt (\<lambda>x y. drop_bit 4 x < drop_bit 4 y) (0 # ?s)"
  proof -
    have mono: "x \<le> y \<Longrightarrow> drop_bit 4 x \<le> drop_bit 4 y" for x y :: u64
      unfolding word_le_nat_alt unat_drop_bit_eq by (simp add: drop_bit_eq_div div_le_mono)
    have "sorted (map (drop_bit 4) ?s)" by (simp add: sorted_map sorted_wrt_mono_rel [OF mono])
    moreover have "distinct (map (drop_bit 4) ?s)" using assms(1) d(1) by (simp add: distinct_map inj_on_imageI)
    ultimately have "sorted_wrt (<) (map (drop_bit 4) ?s)" by (simp add: strict_sorted_iff)
    moreover have "0 < drop_bit 4 p" if "16 \<le> p" for p :: u64
    proof -
      have "16 \<le> unat p" using that by (simp add: word_le_nat_alt)
      then have "0 < unat (drop_bit 4 p)" unfolding unat_drop_bit_eq by (simp add: drop_bit_eq_div)
      then show ?thesis by (simp add: word_less_nat_alt)
    qed
    ultimately show ?thesis using assms(2) by (simp add: sorted_wrt_map)
  qed
  then have "read_index_positions (drop_bit 4 0) (deltas 0 ?s) = Some (map (drop_bit 4) ?s)"
    by (rule read_deltas) (use d in simp)
  ultimately show ?thesis by simp
qed

lemma nut_index_roundtrip_witness:
  "\<exists>vs. write_index (add_sps [(800, 0, 5), (64, 0, 1)] empty_nut) = Some vs \<and>
    read_index_positions 0 vs = Some (map (drop_bit 4) (sort [800, 64]))"
  using nut_index_roundtrip [of "[(800, 0, 5), (64, 0, 1)]"] by simp

text \<open>
  C40: A timestamp is recovered from its low bits: for every \<open>full\<close> in the window of 2^shift
  values around the stream's last timestamp, ff_lsb2full gives \<open>full\<close> back.
\<close>

theorem ff_lsb2full_recovers:
  assumes "last_pts - (2 ^ shift - 1) div 2 \<le> full" "full < last_pts - (2 ^ shift - 1) div 2 + 2 ^ shift"
  shows "ff_lsb2full last_pts shift (full AND (2 ^ shift - 1)) = full"
proof -
  define delta where "delta = last_pts - (2 ^ shift - 1) div 2"
  have m: "(push_bit shift 1 :: int) - 1 = mask shift" by (simp add: mask_eq_exp_minus_1 push_bit_eq_mult)
  have "((full AND mask shift) - delta) AND mask shift = (full - delta) mod 2 ^ shift"
    unfolding take_bit_eq_mask [symmetric] take_bit_eq_mod by (rule mod_diff_left_eq)
  also have "\<dots> = full - delta" using assms by (intro mod_pos_pos_trivial) (auto simp: delta_def)
  finally show ?thesis
    unfolding ff_lsb2full_def m Let_def by (simp add: delta_def mask_eq_exp_minus_1)
qed

lemma ff_lsb2full_recovers_witness: "ff_lsb2full 1000 4 (1005 AND (2 ^ 4 - 1)) = 1005"
  by (rule ff_lsb2full_recovers) simp_all

end
