(* ===== verification/Bytes.thy ===== *)
theory Bytes
  imports Prelude
begin

text \<open>
  Words as sequences of smaller words, least significant first: what the macros of
  lavc/libavutil/intreadwrite.h (AV_RL32, AV_WL32, AV_RB32, AV_RN64, ...) and bswap.h
  compute, and the 16-bit lanes that routines working on 64 bits at once keep. The machine
  is little-endian wherever a source distinguishes.
\<close>

fun le_word :: "'b::len word list \<Rightarrow> 'a::len word" where
  "le_word [] = 0"
| "le_word (x # xs) = ucast x OR push_bit LENGTH('b) (le_word xs)"

definition be_word :: "'b::len word list \<Rightarrow> 'a::len word" where
  "be_word xs = le_word (rev xs)"

fun word_le :: "nat \<Rightarrow> 'a::len word \<Rightarrow> 'b::len word list" where
  "word_le 0 w = []"
| "word_le (Suc n) w = ucast w # word_le n (drop_bit LENGTH('b) w)"

definition word_be :: "nat \<Rightarrow> 'a::len word \<Rightarrow> 'b::len word list" where
  "word_be n w = rev (word_le n w)"

definition AV_RL32 :: "u8 list \<Rightarrow> u32" where
  "AV_RL32 bs = le_word (take 4 bs)"

definition AV_RB32 :: "u8 list \<Rightarrow> u32" where
  "AV_RB32 bs = be_word (take 4 bs)"

definition AV_RN64 :: "u8 list \<Rightarrow> u64" where
  "AV_RN64 bs = le_word (take 8 bs)"

definition AV_RB64 :: "u8 list \<Rightarrow> u64" where
  "AV_RB64 bs = be_word (take 8 bs)"

definition AV_WL32 :: "u32 \<Rightarrow> u8 list" where
  "AV_WL32 w = word_le 4 w"

definition AV_WB32 :: "u32 \<Rightarrow> u8 list" where
  "AV_WB32 w = word_be 4 w"

definition AV_WL64 :: "u64 \<Rightarrow> u8 list" where
  "AV_WL64 w = word_le 8 w"

definition AV_WB64 :: "u64 \<Rightarrow> u8 list" where
  "AV_WB64 w = word_be 8 w"

definition av_bswap32 :: "u32 \<Rightarrow> u32" where
  "av_bswap32 w = be_word (word_le 4 w :: u8 list)"

section \<open>Bits and numbers\<close>

lemma list4: "length xs = 4 \<Longrightarrow> xs = [xs ! 0, xs ! 1, xs ! 2, xs ! 3]"
  by (auto simp: length_Suc_conv numeral_eq_Suc)

lemma bit_le_word:
  fixes xs :: "'b::len word list"
  shows "bit (le_word xs :: 'a::len word) n \<longleftrightarrow>
    n < LENGTH('a) \<and> n div LENGTH('b) < length xs \<and> bit (xs ! (n div LENGTH('b))) (n mod LENGTH('b))"
proof (induction xs arbitrary: n)
  case Nil
  then show ?case by simp
next
  case (Cons x xs)
  show ?case
  proof (cases "n < LENGTH('b)")
    case True
    then show ?thesis by (auto simp: bit_or_iff bit_push_bit_iff bit_ucast_iff dest: bit_imp_le_length)
  next
    case False
    then have d: "n div LENGTH('b) = Suc ((n - LENGTH('b)) div LENGTH('b))" "(n - LENGTH('b)) mod LENGTH('b) = n mod LENGTH('b)"
      by (simp_all add: le_div_geq le_mod_geq)
    have "\<not> bit x n" using False by (auto dest: bit_imp_le_length)
    then show ?thesis using False Cons.IH [of "n - LENGTH('b)"]
      by (auto simp: bit_or_iff bit_push_bit_iff bit_ucast_iff d)
  qed
qed

lemma le_word_and:
  fixes xs ys :: "'b::len word list"
  assumes "length xs = length ys"
  shows "(le_word xs AND le_word ys :: 'a::len word) = le_word (map2 (AND) xs ys)"
  by (rule bit_word_eqI) (use assms in \<open>auto simp: bit_and_iff bit_le_word\<close>)

lemma le_word_xor:
  fixes xs ys :: "'b::len word list"
  assumes "length xs = length ys"
  shows "(le_word xs XOR le_word ys :: 'a::len word) = le_word (map2 (XOR) xs ys)"
  by (rule bit_word_eqI) (use assms in \<open>auto simp: bit_xor_iff bit_le_word\<close>)

fun le_nat :: "'b::len word list \<Rightarrow> nat" where
  "le_nat [] = 0"
| "le_nat (x # xs) = unat x + 2 ^ LENGTH('b) * le_nat xs"

lemma le_nat_less: "le_nat xs < 2 ^ (LENGTH('b) * length (xs :: 'b::len word list))"
proof (induction xs)
  case Nil
  then show ?case by simp
next
  case (Cons x xs)
  have "unat x < 2 ^ LENGTH('b)" by (rule unsigned_less)
  moreover have "2 ^ LENGTH('b) * le_nat xs + 2 ^ LENGTH('b) \<le> 2 ^ LENGTH('b) * 2 ^ (LENGTH('b) * length xs)"
    using Cons.IH by (metis Suc_leI add.commute mult_Suc_right mult_le_mono2)
  ultimately have "unat x + 2 ^ LENGTH('b) * le_nat xs < 2 ^ LENGTH('b) * 2 ^ (LENGTH('b) * length xs)" by linarith
  then show ?case by (simp add: power_add)
qed

lemma le_word_Cons: "le_word (x # xs) = ucast x + 2 ^ LENGTH('b) * (le_word xs :: 'a::len word)"
  for x :: "'b::len word"
proof -
  have "(ucast x :: 'a word) AND push_bit LENGTH('b) (le_word xs) = 0"
    by (rule bit_word_eqI) (auto simp: bit_and_iff bit_ucast_iff bit_push_bit_iff dest: bit_imp_le_length)
  from disjunctive_add_eq_or [OF this] show ?thesis by (simp add: push_bit_eq_mult mult.commute)
qed

lemma le_word_of_nat: "(le_word xs :: 'a::len word) = of_nat (le_nat xs)"
  by (induction xs) (simp_all add: le_word_Cons del: le_word.simps(2))

lemma unat_le_word [word_facts]:
  fixes xs :: "'b::len word list"
  assumes "length xs * LENGTH('b) \<le> LENGTH('a)"
  shows "unat (le_word xs :: 'a::len word) = le_nat xs"
proof -
  have "le_nat xs < 2 ^ LENGTH('a)"
    by (rule less_le_trans [OF le_nat_less]) (use assms in \<open>simp add: mult.commute\<close>)
  then show ?thesis by (simp add: le_word_of_nat unat_of_nat take_bit_nat_eq_self)
qed

lemma unat_shift_right: "unat (drop_bit n w) = unat w div 2 ^ n"
  unfolding unat_drop_bit_eq by (rule drop_bit_eq_div)

lemma le_word_drop:
  fixes xs :: "'b::len word list"
  assumes "Suc (length xs) * LENGTH('b) \<le> LENGTH('a)"
  shows "drop_bit LENGTH('b) (le_word (x # xs) :: 'a::len word) = le_word xs"
proof -
  have "length (x # xs) * LENGTH('b) \<le> LENGTH('a)" "length xs * LENGTH('b) \<le> LENGTH('a)" using assms by simp_all
  then have "unat (drop_bit LENGTH('b) (le_word (x # xs) :: 'a word)) = unat (le_word xs :: 'a word)"
    unfolding unat_shift_right by (simp only: unat_le_word) (simp add: unsigned_less)
  then show ?thesis by (simp only: word_unat_eq_iff)
qed

lemma le_word_word_le:
  fixes w :: "'a::len word"
  assumes "n * LENGTH('b) = LENGTH('a)"
  shows "le_word (word_le n w :: 'b::len word list) = w"
proof -
  have "bit (le_word (word_le n v :: 'b word list) :: 'a word) i \<longleftrightarrow> i < n * LENGTH('b) \<and> bit v i"
    for n i and v :: "'a word"
  proof (induction n arbitrary: i v)
    case (Suc n)
    then show ?case
      by (auto simp: bit_or_iff bit_push_bit_iff bit_ucast_iff bit_drop_bit_eq dest: bit_imp_le_length)
  qed simp
  then show ?thesis using assms by (intro bit_word_eqI) simp
qed

lemma length_word_le [simp]: "length (word_le n w) = n"
  by (induction n arbitrary: w) auto

lemma word_le_le_word:
  fixes xs :: "'b::len word list"
  assumes "length xs * LENGTH('b) \<le> LENGTH('a)"
  shows "word_le (length xs) (le_word xs :: 'a::len word) = xs"
  using assms
proof (induction xs)
  case Nil
  then show ?case by simp
next
  case (Cons x xs)
  have "(ucast (ucast x OR push_bit LENGTH('b) (le_word xs) :: 'a word) :: 'b word) = x"
    by (rule bit_word_eqI)
      (use Cons.prems in \<open>auto simp: bit_ucast_iff bit_or_iff bit_push_bit_iff\<close>)
  moreover have "drop_bit LENGTH('b) (le_word (x # xs) :: 'a word) = le_word xs"
    by (rule le_word_drop) (use Cons.prems in simp)
  moreover have "word_le (length xs) (le_word xs :: 'a word) = xs"
    by (rule Cons.IH) (use Cons.prems in simp)
  ultimately show ?case by simp
qed

lemma AV_RL32_AV_WL32: "AV_RL32 (AV_WL32 w) = w"
  by (simp add: AV_RL32_def AV_WL32_def le_word_word_le)

lemma AV_RB32_AV_WB32: "AV_RB32 (AV_WB32 w) = w"
  by (simp add: AV_RB32_def AV_WB32_def be_word_def word_be_def le_word_word_le)

lemma AV_RB64_AV_WB64: "AV_RB64 (AV_WB64 w) = w"
  by (simp add: AV_RB64_def AV_WB64_def be_word_def word_be_def le_word_word_le)

lemma AV_WB32_AV_RB32: "length bs = 4 \<Longrightarrow> AV_WB32 (AV_RB32 bs) = bs"
  using word_le_le_word [of "rev bs", where 'a = 32]
  by (simp add: AV_RB32_def AV_WB32_def be_word_def word_be_def)

lemma AV_WB64_AV_RB64: "length bs = 8 \<Longrightarrow> AV_WB64 (AV_RB64 bs) = bs"
  using word_le_le_word [of "rev bs", where 'a = 64]
  by (simp add: AV_RB64_def AV_WB64_def be_word_def word_be_def)

end
