(* ===== verification/Adler32.thy ===== *)
theory Adler32
  imports Bytes
begin

text \<open>
  Adler-32 of libavutil (lavc/libavutil/adler32.c) as it is compiled on a 64-bit
  little-endian machine: blocks of up to 23*8 bytes are summed in four 64-bit words of
  four 16-bit lanes each, which a multiplication folds together at the end. The lemmas show
  that no lane ever overflows and that the result is the sum of RFC 1950 modulo 65521.
\<close>

abbreviation (input) BASE :: nat where "BASE \<equiv> 65521"

section \<open>Code\<close>

text \<open>The inner loop, eight bytes at a time; a state is \<open>(a1, a2, b1, b2)\<close>.\<close>

fun adler_lanes :: "u8 list \<Rightarrow> u64 \<times> u64 \<times> u64 \<times> u64 \<Rightarrow> u64 \<times> u64 \<times> u64 \<times> u64" where
  "adler_lanes (c0 # c1 # c2 # c3 # c4 # c5 # c6 # c7 # buf) (a1, a2, b1, b2) =
     (let v = AV_RN64 [c0, c1, c2, c3, c4, c5, c6, c7];
          a2 = a2 + a1;
          b2 = b2 + b1;
          a1 = a1 + (v AND 0x00FF00FF00FF00FF);
          b1 = b1 + (drop_bit 8 v AND 0x00FF00FF00FF00FF)
      in adler_lanes buf (a1, a2, b1, b2))"
| "adler_lanes buf st = st"

definition adler_fold :: "u64 \<times> u64 \<times> u64 \<times> u64 \<Rightarrow> u64 \<times> u64 \<Rightarrow> u64 \<times> u64" where
  "adler_fold = (\<lambda>(a1, a2, b1, b2) (s1, s2).
     (s1 + drop_bit 48 ((a1 + b1) * 0x1000100010001),
      s2 + (drop_bit 32 (((a2 AND 0xFFFF0000FFFF) + (b2 AND 0xFFFF0000FFFF) +
                (drop_bit 16 a2 AND 0xFFFF0000FFFF) + (drop_bit 16 b2 AND 0xFFFF0000FFFF)) * 0x800000008)
          + 2 * drop_bit 48 (a1 * 0x4000300020001)
          + drop_bit 48 (b1 * 0x1000100010001)
          + 2 * drop_bit 48 (b1 * 0x3000200010000))))"

definition adler_block :: "u64 \<times> u64 \<Rightarrow> u8 list \<Rightarrow> u64 \<times> u64" where
  "adler_block = (\<lambda>(s1, s2) buf.
     let len2 = length buf
     in if len2 = 0 then (s1, s2)
        else adler_fold (adler_lanes buf (0, 0, 0, 0)) (s1, s2 + s1 * of_nat len2))"

text \<open>\<open>len2 = FFMIN((len-1) & ~7, 23*8)\<close>; the byte after the block is added by DO1.\<close>

function adler_loop :: "u64 \<times> u64 \<Rightarrow> u8 list \<Rightarrow> u64 \<times> u64" where
  "adler_loop s buf =
     (if buf = [] then s
      else let len2 = min ((length buf - 1) div 8 * 8) (23 * 8);
               (s1, s2) = adler_block s (take len2 buf);
               s1 = s1 + ucast (buf ! len2);
               s2 = s2 + s1
           in adler_loop (s1 mod 65521, s2 mod 65521) (drop (len2 + 1) buf))"
  by auto
termination by (relation "measure (length \<circ> snd)") auto

definition av_adler32_update :: "u64 \<Rightarrow> u8 list \<Rightarrow> u64" where
  "av_adler32_update adler buf =
     (let (s1, s2) = adler_loop (adler AND 0xffff, drop_bit 16 adler) buf
      in push_bit 16 s2 OR s1)"

declare adler_loop.simps [simp del]

section \<open>Lanes\<close>

fun digit :: "nat \<Rightarrow> nat \<Rightarrow> nat" where
  "digit n 0 = n mod 65536"
| "digit n (Suc i) = digit (n div 65536) i"

definition lane :: "u64 \<Rightarrow> nat \<Rightarrow> nat" where
  "lane w i = digit (unat w) i"

definition lanes4 :: "nat \<Rightarrow> nat \<Rightarrow> nat \<Rightarrow> nat \<Rightarrow> nat" where
  "lanes4 x0 x1 x2 x3 = x0 + 65536 * (x1 + 65536 * (x2 + 65536 * x3))"

lemma horner_digit:
  fixes x y :: nat
  assumes "x < 65536"
  shows "(x + 65536 * y) mod 65536 = x" "(x + 65536 * y) div 65536 = y"
  using assms by simp_all

lemma lane_nums:
  "lane w 0 = unat w mod 65536" "lane w 1 = unat w div 65536 mod 65536"
  "lane w 2 = unat w div 65536 div 65536 mod 65536" "lane w 3 = unat w div 65536 div 65536 div 65536 mod 65536"
  by (simp_all add: lane_def numeral_2_eq_2 numeral_3_eq_3)

lemma lanes4_lane: "unat w = lanes4 (lane w 0) (lane w 1) (lane w 2) (lane w 3)"
proof -
  define n where "n = unat w"
  define p q r where "p = n div 65536" and "q = p div 65536" and "r = q div 65536"
  have "n < 18446744073709551616" using unsigned_less [of w, where 'a = nat] by (simp add: n_def)
  moreover have e: "n = n mod 65536 + 65536 * p" "p = p mod 65536 + 65536 * q" "q = q mod 65536 + 65536 * r"
    by (simp_all add: p_def q_def r_def)
  ultimately have "r < 65536" by linarith
  then have "r mod 65536 = r" by simp
  then show ?thesis
    unfolding lane_nums lanes4_def n_def [symmetric] p_def [symmetric] q_def [symmetric] r_def [symmetric]
    by (simp only: \<open>r mod 65536 = r\<close> e [symmetric])
qed

lemma lane_unique:
  assumes "unat w = lanes4 x0 x1 x2 x3" "x0 < 65536" "x1 < 65536" "x2 < 65536" "x3 < 65536"
  shows "lane w 0 = x0" "lane w 1 = x1" "lane w 2 = x2" "lane w 3 = x3"
  unfolding lane_nums assms(1) lanes4_def horner_digit [OF assms(2)] horner_digit [OF assms(3)]
    horner_digit [OF assms(4)]
  using assms(5) by simp_all

text \<open>Addition lane by lane, when no lane overflows.\<close>

lemma lane_add:
  assumes "\<forall>i < 4. lane v i + lane w i < 65536"
  shows "i < 4 \<Longrightarrow> lane (v + w) i = lane v i + lane w i"
proof -
  have b: "lane v 0 + lane w 0 < 65536" "lane v 1 + lane w 1 < 65536" "lane v 2 + lane w 2 < 65536" "lane v 3 + lane w 3 < 65536"
    using assms by simp_all
  have s: "unat v + unat w = lanes4 (lane v 0 + lane w 0) (lane v 1 + lane w 1) (lane v 2 + lane w 2) (lane v 3 + lane w 3)"
    unfolding lanes4_lane [of v] lanes4_lane [of w] by (simp add: lanes4_def)
  also have "\<dots> < 2 ^ 64" using b unfolding lanes4_def by simp
  finally have "unat (v + w) = unat v + unat w" by (simp add: unat_plus_if')
  then have "unat (v + w) = lanes4 (lane v 0 + lane w 0) (lane v 1 + lane w 1) (lane v 2 + lane w 2) (lane v 3 + lane w 3)"
    using s by simp
  note u = lane_unique [OF this b]
  show "i < 4 \<Longrightarrow> lane (v + w) i = lane v i + lane w i"
    using u by (auto simp: less_Suc_eq numeral_eq_Suc)
qed

lemma lanes_of_bytes:
  assumes "v = AV_RN64 [c0, c1, c2, c3, c4, c5, c6, c7]"
  shows "unat (v AND 0x00FF00FF00FF00FF) = lanes4 (unat c0) (unat c2) (unat c4) (unat c6)"
    and "unat (drop_bit 8 v AND 0x00FF00FF00FF00FF) = lanes4 (unat c1) (unat c3) (unat c5) (unat c7)"
proof -
  have m: "(0x00FF00FF00FF00FF :: u64) = le_word [0xFF, 0, 0xFF, 0, 0xFF, 0, 0xFF, 0 :: u8]" by simp
  have v: "v = le_word [c0, c1, c2, c3, c4, c5, c6, c7]" using assms by (simp add: AV_RN64_def)
  have d: "drop_bit 8 v = le_word [c1, c2, c3, c4, c5, c6, c7, 0]"
  proof -
    have "drop_bit LENGTH(8) v = le_word [c1, c2, c3, c4, c5, c6, c7]" unfolding v by (rule le_word_drop) simp
    then show ?thesis by simp
  qed
  have "(0xFF :: u8) = - 1" by simp
  then have x: "c AND 0xFF = c" for c :: u8 by (simp only: and.right_neutral)
  show "unat (v AND 0x00FF00FF00FF00FF) = lanes4 (unat c0) (unat c2) (unat c4) (unat c6)"
    unfolding m v by (subst le_word_and) (simp_all add: x unat_le_word lanes4_def del: le_word.simps)
  show "unat (drop_bit 8 v AND 0x00FF00FF00FF00FF) = lanes4 (unat c1) (unat c3) (unat c5) (unat c7)"
    unfolding m d by (subst le_word_and) (simp_all add: x unat_le_word lanes4_def del: le_word.simps)
qed

lemma lanes_as_words:
  obtains c0 c1 c2 c3 :: u16 where "w = le_word [c0, c1, c2, c3]"
    "unat c0 = lane w 0" "unat c1 = lane w 1" "unat c2 = lane w 2" "unat c3 = lane w 3"
proof -
  define c0 c1 c2 c3 :: u16 where "c0 = word_le 4 w ! 0" and "c1 = word_le 4 w ! 1"
    and "c2 = word_le 4 w ! 2" and "c3 = word_le 4 w ! 3"
  have c: "(word_le 4 w :: u16 list) = [c0, c1, c2, c3]"
    unfolding c0_def c1_def c2_def c3_def by (rule list4) (rule length_word_le)
  have w: "w = le_word [c0, c1, c2, c3]" unfolding c [symmetric] by (rule le_word_word_le [symmetric]) simp
  have "unat (le_word [c0, c1, c2, c3] :: u64) = le_nat [c0, c1, c2, c3]" by (rule unat_le_word) simp
  then have u: "unat w = lanes4 (unat c0) (unat c1) (unat c2) (unat c3)"
    unfolding w [symmetric] by (simp add: lanes4_def)
  have b: "unat c < 65536" for c :: u16 using unsigned_less [of c, where 'a = nat] by simp
  show thesis by (rule that [OF w]) (simp_all only: lane_unique [OF u b b b b])
qed

lemma lanes_and_shift:
  shows "unat (w AND 0xFFFF0000FFFF) = lanes4 (lane w 0) 0 (lane w 2) 0"
    and "unat (drop_bit 16 w AND 0xFFFF0000FFFF) = lanes4 (lane w 1) 0 (lane w 3) 0"
proof -
  obtain c0 c1 c2 c3 :: u16 where w: "w = le_word [c0, c1, c2, c3]"
    and c: "unat c0 = lane w 0" "unat c1 = lane w 1" "unat c2 = lane w 2" "unat c3 = lane w 3"
    by (rule lanes_as_words)
  have d: "drop_bit LENGTH(16) w = le_word [c1, c2, c3]" unfolding w by (rule le_word_drop) simp
  have m: "(0xFFFF0000FFFF :: u64) = le_word [0xFFFF, 0, 0xFFFF, 0 :: u16]"
    "(0xFFFF0000FFFF :: u64) = le_word [0xFFFF, 0, 0xFFFF :: u16]" by simp_all
  have "(0xFFFF :: u16) = - 1" by simp
  then have x: "v AND 0xFFFF = v" for v :: u16 by (simp only: and.right_neutral)
  have 1: "w AND 0xFFFF0000FFFF = le_word [c0, 0, c2, 0]"
    unfolding m(1) w by (subst le_word_and) (simp_all only: x list.simps zip_Cons_Cons zip.simps prod.case and_zero_eq length_Cons)
  have 2: "drop_bit 16 w AND 0xFFFF0000FFFF = le_word [c1, 0, c3]"
    using d unfolding m(2) by (simp add: le_word_and x del: le_word.simps)
  have "unat (le_word [c0, 0, c2, 0] :: u64) = le_nat [c0, 0, c2, 0]" "unat (le_word [c1, 0, c3] :: u64) = le_nat [c1, 0, c3]"
    by (rule unat_le_word, simp)+
  then show "unat (w AND 0xFFFF0000FFFF) = lanes4 (lane w 0) 0 (lane w 2) 0"
    "unat (drop_bit 16 w AND 0xFFFF0000FFFF) = lanes4 (lane w 1) 0 (lane w 3) 0"
    unfolding 1 2 c [symmetric] by (simp_all add: lanes4_def)
qed

text \<open>
  The multiplications: coefficient 3 of the product of a word with the multiplier, both read
  as polynomials in 2^16, sums the lanes with weights.
\<close>

lemma top_lane:
  fixes p0 p1 p2 p3 k n :: nat
  assumes "n = p0 + 65536 * p1 + 4294967296 * p2 + 281474976710656 * p3 + 18446744073709551616 * k"
    and "p0 < 65536" "p1 < 65536" "p2 < 65536" "p3 < 65536"
  shows "n mod 18446744073709551616 div 281474976710656 = p3"
proof -
  have "n mod 18446744073709551616 = p0 + 65536 * p1 + 4294967296 * p2 + 281474976710656 * p3"
    unfolding assms(1) mod_mult_self2 by (rule mod_less) (use assms in linarith)
  moreover have "(p0 + 65536 * p1 + 4294967296 * p2 + 281474976710656 * p3) div 281474976710656 = p3"
  proof (rule div_nat_eqI)
    show "p0 + 65536 * p1 + 4294967296 * p2 + 281474976710656 * p3 < 281474976710656 * Suc p3"
      unfolding mult_Suc_right using assms(2-5) by linarith
  qed simp
  ultimately show ?thesis by simp
qed

lemma fold_lanes:
  assumes "unat w = lanes4 x0 x1 x2 x3" "unat (m :: u64) = lanes4 m0 m1 m2 m3"
    and "m0 * x0 < 65536" "m0 * x1 + m1 * x0 < 65536" "m0 * x2 + m1 * x1 + m2 * x0 < 65536"
    and "m0 * x3 + m1 * x2 + m2 * x1 + m3 * x0 < 65536"
  shows "unat (drop_bit 48 (w * m)) = m0 * x3 + m1 * x2 + m2 * x1 + m3 * x0"
proof -
  have "unat (w * m) = (unat w * unat m) mod 18446744073709551616"
    by (simp add: unat_word_ariths)
  moreover have "unat w * unat m = m0 * x0 + 65536 * (m0 * x1 + m1 * x0) + 4294967296 * (m0 * x2 + m1 * x1 + m2 * x0) +
      281474976710656 * (m0 * x3 + m1 * x2 + m2 * x1 + m3 * x0) +
      18446744073709551616 * (m1 * x3 + m2 * x2 + m3 * x1 + 65536 * (m2 * x3 + m3 * x2 + 65536 * (m3 * x3)))"
    unfolding assms(1,2) lanes4_def by algebra
  moreover note top_lane [OF this assms(3-6)]
  ultimately show ?thesis unfolding unat_shift_right by simp
qed

text \<open>What one block does, as sums: \<open>A\<close> are the lanes of \<open>a1\<close> or \<open>b1\<close>, \<open>B\<close> those of \<open>a2\<close> or \<open>b2\<close>.\<close>

definition total :: "u64 \<Rightarrow> nat" where
  "total w = lane w 0 + lane w 1 + lane w 2 + lane w 3"

fun do1 :: "nat \<times> nat \<Rightarrow> u8 \<Rightarrow> nat \<times> nat" where
  "do1 (s1, s2) b = (s1 + unat b, s2 + (s1 + unat b))"

text \<open>
  \<open>lanes_ok k (a1, a2, b1, b2)\<close>: after \<open>k\<close> rounds a lane of \<open>a1\<close>, \<open>b1\<close> holds at most
  \<open>k\<close> bytes and one of \<open>a2\<close>, \<open>b2\<close> at most \<open>0 + 1 + \<dots> + (k-1)\<close> bytes.
\<close>

definition lanes_ok :: "nat \<Rightarrow> u64 \<times> u64 \<times> u64 \<times> u64 \<Rightarrow> bool" where
  "lanes_ok k = (\<lambda>(a1, a2, b1, b2). \<forall>i < 4. lane a1 i \<le> 255 * k \<and> lane b1 i \<le> 255 * k \<and>
     2 * lane a2 i \<le> 255 * (k * (k - 1)) \<and> 2 * lane b2 i \<le> 255 * (k * (k - 1)))"

definition part1 :: "u64 \<times> u64 \<times> u64 \<times> u64 \<Rightarrow> nat" where
  "part1 = (\<lambda>(a1, a2, b1, b2). total a1 + total b1)"

definition part2 :: "u64 \<times> u64 \<times> u64 \<times> u64 \<Rightarrow> nat" where
  "part2 = (\<lambda>(a1, a2, b1, b2). 8 * total a2 + 8 * total b2 +
     (8 * lane a1 0 + 6 * lane a1 1 + 4 * lane a1 2 + 2 * lane a1 3) +
     (7 * lane b1 0 + 5 * lane b1 1 + 3 * lane b1 2 + lane b1 3))"

lemma lanes_step:
  assumes "lanes_ok k (a1, a2, b1, b2)" "k < 23" "v = AV_RN64 [c0, c1, c2, c3, c4, c5, c6, c7]"
    and "st = (a1 + (v AND 0x00FF00FF00FF00FF), a2 + a1, b1 + (drop_bit 8 v AND 0x00FF00FF00FF00FF), b2 + b1)"
  shows "lanes_ok (Suc k) st"
    and "foldl do1 (s1 + part1 (a1, a2, b1, b2), s2 + part2 (a1, a2, b1, b2)) [c0, c1, c2, c3, c4, c5, c6, c7] =
      (s1 + part1 st, s2 + 8 * s1 + part2 st)"
proof -
  let ?a = "v AND 0x00FF00FF00FF00FF" and ?b = "drop_bit 8 v AND 0x00FF00FF00FF00FF"
  have B: "unat c \<le> 255" for c :: u8 using unsigned_less [of c, where 'a = nat] by simp
  then have B': "unat c < 65536" for c :: u8 using le_less_trans [of "unat c" 255 65536] by simp
  note la = lane_unique [OF lanes_of_bytes(1) [OF assms(3)] B' B' B' B']
  note lb = lane_unique [OF lanes_of_bytes(2) [OF assms(3)] B' B' B' B']
  have all4: "(\<forall>i < 4. P i) \<longleftrightarrow> P 0 \<and> P 1 \<and> P 2 \<and> P (3 :: nat)" for P
    by (auto simp: less_Suc_eq numeral_eq_Suc)
  have k2: "k * (k - 1) + 2 * k = Suc k * k" by (cases k) simp_all
  have "Suc k * k \<le> 23 * 22" using assms(2) by (intro mult_le_mono) simp_all
  then have kb: "k * (k - 1) + 2 * k \<le> 506" using k2 by simp
  have ok: "\<forall>i < 4. lane a1 i \<le> 255 * k" "\<forall>i < 4. lane b1 i \<le> 255 * k"
    "\<forall>i < 4. 2 * lane a2 i \<le> 255 * (k * (k - 1))" "\<forall>i < 4. 2 * lane b2 i \<le> 255 * (k * (k - 1))"
    using assms(1) by (simp_all add: lanes_ok_def)
  have bytes: "\<forall>i < 4. lane ?a i \<le> 255 \<and> lane ?b i \<le> 255" unfolding all4 la lb using B by simp
  have add1: "\<forall>i < 4. lane (a1 + ?a) i = lane a1 i + lane ?a i"
    using lane_add [of a1 ?a] ok(1) bytes assms(2) by fastforce
  have add2: "\<forall>i < 4. lane (b1 + ?b) i = lane b1 i + lane ?b i"
    using lane_add [of b1 ?b] ok(2) bytes assms(2) by fastforce
  have "2 * lane a2 i + 2 * lane a1 i < 2 * 65536" if "i < 4" for i
    using ok(1,3) kb that by fastforce
  then have add3: "\<forall>i < 4. lane (a2 + a1) i = lane a2 i + lane a1 i" using lane_add [of a2 a1] by fastforce
  have "2 * lane b2 i + 2 * lane b1 i < 2 * 65536" if "i < 4" for i
    using ok(2,4) kb that by fastforce
  then have add4: "\<forall>i < 4. lane (b2 + b1) i = lane b2 i + lane b1 i" using lane_add [of b2 b1] by fastforce
  have le2: "2 * (x + y) \<le> 255 * (Suc k * (Suc k - 1))" if "2 * x \<le> 255 * (k * (k - 1))" "y \<le> 255 * k" for x y
    using that k2 by simp
  show "lanes_ok (Suc k) st"
    unfolding assms(4) lanes_ok_def prod.case
  proof (intro allI impI conjI)
    fix i :: nat
    assume i: "i < 4"
    show "lane (a1 + ?a) i \<le> 255 * Suc k" using add1 ok(1) bytes i by fastforce
    show "lane (b1 + ?b) i \<le> 255 * Suc k" using add2 ok(2) bytes i by fastforce
    show "2 * lane (a2 + a1) i \<le> 255 * (Suc k * (Suc k - 1))"
      using add3 le2 [of "lane a2 i" "lane a1 i"] ok(1,3) i by simp
    show "2 * lane (b2 + b1) i \<le> 255 * (Suc k * (Suc k - 1))"
      using add4 le2 [of "lane b2 i" "lane b1 i"] ok(2,4) i by simp
  qed
  show "foldl do1 (s1 + part1 (a1, a2, b1, b2), s2 + part2 (a1, a2, b1, b2)) [c0, c1, c2, c3, c4, c5, c6, c7] =
      (s1 + part1 st, s2 + 8 * s1 + part2 st)"
    using add1 add2 add3 add4 la lb unfolding assms(4) all4 by (simp add: part1_def part2_def total_def)
qed

lemma lanes_run:
  assumes "length buf = 8 * n" "lanes_ok k st" "k + n \<le> 23"
  shows "lanes_ok (k + n) (adler_lanes buf st) \<and>
    foldl do1 (s1 + part1 st, s2 + part2 st) buf =
      (s1 + part1 (adler_lanes buf st), s2 + 8 * n * s1 + part2 (adler_lanes buf st))"
  using assms
proof (induction n arbitrary: buf k st s2)
  case 0
  then show ?case by (cases st) simp
next
  case (Suc n)
  obtain a1 a2 b1 b2 where st: "st = (a1, a2, b1, b2)" by (cases st)
  obtain c0 c1 c2 c3 c4 c5 c6 c7 bs where buf: "buf = c0 # c1 # c2 # c3 # c4 # c5 # c6 # c7 # bs" "length bs = 8 * n"
  proof -
    have "length buf = Suc (Suc (Suc (Suc (Suc (Suc (Suc (Suc (8 * n))))))))" using Suc.prems(1) by simp
    then show thesis using that by (auto simp: length_Suc_conv)
  qed
  define v where "v = AV_RN64 [c0, c1, c2, c3, c4, c5, c6, c7]"
  define st1 where "st1 = (a1 + (v AND 0x00FF00FF00FF00FF), a2 + a1, b1 + (drop_bit 8 v AND 0x00FF00FF00FF00FF), b2 + b1)"
  note step = lanes_step [OF Suc.prems(2) [unfolded st] _ v_def st1_def]
  have run: "adler_lanes buf st = adler_lanes bs st1"
    unfolding buf(1) st st1_def v_def by (simp add: Let_def)
  have "lanes_ok (Suc k + n) (adler_lanes bs st1) \<and>
    foldl do1 (s1 + part1 st1, (s2 + 8 * s1) + part2 st1) bs =
      (s1 + part1 (adler_lanes bs st1), (s2 + 8 * s1) + 8 * n * s1 + part2 (adler_lanes bs st1))"
    by (rule Suc.IH) (use step(1) Suc.prems(3) buf(2) in simp_all)
  moreover have "foldl do1 (s1 + part1 st, s2 + part2 st) buf = foldl do1 (s1 + part1 st1, (s2 + 8 * s1) + part2 st1) bs"
    using step(2) Suc.prems(3) unfolding buf(1) st
    by (simp only: foldl_Cons foldl_Nil add_Suc_right add_Suc Suc_le_eq)
  ultimately show ?case unfolding run by (simp add: algebra_simps)
qed

lemma fold_lanes4:
  assumes "unat m = lanes4 m0 m1 m2 m3" "\<forall>i < 4. lane w i \<le> N" "(m0 + m1 + m2 + m3) * N < 65536"
  shows "unat (drop_bit 48 (w * m)) = m0 * lane w 3 + m1 * lane w 2 + m2 * lane w 1 + m3 * lane w 0"
proof -
  have l: "lane w 0 \<le> N" "lane w 1 \<le> N" "lane w 2 \<le> N" "lane w 3 \<le> N" using assms(2) by simp_all
  have N: "m0 * N + m1 * N + m2 * N + m3 * N < 65536" using assms(3) by (simp only: distrib_right)
  have le: "m * x \<le> m * N" if "x \<le> N" for m x :: nat using that by simp
  show ?thesis
    by (rule fold_lanes [OF lanes4_lane assms(1)])
      (use N le [OF l(1), of m0] le [OF l(1), of m1] le [OF l(1), of m2] le [OF l(1), of m3]
         le [OF l(2), of m0] le [OF l(2), of m1] le [OF l(2), of m2] le [OF l(3), of m0] le [OF l(3), of m1]
         le [OF l(4), of m0] in linarith)+
qed

lemma all4: "(\<forall>i < 4. P i) \<longleftrightarrow> P 0 \<and> P 1 \<and> P 2 \<and> P (3 :: nat)"
  by (auto simp: less_Suc_eq numeral_eq_Suc)

lemma unat_add_to:
  fixes a b :: u64
  assumes "unat a = x" "unat b = y" "x + y < 18446744073709551616"
  shows "unat (a + b) = x + y"
  using assms unat_add_lem [of a b] by simp

lemma unat_double_to:
  fixes b :: u64
  assumes "unat b = y" "2 * y < 18446744073709551616"
  shows "unat (2 * b) = 2 * y"
proof -
  have "2 * b = b + b" by simp
  then show ?thesis using unat_add_to [OF assms(1) assms(1)] assms(2) by simp
qed

lemma masked_sum:
  assumes "\<forall>i < 4. lane a i \<le> 64515 \<and> lane b i \<le> 64515"
  shows "unat (drop_bit 32 (((a AND 0xFFFF0000FFFF) + (b AND 0xFFFF0000FFFF) +
      (drop_bit 16 a AND 0xFFFF0000FFFF) + (drop_bit 16 b AND 0xFFFF0000FFFF)) * 0x800000008)) = 8 * total a + 8 * total b"
proof -
  let ?X = "(a AND 0xFFFF0000FFFF) + (b AND 0xFFFF0000FFFF) + (drop_bit 16 a AND 0xFFFF0000FFFF) + (drop_bit 16 b AND 0xFFFF0000FFFF)"
  define lo where "lo = lane a 0 + lane b 0 + lane a 1 + lane b 1"
  define hi where "hi = lane a 2 + lane b 2 + lane a 3 + lane b 3"
  have lim: "lo \<le> 258060" "hi \<le> 258060"
    using assms unfolding lo_def hi_def all4 by linarith+
  note parts = lanes_and_shift [of a] lanes_and_shift [of b]
  have s: "unat (a AND 0xFFFF0000FFFF) + unat (b AND 0xFFFF0000FFFF) + unat (drop_bit 16 a AND 0xFFFF0000FFFF) +
      unat (drop_bit 16 b AND 0xFFFF0000FFFF) = lo + 4294967296 * hi"
    unfolding parts lanes4_def lo_def hi_def by simp
  have X: "unat ?X = lo + 4294967296 * hi"
  proof -
    have "unat ?X = (unat (a AND 0xFFFF0000FFFF) + unat (b AND 0xFFFF0000FFFF) + unat (drop_bit 16 a AND 0xFFFF0000FFFF) +
        unat (drop_bit 16 b AND 0xFFFF0000FFFF)) mod 2 ^ 64"
      by (simp only: unat_word_ariths mod_add_left_eq) simp
    also have "\<dots> = lo + 4294967296 * hi" unfolding s using lim by simp
    finally show ?thesis .
  qed
  have mul: "unat (w * 0x800000008) = unat w * 34359738376 mod 2 ^ 64" for w :: u64
    by (simp add: unat_word_ariths)
  have "unat (?X * 0x800000008) = (lo + 4294967296 * hi) * 34359738376 mod 2 ^ 64"
    unfolding mul X by (rule refl)
  also have "(lo + 4294967296 * hi) * 34359738376 = (8 * lo + 4294967296 * (8 * lo + 8 * hi)) + 2 ^ 64 * (8 * hi)"
    by simp
  also have "\<dots> mod 2 ^ 64 = 8 * lo + 4294967296 * (8 * lo + 8 * hi)"
    unfolding mod_mult_self2 by (rule mod_less) (use lim in simp)
  finally have "unat (drop_bit 32 (?X * 0x800000008)) = (8 * lo + 4294967296 * (8 * lo + 8 * hi)) div 4294967296"
    by (simp only: unat_shift_right) simp
  also have "\<dots> = 8 * lo + 8 * hi" using lim by simp
  finally show ?thesis by (simp add: lo_def hi_def total_def)
qed

lemma fold_parts:
  assumes "lanes_ok 23 st" "unat s1 < 2 ^ 32" "unat s2 < 2 ^ 32"
  shows "map_prod unat unat (adler_fold st (s1, s2)) = (unat s1 + part1 st, unat s2 + part2 st)"
proof -
  obtain a1 a2 b1 b2 where st: "st = (a1, a2, b1, b2)" by (cases st)
  have ok: "\<forall>i < 4. lane a1 i \<le> 5865" "\<forall>i < 4. lane b1 i \<le> 5865" "\<forall>i < 4. lane a2 i \<le> 64515 \<and> lane b2 i \<le> 64515"
    using assms(1) by (fastforce simp: st lanes_ok_def)+
  have add: "\<forall>i < 4. lane (a1 + b1) i = lane a1 i + lane b1 i" using lane_add [of a1 b1] ok(1,2) by fastforce
  have sm: "\<forall>i < 4. lane (a1 + b1) i \<le> 11730" using add ok(1,2) by fastforce
  have f1: "unat (drop_bit 48 ((a1 + b1) * 0x1000100010001)) = total a1 + total b1"
    using fold_lanes4 [of "0x1000100010001" 1 1 1 1, OF _ sm] add by (simp add: lanes4_def total_def)
  have f2: "unat (drop_bit 48 (a1 * 0x4000300020001)) = 1 * lane a1 3 + 2 * lane a1 2 + 3 * lane a1 1 + 4 * lane a1 0"
    by (rule fold_lanes4 [OF _ ok(1)]) (simp_all add: lanes4_def)
  have f3: "unat (drop_bit 48 (b1 * 0x1000100010001)) = 1 * lane b1 3 + 1 * lane b1 2 + 1 * lane b1 1 + 1 * lane b1 0"
    by (rule fold_lanes4 [OF _ ok(2)]) (simp_all add: lanes4_def)
  have f4: "unat (drop_bit 48 (b1 * 0x3000200010000)) = 0 * lane b1 3 + 1 * lane b1 2 + 2 * lane b1 1 + 3 * lane b1 0"
    by (rule fold_lanes4 [OF _ ok(2)]) (simp_all add: lanes4_def)
  note f5 = masked_sum [OF ok(3)]
  have lim: "lane a1 0 \<le> 5865" "lane a1 1 \<le> 5865" "lane a1 2 \<le> 5865" "lane a1 3 \<le> 5865"
    "lane b1 0 \<le> 5865" "lane b1 1 \<le> 5865" "lane b1 2 \<le> 5865" "lane b1 3 \<le> 5865"
    "total a2 \<le> 258060" "total b2 \<le> 258060"
    using ok unfolding total_def all4 by linarith+
  have small: "unat s1 < 4294967296" "unat s2 < 4294967296" using assms(2,3) by simp_all
  have "unat (s1 + drop_bit 48 ((a1 + b1) * 0x1000100010001)) = unat s1 + (total a1 + total b1)"
    by (rule unat_add_to [OF refl f1]) (use small(1) lim in \<open>unfold total_def, linarith\<close>)
  moreover have "unat (s2 + (drop_bit 32 (((a2 AND 0xFFFF0000FFFF) + (b2 AND 0xFFFF0000FFFF) +
                (drop_bit 16 a2 AND 0xFFFF0000FFFF) + (drop_bit 16 b2 AND 0xFFFF0000FFFF)) * 0x800000008)
          + 2 * drop_bit 48 (a1 * 0x4000300020001) + drop_bit 48 (b1 * 0x1000100010001)
          + 2 * drop_bit 48 (b1 * 0x3000200010000))) = unat s2 + (8 * total a2 + 8 * total b2 +
      2 * (1 * lane a1 3 + 2 * lane a1 2 + 3 * lane a1 1 + 4 * lane a1 0) +
      (1 * lane b1 3 + 1 * lane b1 2 + 1 * lane b1 1 + 1 * lane b1 0) +
      2 * (0 * lane b1 3 + 1 * lane b1 2 + 2 * lane b1 1 + 3 * lane b1 0))"
    by (intro unat_add_to [OF refl] unat_add_to unat_double_to f2 f3 f4 f5) (use small(2) lim in simp_all)
  ultimately show ?thesis by (simp add: st adler_fold_def part1_def part2_def)
qed

lemma lanes_zero: "lane 0 i = 0"
proof -
  have "digit 0 i = 0" by (induction i) simp_all
  then show ?thesis by (simp add: lane_def)
qed

text \<open>A block of at most 23 groups of eight bytes: its two sums are those of byte-wise steps.\<close>

lemma lanes_ok_mono: "lanes_ok k st \<Longrightarrow> k \<le> n \<Longrightarrow> lanes_ok n st"
proof -
  assume "lanes_ok k st" "k \<le> n"
  moreover have "255 * k \<le> 255 * n" "255 * (k * (k - 1)) \<le> 255 * (n * (n - 1))"
    using \<open>k \<le> n\<close> by (simp_all add: mult_le_mono diff_le_mono)
  ultimately show ?thesis unfolding lanes_ok_def by (fastforce intro: le_trans)
qed

lemma block_sums:
  assumes "length buf = 8 * n" "n \<le> 23" "unat s1 < 65536" "unat s2 < 65536"
  shows "map_prod unat unat (adler_block (s1, s2) buf) = foldl do1 (unat s1, unat s2) buf"
proof (cases "n = 0")
  case True
  with assms(1) show ?thesis by (simp add: adler_block_def)
next
  case False
  let ?st = "adler_lanes buf (0, 0, 0, 0)"
  have ok0: "lanes_ok 0 (0, 0, 0, 0)" "part1 (0, 0, 0, 0) = 0" "part2 (0, 0, 0, 0) = 0"
    by (simp_all add: lanes_ok_def part1_def part2_def total_def lanes_zero)
  note run = lanes_run [OF assms(1) ok0(1), of "unat s1" "unat s2"]
  have ok: "lanes_ok 23 ?st" using run assms(2) by (auto intro: lanes_ok_mono)
  have n: "unat (of_nat (8 * n) :: u64) = 8 * n"
    using assms(2) by (simp only: unat_of_nat) (simp add: take_bit_nat_eq_self)
  have le: "unat s1 * (8 * n) \<le> 65536 * (8 * 23)" using assms(2,3) by (intro mult_le_mono) simp_all
  have "unat (s1 * of_nat (8 * n)) = unat s1 * (8 * n)"
    using le by (simp only: unat_word_ariths n) simp
  then have s2: "unat (s2 + s1 * of_nat (8 * n)) = unat s2 + unat s1 * (8 * n)"
    by (rule unat_add_to [OF refl]) (use assms(4) le in linarith)
  have "map_prod unat unat (adler_fold ?st (s1, s2 + s1 * of_nat (8 * n))) =
      (unat s1 + part1 ?st, unat (s2 + s1 * of_nat (8 * n)) + part2 ?st)"
  proof (rule fold_parts [OF ok])
    show "unat (s2 + s1 * of_nat (8 * n)) < 2 ^ 32"
      unfolding s2 by (rule le_less_trans [of _ "65536 + 65536 * (8 * 23)"]) (use assms(4) le in linarith, simp)
  qed (use assms(3) in simp)
  moreover have "buf \<noteq> []" using assms(1) False by auto
  ultimately show ?thesis
    using run assms False unfolding s2 by (simp add: adler_block_def ok0 algebra_simps)
qed

section \<open>The whole checksum\<close>

definition mod_BASE :: "nat \<times> nat \<Rightarrow> nat \<times> nat" where
  "mod_BASE = (\<lambda>(s1, s2). (s1 mod BASE, s2 mod BASE))"

lemma foldl_do1_mod: "mod_BASE (foldl do1 (mod_BASE s) buf) = mod_BASE (foldl do1 s buf)"
proof (induction buf arbitrary: s)
  case Nil
  then show ?case by (cases s) (simp add: mod_BASE_def)
next
  case (Cons b buf)
  have "mod_BASE (foldl do1 (do1 (mod_BASE s) b) buf) = mod_BASE (foldl do1 (mod_BASE (do1 (mod_BASE s) b)) buf)"
    by (rule Cons.IH [symmetric])
  also have "mod_BASE (do1 (mod_BASE s) b) = mod_BASE (do1 s b)"
  proof (cases s)
    case (Pair s1 s2)
    have "(s2 mod BASE + (s1 mod BASE + unat b)) mod BASE = ((s2 mod BASE + s1 mod BASE) + unat b) mod BASE"
      by (simp only: add.assoc)
    also have "\<dots> = (s2 + s1 + unat b) mod BASE" by (metis mod_add_eq mod_add_left_eq)
    finally show ?thesis using Pair by (simp add: mod_BASE_def mod_add_left_eq add.assoc)
  qed
  also have "mod_BASE (foldl do1 (mod_BASE (do1 s b)) buf) = mod_BASE (foldl do1 (do1 s b) buf)" by (rule Cons.IH)
  finally show ?case by simp
qed

lemma do1_bound: "fst (foldl do1 s buf) \<le> fst s + 255 * length buf \<and>
  snd (foldl do1 s buf) \<le> snd s + length buf * (fst s + 255 * length buf)"
proof (induction buf rule: rev_induct)
  case Nil
  then show ?case by simp
next
  case (snoc b bs)
  have "unat b \<le> 255" using unsigned_less [of b, where 'a = nat] by simp
  moreover obtain t1 t2 where "foldl do1 s bs = (t1, t2)" by (cases "foldl do1 s bs")
  moreover have "t2 + (t1 + unat b) \<le> snd s + Suc (length bs) * (fst s + 255 * Suc (length bs))"
    if "t1 \<le> fst s + 255 * length bs" "t2 \<le> snd s + length bs * (fst s + 255 * length bs)"
  proof -
    define P where "P = length bs * (fst s + 255 * Suc (length bs))"
    have "length bs * (fst s + 255 * length bs) \<le> P" by (simp add: P_def)
    moreover have "Suc (length bs) * (fst s + 255 * Suc (length bs)) = (fst s + (255 + 255 * length bs)) + P"
      by (simp add: P_def)
    ultimately show ?thesis using that \<open>unat b \<le> 255\<close> by linarith
  qed
  ultimately show ?case using snoc by simp
qed

lemma adler_round:
  assumes "unat s1 < 65536" "unat s2 < 65536" "buf \<noteq> []" "len2 = min ((length buf - 1) div 8 * 8) (23 * 8)"
    and "adler_block (s1, s2) (take len2 buf) = (t1, t2)"
    and "u1 = (t1 + ucast (buf ! len2)) mod 65521" "u2 = (t2 + (t1 + ucast (buf ! len2))) mod 65521"
  shows "(unat u1, unat u2) = mod_BASE (foldl do1 (unat s1, unat s2) (take (len2 + 1) buf))"
proof -
  have len2: "len2 < length buf" "len2 = 8 * (len2 div 8)" "len2 div 8 \<le> 23" "len2 \<le> 184"
  proof -
    have "0 < length buf" "(length buf - 1) div 8 * 8 \<le> length buf - 1" using assms(3) by simp_all
    then show "len2 < length buf" unfolding assms(4) by linarith
    show "len2 = 8 * (len2 div 8)" "len2 div 8 \<le> 23" "len2 \<le> 184" unfolding assms(4) by (auto simp: min_def)
  qed
  have "map_prod unat unat (adler_block (s1, s2) (take len2 buf)) = foldl do1 (unat s1, unat s2) (take len2 buf)"
    by (rule block_sums [OF _ len2(3) assms(1,2)]) (use len2 in simp)
  then have t: "foldl do1 (unat s1, unat s2) (take len2 buf) = (unat t1, unat t2)" using assms(5) by simp
  have "length (take len2 buf) = len2" using len2(1) by simp
  then have tb: "unat t1 \<le> unat s1 + 255 * len2" "unat t2 \<le> unat s2 + len2 * (unat s1 + 255 * len2)"
    using do1_bound [of "(unat s1, unat s2)" "take len2 buf"] t by simp_all
  have "len2 * (unat s1 + 255 * len2) \<le> 184 * (65536 + 255 * 184)"
    using assms(1) len2(4) by (intro mult_le_mono add_mono) simp_all
  then have tb': "unat t1 \<le> 112456" "unat t2 \<le> 30000000" using tb assms(1,2) len2(4) by simp_all
  define b where "b = buf ! len2"
  have "unat b < 256" using unsigned_less [of b, where 'a = nat] by simp
  then have ub: "unat (ucast b :: u64) = unat b" by (simp add: unsigned_ucast_eq take_bit_nat_eq_self)
  have 1: "unat (t1 + ucast b) = unat t1 + unat b" using tb' \<open>unat b < 256\<close> by (intro unat_add_to [OF refl ub]) simp
  have 2: "unat (t2 + (t1 + ucast b)) = unat t2 + (unat t1 + unat b)"
    by (rule unat_add_to [OF refl 1]) (use tb' \<open>unat b < 256\<close> in simp)
  have "take (len2 + 1) buf = take len2 buf @ [b]" using len2(1) by (simp add: take_Suc_conv_app_nth b_def)
  then show ?thesis using t 1 2 by (simp add: assms(6,7) b_def [symmetric] unat_mod mod_BASE_def)
qed

lemma adler_loop_ref:
  "unat (fst s) < 65536 \<Longrightarrow> unat (snd s) < 65536 \<Longrightarrow> buf \<noteq> [] \<Longrightarrow>
   map_prod unat unat (adler_loop s buf) = mod_BASE (foldl do1 (map_prod unat unat s) buf)"
proof (induction buf arbitrary: s rule: length_induct)
  case (1 buf)
  obtain s1 s2 where s: "s = (s1, s2)" by (cases s)
  define len2 where "len2 = min ((length buf - 1) div 8 * 8) (23 * 8)"
  obtain t1 t2 where t: "adler_block (s1, s2) (take len2 buf) = (t1, t2)" by (cases "adler_block (s1, s2) (take len2 buf)")
  define u1 where "u1 = (t1 + ucast (buf ! len2)) mod 65521"
  define u2 where "u2 = (t2 + (t1 + ucast (buf ! len2))) mod 65521"
  have st: "(unat u1, unat u2) = mod_BASE (foldl do1 (unat s1, unat s2) (take (len2 + 1) buf))"
    by (rule adler_round [OF _ _ 1(4) len2_def t u1_def u2_def]) (use 1(2,3) s in simp_all)
  have step: "adler_loop s buf = adler_loop (u1, u2) (drop (len2 + 1) buf)"
    using 1(4) by (subst adler_loop.simps) (simp only: s len2_def [symmetric] t u1_def u2_def Let_def prod.case if_False)
  have split: "foldl do1 (unat s1, unat s2) buf = foldl do1 (foldl do1 (unat s1, unat s2) (take (len2 + 1) buf)) (drop (len2 + 1) buf)"
    by (metis append_take_drop_id foldl_append)
  have small: "unat u1 < 65536" "unat u2 < 65536"
    unfolding u1_def u2_def unat_mod by (rule less_trans [OF mod_less_divisor]; simp)+
  show ?case
  proof (cases "drop (len2 + 1) buf = []")
    case True
    then have "adler_loop s buf = (u1, u2)" unfolding step by (subst adler_loop.simps) (simp only: simp_thms if_True)
    moreover have "foldl do1 (unat s1, unat s2) buf = foldl do1 (unat s1, unat s2) (take (len2 + 1) buf)"
      using split True by simp
    ultimately show ?thesis using st by (simp add: s)
  next
    case False
    have "map_prod unat unat (adler_loop (u1, u2) (drop (len2 + 1) buf)) =
        mod_BASE (foldl do1 (map_prod unat unat (u1, u2)) (drop (len2 + 1) buf))"
      by (rule 1(1) [rule_format]) (use small False 1(4) in simp_all)
    also have "map_prod unat unat (u1, u2) = mod_BASE (foldl do1 (unat s1, unat s2) (take (len2 + 1) buf))"
      using st by simp
    finally show ?thesis unfolding step foldl_do1_mod split [symmetric] by (simp add: s)
  qed
qed

text \<open>The two halves of a checksum, and the checksum that has given halves.\<close>

definition halves :: "u64 \<Rightarrow> nat \<times> nat" where
  "halves adler = (unat adler mod 65536, unat adler div 65536)"

lemma pack_halves:
  assumes "unat s1 < 65536" "unat s2 < 65536"
  shows "halves (push_bit 16 s2 OR s1) = (unat s1, unat s2)" "unat (push_bit 16 s2 OR s1) < 2 ^ 32"
proof -
  have "s1 AND push_bit 16 s2 = 0"
  proof (rule bit_word_eqI)
    fix n
    have "unat s1 < 2 ^ 16" using assms(1) by simp
    then have "take_bit 16 s1 = s1" by (simp add: word_unat_eq_iff unsigned_take_bit_eq take_bit_nat_eq_self)
    then have "bit s1 n \<Longrightarrow> n < 16" by (metis bit_take_bit_iff)
    then show "bit (s1 AND push_bit 16 s2) n = bit 0 n" by (auto simp: bit_and_iff bit_push_bit_iff)
  qed
  then have "push_bit 16 s2 OR s1 = s1 + 65536 * s2"
    by (simp add: disjunctive_add_eq_or [symmetric] or.commute push_bit_eq_mult)
  moreover have "unat (65536 * s2) = 65536 * unat s2" using assms(2) by (simp add: unat_word_ariths)
  then have "unat (s1 + 65536 * s2) = unat s1 + 65536 * unat s2"
    by (rule unat_add_to [OF refl]) (use assms in linarith)
  ultimately show "halves (push_bit 16 s2 OR s1) = (unat s1, unat s2)" "unat (push_bit 16 s2 OR s1) < 2 ^ 32"
    using assms by (simp_all add: halves_def)
qed

lemma unpack_halves:
  "unat (adler AND 0xffff) = fst (halves adler)" "unat (drop_bit 16 adler) = snd (halves adler)"
proof -
  have "(0xffff :: u64) = mask 16" by (simp add: mask_eq_exp_minus_1)
  then show "unat (adler AND 0xffff) = fst (halves adler)"
    by (simp only: take_bit_eq_mask [symmetric] unsigned_take_bit_eq take_bit_eq_mod halves_def fst_conv) (simp add: unat_mod)
  show "unat (drop_bit 16 adler) = snd (halves adler)"
    unfolding unat_shift_right halves_def by simp
qed

lemma update_halves:
  assumes "unat adler < 2 ^ 32"
  shows "buf \<noteq> [] \<Longrightarrow> halves (av_adler32_update adler buf) = mod_BASE (foldl do1 (halves adler) buf)"
    and "unat (av_adler32_update adler buf) < 2 ^ 32"
    and "av_adler32_update adler [] = adler"
proof -
  have h: "fst (halves adler) < 65536" "snd (halves adler) < 65536"
    using assms by (simp_all add: halves_def)
  obtain u1 u2 where u: "adler_loop (adler AND 0xffff, drop_bit 16 adler) buf = (u1, u2)"
    by (cases "adler_loop (adler AND 0xffff, drop_bit 16 adler) buf")
  have r: "(unat u1, unat u2) = mod_BASE (foldl do1 (halves adler) buf)" if "buf \<noteq> []"
    using adler_loop_ref [of "(adler AND 0xffff, drop_bit 16 adler)" buf] that h u
    by (simp add: unpack_halves)
  have lim: "unat u1 < 65536 \<and> unat u2 < 65536"
  proof (cases "buf = []")
    case True
    then have "u1 = adler AND 0xffff" "u2 = drop_bit 16 adler" using u by (subst (asm) adler_loop.simps; simp)+
    then show ?thesis using h by (simp only: unpack_halves)
  next
    case False
    from r [OF this] show ?thesis
      by (auto simp: mod_BASE_def split: prod.splits intro: less_trans [OF mod_less_divisor])
  qed
  have res: "av_adler32_update adler buf = push_bit 16 u2 OR u1" by (simp add: av_adler32_update_def u)
  show "buf \<noteq> [] \<Longrightarrow> halves (av_adler32_update adler buf) = mod_BASE (foldl do1 (halves adler) buf)"
    using pack_halves(1) lim r by (simp add: res)
  show "unat (av_adler32_update adler buf) < 2 ^ 32" using pack_halves(2) lim by (simp only: res)
  have e: "adler_loop s [] = s" for s by (subst adler_loop.simps) simp
  show "av_adler32_update adler [] = adler"
  proof -
    have "unat (adler AND 0xffff) < 65536" "unat (drop_bit 16 adler) < 65536" using h by (simp_all only: unpack_halves)
    from pack_halves(1) [OF this] have "halves (av_adler32_update adler []) = halves adler"
      by (simp add: av_adler32_update_def e unpack_halves)
    then have "unat (av_adler32_update adler []) = unat adler"
      unfolding halves_def by (metis Pair_inject div_mult_mod_eq)
    then show ?thesis by (simp only: word_unat_eq_iff)
  qed
qed

lemma mod_BASE_idem: "mod_BASE (mod_BASE s) = mod_BASE s"
  by (cases s) (simp add: mod_BASE_def)

lemma update_append:
  assumes "unat adler < 2 ^ 32" "mod_BASE (halves adler) = halves adler"
  shows "av_adler32_update adler (xs @ ys) = av_adler32_update (av_adler32_update adler xs) ys"
proof (cases "xs = [] \<or> ys = []")
  case True
  then show ?thesis using update_halves(3) [OF assms(1)] update_halves(3) [OF update_halves(2) [OF assms(1)]] by auto
next
  case False
  note u = update_halves [OF assms(1)]
  have "halves (av_adler32_update adler (xs @ ys)) = mod_BASE (foldl do1 (foldl do1 (halves adler) xs) ys)"
    using u(1) [of "xs @ ys"] False by simp
  also have "\<dots> = mod_BASE (foldl do1 (halves (av_adler32_update adler xs)) ys)"
    using u(1) [of xs] False by (simp add: foldl_do1_mod)
  also have "\<dots> = halves (av_adler32_update (av_adler32_update adler xs) ys)"
    using update_halves(1) [OF u(2)] False by simp
  finally have "unat (av_adler32_update adler (xs @ ys)) = unat (av_adler32_update (av_adler32_update adler xs) ys)"
    unfolding halves_def by (metis Pair_inject div_mult_mod_eq)
  then show ?thesis by (simp only: word_unat_eq_iff)
qed

definition adler_valid :: "u64 \<Rightarrow> bool" where
  "adler_valid adler \<longleftrightarrow> unat adler < 2 ^ 32 \<and> mod_BASE (halves adler) = halves adler"

lemma adler_valid_update: "adler_valid adler \<Longrightarrow> adler_valid (av_adler32_update adler buf)"
  using update_halves [where adler = adler] mod_BASE_idem by (cases "buf = []") (auto simp: adler_valid_def)

interpretation adler: incremental adler_valid "\<lambda>a. a" av_adler32_update
  by unfold_locales (use adler_valid_update in \<open>auto simp: adler_valid_def update_append update_halves(3)\<close>)

section \<open>Properties\<close>

text \<open>
  C30: The checksum computed 64 bits at a time is that of the definition: its low half is the
  byte sum and its high half the sum of the running byte sums, both modulo 65521, however
  the message is cut into pieces.
\<close>

theorem av_adler32_update_correct:
  assumes "adler_valid adler" "concat bufs \<noteq> []"
  shows "unat (foldl av_adler32_update adler bufs) =
      fst (foldl do1 (halves adler) (concat bufs)) mod 65521 +
      65536 * (snd (foldl do1 (halves adler) (concat bufs)) mod 65521)"
proof -
  let ?buf = "concat bufs"
  have "unat adler < 2 ^ 32" using assms(1) by (simp add: adler_valid_def)
  from update_halves(1) [OF this assms(2)]
  have "unat (av_adler32_update adler ?buf) mod 65536 = fst (foldl do1 (halves adler) ?buf) mod 65521"
    "unat (av_adler32_update adler ?buf) div 65536 = snd (foldl do1 (halves adler) ?buf) mod 65521"
    by (simp_all add: halves_def mod_BASE_def split: prod.splits)
  then show ?thesis using adler.chunks [OF assms(1), of bufs] by (metis mod_mult_div_eq)
qed

lemma av_adler32_update_correct_witness:
  "unat (foldl av_adler32_update 1 [[97], [98, 99]]) = 295 + 65536 * 589"
  using av_adler32_update_correct [of 1 "[[97], [98, 99]]"]
  by (simp add: halves_def adler_valid_def mod_BASE_def)

end
