(* ===== verification/PixDesc.thy ===== *)
theory PixDesc
  imports Bytes
begin

text \<open>
  Pixel format descriptors of libavutil (lavc/libavutil/pixdesc.c, pixdesc.h, pixfmt.h): the
  table of all formats, the two routines that read and write one component of a line of
  pixels through a descriptor, look-up by name, and bits per pixel. Memory is a map from
  addresses to bytes; \<open>data\<close> gives the address of each plane.
\<close>

record AVComponentDescriptor =
  plane :: nat
  step_minus1 :: nat
  offset_plus1 :: nat
  shift :: nat
  depth_minus1 :: nat

record AVPixFmtDescriptor =
  name :: "string option"
  nb_components :: nat
  log2_chroma_w :: nat
  log2_chroma_h :: nat
  flags :: u8
  comp :: "AVComponentDescriptor list"

definition PIX_FMT_BE :: u8 where "PIX_FMT_BE = 1"
definition PIX_FMT_PAL :: u8 where "PIX_FMT_PAL = 2"
definition PIX_FMT_BITSTREAM :: u8 where "PIX_FMT_BITSTREAM = 4"
definition PIX_FMT_HWACCEL :: u8 where "PIX_FMT_HWACCEL = 8"
definition PIX_FMT_PLANAR :: u8 where "PIX_FMT_PLANAR = 16"
definition PIX_FMT_RGB :: u8 where "PIX_FMT_RGB = 32"
definition PIX_FMT_PSEUDOPAL :: u8 where "PIX_FMT_PSEUDOPAL = 64"

lemmas PIX_FMT_flags = PIX_FMT_BE_def PIX_FMT_PAL_def PIX_FMT_BITSTREAM_def PIX_FMT_HWACCEL_def
  PIX_FMT_PLANAR_def PIX_FMT_RGB_def PIX_FMT_PSEUDOPAL_def

text \<open>Initialisers; what an initialiser leaves out is zero.\<close>

definition Comp :: "nat \<Rightarrow> nat \<Rightarrow> nat \<Rightarrow> nat \<Rightarrow> nat \<Rightarrow> AVComponentDescriptor" where
  "Comp p st off sh d = \<lparr>plane = p, step_minus1 = st, offset_plus1 = off, shift = sh, depth_minus1 = d\<rparr>"

definition Desc :: "string \<Rightarrow> nat \<Rightarrow> nat \<Rightarrow> nat \<Rightarrow> AVComponentDescriptor list \<Rightarrow> u8 \<Rightarrow> AVPixFmtDescriptor" where
  "Desc s nb w h cs fl = \<lparr>name = Some s, nb_components = nb, log2_chroma_w = w, log2_chroma_h = h,
     flags = fl, comp = cs @ replicate (4 - length cs) (Comp 0 0 0 0 0)\<rparr>"

section \<open>Lines of pixels\<close>

type_synonym memory = "int \<Rightarrow> u8"

definition AV_RL16 :: "memory \<Rightarrow> int \<Rightarrow> u16" where
  "AV_RL16 mem p = ucast (mem p) OR push_bit 8 (ucast (mem (p + 1)))"

definition AV_RB16 :: "memory \<Rightarrow> int \<Rightarrow> u16" where
  "AV_RB16 mem p = ucast (mem (p + 1)) OR push_bit 8 (ucast (mem p))"

definition AV_WL16 :: "int \<Rightarrow> u16 \<Rightarrow> memory \<Rightarrow> memory" where
  "AV_WL16 p v mem = mem(p := ucast v, p + 1 := ucast (drop_bit 8 v))"

definition AV_WB16 :: "int \<Rightarrow> u16 \<Rightarrow> memory \<Rightarrow> memory" where
  "AV_WB16 p v mem = mem(p := ucast (drop_bit 8 v), p + 1 := ucast v)"

text \<open>The palette look-up \<open>data[1][4*val + c]\<close>, when asked for.\<close>

definition pal_component :: "memory \<Rightarrow> (nat \<Rightarrow> int) \<Rightarrow> int \<Rightarrow> bool \<Rightarrow> u32 \<Rightarrow> u32" where
  "pal_component mem data c read_pal val = (if read_pal then ucast (mem (data 1 + 4 * uint val + c)) else val)"

text \<open>\<open>shift -= step; p -= shift >> 3; shift &= 7;\<close> as in both bitstream loops.\<close>

definition next_bits :: "nat \<Rightarrow> int \<times> int \<Rightarrow> int \<times> int" where
  "next_bits step = (\<lambda>(p, sh). (p - drop_bit 3 (sh - int step), (sh - int step) AND 7))"

fun read_bits_loop :: "nat \<Rightarrow> (u32 \<Rightarrow> u32) \<Rightarrow> memory \<Rightarrow> nat \<Rightarrow> u32 \<Rightarrow> int \<times> int \<Rightarrow> u16 list" where
  "read_bits_loop 0 pal mem step msk st = []"
| "read_bits_loop (Suc w) pal mem step msk (p, sh) =
     (let val = pal (drop_bit (nat sh) (ucast (mem p)) AND msk)
      in ucast val # read_bits_loop w pal mem step msk (next_bits step (p, sh)))"

fun read_bytes_loop :: "nat \<Rightarrow> (u32 \<Rightarrow> u32) \<Rightarrow> memory \<Rightarrow> bool \<Rightarrow> bool \<Rightarrow> nat \<Rightarrow> nat \<Rightarrow> u32 \<Rightarrow> int \<Rightarrow> u16 list" where
  "read_bytes_loop 0 pal mem is_8bit be sh step msk p = []"
| "read_bytes_loop (Suc w) pal mem is_8bit be sh step msk p =
     (let val = (if is_8bit then ucast (mem p) else if be then ucast (AV_RB16 mem p) else ucast (AV_RL16 mem p));
          val = pal (drop_bit sh val AND msk)
      in ucast val # read_bytes_loop w pal mem is_8bit be sh step msk (p + int step))"

definition av_read_image_line :: "memory \<Rightarrow> (nat \<Rightarrow> int) \<Rightarrow> (nat \<Rightarrow> int) \<Rightarrow> AVPixFmtDescriptor \<Rightarrow>
    int \<Rightarrow> int \<Rightarrow> nat \<Rightarrow> nat \<Rightarrow> bool \<Rightarrow> u16 list" where
  "av_read_image_line mem data linesize desc x y c w read_pal =
     (let cd = comp desc ! c;
          depth = depth_minus1 cd + 1;
          msk = push_bit depth 1 - 1;
          step = step_minus1 cd + 1;
          pal = pal_component mem data (int c) read_pal;
          base = data (plane cd) + y * linesize (plane cd)
      in if flags desc AND PIX_FMT_BITSTREAM \<noteq> 0 then
           let skip = x * int step + int (offset_plus1 cd) - 1;
               p = base + drop_bit 3 skip;
               sh = 8 - int depth - (skip AND 7)
           in read_bits_loop w pal mem step msk (p, sh)
         else
           let p = base + x * int step + int (offset_plus1 cd) - 1;
               is_8bit = (shift cd + depth \<le> 8);
               be = (flags desc AND PIX_FMT_BE \<noteq> 0);
               p = (if is_8bit \<and> be then p + 1 else p)
           in read_bytes_loop w pal mem is_8bit be (shift cd) step msk p)"

text \<open>The values written are uint16_t, promoted to int before the shift.\<close>

fun write_bits_loop :: "u16 list \<Rightarrow> nat \<Rightarrow> int \<times> int \<Rightarrow> memory \<Rightarrow> memory" where
  "write_bits_loop [] step st mem = mem"
| "write_bits_loop (v # src) step (p, sh) mem =
     write_bits_loop src step (next_bits step (p, sh))
       (mem(p := mem p OR ucast (push_bit (nat sh) (ucast v :: u32))))"

fun write_bytes_loop :: "u16 list \<Rightarrow> bool \<Rightarrow> bool \<Rightarrow> nat \<Rightarrow> nat \<Rightarrow> int \<Rightarrow> memory \<Rightarrow> memory" where
  "write_bytes_loop [] is_8bit be sh step p mem = mem"
| "write_bytes_loop (v # src) is_8bit be sh step p mem =
     write_bytes_loop src is_8bit be sh step (p + int step)
       (if is_8bit then mem(p := mem p OR ucast (push_bit sh (ucast v :: u32)))
        else if be then AV_WB16 p (AV_RB16 mem p OR ucast (push_bit sh (ucast v :: u32))) mem
        else AV_WL16 p (AV_RL16 mem p OR ucast (push_bit sh (ucast v :: u32))) mem)"

definition av_write_image_line :: "u16 list \<Rightarrow> memory \<Rightarrow> (nat \<Rightarrow> int) \<Rightarrow> (nat \<Rightarrow> int) \<Rightarrow> AVPixFmtDescriptor \<Rightarrow>
    int \<Rightarrow> int \<Rightarrow> nat \<Rightarrow> memory" where
  "av_write_image_line src mem data linesize desc x y c =
     (let cd = comp desc ! c;
          depth = depth_minus1 cd + 1;
          step = step_minus1 cd + 1;
          base = data (plane cd) + y * linesize (plane cd)
      in if flags desc AND PIX_FMT_BITSTREAM \<noteq> 0 then
           let skip = x * int step + int (offset_plus1 cd) - 1;
               p = base + drop_bit 3 skip;
               sh = 8 - int depth - (skip AND 7)
           in write_bits_loop src step (p, sh) mem
         else
           let p = base + x * int step + int (offset_plus1 cd) - 1;
               is_8bit = (shift cd + depth \<le> 8);
               be = (flags desc AND PIX_FMT_BE \<noteq> 0)
           in write_bytes_loop src is_8bit be (shift cd) step (if is_8bit \<and> be then p + 1 else p) mem)"


section \<open>Pixel formats\<close>

text \<open>
  enum PixelFormat of pixfmt.h, without AV_PIX_FMT_ABI_GIT_MASTER. PIX_FMT_NB is one more than
  the last format; the formats after PIX_FMT_GBRP16LE start at 0x123.
\<close>

definition PIX_FMT_NONE :: int where "PIX_FMT_NONE = - 1"
definition PIX_FMT_YUV420P :: int where "PIX_FMT_YUV420P = 0"
definition PIX_FMT_YUYV422 :: int where "PIX_FMT_YUYV422 = 1"
definition PIX_FMT_RGB24 :: int where "PIX_FMT_RGB24 = 2"
definition PIX_FMT_BGR24 :: int where "PIX_FMT_BGR24 = 3"
definition PIX_FMT_YUV422P :: int where "PIX_FMT_YUV422P = 4"
definition PIX_FMT_YUV444P :: int where "PIX_FMT_YUV444P = 5"
definition PIX_FMT_YUV410P :: int where "PIX_FMT_YUV410P = 6"
definition PIX_FMT_YUV411P :: int where "PIX_FMT_YUV411P = 7"
definition PIX_FMT_GRAY8 :: int where "PIX_FMT_GRAY8 = 8"
definition PIX_FMT_MONOWHITE :: int where "PIX_FMT_MONOWHITE = 9"
definition PIX_FMT_MONOBLACK :: int where "PIX_FMT_MONOBLACK = 10"
definition PIX_FMT_PAL8 :: int where "PIX_FMT_PAL8 = 11"
definition PIX_FMT_YUVJ420P :: int where "PIX_FMT_YUVJ420P = 12"
definition PIX_FMT_YUVJ422P :: int where "PIX_FMT_YUVJ422P = 13"
definition PIX_FMT_YUVJ444P :: int where "PIX_FMT_YUVJ444P = 14"
definition PIX_FMT_XVMC_MPEG2_MC :: int where "PIX_FMT_XVMC_MPEG2_MC = 15"
definition PIX_FMT_XVMC_MPEG2_IDCT :: int where "PIX_FMT_XVMC_MPEG2_IDCT = 16"
definition PIX_FMT_UYVY422 :: int where "PIX_FMT_UYVY422 = 17"
definition PIX_FMT_UYYVYY411 :: int where "PIX_FMT_UYYVYY411 = 18"
definition PIX_FMT_BGR8 :: int where "PIX_FMT_BGR8 = 19"
definition PIX_FMT_BGR4 :: int where "PIX_FMT_BGR4 = 20"
definition PIX_FMT_BGR4_BYTE :: int where "PIX_FMT_BGR4_BYTE = 21"
definition PIX_FMT_RGB8 :: int where "PIX_FMT_RGB8 = 22"
definition PIX_FMT_RGB4 :: int where "PIX_FMT_RGB4 = 23"
definition PIX_FMT_RGB4_BYTE :: int where "PIX_FMT_RGB4_BYTE = 24"
definition PIX_FMT_NV12 :: int where "PIX_FMT_NV12 = 25"
definition PIX_FMT_NV21 :: int where "PIX_FMT_NV21 = 26"
definition PIX_FMT_ARGB :: int where "PIX_FMT_ARGB = 27"
definition PIX_FMT_RGBA :: int where "PIX_FMT_RGBA = 28"
definition PIX_FMT_ABGR :: int where "PIX_FMT_ABGR = 29"
definition PIX_FMT_BGRA :: int where "PIX_FMT_BGRA = 30"
definition PIX_FMT_GRAY16BE :: int where "PIX_FMT_GRAY16BE = 31"
definition PIX_FMT_GRAY16LE :: int where "PIX_FMT_GRAY16LE = 32"
definition PIX_FMT_YUV440P :: int where "PIX_FMT_YUV440P = 33"
definition PIX_FMT_YUVJ440P :: int where "PIX_FMT_YUVJ440P = 34"
definition PIX_FMT_YUVA420P :: int where "PIX_FMT_YUVA420P = 35"
definition PIX_FMT_VDPAU_H264 :: int where "PIX_FMT_VDPAU_H264 = 36"
definition PIX_FMT_VDPAU_MPEG1 :: int where "PIX_FMT_VDPAU_MPEG1 = 37"
definition PIX_FMT_VDPAU_MPEG2 :: int where "PIX_FMT_VDPAU_MPEG2 = 38"
definition PIX_FMT_VDPAU_WMV3 :: int where "PIX_FMT_VDPAU_WMV3 = 39"
definition PIX_FMT_VDPAU_VC1 :: int where "PIX_FMT_VDPAU_VC1 = 40"
definition PIX_FMT_RGB48BE :: int where "PIX_FMT_RGB48BE = 41"
definition PIX_FMT_RGB48LE :: int where "PIX_FMT_RGB48LE = 42"
definition PIX_FMT_RGB565BE :: int where "PIX_FMT_RGB565BE = 43"
definition PIX_FMT_RGB565LE :: int where "PIX_FMT_RGB565LE = 44"
definition PIX_FMT_RGB555BE :: int where "PIX_FMT_RGB555BE = 45"
definition PIX_FMT_RGB555LE :: int where "PIX_FMT_RGB555LE = 46"
definition PIX_FMT_BGR565BE :: int where "PIX_FMT_BGR565BE = 47"
definition PIX_FMT_BGR565LE :: int where "PIX_FMT_BGR565LE = 48"
definition PIX_FMT_BGR555BE :: int where "PIX_FMT_BGR555BE = 49"
definition PIX_FMT_BGR555LE :: int where "PIX_FMT_BGR555LE = 50"
definition PIX_FMT_VAAPI_MOCO :: int where "PIX_FMT_VAAPI_MOCO = 51"
definition PIX_FMT_VAAPI_IDCT :: int where "PIX_FMT_VAAPI_IDCT = 52"
definition PIX_FMT_VAAPI_VLD :: int where "PIX_FMT_VAAPI_VLD = 53"
definition PIX_FMT_YUV420P16LE :: int where "PIX_FMT_YUV420P16LE = 54"
definition PIX_FMT_YUV420P16BE :: int where "PIX_FMT_YUV420P16BE = 55"
definition PIX_FMT_YUV422P16LE :: int where "PIX_FMT_YUV422P16LE = 56"
definition PIX_FMT_YUV422P16BE :: int where "PIX_FMT_YUV422P16BE = 57"
definition PIX_FMT_YUV444P16LE :: int where "PIX_FMT_YUV444P16LE = 58"
definition PIX_FMT_YUV444P16BE :: int where "PIX_FMT_YUV444P16BE = 59"
definition PIX_FMT_VDPAU_MPEG4 :: int where "PIX_FMT_VDPAU_MPEG4 = 60"
definition PIX_FMT_DXVA2_VLD :: int where "PIX_FMT_DXVA2_VLD = 61"
definition PIX_FMT_RGB444LE :: int where "PIX_FMT_RGB444LE = 62"
definition PIX_FMT_RGB444BE :: int where "PIX_FMT_RGB444BE = 63"
definition PIX_FMT_BGR444LE :: int where "PIX_FMT_BGR444LE = 64"
definition PIX_FMT_BGR444BE :: int where "PIX_FMT_BGR444BE = 65"
definition PIX_FMT_GRAY8A :: int where "PIX_FMT_GRAY8A = 66"
definition PIX_FMT_BGR48BE :: int where "PIX_FMT_BGR48BE = 67"
definition PIX_FMT_BGR48LE :: int where "PIX_FMT_BGR48LE = 68"
definition PIX_FMT_YUV420P9BE :: int where "PIX_FMT_YUV420P9BE = 69"
definition PIX_FMT_YUV420P9LE :: int where "PIX_FMT_YUV420P9LE = 70"
definition PIX_FMT_YUV420P10BE :: int where "PIX_FMT_YUV420P10BE = 71"
definition PIX_FMT_YUV420P10LE :: int where "PIX_FMT_YUV420P10LE = 72"
definition PIX_FMT_YUV422P10BE :: int where "PIX_FMT_YUV422P10BE = 73"
definition PIX_FMT_YUV422P10LE :: int where "PIX_FMT_YUV422P10LE = 74"
definition PIX_FMT_YUV444P9BE :: int where "PIX_FMT_YUV444P9BE = 75"
definition PIX_FMT_YUV444P9LE :: int where "PIX_FMT_YUV444P9LE = 76"
definition PIX_FMT_YUV444P10BE :: int where "PIX_FMT_YUV444P10BE = 77"
definition PIX_FMT_YUV444P10LE :: int where "PIX_FMT_YUV444P10LE = 78"
definition PIX_FMT_YUV422P9BE :: int where "PIX_FMT_YUV422P9BE = 79"
definition PIX_FMT_YUV422P9LE :: int where "PIX_FMT_YUV422P9LE = 80"
definition PIX_FMT_VDA_VLD :: int where "PIX_FMT_VDA_VLD = 81"
definition PIX_FMT_GBRP :: int where "PIX_FMT_GBRP = 82"
definition PIX_FMT_GBRP9BE :: int where "PIX_FMT_GBRP9BE = 83"
definition PIX_FMT_GBRP9LE :: int where "PIX_FMT_GBRP9LE = 84"
definition PIX_FMT_GBRP10BE :: int where "PIX_FMT_GBRP10BE = 85"
definition PIX_FMT_GBRP10LE :: int where "PIX_FMT_GBRP10LE = 86"
definition PIX_FMT_GBRP16BE :: int where "PIX_FMT_GBRP16BE = 87"
definition PIX_FMT_GBRP16LE :: int where "PIX_FMT_GBRP16LE = 88"
definition PIX_FMT_RGBA64BE :: int where "PIX_FMT_RGBA64BE = 291"
definition PIX_FMT_RGBA64LE :: int where "PIX_FMT_RGBA64LE = 292"
definition PIX_FMT_BGRA64BE :: int where "PIX_FMT_BGRA64BE = 293"
definition PIX_FMT_BGRA64LE :: int where "PIX_FMT_BGRA64LE = 294"
definition PIX_FMT_0RGB :: int where "PIX_FMT_0RGB = 295"
definition PIX_FMT_RGB0 :: int where "PIX_FMT_RGB0 = 296"
definition PIX_FMT_0BGR :: int where "PIX_FMT_0BGR = 297"
definition PIX_FMT_BGR0 :: int where "PIX_FMT_BGR0 = 298"
definition PIX_FMT_YUVA444P :: int where "PIX_FMT_YUVA444P = 299"
definition PIX_FMT_YUVA422P :: int where "PIX_FMT_YUVA422P = 300"
definition PIX_FMT_YUV420P12BE :: int where "PIX_FMT_YUV420P12BE = 301"
definition PIX_FMT_YUV420P12LE :: int where "PIX_FMT_YUV420P12LE = 302"
definition PIX_FMT_YUV420P14BE :: int where "PIX_FMT_YUV420P14BE = 303"
definition PIX_FMT_YUV420P14LE :: int where "PIX_FMT_YUV420P14LE = 304"
definition PIX_FMT_YUV422P12BE :: int where "PIX_FMT_YUV422P12BE = 305"
definition PIX_FMT_YUV422P12LE :: int where "PIX_FMT_YUV422P12LE = 306"
definition PIX_FMT_YUV422P14BE :: int where "PIX_FMT_YUV422P14BE = 307"
definition PIX_FMT_YUV422P14LE :: int where "PIX_FMT_YUV422P14LE = 308"
definition PIX_FMT_YUV444P12BE :: int where "PIX_FMT_YUV444P12BE = 309"
definition PIX_FMT_YUV444P12LE :: int where "PIX_FMT_YUV444P12LE = 310"
definition PIX_FMT_YUV444P14BE :: int where "PIX_FMT_YUV444P14BE = 311"
definition PIX_FMT_YUV444P14LE :: int where "PIX_FMT_YUV444P14LE = 312"
definition PIX_FMT_GBRP12BE :: int where "PIX_FMT_GBRP12BE = 313"
definition PIX_FMT_GBRP12LE :: int where "PIX_FMT_GBRP12LE = 314"
definition PIX_FMT_GBRP14BE :: int where "PIX_FMT_GBRP14BE = 315"
definition PIX_FMT_GBRP14LE :: int where "PIX_FMT_GBRP14LE = 316"
definition PIX_FMT_NB :: int where "PIX_FMT_NB = 317"

lemmas PIX_FMT_defs =
  PIX_FMT_NONE_def PIX_FMT_YUV420P_def PIX_FMT_YUYV422_def PIX_FMT_RGB24_def
  PIX_FMT_BGR24_def PIX_FMT_YUV422P_def PIX_FMT_YUV444P_def PIX_FMT_YUV410P_def
  PIX_FMT_YUV411P_def PIX_FMT_GRAY8_def PIX_FMT_MONOWHITE_def PIX_FMT_MONOBLACK_def
  PIX_FMT_PAL8_def PIX_FMT_YUVJ420P_def PIX_FMT_YUVJ422P_def PIX_FMT_YUVJ444P_def
  PIX_FMT_XVMC_MPEG2_MC_def PIX_FMT_XVMC_MPEG2_IDCT_def PIX_FMT_UYVY422_def PIX_FMT_UYYVYY411_def
  PIX_FMT_BGR8_def PIX_FMT_BGR4_def PIX_FMT_BGR4_BYTE_def PIX_FMT_RGB8_def
  PIX_FMT_RGB4_def PIX_FMT_RGB4_BYTE_def PIX_FMT_NV12_def PIX_FMT_NV21_def
  PIX_FMT_ARGB_def PIX_FMT_RGBA_def PIX_FMT_ABGR_def PIX_FMT_BGRA_def
  PIX_FMT_GRAY16BE_def PIX_FMT_GRAY16LE_def PIX_FMT_YUV440P_def PIX_FMT_YUVJ440P_def
  PIX_FMT_YUVA420P_def PIX_FMT_VDPAU_H264_def PIX_FMT_VDPAU_MPEG1_def PIX_FMT_VDPAU_MPEG2_def
  PIX_FMT_VDPAU_WMV3_def PIX_FMT_VDPAU_VC1_def PIX_FMT_RGB48BE_def PIX_FMT_RGB48LE_def
  PIX_FMT_RGB565BE_def PIX_FMT_RGB565LE_def PIX_FMT_RGB555BE_def PIX_FMT_RGB555LE_def
  PIX_FMT_BGR565BE_def PIX_FMT_BGR565LE_def PIX_FMT_BGR555BE_def PIX_FMT_BGR555LE_def
  PIX_FMT_VAAPI_MOCO_def PIX_FMT_VAAPI_IDCT_def PIX_FMT_VAAPI_VLD_def PIX_FMT_YUV420P16LE_def
  PIX_FMT_YUV420P16BE_def PIX_FMT_YUV422P16LE_def PIX_FMT_YUV422P16BE_def PIX_FMT_YUV444P16LE_def
  PIX_FMT_YUV444P16BE_def PIX_FMT_VDPAU_MPEG4_def PIX_FMT_DXVA2_VLD_def PIX_FMT_RGB444LE_def
  PIX_FMT_RGB444BE_def PIX_FMT_BGR444LE_def PIX_FMT_BGR444BE_def PIX_FMT_GRAY8A_def
  PIX_FMT_BGR48BE_def PIX_FMT_BGR48LE_def PIX_FMT_YUV420P9BE_def PIX_FMT_YUV420P9LE_def
  PIX_FMT_YUV420P10BE_def PIX_FMT_YUV420P10LE_def PIX_FMT_YUV422P10BE_def PIX_FMT_YUV422P10LE_def
  PIX_FMT_YUV444P9BE_def PIX_FMT_YUV444P9LE_def PIX_FMT_YUV444P10BE_def PIX_FMT_YUV444P10LE_def
  PIX_FMT_YUV422P9BE_def PIX_FMT_YUV422P9LE_def PIX_FMT_VDA_VLD_def PIX_FMT_GBRP_def
  PIX_FMT_GBRP9BE_def PIX_FMT_GBRP9LE_def PIX_FMT_GBRP10BE_def PIX_FMT_GBRP10LE_def
  PIX_FMT_GBRP16BE_def PIX_FMT_GBRP16LE_def PIX_FMT_RGBA64BE_def PIX_FMT_RGBA64LE_def
  PIX_FMT_BGRA64BE_def PIX_FMT_BGRA64LE_def PIX_FMT_0RGB_def PIX_FMT_RGB0_def
  PIX_FMT_0BGR_def PIX_FMT_BGR0_def PIX_FMT_YUVA444P_def PIX_FMT_YUVA422P_def
  PIX_FMT_YUV420P12BE_def PIX_FMT_YUV420P12LE_def PIX_FMT_YUV420P14BE_def PIX_FMT_YUV420P14LE_def
  PIX_FMT_YUV422P12BE_def PIX_FMT_YUV422P12LE_def PIX_FMT_YUV422P14BE_def PIX_FMT_YUV422P14LE_def
  PIX_FMT_YUV444P12BE_def PIX_FMT_YUV444P12LE_def PIX_FMT_YUV444P14BE_def PIX_FMT_YUV444P14LE_def
  PIX_FMT_GBRP12BE_def PIX_FMT_GBRP12LE_def PIX_FMT_GBRP14BE_def PIX_FMT_GBRP14LE_def
  PIX_FMT_NB_def

section \<open>The table\<close>

text \<open>
  The designated initialisers in the order of the source, cut into pieces of at most 150 lines.
\<close>

definition pix_fmt_descriptors_1 :: "(int \<times> AVPixFmtDescriptor) list" where
  "pix_fmt_descriptors_1 = [
    (PIX_FMT_YUV420P, Desc ''yuv420p'' 3 1 1
      [Comp 0 0 1 0 7, Comp 1 0 1 0 7, Comp 2 0 1 0 7] (PIX_FMT_PLANAR)),
    (PIX_FMT_YUYV422, Desc ''yuyv422'' 3 1 0
      [Comp 0 1 1 0 7, Comp 0 3 2 0 7, Comp 0 3 4 0 7] (0)),
    (PIX_FMT_RGB24, Desc ''rgb24'' 3 0 0
      [Comp 0 2 1 0 7, Comp 0 2 2 0 7, Comp 0 2 3 0 7] (PIX_FMT_RGB)),
    (PIX_FMT_BGR24, Desc ''bgr24'' 3 0 0
      [Comp 0 2 3 0 7, Comp 0 2 2 0 7, Comp 0 2 1 0 7] (PIX_FMT_RGB)),
    (PIX_FMT_YUV422P, Desc ''yuv422p'' 3 1 0
      [Comp 0 0 1 0 7, Comp 1 0 1 0 7, Comp 2 0 1 0 7] (PIX_FMT_PLANAR)),
    (PIX_FMT_YUV444P, Desc ''yuv444p'' 3 0 0
      [Comp 0 0 1 0 7, Comp 1 0 1 0 7, Comp 2 0 1 0 7] (PIX_FMT_PLANAR)),
    (PIX_FMT_YUV410P, Desc ''yuv410p'' 3 2 2
      [Comp 0 0 1 0 7, Comp 1 0 1 0 7, Comp 2 0 1 0 7] (PIX_FMT_PLANAR)),
    (PIX_FMT_YUV411P, Desc ''yuv411p'' 3 2 0
      [Comp 0 0 1 0 7, Comp 1 0 1 0 7, Comp 2 0 1 0 7] (PIX_FMT_PLANAR)),
    (PIX_FMT_GRAY8, Desc ''gray'' 1 0 0
      [Comp 0 0 1 0 7] (PIX_FMT_PSEUDOPAL)),
    (PIX_FMT_MONOWHITE, Desc ''monow'' 1 0 0
      [Comp 0 0 1 0 0] (PIX_FMT_BITSTREAM)),
    (PIX_FMT_MONOBLACK, Desc ''monob'' 1 0 0
      [Comp 0 0 1 7 0] (PIX_FMT_BITSTREAM)),
    (PIX_FMT_PAL8, Desc ''pal8'' 1 0 0
      [Comp 0 0 1 0 7] (PIX_FMT_PAL)),
    (PIX_FMT_YUVJ420P, Desc ''yuvj420p'' 3 1 1
      [Comp 0 0 1 0 7, Comp 1 0 1 0 7, Comp 2 0 1 0 7] (PIX_FMT_PLANAR))]"

definition pix_fmt_descriptors_2 :: "(int \<times> AVPixFmtDescriptor) list" where
  "pix_fmt_descriptors_2 = [
    (PIX_FMT_YUVJ422P, Desc ''yuvj422p'' 3 1 0
      [Comp 0 0 1 0 7, Comp 1 0 1 0 7, Comp 2 0 1 0 7] (PIX_FMT_PLANAR)),
    (PIX_FMT_YUVJ444P, Desc ''yuvj444p'' 3 0 0
      [Comp 0 0 1 0 7, Comp 1 0 1 0 7, Comp 2 0 1 0 7] (PIX_FMT_PLANAR)),
    (PIX_FMT_XVMC_MPEG2_MC, Desc ''xvmcmc'' 0 0 0
      [] (PIX_FMT_HWACCEL)),
    (PIX_FMT_XVMC_MPEG2_IDCT, Desc ''xvmcidct'' 0 0 0
      [] (PIX_FMT_HWACCEL)),
    (PIX_FMT_UYVY422, Desc ''uyvy422'' 3 1 0
      [Comp 0 1 2 0 7, Comp 0 3 1 0 7, Comp 0 3 3 0 7] (0)),
    (PIX_FMT_UYYVYY411, Desc ''uyyvyy411'' 3 2 0
      [Comp 0 3 2 0 7, Comp 0 5 1 0 7, Comp 0 5 4 0 7] (0)),
    (PIX_FMT_BGR8, Desc ''bgr8'' 3 0 0
      [Comp 0 0 1 0 2, Comp 0 0 1 3 2, Comp 0 0 1 6 1] (PIX_FMT_RGB OR PIX_FMT_PSEUDOPAL)),
    (PIX_FMT_BGR4, Desc ''bgr4'' 3 0 0
      [Comp 0 3 4 0 0, Comp 0 3 2 0 1, Comp 0 3 1 0 0] (PIX_FMT_BITSTREAM OR PIX_FMT_RGB)),
    (PIX_FMT_BGR4_BYTE, Desc ''bgr4_byte'' 3 0 0
      [Comp 0 0 1 0 0, Comp 0 0 1 1 1, Comp 0 0 1 3 0] (PIX_FMT_RGB OR PIX_FMT_PSEUDOPAL)),
    (PIX_FMT_RGB8, Desc ''rgb8'' 3 0 0
      [Comp 0 0 1 6 1, Comp 0 0 1 3 2, Comp 0 0 1 0 2] (PIX_FMT_RGB OR PIX_FMT_PSEUDOPAL)),
    (PIX_FMT_RGB4, Desc ''rgb4'' 3 0 0
      [Comp 0 3 1 0 0, Comp 0 3 2 0 1, Comp 0 3 4 0 0] (PIX_FMT_BITSTREAM OR PIX_FMT_RGB)),
    (PIX_FMT_RGB4_BYTE, Desc ''rgb4_byte'' 3 0 0
      [Comp 0 0 1 3 0, Comp 0 0 1 1 1, Comp 0 0 1 0 0] (PIX_FMT_RGB OR PIX_FMT_PSEUDOPAL)),
    (PIX_FMT_NV12, Desc ''nv12'' 3 1 1
      [Comp 0 0 1 0 7, Comp 1 1 1 0 7, Comp 1 1 2 0 7] (PIX_FMT_PLANAR)),
    (PIX_FMT_NV21, Desc ''nv21'' 3 1 1
      [Comp 0 0 1 0 7, Comp 1 1 2 0 7, Comp 1 1 1 0 7] (PIX_FMT_PLANAR))]"

definition pix_fmt_descriptors_3 :: "(int \<times> AVPixFmtDescriptor) list" where
  "pix_fmt_descriptors_3 = [
    (PIX_FMT_ARGB, Desc ''argb'' 4 0 0
      [Comp 0 3 2 0 7, Comp 0 3 3 0 7, Comp 0 3 4 0 7, Comp 0 3 1 0 7] (PIX_FMT_RGB)),
    (PIX_FMT_RGBA, Desc ''rgba'' 4 0 0
      [Comp 0 3 1 0 7, Comp 0 3 2 0 7, Comp 0 3 3 0 7, Comp 0 3 4 0 7] (PIX_FMT_RGB)),
    (PIX_FMT_ABGR, Desc ''abgr'' 4 0 0
      [Comp 0 3 4 0 7, Comp 0 3 3 0 7, Comp 0 3 2 0 7, Comp 0 3 1 0 7] (PIX_FMT_RGB)),
    (PIX_FMT_BGRA, Desc ''bgra'' 4 0 0
      [Comp 0 3 3 0 7, Comp 0 3 2 0 7, Comp 0 3 1 0 7, Comp 0 3 4 0 7] (PIX_FMT_RGB)),
    (PIX_FMT_0RGB, Desc ''0rgb'' 3 0 0
      [Comp 0 3 2 0 7, Comp 0 3 3 0 7, Comp 0 3 4 0 7] (PIX_FMT_RGB)),
    (PIX_FMT_RGB0, Desc ''rgb0'' 3 0 0
      [Comp 0 3 1 0 7, Comp 0 3 2 0 7, Comp 0 3 3 0 7, Comp 0 3 4 0 7] (PIX_FMT_RGB)),
    (PIX_FMT_0BGR, Desc ''0bgr'' 3 0 0
      [Comp 0 3 4 0 7, Comp 0 3 3 0 7, Comp 0 3 2 0 7] (PIX_FMT_RGB)),
    (PIX_FMT_BGR0, Desc ''bgr0'' 3 0 0
      [Comp 0 3 3 0 7, Comp 0 3 2 0 7, Comp 0 3 1 0 7, Comp 0 3 4 0 7] (PIX_FMT_RGB)),
    (PIX_FMT_GRAY16BE, Desc ''gray16be'' 1 0 0
      [Comp 0 1 1 0 15] (PIX_FMT_BE)),
    (PIX_FMT_GRAY16LE, Desc ''gray16le'' 1 0 0
      [Comp 0 1 1 0 15] (0)),
    (PIX_FMT_YUV440P, Desc ''yuv440p'' 3 0 1
      [Comp 0 0 1 0 7, Comp 1 0 1 0 7, Comp 2 0 1 0 7] (PIX_FMT_PLANAR)),
    (PIX_FMT_YUVJ440P, Desc ''yuvj440p'' 3 0 1
      [Comp 0 0 1 0 7, Comp 1 0 1 0 7, Comp 2 0 1 0 7] (PIX_FMT_PLANAR))]"

definition pix_fmt_descriptors_4 :: "(int \<times> AVPixFmtDescriptor) list" where
  "pix_fmt_descriptors_4 = [
    (PIX_FMT_YUVA420P, Desc ''yuva420p'' 4 1 1
      [Comp 0 0 1 0 7, Comp 1 0 1 0 7, Comp 2 0 1 0 7, Comp 3 0 1 0 7] (PIX_FMT_PLANAR)),
    (PIX_FMT_YUVA422P, Desc ''yuva422p'' 4 1 0
      [Comp 0 0 1 0 7, Comp 1 0 1 0 7, Comp 2 0 1 0 7, Comp 3 0 1 0 7] (PIX_FMT_PLANAR)),
    (PIX_FMT_YUVA444P, Desc ''yuva444p'' 4 0 0
      [Comp 0 0 1 0 7, Comp 1 0 1 0 7, Comp 2 0 1 0 7, Comp 3 0 1 0 7] (PIX_FMT_PLANAR)),
    (PIX_FMT_VDPAU_H264, Desc ''vdpau_h264'' 0 1 1
      [] (PIX_FMT_HWACCEL)),
    (PIX_FMT_VDPAU_MPEG1, Desc ''vdpau_mpeg1'' 0 1 1
      [] (PIX_FMT_HWACCEL)),
    (PIX_FMT_VDPAU_MPEG2, Desc ''vdpau_mpeg2'' 0 1 1
      [] (PIX_FMT_HWACCEL)),
    (PIX_FMT_VDPAU_WMV3, Desc ''vdpau_wmv3'' 0 1 1
      [] (PIX_FMT_HWACCEL)),
    (PIX_FMT_VDPAU_VC1, Desc ''vdpau_vc1'' 0 1 1
      [] (PIX_FMT_HWACCEL)),
    (PIX_FMT_VDPAU_MPEG4, Desc ''vdpau_mpeg4'' 0 1 1
      [] (PIX_FMT_HWACCEL)),
    (PIX_FMT_RGB48BE, Desc ''rgb48be'' 3 0 0
      [Comp 0 5 1 0 15, Comp 0 5 3 0 15, Comp 0 5 5 0 15] (PIX_FMT_RGB OR PIX_FMT_BE)),
    (PIX_FMT_RGB48LE, Desc ''rgb48le'' 3 0 0
      [Comp 0 5 1 0 15, Comp 0 5 3 0 15, Comp 0 5 5 0 15] (PIX_FMT_RGB)),
    (PIX_FMT_RGBA64BE, Desc ''rgba64be'' 4 0 0
      [Comp 0 7 1 0 15, Comp 0 7 3 0 15, Comp 0 7 5 0 15, Comp 0 7 7 0 15] (PIX_FMT_RGB OR PIX_FMT_BE)),
    (PIX_FMT_RGBA64LE, Desc ''rgba64le'' 4 0 0
      [Comp 0 7 1 0 15, Comp 0 7 3 0 15, Comp 0 7 5 0 15, Comp 0 7 7 0 15] (PIX_FMT_RGB)),
    (PIX_FMT_RGB565BE, Desc ''rgb565be'' 3 0 0
      [Comp 0 1 0 3 4, Comp 0 1 1 5 5, Comp 0 1 1 0 4] (PIX_FMT_BE OR PIX_FMT_RGB)),
    (PIX_FMT_RGB565LE, Desc ''rgb565le'' 3 0 0
      [Comp 0 1 2 3 4, Comp 0 1 1 5 5, Comp 0 1 1 0 4] (PIX_FMT_RGB))]"

definition pix_fmt_descriptors_5 :: "(int \<times> AVPixFmtDescriptor) list" where
  "pix_fmt_descriptors_5 = [
    (PIX_FMT_RGB555BE, Desc ''rgb555be'' 3 0 0
      [Comp 0 1 0 2 4, Comp 0 1 1 5 4, Comp 0 1 1 0 4] (PIX_FMT_BE OR PIX_FMT_RGB)),
    (PIX_FMT_RGB555LE, Desc ''rgb555le'' 3 0 0
      [Comp 0 1 2 2 4, Comp 0 1 1 5 4, Comp 0 1 1 0 4] (PIX_FMT_RGB)),
    (PIX_FMT_RGB444BE, Desc ''rgb444be'' 3 0 0
      [Comp 0 1 0 0 3, Comp 0 1 1 4 3, Comp 0 1 1 0 3] (PIX_FMT_BE OR PIX_FMT_RGB)),
    (PIX_FMT_RGB444LE, Desc ''rgb444le'' 3 0 0
      [Comp 0 1 2 0 3, Comp 0 1 1 4 3, Comp 0 1 1 0 3] (PIX_FMT_RGB)),
    (PIX_FMT_BGR48BE, Desc ''bgr48be'' 3 0 0
      [Comp 0 5 5 0 15, Comp 0 5 3 0 15, Comp 0 5 1 0 15] (PIX_FMT_BE OR PIX_FMT_RGB)),
    (PIX_FMT_BGR48LE, Desc ''bgr48le'' 3 0 0
      [Comp 0 5 5 0 15, Comp 0 5 3 0 15, Comp 0 5 1 0 15] (PIX_FMT_RGB)),
    (PIX_FMT_BGRA64BE, Desc ''bgra64be'' 4 0 0
      [Comp 0 7 5 0 15, Comp 0 7 3 0 15, Comp 0 7 1 0 15, Comp 0 7 7 0 15] (PIX_FMT_BE OR PIX_FMT_RGB)),
    (PIX_FMT_BGRA64LE, Desc ''bgra64le'' 4 0 0
      [Comp 0 7 5 0 15, Comp 0 7 3 0 15, Comp 0 7 1 0 15, Comp 0 7 7 0 15] (PIX_FMT_RGB)),
    (PIX_FMT_BGR565BE, Desc ''bgr565be'' 3 0 0
      [Comp 0 1 1 0 4, Comp 0 1 1 5 5, Comp 0 1 0 3 4] (PIX_FMT_BE OR PIX_FMT_RGB)),
    (PIX_FMT_BGR565LE, Desc ''bgr565le'' 3 0 0
      [Comp 0 1 1 0 4, Comp 0 1 1 5 5, Comp 0 1 2 3 4] (PIX_FMT_RGB)),
    (PIX_FMT_BGR555BE, Desc ''bgr555be'' 3 0 0
      [Comp 0 1 1 0 4, Comp 0 1 1 5 4, Comp 0 1 0 2 4] (PIX_FMT_BE OR PIX_FMT_RGB)),
    (PIX_FMT_BGR555LE, Desc ''bgr555le'' 3 0 0
      [Comp 0 1 1 0 4, Comp 0 1 1 5 4, Comp 0 1 2 2 4] (PIX_FMT_RGB))]"

definition pix_fmt_descriptors_6 :: "(int \<times> AVPixFmtDescriptor) list" where
  "pix_fmt_descriptors_6 = [
    (PIX_FMT_BGR444BE, Desc ''bgr444be'' 3 0 0
      [Comp 0 1 1 0 3, Comp 0 1 1 4 3, Comp 0 1 0 0 3] (PIX_FMT_BE OR PIX_FMT_RGB)),
    (PIX_FMT_BGR444LE, Desc ''bgr444le'' 3 0 0
      [Comp 0 1 1 0 3, Comp 0 1 1 4 3, Comp 0 1 2 0 3] (PIX_FMT_RGB)),
    (PIX_FMT_VAAPI_MOCO, Desc ''vaapi_moco'' 0 1 1
      [] (PIX_FMT_HWACCEL)),
    (PIX_FMT_VAAPI_IDCT, Desc ''vaapi_idct'' 0 1 1
      [] (PIX_FMT_HWACCEL)),
    (PIX_FMT_VAAPI_VLD, Desc ''vaapi_vld'' 0 1 1
      [] (PIX_FMT_HWACCEL)),
    (PIX_FMT_YUV420P9LE, Desc ''yuv420p9le'' 3 1 1
      [Comp 0 1 1 0 8, Comp 1 1 1 0 8, Comp 2 1 1 0 8] (PIX_FMT_PLANAR)),
    (PIX_FMT_YUV420P9BE, Desc ''yuv420p9be'' 3 1 1
      [Comp 0 1 1 0 8, Comp 1 1 1 0 8, Comp 2 1 1 0 8] (PIX_FMT_BE OR PIX_FMT_PLANAR)),
    (PIX_FMT_YUV420P10LE, Desc ''yuv420p10le'' 3 1 1
      [Comp 0 1 1 0 9, Comp 1 1 1 0 9, Comp 2 1 1 0 9] (PIX_FMT_PLANAR)),
    (PIX_FMT_YUV420P10BE, Desc ''yuv420p10be'' 3 1 1
      [Comp 0 1 1 0 9, Comp 1 1 1 0 9, Comp 2 1 1 0 9] (PIX_FMT_BE OR PIX_FMT_PLANAR)),
    (PIX_FMT_YUV420P12LE, Desc ''yuv420p12le'' 3 1 1
      [Comp 0 1 1 0 11, Comp 1 1 1 0 11, Comp 2 1 1 0 11] (PIX_FMT_PLANAR)),
    (PIX_FMT_YUV420P12BE, Desc ''yuv420p12be'' 3 1 1
      [Comp 0 1 1 0 11, Comp 1 1 1 0 11, Comp 2 1 1 0 11] (PIX_FMT_BE OR PIX_FMT_PLANAR)),
    (PIX_FMT_YUV420P14LE, Desc ''yuv420p14le'' 3 1 1
      [Comp 0 1 1 0 13, Comp 1 1 1 0 13, Comp 2 1 1 0 13] (PIX_FMT_PLANAR)),
    (PIX_FMT_YUV420P14BE, Desc ''yuv420p14be'' 3 1 1
      [Comp 0 1 1 0 13, Comp 1 1 1 0 13, Comp 2 1 1 0 13] (PIX_FMT_BE OR PIX_FMT_PLANAR)),
    (PIX_FMT_YUV420P16LE, Desc ''yuv420p16le'' 3 1 1
      [Comp 0 1 1 0 15, Comp 1 1 1 0 15, Comp 2 1 1 0 15] (PIX_FMT_PLANAR))]"

definition pix_fmt_descriptors_7 :: "(int \<times> AVPixFmtDescriptor) list" where
  "pix_fmt_descriptors_7 = [
    (PIX_FMT_YUV420P16BE, Desc ''yuv420p16be'' 3 1 1
      [Comp 0 1 1 0 15, Comp 1 1 1 0 15, Comp 2 1 1 0 15] (PIX_FMT_BE OR PIX_FMT_PLANAR)),
    (PIX_FMT_YUV422P9LE, Desc ''yuv422p9le'' 3 1 0
      [Comp 0 1 1 0 8, Comp 1 1 1 0 8, Comp 2 1 1 0 8] (PIX_FMT_PLANAR)),
    (PIX_FMT_YUV422P9BE, Desc ''yuv422p9be'' 3 1 0
      [Comp 0 1 1 0 8, Comp 1 1 1 0 8, Comp 2 1 1 0 8] (PIX_FMT_BE OR PIX_FMT_PLANAR)),
    (PIX_FMT_YUV422P10LE, Desc ''yuv422p10le'' 3 1 0
      [Comp 0 1 1 0 9, Comp 1 1 1 0 9, Comp 2 1 1 0 9] (PIX_FMT_PLANAR)),
    (PIX_FMT_YUV422P10BE, Desc ''yuv422p10be'' 3 1 0
      [Comp 0 1 1 0 9, Comp 1 1 1 0 9, Comp 2 1 1 0 9] (PIX_FMT_BE OR PIX_FMT_PLANAR)),
    (PIX_FMT_YUV422P12LE, Desc ''yuv422p12le'' 3 1 0
      [Comp 0 1 1 0 11, Comp 1 1 1 0 11, Comp 2 1 1 0 11] (PIX_FMT_PLANAR)),
    (PIX_FMT_YUV422P12BE, Desc ''yuv422p12be'' 3 1 0
      [Comp 0 1 1 0 11, Comp 1 1 1 0 11, Comp 2 1 1 0 11] (PIX_FMT_BE OR PIX_FMT_PLANAR)),
    (PIX_FMT_YUV422P14LE, Desc ''yuv422p14le'' 3 1 0
      [Comp 0 1 1 0 13, Comp 1 1 1 0 13, Comp 2 1 1 0 13] (PIX_FMT_PLANAR)),
    (PIX_FMT_YUV422P14BE, Desc ''yuv422p14be'' 3 1 0
      [Comp 0 1 1 0 13, Comp 1 1 1 0 13, Comp 2 1 1 0 13] (PIX_FMT_BE OR PIX_FMT_PLANAR)),
    (PIX_FMT_YUV422P16LE, Desc ''yuv422p16le'' 3 1 0
      [Comp 0 1 1 0 15, Comp 1 1 1 0 15, Comp 2 1 1 0 15] (PIX_FMT_PLANAR)),
    (PIX_FMT_YUV422P16BE, Desc ''yuv422p16be'' 3 1 0
      [Comp 0 1 1 0 15, Comp 1 1 1 0 15, Comp 2 1 1 0 15] (PIX_FMT_BE OR PIX_FMT_PLANAR)),
    (PIX_FMT_YUV444P16LE, Desc ''yuv444p16le'' 3 0 0
      [Comp 0 1 1 0 15, Comp 1 1 1 0 15, Comp 2 1 1 0 15] (PIX_FMT_PLANAR))]"

definition pix_fmt_descriptors_8 :: "(int \<times> AVPixFmtDescriptor) list" where
  "pix_fmt_descriptors_8 = [
    (PIX_FMT_YUV444P16BE, Desc ''yuv444p16be'' 3 0 0
      [Comp 0 1 1 0 15, Comp 1 1 1 0 15, Comp 2 1 1 0 15] (PIX_FMT_BE OR PIX_FMT_PLANAR)),
    (PIX_FMT_YUV444P10LE, Desc ''yuv444p10le'' 3 0 0
      [Comp 0 1 1 0 9, Comp 1 1 1 0 9, Comp 2 1 1 0 9] (PIX_FMT_PLANAR)),
    (PIX_FMT_YUV444P10BE, Desc ''yuv444p10be'' 3 0 0
      [Comp 0 1 1 0 9, Comp 1 1 1 0 9, Comp 2 1 1 0 9] (PIX_FMT_BE OR PIX_FMT_PLANAR)),
    (PIX_FMT_YUV444P9LE, Desc ''yuv444p9le'' 3 0 0
      [Comp 0 1 1 0 8, Comp 1 1 1 0 8, Comp 2 1 1 0 8] (PIX_FMT_PLANAR)),
    (PIX_FMT_YUV444P9BE, Desc ''yuv444p9be'' 3 0 0
      [Comp 0 1 1 0 8, Comp 1 1 1 0 8, Comp 2 1 1 0 8] (PIX_FMT_BE OR PIX_FMT_PLANAR)),
    (PIX_FMT_YUV444P12LE, Desc ''yuv444p12le'' 3 0 0
      [Comp 0 1 1 0 11, Comp 1 1 1 0 11, Comp 2 1 1 0 11] (PIX_FMT_PLANAR)),
    (PIX_FMT_YUV444P12BE, Desc ''yuv444p12be'' 3 0 0
      [Comp 0 1 1 0 11, Comp 1 1 1 0 11, Comp 2 1 1 0 11] (PIX_FMT_BE OR PIX_FMT_PLANAR)),
    (PIX_FMT_YUV444P14LE, Desc ''yuv444p14le'' 3 0 0
      [Comp 0 1 1 0 13, Comp 1 1 1 0 13, Comp 2 1 1 0 13] (PIX_FMT_PLANAR)),
    (PIX_FMT_YUV444P14BE, Desc ''yuv444p14be'' 3 0 0
      [Comp 0 1 1 0 13, Comp 1 1 1 0 13, Comp 2 1 1 0 13] (PIX_FMT_BE OR PIX_FMT_PLANAR)),
    (PIX_FMT_DXVA2_VLD, Desc ''dxva2_vld'' 0 1 1
      [] (PIX_FMT_HWACCEL)),
    (PIX_FMT_VDA_VLD, Desc ''vda_vld'' 0 1 1
      [] (PIX_FMT_HWACCEL)),
    (PIX_FMT_GRAY8A, Desc ''gray8a'' 2 0 0
      [Comp 0 1 1 0 7, Comp 0 1 2 0 7] (0)),
    (PIX_FMT_GBRP, Desc ''gbrp'' 3 0 0
      [Comp 2 0 1 0 7, Comp 0 0 1 0 7, Comp 1 0 1 0 7] (PIX_FMT_PLANAR OR PIX_FMT_RGB))]"

definition pix_fmt_descriptors_9 :: "(int \<times> AVPixFmtDescriptor) list" where
  "pix_fmt_descriptors_9 = [
    (PIX_FMT_GBRP9LE, Desc ''gbrp9le'' 3 0 0
      [Comp 2 1 1 0 8, Comp 0 1 1 0 8, Comp 1 1 1 0 8] (PIX_FMT_PLANAR OR PIX_FMT_RGB)),
    (PIX_FMT_GBRP9BE, Desc ''gbrp9be'' 3 0 0
      [Comp 2 1 1 0 8, Comp 0 1 1 0 8, Comp 1 1 1 0 8] (PIX_FMT_BE OR PIX_FMT_PLANAR OR PIX_FMT_RGB)),
    (PIX_FMT_GBRP10LE, Desc ''gbrp10le'' 3 0 0
      [Comp 2 1 1 0 9, Comp 0 1 1 0 9, Comp 1 1 1 0 9] (PIX_FMT_PLANAR OR PIX_FMT_RGB)),
    (PIX_FMT_GBRP10BE, Desc ''gbrp10be'' 3 0 0
      [Comp 2 1 1 0 9, Comp 0 1 1 0 9, Comp 1 1 1 0 9] (PIX_FMT_BE OR PIX_FMT_PLANAR OR PIX_FMT_RGB)),
    (PIX_FMT_GBRP12LE, Desc ''gbrp12le'' 3 0 0
      [Comp 2 1 1 0 11, Comp 0 1 1 0 11, Comp 1 1 1 0 11] (PIX_FMT_PLANAR OR PIX_FMT_RGB)),
    (PIX_FMT_GBRP12BE, Desc ''gbrp12be'' 3 0 0
      [Comp 2 1 1 0 11, Comp 0 1 1 0 11, Comp 1 1 1 0 11] (PIX_FMT_BE OR PIX_FMT_PLANAR OR PIX_FMT_RGB)),
    (PIX_FMT_GBRP14LE, Desc ''gbrp14le'' 3 0 0
      [Comp 2 1 1 0 13, Comp 0 1 1 0 13, Comp 1 1 1 0 13] (PIX_FMT_PLANAR OR PIX_FMT_RGB)),
    (PIX_FMT_GBRP14BE, Desc ''gbrp14be'' 3 0 0
      [Comp 2 1 1 0 13, Comp 0 1 1 0 13, Comp 1 1 1 0 13] (PIX_FMT_BE OR PIX_FMT_PLANAR OR PIX_FMT_RGB)),
    (PIX_FMT_GBRP16LE, Desc ''gbrp16le'' 3 0 0
      [Comp 2 1 1 0 15, Comp 0 1 1 0 15, Comp 1 1 1 0 15] (PIX_FMT_PLANAR OR PIX_FMT_RGB)),
    (PIX_FMT_GBRP16BE, Desc ''gbrp16be'' 3 0 0
      [Comp 2 1 1 0 15, Comp 0 1 1 0 15, Comp 1 1 1 0 15] (PIX_FMT_BE OR PIX_FMT_PLANAR OR PIX_FMT_RGB))]"

definition pix_fmt_table :: "(int \<times> AVPixFmtDescriptor) list" where
  "pix_fmt_table = pix_fmt_descriptors_1 @ pix_fmt_descriptors_2 @ pix_fmt_descriptors_3 @ pix_fmt_descriptors_4 @
     pix_fmt_descriptors_5 @ pix_fmt_descriptors_6 @ pix_fmt_descriptors_7 @ pix_fmt_descriptors_8 @
     pix_fmt_descriptors_9"

definition av_pix_fmt_descriptors :: "int \<Rightarrow> AVPixFmtDescriptor" where
  "av_pix_fmt_descriptors f = (case map_of pix_fmt_table f of
     Some d \<Rightarrow> d
   | None \<Rightarrow> \<lparr>name = None, nb_components = 0, log2_chroma_w = 0, log2_chroma_h = 0, flags = 0,
       comp = replicate 4 (Comp 0 0 0 0 0)\<rparr>)"

lemmas pix_fmt_pieces = pix_fmt_descriptors_1_def pix_fmt_descriptors_2_def pix_fmt_descriptors_3_def
  pix_fmt_descriptors_4_def pix_fmt_descriptors_5_def pix_fmt_descriptors_6_def pix_fmt_descriptors_7_def
  pix_fmt_descriptors_8_def pix_fmt_descriptors_9_def

section \<open>Look-up by name, bits per pixel\<close>

definition get_pix_fmt_internal :: "string \<Rightarrow> int" where
  "get_pix_fmt_internal s =
     (case List.find (\<lambda>f. name (av_pix_fmt_descriptors f) = Some s) [0..PIX_FMT_NB - 1] of
        Some f \<Rightarrow> f
      | None \<Rightarrow> PIX_FMT_NONE)"

definition av_get_pix_fmt_name :: "int \<Rightarrow> string option" where
  "av_get_pix_fmt_name f = (if 0 \<le> f \<and> f < PIX_FMT_NB then name (av_pix_fmt_descriptors f) else None)"

text \<open>A little-endian machine; \<open>name2\<close> has room for 31 characters.\<close>

definition av_get_pix_fmt :: "string \<Rightarrow> int" where
  "av_get_pix_fmt s =
     (let s = (if s = ''rgb32'' then ''bgra'' else if s = ''bgr32'' then ''rgba'' else s);
          f = get_pix_fmt_internal s
      in if f = PIX_FMT_NONE then get_pix_fmt_internal (take 31 (s @ ''le'')) else f)"

definition av_get_bits_per_pixel :: "AVPixFmtDescriptor \<Rightarrow> nat" where
  "av_get_bits_per_pixel d =
     (let log2_pixels = log2_chroma_w d + log2_chroma_h d;
          bits = sum_list (map (\<lambda>c. push_bit (if c = 1 \<or> c = 2 then 0 else log2_pixels)
             (depth_minus1 (comp d ! c) + 1)) [0..<nb_components d])
      in drop_bit log2_pixels bits)"

section \<open>The table is well formed\<close>

text \<open>
  What the two line routines rely on: bit-field widths, a component within its byte or 16-bit
  word that starts inside the line, 16-bit components at least two bytes apart, bitstream
  components that never straddle a byte.
\<close>

definition comp_ok :: "u8 \<Rightarrow> AVComponentDescriptor \<Rightarrow> bool" where
  "comp_ok fl cd =
     (let depth = depth_minus1 cd + 1; step = step_minus1 cd + 1
      in plane cd < 4 \<and> step_minus1 cd < 8 \<and> offset_plus1 cd < 8 \<and> shift cd < 8 \<and> depth \<le> 16 \<and>
        (if fl AND PIX_FMT_BITSTREAM \<noteq> 0
         then step \<in> {1, 2, 4, 8} \<and> 1 \<le> offset_plus1 cd \<and> (offset_plus1 cd - 1) mod step + depth \<le> step
         else shift cd + depth \<le> 16 \<and> (8 < shift cd + depth \<longrightarrow> 2 \<le> step) \<and>
           1 \<le> offset_plus1 cd + (if fl AND PIX_FMT_BE \<noteq> 0 \<and> shift cd + depth \<le> 8 then 1 else 0)))"

definition desc_ok :: "AVPixFmtDescriptor \<Rightarrow> bool" where
  "desc_ok d = (nb_components d \<le> 4 \<and> length (comp d) = 4 \<and>
     list_all (comp_ok (flags d)) (take (nb_components d) (comp d)))"

lemmas table_ok_simps = desc_ok_def comp_ok_def Desc_def Comp_def PIX_FMT_flags Let_def

lemma table_ok: "list_all (desc_ok \<circ> snd) pix_fmt_table"
  unfolding pix_fmt_table_def list_all_append
  by (intro conjI; simp only: pix_fmt_pieces; simp add: table_ok_simps)

lemma table_ids: "distinct (map fst pix_fmt_table)"
  unfolding pix_fmt_table_def pix_fmt_pieces PIX_FMT_defs by simp

lemma table_names: "distinct (map (name \<circ> snd) pix_fmt_table)"
  unfolding pix_fmt_table_def pix_fmt_pieces Desc_def by simp

lemma table_range: "list_all (\<lambda>(f, d). 0 \<le> f \<and> f < PIX_FMT_NB \<and> name d \<notin> {None, Some ''rgb32'', Some ''bgr32''}) pix_fmt_table"
  unfolding pix_fmt_table_def pix_fmt_pieces Desc_def PIX_FMT_defs by simp

lemma desc_ok: "desc_ok (av_pix_fmt_descriptors f)"
proof (cases "map_of pix_fmt_table f")
  case None
  then show ?thesis by (simp add: av_pix_fmt_descriptors_def desc_ok_def)
next
  case (Some d)
  then have "(f, d) \<in> set pix_fmt_table" by (rule map_of_SomeD)
  with table_ok have "desc_ok d" by (auto simp: list_all_iff)
  with Some show ?thesis by (simp add: av_pix_fmt_descriptors_def)
qed

lemma comp_ok: "c < nb_components (av_pix_fmt_descriptors f) \<Longrightarrow>
  comp_ok (flags (av_pix_fmt_descriptors f)) (comp (av_pix_fmt_descriptors f) ! c)"
  using desc_ok [of f] nth_mem [of c "take (nb_components (av_pix_fmt_descriptors f)) (comp (av_pix_fmt_descriptors f))"]
  by (auto simp: desc_ok_def list_all_iff)

section \<open>Fields of a word\<close>

text \<open>A component of \<open>depth\<close> bits at \<open>sh\<close> in a byte or 16-bit word.\<close>

definition field :: "nat \<Rightarrow> nat \<Rightarrow> 'a::len word \<Rightarrow> u16" where
  "field sh depth W = ucast (drop_bit sh (ucast W :: u32) AND (push_bit depth 1 - 1))"

lemma bit_field:
  assumes "sh + depth \<le> LENGTH('a)" "LENGTH('a) \<le> 16"
  shows "bit (field sh depth (W :: 'a::len word)) n \<longleftrightarrow> n < depth \<and> bit W (sh + n)"
proof -
  have "(push_bit depth 1 - 1 :: u32) = mask depth" by (simp add: mask_eq_exp_minus_1 push_bit_eq_mult)
  then show ?thesis using assms
    by (auto simp: field_def bit_ucast_iff bit_and_iff bit_drop_bit_eq bit_mask_iff dest: bit_imp_le_length)
qed

lemma field_of_or:
  fixes W :: "'a::len word"
  assumes "sh + depth \<le> LENGTH('a)" "LENGTH('a) \<le> 16" "\<forall>n. bit v n \<longrightarrow> n < depth"
    and "field sh depth W = 0"
  shows "field sh depth (W OR ucast (push_bit sh (ucast (v :: u16) :: u32))) = v"
proof (rule bit_word_eqI)
  fix n
  assume "n < LENGTH(16)"
  have z: "m < depth \<Longrightarrow> \<not> bit W (sh + m)" for m
    using bit_field [OF assms(1,2), of W m] assms(4) by simp
  show "bit (field sh depth (W OR ucast (push_bit sh (ucast v :: u32)))) n \<longleftrightarrow> bit v n"
    using z [of n] assms(1-3)
    by (auto simp: bit_field [OF assms(1,2)] bit_or_iff bit_ucast_iff bit_push_bit_iff)
qed

lemma field_of_or_other:
  fixes W :: "'a::len word"
  assumes "sh + depth \<le> LENGTH('a)" "LENGTH('a) \<le> 16" "\<forall>n. bit v n \<longrightarrow> n < depth"
    and "sh' + depth \<le> sh \<or> sh + depth \<le> sh'"
  shows "field sh depth (W OR ucast (push_bit sh' (ucast (v :: u16) :: u32))) = field sh depth W"
  by (rule bit_word_eqI)
    (use assms in \<open>fastforce simp: bit_field [OF assms(1,2)] bit_or_iff bit_ucast_iff bit_push_bit_iff\<close>)

section \<open>Writing and reading cells\<close>

fun put_all :: "(nat \<Rightarrow> 'v \<Rightarrow> 'm \<Rightarrow> 'm) \<Rightarrow> nat \<Rightarrow> 'v list \<Rightarrow> 'm \<Rightarrow> 'm" where
  "put_all put k [] m = m"
| "put_all put k (v # vs) m = put_all put (Suc k) vs (put k v m)"

lemma get_put_all_other:
  assumes "\<And>j k v m. v \<in> V \<Longrightarrow> j \<noteq> k \<Longrightarrow> get j (put k v m) = get j m"
  shows "set vs \<subseteq> V \<Longrightarrow> j < k \<Longrightarrow> get j (put_all put k vs m) = get j m"
  by (induction vs arbitrary: k m) (auto simp: assms)

lemma get_put_all:
  assumes same: "\<And>k v m. v \<in> V \<Longrightarrow> get k m = z \<Longrightarrow> get k (put k v m) = v"
    and other: "\<And>j k v m. v \<in> V \<Longrightarrow> j \<noteq> k \<Longrightarrow> get j (put k v m) = get j m"
  shows "set vs \<subseteq> V \<Longrightarrow> \<forall>j \<in> {k..<k + length vs}. get j m = z \<Longrightarrow>
    map (\<lambda>j. get j (put_all put k vs m)) [k..<k + length vs] = vs"
proof (induction vs arbitrary: k m)
  case Nil
  then show ?case by simp
next
  case (Cons v vs)
  have "map (\<lambda>j. get j (put_all put (Suc k) vs (put k v m))) [Suc k..<Suc k + length vs] = vs"
    by (rule Cons.IH) (use Cons.prems other in auto)
  moreover have "get k (put_all put (Suc k) vs (put k v m)) = get k (put k v m)"
    using get_put_all_other [of V get put vs k "Suc k"] Cons.prems other by simp
  moreover have "get k (put k v m) = v" using Cons.prems same by simp
  moreover have "[k..<k + length (v # vs)] = k # [Suc k..<Suc k + length vs]" by (simp add: upt_rec)
  ultimately show ?case by simp
qed

subsection \<open>Byte formats\<close>

definition get_bytes :: "bool \<Rightarrow> bool \<Rightarrow> nat \<Rightarrow> nat \<Rightarrow> nat \<Rightarrow> int \<Rightarrow> nat \<Rightarrow> memory \<Rightarrow> u16" where
  "get_bytes is_8bit be sh depth step p k mem =
     (let a = p + int k * int step
      in if is_8bit then field sh depth (mem a)
         else if be then field sh depth (AV_RB16 mem a) else field sh depth (AV_RL16 mem a))"

definition put_bytes :: "bool \<Rightarrow> bool \<Rightarrow> nat \<Rightarrow> nat \<Rightarrow> int \<Rightarrow> nat \<Rightarrow> u16 \<Rightarrow> memory \<Rightarrow> memory" where
  "put_bytes is_8bit be sh step p k v mem =
     (let a = p + int k * int step; bits = push_bit sh (ucast v :: u32)
      in if is_8bit then mem(a := mem a OR ucast bits)
         else if be then AV_WB16 a (AV_RB16 mem a OR ucast bits) mem
         else AV_WL16 a (AV_RL16 mem a OR ucast bits) mem)"

lemma map_upt_Suc_shift: "map f [k..<k + Suc w] = f k # map f [Suc k..<Suc k + w]"
  by (subst upt_conv_Cons) simp_all

lemma read_bytes_loop_cells:
  assumes "msk = push_bit depth 1 - 1" "\<And>v. pal v = v"
  shows "read_bytes_loop w pal mem is_8bit be sh step msk (p + int k * int step) =
    map (\<lambda>j. get_bytes is_8bit be sh depth step p j mem) [k..<k + w]"
proof (induction w arbitrary: k)
  case 0
  then show ?case by simp
next
  case (Suc w)
  have "p + int k * int step + int step = p + int (Suc k) * int step" by (simp add: algebra_simps)
  moreover have "get_bytes is_8bit be sh depth step p k mem =
      ucast (pal (drop_bit sh (if is_8bit then ucast (mem (p + int k * int step))
        else if be then ucast (AV_RB16 mem (p + int k * int step)) else ucast (AV_RL16 mem (p + int k * int step))) AND msk))"
    by (simp only: assms get_bytes_def field_def Let_def split: if_split) simp
  ultimately show ?case
    by (simp only: read_bytes_loop.simps Let_def Suc.IH [of "Suc k"] map_upt_Suc_shift)
qed

lemma write_bytes_loop_cells:
  "write_bytes_loop src is_8bit be sh step (p + int k * int step) mem =
    put_all (put_bytes is_8bit be sh step p) k src mem"
proof (induction src arbitrary: k mem)
  case Nil
  then show ?case by simp
next
  case (Cons v src)
  have "p + int k * int step + int step = p + int (Suc k) * int step" by (simp add: algebra_simps)
  moreover have "put_bytes is_8bit be sh step p k v mem =
      (if is_8bit then mem(p + int k * int step := mem (p + int k * int step) OR ucast (push_bit sh (ucast v :: u32)))
       else if be then AV_WB16 (p + int k * int step) (AV_RB16 mem (p + int k * int step) OR ucast (push_bit sh (ucast v :: u32))) mem
       else AV_WL16 (p + int k * int step) (AV_RL16 mem (p + int k * int step) OR ucast (push_bit sh (ucast v :: u32))) mem)"
    by (simp only: put_bytes_def Let_def)
  ultimately show ?case
    by (simp only: write_bytes_loop.simps put_all.simps Cons.IH [of "Suc k"])
qed

lemma RW16:
  "AV_RL16 (AV_WL16 p v mem) p = v" "AV_RB16 (AV_WB16 p v mem) p = v"
  "q + 2 \<le> p \<or> p + 2 \<le> q \<Longrightarrow> AV_RL16 (AV_WL16 p v mem) q = AV_RL16 mem q"
  "q + 2 \<le> p \<or> p + 2 \<le> q \<Longrightarrow> AV_RB16 (AV_WB16 p v mem) q = AV_RB16 mem q"
proof -
  have join: "(ucast (ucast v :: u8) OR push_bit 8 (ucast (ucast (drop_bit 8 v) :: u8)) :: u16) = v"
    by (rule bit_word_eqI) (auto simp: bit_or_iff bit_ucast_iff bit_push_bit_iff bit_drop_bit_eq)
  show "AV_RL16 (AV_WL16 p v mem) p = v" "AV_RB16 (AV_WB16 p v mem) p = v"
    using join by (simp_all add: AV_RL16_def AV_WL16_def AV_RB16_def AV_WB16_def)
  show "q + 2 \<le> p \<or> p + 2 \<le> q \<Longrightarrow> AV_RL16 (AV_WL16 p v mem) q = AV_RL16 mem q"
    "q + 2 \<le> p \<or> p + 2 \<le> q \<Longrightarrow> AV_RB16 (AV_WB16 p v mem) q = AV_RB16 mem q"
    by (auto simp: AV_RL16_def AV_WL16_def AV_RB16_def AV_WB16_def)
qed

lemma apart:
  assumes "j \<noteq> k" "m \<le> (step :: nat)"
  shows "int j * int step + int m \<le> int k * int step \<or> int k * int step + int m \<le> int j * int step"
proof -
  have le: "int a * int step + int m \<le> int b * int step" if "a < b" for a b :: nat
  proof -
    have "(int a + 1) * int step \<le> int b * int step" using that by (intro mult_right_mono) simp_all
    then show ?thesis using assms(2) by (simp add: algebra_simps)
  qed
  show ?thesis using le [of j k] le [of k j] assms(1) by linarith
qed

lemma put_get_bytes:
  assumes "\<forall>n. bit v n \<longrightarrow> n < depth" "sh + depth \<le> (if is_8bit then 8 else 16)" "(if is_8bit then 1 else 2) \<le> step"
  shows "get_bytes is_8bit be sh depth step p k mem = 0 \<Longrightarrow>
      get_bytes is_8bit be sh depth step p k (put_bytes is_8bit be sh step p k v mem) = v"
    and "j \<noteq> k \<Longrightarrow> get_bytes is_8bit be sh depth step p j (put_bytes is_8bit be sh step p k v mem) =
      get_bytes is_8bit be sh depth step p j mem"
proof -
  show "get_bytes is_8bit be sh depth step p k mem = 0 \<Longrightarrow>
      get_bytes is_8bit be sh depth step p k (put_bytes is_8bit be sh step p k v mem) = v"
    using assms by (auto simp: get_bytes_def put_bytes_def Let_def RW16 field_of_or split: if_splits)
  assume "j \<noteq> k"
  from apart [OF this, of 1 step] apart [OF this, of 2 step] assms(3)
  show "get_bytes is_8bit be sh depth step p j (put_bytes is_8bit be sh step p k v mem) =
      get_bytes is_8bit be sh depth step p j mem"
    by (auto simp: get_bytes_def put_bytes_def Let_def RW16 split: if_splits)
qed

subsection \<open>Bitstream formats\<close>

text \<open>Pixel \<open>k\<close> is at bit \<open>t = skip + k * step\<close> of the line.\<close>

definition bit_place :: "int \<Rightarrow> nat \<Rightarrow> int \<Rightarrow> nat \<Rightarrow> nat \<Rightarrow> int \<times> int" where
  "bit_place base depth skip step k =
     (let t = skip + int k * int step in (base + t div 8, 8 - int depth - t mod 8))"

definition bits_ok :: "int \<Rightarrow> nat \<Rightarrow> nat \<Rightarrow> bool" where
  "bits_ok skip depth step \<longleftrightarrow> step \<in> {1, 2, 4, 8} \<and> 0 < depth \<and> skip mod int step + int depth \<le> int step"

lemma bits_ok_mod8:
  assumes "bits_ok skip depth step"
  defines "t \<equiv> \<lambda>k. skip + int k * int step"
  shows "t k mod 8 + int depth \<le> 8"
    and "t k mod 8 + int step < 8 \<Longrightarrow> t (Suc k) mod 8 = t k mod 8 + int step \<and> t (Suc k) div 8 = t k div 8"
    and "8 \<le> t k mod 8 + int step \<Longrightarrow> t (Suc k) mod 8 = t k mod 8 + int step - 8 \<and> t (Suc k) div 8 = t k div 8 + 1"
proof -
  obtain m where m: "8 = int step * m" "0 < m"
    using assms(1) that [of 8] that [of 4] that [of 2] that [of 1] by (auto simp: bits_ok_def)
  have "t k mod int step = skip mod int step" by (simp add: t_def)
  then have d: "t k mod int step + int depth \<le> int step" using assms(1) by (simp add: bits_ok_def)
  have "t k mod 8 = int step * (t k div int step mod m) + t k mod int step"
    unfolding m(1) by (rule zmod_zmult2_eq) (use m(2) in simp)
  moreover have "int step * (t k div int step mod m) \<le> int step * (m - 1)"
    using pos_mod_bound [OF m(2), of "t k div int step"] by (intro mult_left_mono) simp_all
  ultimately show "t k mod 8 + int depth \<le> 8" using d m(1) by (simp add: algebra_simps)
  have s: "0 < int step" "int step \<le> 8" using assms(1) by (auto simp: bits_ok_def)
  define r where "r = t k mod 8"
  have r: "0 \<le> r" "r < 8" by (simp_all add: r_def)
  have "t (Suc k) = (r + int step) + 8 * (t k div 8)" by (simp add: t_def r_def algebra_simps)
  then have n: "t (Suc k) mod 8 = (r + int step) mod 8" "t (Suc k) div 8 = (r + int step) div 8 + t k div 8"
    by simp_all
  show "t k mod 8 + int step < 8 \<Longrightarrow> t (Suc k) mod 8 = t k mod 8 + int step \<and> t (Suc k) div 8 = t k div 8"
    unfolding n r_def [symmetric] using r s by simp
  assume "8 \<le> t k mod 8 + int step"
  define y where "y = r + int step - 8"
  have "0 \<le> y" "y < 8" using \<open>8 \<le> t k mod 8 + int step\<close> r s by (simp_all add: r_def y_def)
  then have "(y + 8 * 1) mod 8 = y" "(y + 8 * 1) div 8 = 1" by simp_all
  then have "(r + int step) mod 8 = r + int step - 8" "(r + int step) div 8 = 1" by (simp_all add: y_def)
  then show "t (Suc k) mod 8 = t k mod 8 + int step - 8 \<and> t (Suc k) div 8 = t k div 8 + 1"
    unfolding n r_def [symmetric] by simp
qed

lemma next_bit_place:
  assumes "bits_ok skip depth step"
  shows "next_bits step (bit_place base depth skip step k) = bit_place base depth skip step (Suc k)"
proof -
  define t where "t k = skip + int k * int step" for k
  note ok = bits_ok_mod8 [OF assms, folded t_def]
  have d: "0 < depth" using assms by (simp add: bits_ok_def)
  have and7: "x AND 7 = x mod 8" for x :: int
    using take_bit_eq_mask [of 3 x] by (simp add: take_bit_eq_mod mask_eq_exp_minus_1)
  define s where "s = 8 - int depth - t k mod 8 - int step"
  define s' where "s' = 8 - int depth - t (Suc k) mod 8"
  have s': "0 \<le> s'" "s' < 8" using ok(1) [of "Suc k"] d by (simp_all add: s'_def)
  have "drop_bit 3 s = t k div 8 - t (Suc k) div 8 \<and> s AND 7 = s'"
  proof (cases "t k mod 8 + int step < 8")
    case True
    from ok(2) [OF this] have "s = s'" "t (Suc k) div 8 = t k div 8" by (simp_all add: s_def s'_def)
    then show ?thesis using s' by (simp add: and7 drop_bit_eq_div)
  next
    case False
    from ok(3) [of k] False have "s = s' - 8" "t (Suc k) div 8 = t k div 8 + 1" by (simp_all add: s_def s'_def)
    then show ?thesis using s' by (simp add: and7 drop_bit_eq_div)
  qed
  then have "t k div 8 - drop_bit 3 s = t (Suc k) div 8" "s AND 7 = s'" by simp_all
  then show ?thesis
    unfolding bit_place_def next_bits_def Let_def prod.case t_def [symmetric] s_def s'_def
    by (simp add: add_diff_eq [symmetric])
qed

definition get_bits :: "int \<Rightarrow> nat \<Rightarrow> int \<Rightarrow> nat \<Rightarrow> nat \<Rightarrow> memory \<Rightarrow> u16" where
  "get_bits base depth skip step k mem =
     (let (p, sh) = bit_place base depth skip step k in field (nat sh) depth (mem p))"

definition put_bits :: "int \<Rightarrow> nat \<Rightarrow> int \<Rightarrow> nat \<Rightarrow> nat \<Rightarrow> u16 \<Rightarrow> memory \<Rightarrow> memory" where
  "put_bits base depth skip step k v mem =
     (let (p, sh) = bit_place base depth skip step k
      in mem(p := mem p OR ucast (push_bit (nat sh) (ucast v :: u32))))"

lemma read_bits_loop_cells:
  assumes "msk = push_bit depth 1 - 1" "\<And>v. pal v = v" "bits_ok skip depth step"
  shows "read_bits_loop w pal mem step msk (bit_place base depth skip step k) =
    map (\<lambda>j. get_bits base depth skip step j mem) [k..<k + w]"
proof (induction w arbitrary: k)
  case 0
  then show ?case by simp
next
  case (Suc w)
  obtain p sh where b: "bit_place base depth skip step k = (p, sh)" by (cases "bit_place base depth skip step k")
  have "next_bits step (p, sh) = bit_place base depth skip step (Suc k)"
    using next_bit_place [OF assms(3)] b by metis
  moreover have "get_bits base depth skip step k mem = ucast (pal (drop_bit (nat sh) (ucast (mem p)) AND msk))"
    by (simp add: get_bits_def b field_def assms(1,2))
  ultimately show ?case unfolding b
    by (simp only: read_bits_loop.simps Let_def Suc.IH [of "Suc k"] map_upt_Suc_shift)
qed

lemma write_bits_loop_cells:
  assumes "bits_ok skip depth step"
  shows "write_bits_loop src step (bit_place base depth skip step k) mem =
    put_all (put_bits base depth skip step) k src mem"
proof (induction src arbitrary: k mem)
  case Nil
  then show ?case by simp
next
  case (Cons v src)
  obtain p sh where b: "bit_place base depth skip step k = (p, sh)" by (cases "bit_place base depth skip step k")
  have "next_bits step (p, sh) = bit_place base depth skip step (Suc k)"
    using next_bit_place [OF assms] b by metis
  moreover have "put_bits base depth skip step k v mem = mem(p := mem p OR ucast (push_bit (nat sh) (ucast v :: u32)))"
    by (simp only: put_bits_def b Let_def prod.case)
  ultimately show ?case unfolding b
    by (simp only: write_bits_loop.simps put_all.simps Cons.IH [of "Suc k"])
qed

lemma put_get_bits:
  assumes "\<forall>n. bit v n \<longrightarrow> n < depth" "bits_ok skip depth step"
  shows "get_bits base depth skip step k mem = 0 \<Longrightarrow> get_bits base depth skip step k (put_bits base depth skip step k v mem) = v"
    and "j \<noteq> k \<Longrightarrow> get_bits base depth skip step j (put_bits base depth skip step k v mem) = get_bits base depth skip step j mem"
proof -
  define t where "t k = skip + int k * int step" for k
  define sh where "sh k = nat (8 - int depth - t k mod 8)" for k
  note ok = bits_ok_mod8(1) [OF assms(2), folded t_def]
  have sh: "int (sh k) = 8 - int depth - t k mod 8" for k using ok [of k] by (simp add: sh_def)
  have "0 \<le> t k mod 8" for k by simp
  then have fits: "sh k + depth \<le> LENGTH(8)" for k using sh [of k] by (simp add: le_diff_conv2)
  have bp: "bit_place base depth skip step k = (base + t k div 8, int (sh k))" for k
    by (simp add: bit_place_def Let_def t_def [symmetric] sh)
  show "get_bits base depth skip step k mem = 0 \<Longrightarrow> get_bits base depth skip step k (put_bits base depth skip step k v mem) = v"
    using field_of_or [OF fits _ assms(1)] by (simp add: get_bits_def put_bits_def bp)
  assume "j \<noteq> k"
  have "depth \<le> step" using assms(2) pos_mod_sign [of "int step" skip] by (auto simp: bits_ok_def)
  from apart [OF \<open>j \<noteq> k\<close> this] have "t j + int depth \<le> t k \<or> t k + int depth \<le> t j" by (auto simp: t_def)
  moreover have "t j = 8 * (t j div 8) + t j mod 8" "t k = 8 * (t k div 8) + t k mod 8" by simp_all
  ultimately have "t j div 8 = t k div 8 \<Longrightarrow> t j mod 8 + int depth \<le> t k mod 8 \<or> t k mod 8 + int depth \<le> t j mod 8"
    by linarith
  then have dist: "t j div 8 = t k div 8 \<Longrightarrow> sh k + depth \<le> sh j \<or> sh j + depth \<le> sh k"
    using sh [of j] sh [of k] by linarith
  show "get_bits base depth skip step j (put_bits base depth skip step k v mem) = get_bits base depth skip step j mem"
  proof (cases "t j div 8 = t k div 8")
    case True
    from field_of_or_other [OF fits _ assms(1) dist [OF True]] True show ?thesis
      by (simp add: get_bits_def put_bits_def bp)
  next
    case False
    then show ?thesis by (simp add: get_bits_def put_bits_def bp)
  qed
qed

section \<open>Properties\<close>

lemma small_value: "unat (v :: u16) < 2 ^ d \<Longrightarrow> bit v n \<Longrightarrow> n < d"
proof -
  assume "unat v < 2 ^ d" "bit v n"
  then have "take_bit d (unat v) = unat v" by (simp add: take_bit_nat_eq_self_iff)
  moreover have "bit (unat v) n" using \<open>bit v n\<close> by (simp add: bit_unsigned_iff)
  ultimately show "n < d" by (metis bit_take_bit_iff)
qed

text \<open>
  C19: What is written into a component of a line is what is read back, for every component of
  every pixel format of the table, packed, planar, in bits or in 16-bit words of either byte
  order, from any pixel on: if the values fit the component's depth and the component's bits
  of these pixels were clear, av_read_image_line returns them after av_write_image_line.
\<close>

theorem image_line_roundtrip:
  assumes "c < nb_components (av_pix_fmt_descriptors f)"
    and "\<forall>v \<in> set src. unat v < 2 ^ (depth_minus1 (comp (av_pix_fmt_descriptors f) ! c) + 1)"
    and "av_read_image_line mem data linesize (av_pix_fmt_descriptors f) x y c (length src) False = replicate (length src) 0"
  shows "av_read_image_line (av_write_image_line src mem data linesize (av_pix_fmt_descriptors f) x y c)
      data linesize (av_pix_fmt_descriptors f) x y c (length src) False = src"
proof -
  define d cd where "d = av_pix_fmt_descriptors f" and "cd = comp d ! c"
  define depth step where "depth = depth_minus1 cd + 1" and "step = step_minus1 cd + 1"
  define base where "base = data (plane cd) + y * linesize (plane cd)"
  have ok: "comp_ok (flags d) cd" using comp_ok [OF assms(1)] by (simp add: d_def cd_def)
  define V where "V = {v :: u16. unat v < 2 ^ depth}"
  have V: "set src \<subseteq> V" using assms(2) by (auto simp: V_def depth_def d_def cd_def)
  have Vb: "v \<in> V \<Longrightarrow> \<forall>n. bit v n \<longrightarrow> n < depth" for v using small_value by (auto simp: V_def)
  have pal: "pal_component m data c' False v = v" for m c' v by (simp add: pal_component_def)
  note defs = av_read_image_line_def av_write_image_line_def Let_def d_def [symmetric] cd_def [symmetric]
    depth_def [symmetric] step_def [symmetric] base_def [symmetric]
  have z: "map g [0..<0 + length src] = replicate (length src) 0 \<Longrightarrow> \<forall>j \<in> {0..<0 + length src}. g j = 0" for g :: "nat \<Rightarrow> u16"
  proof
    fix j
    assume "map g [0..<0 + length src] = replicate (length src) 0" "j \<in> {0..<0 + length src}"
    then have "map g [0..<0 + length src] ! j = replicate (length src) 0 ! j" "j < length src" by simp_all
    then show "g j = 0" by simp
  qed
  show ?thesis
  proof (cases "flags d AND PIX_FMT_BITSTREAM = 0")
    case True
    define is8 be where "is8 = (shift cd + depth \<le> 8)" and "be = (flags d AND PIX_FMT_BE \<noteq> 0)"
    define p where "p = (if is8 \<and> be then base + x * int step + int (offset_plus1 cd) - 1 + 1
      else base + x * int step + int (offset_plus1 cd) - 1)"
    have fit: "shift cd + depth \<le> (if is8 then 8 else 16)" "(if is8 then 1 else 2) \<le> step"
      using ok True by (auto simp: comp_ok_def Let_def depth_def step_def is8_def)
    have rd: "av_read_image_line m data linesize d x y c (length src) False =
        map (\<lambda>j. get_bytes is8 be (shift cd) depth step p j m) [0..<0 + length src]" for m
      using read_bytes_loop_cells [OF refl pal, where w = "length src" and mem = m and is_8bit = is8 and be = be
        and sh = "shift cd" and step = step and depth = depth and p = p and k = 0] True
      unfolding defs is8_def [symmetric] be_def [symmetric] p_def [symmetric] by simp
    have wr: "av_write_image_line src mem data linesize d x y c = put_all (put_bytes is8 be (shift cd) step p) 0 src mem"
      using write_bytes_loop_cells [of src is8 be "shift cd" step p 0 mem] True
      unfolding defs is8_def [symmetric] be_def [symmetric] p_def [symmetric] by simp
    have "map (\<lambda>j. get_bytes is8 be (shift cd) depth step p j mem) [0..<0 + length src] = replicate (length src) 0"
      using assms(3) unfolding d_def [symmetric] rd .
    note zr = z [OF this]
    show ?thesis unfolding d_def [symmetric] rd wr
      by (rule get_put_all [where get = "get_bytes is8 be (shift cd) depth step p", OF put_get_bytes(1) [OF Vb fit] put_get_bytes(2) [OF Vb fit] V zr]) assumption+
  next
    case False
    define skip where "skip = x * int step + int (offset_plus1 cd) - 1"
    have "skip mod int step = int ((offset_plus1 cd - 1) mod step)"
      using ok False by (simp add: comp_ok_def Let_def skip_def zmod_int add_diff_eq [symmetric] del: add_diff_eq)
    then have bok: "bits_ok skip depth step"
      using ok False by (auto simp: comp_ok_def Let_def bits_ok_def depth_def step_def)
    have and7: "x AND 7 = x mod 8" for x :: int
      using take_bit_eq_mask [of 3 x] by (simp add: take_bit_eq_mod mask_eq_exp_minus_1)
    have bp: "bit_place base depth skip step 0 = (base + drop_bit 3 skip, 8 - int depth - (skip AND 7))"
      by (simp add: bit_place_def Let_def and7 drop_bit_eq_div)
    have rd: "av_read_image_line m data linesize d x y c (length src) False =
        map (\<lambda>j. get_bits base depth skip step j m) [0..<0 + length src]" for m
      using False read_bits_loop_cells [OF refl pal bok, where w = "length src" and mem = m and k = 0 and base = base, unfolded bp]
      unfolding defs skip_def [symmetric] by simp
    have wr: "av_write_image_line src mem data linesize d x y c = put_all (put_bits base depth skip step) 0 src mem"
      using False write_bits_loop_cells [OF bok, where src = src and mem = mem and k = 0 and base = base, unfolded bp]
      unfolding defs skip_def [symmetric] by simp
    have "map (\<lambda>j. get_bits base depth skip step j mem) [0..<0 + length src] = replicate (length src) 0"
      using assms(3) unfolding d_def [symmetric] rd .
    note zr = z [OF this]
    show ?thesis unfolding d_def [symmetric] rd wr
      by (rule get_put_all [where get = "get_bits base depth skip step", OF put_get_bits(1) [OF Vb bok] put_get_bits(2) [OF Vb bok] V zr]) assumption+
  qed
qed

lemma image_line_roundtrip_witness:
  "av_read_image_line (av_write_image_line [1, 3, 2] (\<lambda>_. 0) (\<lambda>_. 0) (\<lambda>_. 0) (av_pix_fmt_descriptors PIX_FMT_RGB4) 5 0 1)
     (\<lambda>_. 0) (\<lambda>_. 0) (av_pix_fmt_descriptors PIX_FMT_RGB4) 5 0 1 3 False = [1, 3, 2]"
proof -
  have d: "av_pix_fmt_descriptors PIX_FMT_RGB4 = Desc ''rgb4'' 3 0 0
      [Comp 0 3 1 0 0, Comp 0 3 2 0 1, Comp 0 3 4 0 0] (PIX_FMT_BITSTREAM OR PIX_FMT_RGB)"
    unfolding av_pix_fmt_descriptors_def pix_fmt_table_def pix_fmt_pieces PIX_FMT_defs by simp
  have z: "read_bits_loop w (pal_component (\<lambda>_. 0) da c False) (\<lambda>_. 0) step msk st = replicate w 0" for w da c step msk st
  proof (induction w arbitrary: st)
    case (Suc w)
    show ?case using Suc [of "next_bits step st"] by (cases st) (simp add: pal_component_def Let_def)
  qed simp
  have f: "flags (av_pix_fmt_descriptors PIX_FMT_RGB4) AND PIX_FMT_BITSTREAM \<noteq> 0"
    unfolding d by (simp add: Desc_def PIX_FMT_flags)
  have "av_read_image_line (\<lambda>_. 0) (\<lambda>_. 0) (\<lambda>_. 0) (av_pix_fmt_descriptors PIX_FMT_RGB4) 5 0 1 (length [1, 3, 2 :: u16]) False =
      replicate (length [1, 3, 2 :: u16]) 0"
    using f by (simp only: av_read_image_line_def Let_def z if_True simp_thms)
  moreover have "1 < nb_components (av_pix_fmt_descriptors PIX_FMT_RGB4)" unfolding d by (simp add: Desc_def)
  moreover have "\<forall>v \<in> set [1, 3, 2 :: u16]. unat v < 2 ^ (depth_minus1 (comp (av_pix_fmt_descriptors PIX_FMT_RGB4) ! 1) + 1)"
    unfolding d by (simp add: Desc_def Comp_def)
  ultimately have "av_read_image_line (av_write_image_line [1, 3, 2] (\<lambda>_. 0) (\<lambda>_. 0) (\<lambda>_. 0) (av_pix_fmt_descriptors PIX_FMT_RGB4) 5 0 1)
     (\<lambda>_. 0) (\<lambda>_. 0) (av_pix_fmt_descriptors PIX_FMT_RGB4) 5 0 1 (length [1, 3, 2 :: u16]) False = [1, 3, 2]"
    by (intro image_line_roundtrip)
  moreover have "length [1, 3, 2 :: u16] = 3" by simp
  ultimately show ?thesis by (simp only:)
qed

lemma table_name_unique:
  assumes "name (av_pix_fmt_descriptors f) = Some s" "name (av_pix_fmt_descriptors g) = Some s"
  shows "f = g"
proof -
  have *: "\<exists>d. (h, d) \<in> set pix_fmt_table \<and> name d = Some s" if "name (av_pix_fmt_descriptors h) = Some s" for h
    using that by (auto simp: av_pix_fmt_descriptors_def dest: map_of_SomeD split: option.splits)
  obtain d e where "(f, d) \<in> set pix_fmt_table" "(g, e) \<in> set pix_fmt_table" "name d = Some s" "name e = Some s"
    using *[OF assms(1)] *[OF assms(2)] by auto
  moreover have "inj_on (name \<circ> snd) (set pix_fmt_table)" using table_names by (simp add: distinct_map)
  ultimately have "(f, d) = (g, e)" using inj_onD [of "name \<circ> snd" _ "(f, d)" "(g, e)"] by simp
  then show ?thesis by simp
qed

lemma internal_spec:
  "get_pix_fmt_internal s = f \<Longrightarrow> f \<noteq> PIX_FMT_NONE \<Longrightarrow> av_get_pix_fmt_name f = Some s"
  "av_get_pix_fmt_name f = Some s \<Longrightarrow> get_pix_fmt_internal s = f"
proof -
  have nb: "set [0..PIX_FMT_NB - 1] = {f. 0 \<le> f \<and> f < PIX_FMT_NB}" by auto
  show "get_pix_fmt_internal s = f \<Longrightarrow> f \<noteq> PIX_FMT_NONE \<Longrightarrow> av_get_pix_fmt_name f = Some s"
    unfolding get_pix_fmt_internal_def av_get_pix_fmt_name_def
    by (auto simp: find_Some_iff nb in_set_conv_nth[symmetric] dest: nth_mem[of _ "[0..PIX_FMT_NB - 1]"] split: option.splits)
  assume f: "av_get_pix_fmt_name f = Some s"
  then have "0 \<le> f \<and> f < PIX_FMT_NB" and n: "name (av_pix_fmt_descriptors f) = Some s"
    by (auto simp: av_get_pix_fmt_name_def split: if_splits)
  then have "f \<in> set [0..PIX_FMT_NB - 1]" using nb by blast
  then have "List.find (\<lambda>f. name (av_pix_fmt_descriptors f) = Some s) [0..PIX_FMT_NB - 1] \<noteq> None"
    using n by (auto simp: find_None_iff)
  then obtain g where g: "List.find (\<lambda>f. name (av_pix_fmt_descriptors f) = Some s) [0..PIX_FMT_NB - 1] = Some g" by auto
  then have "g = f" using n table_name_unique by (auto simp: find_Some_iff)
  with g show "get_pix_fmt_internal s = f" by (simp add: get_pix_fmt_internal_def)
qed

text \<open>
  C38: Formats and names. The name of every format is found again, as that format, and whatever
  string is looked up, the answer is PIX_FMT_NONE or a format whose name is the string (after
  the two aliases) or the string with the machine's byte order appended.
\<close>

theorem av_get_pix_fmt_spec:
  "(\<forall>f s. av_get_pix_fmt_name f = Some s \<longrightarrow> av_get_pix_fmt s = f) \<and>
   (\<forall>s. let s' = (if s = ''rgb32'' then ''bgra'' else if s = ''bgr32'' then ''rgba'' else s); f = av_get_pix_fmt s
     in f = PIX_FMT_NONE \<or> av_get_pix_fmt_name f = Some s' \<or> av_get_pix_fmt_name f = Some (take 31 (s' @ ''le'')))"
proof (intro conjI allI impI)
  fix f s
  assume f: "av_get_pix_fmt_name f = Some s"
  then have r: "0 \<le> f" "name (av_pix_fmt_descriptors f) = Some s"
    by (auto simp: av_get_pix_fmt_name_def split: if_splits)
  then obtain d where "(f, d) \<in> set pix_fmt_table" "name d = Some s"
    by (auto simp: av_pix_fmt_descriptors_def dest: map_of_SomeD split: option.splits)
  then have "s \<noteq> ''rgb32''" "s \<noteq> ''bgr32''" using table_range by (auto simp: list_all_iff)
  moreover have "f \<noteq> PIX_FMT_NONE" using r(1) by (simp add: PIX_FMT_NONE_def)
  ultimately show "av_get_pix_fmt s = f" using internal_spec(2) [OF f] by (simp add: av_get_pix_fmt_def)
next
  fix s
  show "let s' = (if s = ''rgb32'' then ''bgra'' else if s = ''bgr32'' then ''rgba'' else s); f = av_get_pix_fmt s
     in f = PIX_FMT_NONE \<or> av_get_pix_fmt_name f = Some s' \<or> av_get_pix_fmt_name f = Some (take 31 (s' @ ''le''))"
    unfolding av_get_pix_fmt_def Let_def using internal_spec(1) by (auto split: if_splits)
qed

lemma av_get_pix_fmt_spec_witness: "av_get_pix_fmt ''gray16le'' = PIX_FMT_GRAY16LE"
proof -
  have "av_get_pix_fmt_name PIX_FMT_GRAY16LE = Some ''gray16le''"
    unfolding av_get_pix_fmt_name_def av_pix_fmt_descriptors_def pix_fmt_table_def pix_fmt_pieces PIX_FMT_defs Desc_def by simp
  with av_get_pix_fmt_spec show ?thesis by blast
qed

end
