(* ===== verification/BlockCipher.thy ===== *)
theory BlockCipher
  imports Bytes
begin

text \<open>
  What the block ciphers of libavutil promise: a block decrypts to what was encrypted, and
  with an initialisation vector the blocks are chained as in cipher block chaining (CBC).
  The ciphers of the other theories are interpretations of \<open>block_cipher\<close>, and their loops
  over a buffer are proved to compute \<open>cbc_encrypt\<close> and \<open>cbc_decrypt\<close>.
\<close>

definition xor_bytes :: "u8 list \<Rightarrow> u8 list \<Rightarrow> u8 list" where
  "xor_bytes a b = map2 (XOR) a b"

fun cbc_encrypt :: "(u8 list \<Rightarrow> u8 list) \<Rightarrow> u8 list \<Rightarrow> u8 list list \<Rightarrow> u8 list list" where
  "cbc_encrypt enc iv [] = []"
| "cbc_encrypt enc iv (b # bs) = (let c = enc (xor_bytes b iv) in c # cbc_encrypt enc c bs)"

fun cbc_decrypt :: "(u8 list \<Rightarrow> u8 list) \<Rightarrow> u8 list \<Rightarrow> u8 list list \<Rightarrow> u8 list list" where
  "cbc_decrypt dec iv [] = []"
| "cbc_decrypt dec iv (c # cs) = xor_bytes (dec c) iv # cbc_decrypt dec c cs"

text \<open>What decryption does when it chains the plain text just produced instead.\<close>

fun plain_chained_decrypt :: "(u8 list \<Rightarrow> u8 list) \<Rightarrow> u8 list \<Rightarrow> u8 list list \<Rightarrow> u8 list list" where
  "plain_chained_decrypt dec iv [] = []"
| "plain_chained_decrypt dec iv (c # cs) =
     (let p = xor_bytes (dec c) iv in p # plain_chained_decrypt dec p cs)"

lemma length_xor_bytes [simp]: "length (xor_bytes a b) = min (length a) (length b)"
  by (simp add: xor_bytes_def)

lemma xor_cancel [simp]:
  fixes a b :: "'a::len word"
  shows "(a XOR b) XOR b = a" "(a XOR b) XOR a = b" "a XOR (a XOR b) = b" "b XOR (a XOR b) = a"
  by (simp_all add: ac_simps)

lemma xor_bytes_cancel: "length a = length b \<Longrightarrow> xor_bytes (xor_bytes a b) b = a"
  by (rule nth_equalityI) (simp_all add: xor_bytes_def)

lemma xor_bytes_cancel2: "length a = length b \<Longrightarrow> xor_bytes (xor_bytes a b) a = b"
  by (rule nth_equalityI) (simp_all add: xor_bytes_def)

locale block_cipher =
  fixes n :: nat
    and enc dec :: "u8 list \<Rightarrow> u8 list"
  assumes enc_length: "length b = n \<Longrightarrow> length (enc b) = n"
    and dec_enc: "length b = n \<Longrightarrow> dec (enc b) = b"
begin

lemma cbc_length:
  "\<forall>b \<in> set bs. length b = n \<Longrightarrow> length iv = n \<Longrightarrow> \<forall>c \<in> set (cbc_encrypt enc iv bs). length c = n"
proof (induction bs arbitrary: iv)
  case (Cons b bs)
  then have l: "length (enc (xor_bytes b iv)) = n" by (intro enc_length) simp
  show ?case using Cons.IH [OF _ l] Cons.prems(1) l by (simp add: Let_def)
qed simp

lemma cbc_roundtrip:
  "\<forall>b \<in> set bs. length b = n \<Longrightarrow> length iv = n \<Longrightarrow> cbc_decrypt dec iv (cbc_encrypt enc iv bs) = bs"
proof (induction bs arbitrary: iv)
  case (Cons b bs)
  then have x: "length (xor_bytes b iv) = n" "length b = length iv" by simp_all
  show ?case using Cons.IH [OF _ enc_length [OF x(1)]] Cons.prems(1) dec_enc [OF x(1)] xor_bytes_cancel [OF x(2)]
    by (simp add: Let_def)
qed simp

lemma ecb_roundtrip: "\<forall>b \<in> set bs. length b = n \<Longrightarrow> map dec (map enc bs) = bs"
  by (induction bs) (auto simp: dec_enc)

text \<open>Chaining the plain text instead goes wrong at the second block unless the first block is its own cipher text.\<close>

lemma plain_chained_wrong:
  assumes "length b = n" "length b' = n" "length iv = n" "enc (xor_bytes b iv) \<noteq> b"
  shows "plain_chained_decrypt dec iv (cbc_encrypt enc iv [b, b']) \<noteq> [b, b']"
proof
  let ?c = "enc (xor_bytes b iv)"
  have l: "length ?c = n" using assms by (simp add: enc_length)
  assume "plain_chained_decrypt dec iv (cbc_encrypt enc iv [b, b']) = [b, b']"
  then have e: "xor_bytes (xor_bytes b' ?c) b = b'"
    using assms l by (simp add: Let_def dec_enc xor_bytes_cancel)
  have "b = ?c"
  proof -
    have "xor_bytes (xor_bytes (xor_bytes b' ?c) b) (xor_bytes b' ?c) = b"
      using l assms by (intro xor_bytes_cancel2) simp
    moreover have "xor_bytes b' (xor_bytes b' ?c) = ?c"
      by (rule nth_equalityI) (use l assms in \<open>simp_all add: xor_bytes_def\<close>)
    ultimately show ?thesis using e by simp
  qed
  with assms(4) show False by simp
qed

end

section \<open>Buffers as blocks\<close>

fun blocks :: "nat \<Rightarrow> nat \<Rightarrow> u8 list \<Rightarrow> u8 list list" where
  "blocks n 0 xs = []"
| "blocks n (Suc k) xs = take n xs # blocks n k (drop n xs)"

lemma concat_blocks: "length xs = n * k \<Longrightarrow> concat (blocks n k xs) = xs"
  by (induction k arbitrary: xs) auto

lemma blocks_concat: "\<forall>b \<in> set bs. length b = n \<Longrightarrow> length bs = k \<Longrightarrow> blocks n k (concat bs) = bs"
  by (induction bs arbitrary: k) auto

lemma blocks_length: "length xs = n * k \<Longrightarrow> \<forall>b \<in> set (blocks n k xs). length b = n"
proof (induction k arbitrary: xs)
  case (Suc k)
  then have "length (drop n xs) = n * k" "length (take n xs) = n" by simp_all
  then show ?case using Suc.IH [of "drop n xs"] by (simp only: blocks.simps set_simps ball_simps) simp
qed simp

lemma length_blocks [simp]: "length (blocks n k xs) = k"
  by (induction k arbitrary: xs) auto

lemma length_cbc_encrypt [simp]: "length (cbc_encrypt enc iv bs) = length bs"
  by (induction bs arbitrary: iv) (auto simp: Let_def)

lemma length_cbc_decrypt [simp]: "length (cbc_decrypt dec iv bs) = length bs"
  by (induction bs arbitrary: iv) auto

lemma AV_RB32_pair:
  "AV_RB32 (AV_WB32 a @ AV_WB32 b) = a" "AV_RB32 (drop 4 (AV_WB32 a @ AV_WB32 b)) = b"
proof -
  have l: "length (AV_WB32 a) = 4" for a by (simp add: AV_WB32_def word_be_def)
  have "AV_RB32 (AV_WB32 a @ xs) = AV_RB32 (AV_WB32 a)" for xs by (simp add: AV_RB32_def l)
  then show "AV_RB32 (AV_WB32 a @ AV_WB32 b) = a" "AV_RB32 (drop 4 (AV_WB32 a @ AV_WB32 b)) = b"
    by (simp_all add: AV_RB32_AV_WB32 l)
qed

lemma AV_WB32_pair: "length src = 8 \<Longrightarrow> AV_WB32 (AV_RB32 src) @ AV_WB32 (AV_RB32 (drop 4 src)) = src"
proof -
  assume "length src = 8"
  then have "AV_RB32 src = AV_RB32 (take 4 src)" "length (take 4 src) = 4" "length (drop 4 src) = 4"
    by (simp_all add: AV_RB32_def)
  then show ?thesis by (simp add: AV_WB32_AV_RB32)
qed

section \<open>The loop over a buffer\<close>

text \<open>
  The common form of the loops of av_xtea_crypt and av_blowfish_crypt: \<open>iv\<close> is \<open>None\<close> for a
  NULL vector, \<open>inplace\<close> says that \<open>dst\<close> is \<open>src\<close>, so that the copy of \<open>src\<close> into \<open>iv\<close> after
  \<open>dst\<close> has been written copies the output.
\<close>

fun crypt_loop :: "(u8 list \<Rightarrow> u8 list) \<Rightarrow> (u8 list \<Rightarrow> u8 list) \<Rightarrow> nat \<Rightarrow> bool \<Rightarrow> u8 list \<Rightarrow> nat \<Rightarrow>
    u8 list option \<Rightarrow> bool \<Rightarrow> u8 list \<times> u8 list option" where
  "crypt_loop enc dec n inplace src 0 iv decrypt = ([], iv)"
| "crypt_loop enc dec n inplace src (Suc count) iv decrypt =
     (let b = take n src;
          (out, iv') = (if decrypt then
              (case iv of None \<Rightarrow> (dec b, None)
               | Some v \<Rightarrow> let out = xor_bytes (dec b) v in (out, Some (if inplace then out else b)))
            else
              (case iv of None \<Rightarrow> (enc b, None)
               | Some v \<Rightarrow> let out = enc (xor_bytes b v) in (out, Some out)));
          (rest, iv'') = crypt_loop enc dec n inplace (drop n src) count iv' decrypt
      in (out @ rest, iv''))"

lemma crypt_loop_encrypt:
  "fst (crypt_loop enc dec n inplace src count (Some iv) False) = concat (cbc_encrypt enc iv (blocks n count src))"
  by (induction count arbitrary: src iv) (auto simp: Let_def split_beta)

lemma crypt_loop_decrypt:
  "fst (crypt_loop enc dec n False src count (Some iv) True) = concat (cbc_decrypt dec iv (blocks n count src))"
  by (induction count arbitrary: src iv) (auto simp: Let_def split_beta)

lemma crypt_loop_decrypt_inplace:
  "fst (crypt_loop enc dec n True src count (Some iv) True) = concat (plain_chained_decrypt dec iv (blocks n count src))"
  by (induction count arbitrary: src iv) (auto simp: Let_def split_beta)

lemma crypt_loop_ecb:
  "fst (crypt_loop enc dec n inplace src count None decrypt) =
     concat (map (if decrypt then dec else enc) (blocks n count src))"
  by (induction count arbitrary: src) (auto simp: Let_def split_beta)

text \<open>What remains in the vector is the last cipher block, on both sides.\<close>

lemma crypt_loop_iv:
  "snd (crypt_loop enc dec n inplace src count (Some iv) False) =
     Some (last (iv # cbc_encrypt enc iv (blocks n count src)))"
  "snd (crypt_loop enc dec n False src count (Some iv) True) = Some (last (iv # blocks n count src))"
proof (induction count arbitrary: src iv)
  case (Suc count)
  { case 1 show ?case using Suc(1) by (simp add: Let_def split_beta) }
  { case 2 show ?case using Suc(2) by (simp add: Let_def split_beta) }
qed auto

context block_cipher
begin

lemma loop_roundtrip:
  assumes "length src = n * count" "length iv = n"
  shows "crypt_loop enc dec n False (fst (crypt_loop enc dec n inplace src count (Some iv) False)) count (Some iv) True =
      (src, snd (crypt_loop enc dec n inplace src count (Some iv) False))"
proof -
  let ?bs = "blocks n count src"
  let ?cs = "cbc_encrypt enc iv ?bs"
  have b: "\<forall>b \<in> set ?bs. length b = n" using assms(1) by (rule blocks_length)
  have c: "blocks n count (concat ?cs) = ?cs" by (rule blocks_concat [OF cbc_length [OF b assms(2)]]) simp
  show ?thesis
    by (rule prod_eqI)
      (simp_all add: crypt_loop_encrypt crypt_loop_decrypt crypt_loop_iv c cbc_roundtrip [OF b assms(2)] concat_blocks [OF assms(1)])
qed

lemma loop_roundtrip_ecb:
  assumes "length src = n * count"
  shows "fst (crypt_loop enc dec n ip (fst (crypt_loop enc dec n ip' src count None False)) count None True) = src"
proof -
  let ?bs = "blocks n count src"
  have b: "\<forall>b \<in> set ?bs. length b = n" using assms by (rule blocks_length)
  then have "\<forall>b \<in> set (map enc ?bs). length b = n" by (auto simp: enc_length)
  then have "blocks n count (concat (map enc ?bs)) = map enc ?bs" by (rule blocks_concat) simp
  then show ?thesis using ecb_roundtrip [OF b] concat_blocks [OF assms] by (simp add: crypt_loop_ecb)
qed

lemma loop_inplace_wrong:
  assumes "length b = n" "length b' = n" "length iv = n" "enc (xor_bytes b iv) \<noteq> b"
  shows "fst (crypt_loop enc dec n True (fst (crypt_loop enc dec n True (b @ b') 2 (Some iv) False)) 2 (Some iv) True) \<noteq> b @ b'"
proof -
  let ?bs = "[b, b']"
  have bs: "\<forall>b \<in> set ?bs. length b = n" using assms by simp
  have e: "blocks n 2 (b @ b') = ?bs" using assms(1,2) by (simp add: numeral_2_eq_2)
  let ?cs = "cbc_encrypt enc iv ?bs"
  have c: "blocks n 2 (concat ?cs) = ?cs"
    by (rule blocks_concat [OF cbc_length [OF bs assms(3)]]) (simp add: Let_def)
  obtain q q' where q: "plain_chained_decrypt dec iv ?cs = [q, q']" "length q = length (xor_bytes (dec (enc (xor_bytes b iv))) iv)"
    by (auto simp: Let_def)
  then have "length q = n" using dec_enc [of "xor_bytes b iv"] assms by simp
  then have "concat [q, q'] = b @ b' \<Longrightarrow> [q, q'] = [b, b']" using assms(1) by simp
  then show ?thesis
    using plain_chained_wrong [OF assms] q(1) by (simp add: crypt_loop_encrypt crypt_loop_decrypt_inplace e c del: cbc_encrypt.simps plain_chained_decrypt.simps) blast
qed

end

end
