(* ===== verification/Xtea.thy ===== *)
theory Xtea
  imports BlockCipher
begin

text \<open>
  XTEA of libavutil (lavc/libavutil/xtea.c): the unrolled rounds with their precomputed sums
  and key indices, the loop that the small build compiles instead, and the buffer routine.
  A context is its four key words.
\<close>

definition av_xtea_init :: "u8 list \<Rightarrow> u32 list" where
  "av_xtea_init key = map (\<lambda>i. AV_RB32 (drop (4 * i) key)) [0..<4]"

definition xtea_mix :: "u32 \<Rightarrow> u32" where
  "xtea_mix v = (push_bit 4 v XOR drop_bit 5 v) + v"

definition DSTEP :: "u32 list \<Rightarrow> u32 \<times> nat \<times> nat \<Rightarrow> u32 \<times> u32 \<Rightarrow> u32 \<times> u32" where
  "DSTEP key = (\<lambda>(sm, K0, K1) (v0, v1).
     let v1 = v1 - (xtea_mix v0 XOR (sm + key ! K0));
         v0 = v0 - (xtea_mix v1 XOR (sm - 0x9E3779B9 + key ! K1))
     in (v0, v1))"

definition ESTEP :: "u32 list \<Rightarrow> u32 \<times> nat \<times> nat \<Rightarrow> u32 \<times> u32 \<Rightarrow> u32 \<times> u32" where
  "ESTEP key = (\<lambda>(sm, K0, K1) (v0, v1).
     let v0 = v0 + (xtea_mix v1 XOR (sm + key ! K0));
         v1 = v1 + (xtea_mix v0 XOR (sm + 0x9E3779B9 + key ! K1))
     in (v0, v1))"

text \<open>The arguments of the unrolled rounds, in order.\<close>

definition dsteps :: "(u32 \<times> nat \<times> nat) list" where
  "dsteps = [
     (0xC6EF3720, 2, 3), (0x28B7BD67, 3, 2), (0x8A8043AE, 0, 1), (0xEC48C9F5, 1, 0),
     (0x4E11503C, 2, 3), (0xAFD9D683, 2, 2), (0x11A25CCA, 3, 1), (0x736AE311, 0, 0),
     (0xD5336958, 1, 3), (0x36FBEF9F, 1, 2), (0x98C475E6, 2, 1), (0xFA8CFC2D, 3, 0),
     (0x5C558274, 0, 3), (0xBE1E08BB, 1, 2), (0x1FE68F02, 1, 1), (0x81AF1549, 2, 0),
     (0xE3779B90, 3, 3), (0x454021D7, 0, 2), (0xA708A81E, 1, 1), (0x08D12E65, 1, 0),
     (0x6A99B4AC, 2, 3), (0xCC623AF3, 3, 2), (0x2E2AC13A, 0, 1), (0x8FF34781, 0, 0),
     (0xF1BBCDC8, 1, 3), (0x5384540F, 2, 2), (0xB54CDA56, 3, 1), (0x1715609D, 0, 0),
     (0x78DDE6E4, 0, 3), (0xDAA66D2B, 1, 2), (0x3C6EF372, 2, 1), (0x9E3779B9, 3, 0)]"

definition esteps :: "(u32 \<times> nat \<times> nat) list" where
  "esteps = [
     (0x00000000, 0, 3), (0x9E3779B9, 1, 2), (0x3C6EF372, 2, 1), (0xDAA66D2B, 3, 0),
     (0x78DDE6E4, 0, 0), (0x1715609D, 1, 3), (0xB54CDA56, 2, 2), (0x5384540F, 3, 1),
     (0xF1BBCDC8, 0, 0), (0x8FF34781, 1, 0), (0x2E2AC13A, 2, 3), (0xCC623AF3, 3, 2),
     (0x6A99B4AC, 0, 1), (0x08D12E65, 1, 1), (0xA708A81E, 2, 0), (0x454021D7, 3, 3),
     (0xE3779B90, 0, 2), (0x81AF1549, 1, 1), (0x1FE68F02, 2, 1), (0xBE1E08BB, 3, 0),
     (0x5C558274, 0, 3), (0xFA8CFC2D, 1, 2), (0x98C475E6, 2, 1), (0x36FBEF9F, 3, 1),
     (0xD5336958, 0, 0), (0x736AE311, 1, 3), (0x11A25CCA, 2, 2), (0xAFD9D683, 3, 2),
     (0x4E11503C, 0, 1), (0xEC48C9F5, 1, 0), (0x8A8043AE, 2, 3), (0x28B7BD67, 3, 2)]"

definition xtea_crypt_ecb :: "u32 list \<Rightarrow> u8 list \<Rightarrow> bool \<Rightarrow> u8 list" where
  "xtea_crypt_ecb key src decrypt =
     (let v = (AV_RB32 src, AV_RB32 (drop 4 src));
          (v0, v1) = (if decrypt then fold (DSTEP key) dsteps v else fold (ESTEP key) esteps v)
      in AV_WB32 v0 @ AV_WB32 v1)"

text \<open>The rounds of the CONFIG_SMALL build.\<close>

fun small_decrypt_rounds :: "nat \<Rightarrow> u32 list \<Rightarrow> u32 \<Rightarrow> u32 \<times> u32 \<Rightarrow> u32 \<times> u32" where
  "small_decrypt_rounds 0 key s v = v"
| "small_decrypt_rounds (Suc n) key s (v0, v1) =
     (let v1 = v1 - (xtea_mix v0 XOR (s + key ! unat (drop_bit 11 s AND 3)));
          s = s - 0x9E3779B9;
          v0 = v0 - (xtea_mix v1 XOR (s + key ! unat (s AND 3)))
      in small_decrypt_rounds n key s (v0, v1))"

fun small_encrypt_rounds :: "nat \<Rightarrow> u32 list \<Rightarrow> u32 \<Rightarrow> u32 \<times> u32 \<Rightarrow> u32 \<times> u32" where
  "small_encrypt_rounds 0 key s v = v"
| "small_encrypt_rounds (Suc n) key s (v0, v1) =
     (let v0 = v0 + (xtea_mix v1 XOR (s + key ! unat (s AND 3)));
          s = s + 0x9E3779B9;
          v1 = v1 + (xtea_mix v0 XOR (s + key ! unat (drop_bit 11 s AND 3)))
      in small_encrypt_rounds n key s (v0, v1))"

definition xtea_crypt_ecb_small :: "u32 list \<Rightarrow> u8 list \<Rightarrow> bool \<Rightarrow> u8 list" where
  "xtea_crypt_ecb_small key src decrypt =
     (let v = (AV_RB32 src, AV_RB32 (drop 4 src));
          (v0, v1) = (if decrypt then small_decrypt_rounds 32 key (0x9E3779B9 * 32) v
                      else small_encrypt_rounds 32 key 0 v)
      in AV_WB32 v0 @ AV_WB32 v1)"

text \<open>
  The buffer routine: \<open>iv\<close> is \<open>None\<close> when NULL, and \<open>inplace\<close> says that \<open>dst\<close> is \<open>src\<close>. The
  decrypting branch copies \<open>src\<close> into \<open>iv\<close> after it has written \<open>dst\<close>.
\<close>

fun av_xtea_crypt :: "u32 list \<Rightarrow> bool \<Rightarrow> u8 list \<Rightarrow> nat \<Rightarrow> u8 list option \<Rightarrow> bool \<Rightarrow> u8 list \<times> u8 list option" where
  "av_xtea_crypt key inplace src 0 iv decrypt = ([], iv)"
| "av_xtea_crypt key inplace src (Suc count) iv decrypt =
     (let b = take 8 src;
          (dst, iv') = (if decrypt then
              (case iv of None \<Rightarrow> (xtea_crypt_ecb key b True, None)
               | Some v \<Rightarrow> let dst = xor_bytes (xtea_crypt_ecb key b True) v
                          in (dst, Some (if inplace then dst else b)))
            else
              (case iv of None \<Rightarrow> (xtea_crypt_ecb key b False, None)
               | Some v \<Rightarrow> let dst = xtea_crypt_ecb key (xor_bytes b v) False in (dst, Some dst)));
          (rest, iv'') = av_xtea_crypt key inplace (drop 8 src) count iv' decrypt
      in (dst @ rest, iv''))"

section \<open>Rounds\<close>

lemma DSTEP_ESTEP: "DSTEP key (s + 0x9E3779B9, b, a) (ESTEP key (s, a, b) v) = v"
  by (cases v) (simp add: DSTEP_def ESTEP_def Let_def)

definition undo_step :: "u32 \<times> nat \<times> nat \<Rightarrow> u32 \<times> nat \<times> nat" where
  "undo_step = (\<lambda>(s, a, b). (s + 0x9E3779B9, b, a))"

lemma dsteps_undo: "dsteps = map undo_step (rev esteps)"
  by (simp add: dsteps_def esteps_def undo_step_def)

lemma fold_undo: "fold (DSTEP key) (map undo_step (rev ks)) (fold (ESTEP key) ks v) = v"
  by (induction ks arbitrary: v) (auto simp: undo_step_def DSTEP_ESTEP)

interpretation xtea: block_cipher 8 "\<lambda>b. xtea_crypt_ecb key b False" "\<lambda>b. xtea_crypt_ecb key b True" for key
proof
  fix b :: "u8 list"
  assume b: "length b = 8"
  obtain v0 v1 where v: "fold (ESTEP key) esteps (AV_RB32 b, AV_RB32 (drop 4 b)) = (v0, v1)"
    by (cases "fold (ESTEP key) esteps (AV_RB32 b, AV_RB32 (drop 4 b))")
  have "length (AV_WB32 a) = 4" for a by (simp add: AV_WB32_def word_be_def)
  then show "length (xtea_crypt_ecb key b False) = 8" by (simp add: xtea_crypt_ecb_def v)
  have "fold (DSTEP key) dsteps (v0, v1) = (AV_RB32 b, AV_RB32 (drop 4 b))"
    unfolding dsteps_undo v [symmetric] by (rule fold_undo)
  then show "xtea_crypt_ecb key (xtea_crypt_ecb key b False) True = b"
    using AV_WB32_pair [OF b] by (simp add: xtea_crypt_ecb_def v AV_RB32_pair del: drop_append)
qed

lemma av_xtea_crypt_loop:
  "av_xtea_crypt key inplace src count iv decrypt =
     crypt_loop (\<lambda>b. xtea_crypt_ecb key b False) (\<lambda>b. xtea_crypt_ecb key b True) 8 inplace src count iv decrypt"
  by (induction count arbitrary: src iv) (auto simp: Let_def split_beta split: option.splits)

text \<open>The arguments the loop computes.\<close>

fun esteps_gen :: "nat \<Rightarrow> u32 \<Rightarrow> (u32 \<times> nat \<times> nat) list" where
  "esteps_gen 0 s = []"
| "esteps_gen (Suc n) s =
     (s, unat (s AND 3), unat (drop_bit 11 (s + 0x9E3779B9) AND 3)) # esteps_gen n (s + 0x9E3779B9)"

fun dsteps_gen :: "nat \<Rightarrow> u32 \<Rightarrow> (u32 \<times> nat \<times> nat) list" where
  "dsteps_gen 0 s = []"
| "dsteps_gen (Suc n) s =
     (s, unat (drop_bit 11 s AND 3), unat (s - 0x9E3779B9 AND 3)) # dsteps_gen n (s - 0x9E3779B9)"

lemma small_encrypt_gen: "small_encrypt_rounds n key s v = fold (ESTEP key) (esteps_gen n s) v"
  by (induction n arbitrary: s v) (auto simp: ESTEP_def Let_def split: prod.splits)

lemma small_decrypt_gen: "small_decrypt_rounds n key s v = fold (DSTEP key) (dsteps_gen n s) v"
  by (induction n arbitrary: s v) (auto simp: DSTEP_def Let_def split: prod.splits)

lemma esteps_gen: "esteps_gen 32 0 = esteps"
  by code_simp

lemma dsteps_gen: "dsteps_gen 32 (0x9E3779B9 * 32) = dsteps"
  by code_simp

section \<open>Properties\<close>

text \<open>
  C38: The unrolled rounds compute the loop: the precomputed sums and key indices of both
  directions are those of the small build.
\<close>

theorem xtea_unrolled_is_loop:
  "xtea_crypt_ecb key src decrypt = xtea_crypt_ecb_small key src decrypt"
  by (simp only: xtea_crypt_ecb_def xtea_crypt_ecb_small_def small_encrypt_gen small_decrypt_gen esteps_gen dsteps_gen)

text \<open>
  C36: Encrypting a buffer and decrypting it into another one gives the buffer back, with and
  without an initialisation vector, for every key; both runs leave the same vector. Decrypting
  two chained blocks in place does not, unless the first block encrypts to itself.
\<close>

theorem av_xtea_crypt_roundtrip:
  assumes "length src = 8 * count" "length iv = 8"
  shows "av_xtea_crypt key False (fst (av_xtea_crypt key ip src count (Some iv) False)) count (Some iv) True =
      (src, snd (av_xtea_crypt key ip src count (Some iv) False)) \<and>
    fst (av_xtea_crypt key ip' (fst (av_xtea_crypt key ip src count None False)) count None True) = src \<and>
    (count = 2 \<longrightarrow> xtea_crypt_ecb key (xor_bytes (take 8 src) iv) False \<noteq> take 8 src \<longrightarrow>
      fst (av_xtea_crypt key True (fst (av_xtea_crypt key True src count (Some iv) False)) count (Some iv) True) \<noteq> src)"
proof (intro conjI impI)
  show "av_xtea_crypt key False (fst (av_xtea_crypt key ip src count (Some iv) False)) count (Some iv) True =
      (src, snd (av_xtea_crypt key ip src count (Some iv) False))"
    unfolding av_xtea_crypt_loop by (rule xtea.loop_roundtrip [OF assms])
  show "fst (av_xtea_crypt key ip' (fst (av_xtea_crypt key ip src count None False)) count None True) = src"
    unfolding av_xtea_crypt_loop by (rule xtea.loop_roundtrip_ecb [OF assms(1)])
  assume two: "count = 2" "xtea_crypt_ecb key (xor_bytes (take 8 src) iv) False \<noteq> take 8 src"
  have "length (take 8 src) = 8" "length (drop 8 src) = 8" using assms(1) two(1) by simp_all
  from xtea.loop_inplace_wrong [OF this assms(2) two(2)]
  show "fst (av_xtea_crypt key True (fst (av_xtea_crypt key True src count (Some iv) False)) count (Some iv) True) \<noteq> src"
    unfolding av_xtea_crypt_loop by (simp add: two(1))
qed

lemma av_xtea_crypt_roundtrip_witness:
  "fst (av_xtea_crypt [1, 2, 3, 4] False (fst (av_xtea_crypt [1, 2, 3, 4] False (replicate 16 7) 2 (Some (replicate 8 9)) False))
     2 (Some (replicate 8 9)) True) = replicate 16 7"
  using av_xtea_crypt_roundtrip [of "replicate 16 7" 2 "replicate 8 9"] by simp

end
