(* ===== verification/Des.thy ===== *)
theory Des
  imports BlockCipher
begin

text \<open>
  DES and triple DES of libavutil (lavc/libavutil/des.c): bit permutations, round function in
  both builds, key schedule, block and buffer routines, message authentication code. The
  tables hold the bit numbers the macros T compute.
\<close>

section \<open>Tables\<close>

definition IP_shuffle :: "nat list" where
  "IP_shuffle = [6, 14, 22, 30, 38, 46, 54, 62, 4, 12, 20, 28, 36, 44, 52, 60,
     2, 10, 18, 26, 34, 42, 50, 58, 0, 8, 16, 24, 32, 40, 48, 56,
     7, 15, 23, 31, 39, 47, 55, 63, 5, 13, 21, 29, 37, 45, 53, 61,
     3, 11, 19, 27, 35, 43, 51, 59, 1, 9, 17, 25, 33, 41, 49, 57]"

definition P_shuffle :: "nat list" where
  "P_shuffle = [16, 25, 12, 11, 3, 20, 4, 15, 31, 17, 9, 6, 27, 14, 1, 22,
     30, 24, 8, 18, 0, 5, 29, 23, 13, 19, 2, 26, 10, 21, 28, 7]"

definition PC1_shuffle :: "nat list" where
  "PC1_shuffle = [7, 15, 23, 31, 39, 47, 55, 63, 6, 14, 22, 30, 38, 46,
     54, 62, 5, 13, 21, 29, 37, 45, 53, 61, 4, 12, 20, 28,
     1, 9, 17, 25, 33, 41, 49, 57, 2, 10, 18, 26, 34, 42,
     50, 58, 3, 11, 19, 27, 35, 43, 51, 59, 36, 44, 52, 60]"

definition PC2_shuffle :: "nat list" where
  "PC2_shuffle = [42, 39, 45, 32, 55, 51, 53, 28, 41, 50, 35, 46,
     33, 37, 44, 52, 30, 48, 40, 49, 29, 36, 43, 54,
     15, 4, 25, 19, 9, 1, 26, 16, 5, 11, 23, 8,
     12, 7, 17, 0, 22, 3, 10, 14, 6, 20, 27, 24]"

definition S_boxes :: "u8 list list" where
  "S_boxes = [
    [0x0e, 0xf4, 0x7d, 0x41, 0xe2, 0x2f, 0xdb, 0x18, 0xa3, 0x6a, 0xc6, 0xbc, 0x95, 0x59, 0x30, 0x87,
     0xf4, 0xc1, 0x8e, 0x28, 0x4d, 0x96, 0x12, 0x7b, 0x5f, 0xbc, 0x39, 0xe7, 0xa3, 0x0a, 0x65, 0xd0],
    [0x3f, 0xd1, 0x48, 0x7e, 0xf6, 0x2b, 0x83, 0xe4, 0xc9, 0x07, 0x12, 0xad, 0x6c, 0x90, 0xb5, 0x5a,
     0xd0, 0x8e, 0xa7, 0x1b, 0x3a, 0xf4, 0x4d, 0x21, 0xb5, 0x68, 0x7c, 0xc6, 0x09, 0x53, 0xe2, 0x9f],
    [0xda, 0x70, 0x09, 0x9e, 0x36, 0x43, 0x6f, 0xa5, 0x21, 0x8d, 0x5c, 0xe7, 0xcb, 0xb4, 0xf2, 0x18,
     0x1d, 0xa6, 0xd4, 0x09, 0x68, 0x9f, 0x83, 0x70, 0x4b, 0xf1, 0xe2, 0x3c, 0xb5, 0x5a, 0x2e, 0xc7],
    [0xd7, 0x8d, 0xbe, 0x53, 0x60, 0xf6, 0x09, 0x3a, 0x41, 0x72, 0x28, 0xc5, 0x1b, 0xac, 0xe4, 0x9f,
     0x3a, 0xf6, 0x09, 0x60, 0xac, 0x1b, 0xd7, 0x8d, 0x9f, 0x41, 0x53, 0xbe, 0xc5, 0x72, 0x28, 0xe4],
    [0xe2, 0xbc, 0x24, 0xc1, 0x47, 0x7a, 0xdb, 0x16, 0x58, 0x05, 0xf3, 0xaf, 0x3d, 0x90, 0x8e, 0x69,
     0xb4, 0x82, 0xc1, 0x7b, 0x1a, 0xed, 0x27, 0xd8, 0x6f, 0xf9, 0x0c, 0x95, 0xa6, 0x43, 0x50, 0x3e],
    [0xac, 0xf1, 0x4a, 0x2f, 0x79, 0xc2, 0x96, 0x58, 0x60, 0x1d, 0xd3, 0xe4, 0x0e, 0xb7, 0x35, 0x8b,
     0x49, 0x3e, 0x2f, 0xc5, 0x92, 0x58, 0xfc, 0xa3, 0xb7, 0xe0, 0x14, 0x7a, 0x61, 0x0d, 0x8b, 0xd6],
    [0xd4, 0x0b, 0xb2, 0x7e, 0x4f, 0x90, 0x18, 0xad, 0xe3, 0x3c, 0x59, 0xc7, 0x25, 0xfa, 0x86, 0x61,
     0x61, 0xb4, 0xdb, 0x8d, 0x1c, 0x43, 0xa7, 0x7e, 0x9a, 0x5f, 0x06, 0xf8, 0xe0, 0x25, 0x39, 0xc2],
    [0x1d, 0xf2, 0xd8, 0x84, 0xa6, 0x3f, 0x7b, 0x41, 0xca, 0x59, 0x63, 0xbe, 0x05, 0xe0, 0x9c, 0x27,
     0x27, 0x1b, 0xe4, 0x71, 0x49, 0xac, 0x8e, 0xd2, 0xf0, 0xc6, 0x9a, 0x0d, 0x3f, 0x53, 0x65, 0xb8]]"

definition S_boxes_P_shuffle :: "u32 list list" where
  "S_boxes_P_shuffle = [
    [0x00808200, 0x00000000, 0x00008000, 0x00808202, 0x00808002, 0x00008202, 0x00000002, 0x00008000,
     0x00000200, 0x00808200, 0x00808202, 0x00000200, 0x00800202, 0x00808002, 0x00800000, 0x00000002,
     0x00000202, 0x00800200, 0x00800200, 0x00008200, 0x00008200, 0x00808000, 0x00808000, 0x00800202,
     0x00008002, 0x00800002, 0x00800002, 0x00008002, 0x00000000, 0x00000202, 0x00008202, 0x00800000,
     0x00008000, 0x00808202, 0x00000002, 0x00808000, 0x00808200, 0x00800000, 0x00800000, 0x00000200,
     0x00808002, 0x00008000, 0x00008200, 0x00800002, 0x00000200, 0x00000002, 0x00800202, 0x00008202,
     0x00808202, 0x00008002, 0x00808000, 0x00800202, 0x00800002, 0x00000202, 0x00008202, 0x00808200,
     0x00000202, 0x00800200, 0x00800200, 0x00000000, 0x00008002, 0x00008200, 0x00000000, 0x00808002],
    [0x40084010, 0x40004000, 0x00004000, 0x00084010, 0x00080000, 0x00000010, 0x40080010, 0x40004010,
     0x40000010, 0x40084010, 0x40084000, 0x40000000, 0x40004000, 0x00080000, 0x00000010, 0x40080010,
     0x00084000, 0x00080010, 0x40004010, 0x00000000, 0x40000000, 0x00004000, 0x00084010, 0x40080000,
     0x00080010, 0x40000010, 0x00000000, 0x00084000, 0x00004010, 0x40084000, 0x40080000, 0x00004010,
     0x00000000, 0x00084010, 0x40080010, 0x00080000, 0x40004010, 0x40080000, 0x40084000, 0x00004000,
     0x40080000, 0x40004000, 0x00000010, 0x40084010, 0x00084010, 0x00000010, 0x00004000, 0x40000000,
     0x00004010, 0x40084000, 0x00080000, 0x40000010, 0x00080010, 0x40004010, 0x40000010, 0x00080010,
     0x00084000, 0x00000000, 0x40004000, 0x00004010, 0x40000000, 0x40080010, 0x40084010, 0x00084000],
    [0x00000104, 0x04010100, 0x00000000, 0x04010004, 0x04000100, 0x00000000, 0x00010104, 0x04000100,
     0x00010004, 0x04000004, 0x04000004, 0x00010000, 0x04010104, 0x00010004, 0x04010000, 0x00000104,
     0x04000000, 0x00000004, 0x04010100, 0x00000100, 0x00010100, 0x04010000, 0x04010004, 0x00010104,
     0x04000104, 0x00010100, 0x00010000, 0x04000104, 0x00000004, 0x04010104, 0x00000100, 0x04000000,
     0x04010100, 0x04000000, 0x00010004, 0x00000104, 0x00010000, 0x04010100, 0x04000100, 0x00000000,
     0x00000100, 0x00010004, 0x04010104, 0x04000100, 0x04000004, 0x00000100, 0x00000000, 0x04010004,
     0x04000104, 0x00010000, 0x04000000, 0x04010104, 0x00000004, 0x00010104, 0x00010100, 0x04000004,
     0x04010000, 0x04000104, 0x00000104, 0x04010000, 0x00010104, 0x00000004, 0x04010004, 0x00010100],
    [0x80401000, 0x80001040, 0x80001040, 0x00000040, 0x00401040, 0x80400040, 0x80400000, 0x80001000,
     0x00000000, 0x00401000, 0x00401000, 0x80401040, 0x80000040, 0x00000000, 0x00400040, 0x80400000,
     0x80000000, 0x00001000, 0x00400000, 0x80401000, 0x00000040, 0x00400000, 0x80001000, 0x00001040,
     0x80400040, 0x80000000, 0x00001040, 0x00400040, 0x00001000, 0x00401040, 0x80401040, 0x80000040,
     0x00400040, 0x80400000, 0x00401000, 0x80401040, 0x80000040, 0x00000000, 0x00000000, 0x00401000,
     0x00001040, 0x00400040, 0x80400040, 0x80000000, 0x80401000, 0x80001040, 0x80001040, 0x00000040,
     0x80401040, 0x80000040, 0x80000000, 0x00001000, 0x80400000, 0x80001000, 0x00401040, 0x80400040,
     0x80001000, 0x00001040, 0x00400000, 0x80401000, 0x00000040, 0x00400000, 0x00001000, 0x00401040],
    [0x00000080, 0x01040080, 0x01040000, 0x21000080, 0x00040000, 0x00000080, 0x20000000, 0x01040000,
     0x20040080, 0x00040000, 0x01000080, 0x20040080, 0x21000080, 0x21040000, 0x00040080, 0x20000000,
     0x01000000, 0x20040000, 0x20040000, 0x00000000, 0x20000080, 0x21040080, 0x21040080, 0x01000080,
     0x21040000, 0x20000080, 0x00000000, 0x21000000, 0x01040080, 0x01000000, 0x21000000, 0x00040080,
     0x00040000, 0x21000080, 0x00000080, 0x01000000, 0x20000000, 0x01040000, 0x21000080, 0x20040080,
     0x01000080, 0x20000000, 0x21040000, 0x01040080, 0x20040080, 0x00000080, 0x01000000, 0x21040000,
     0x21040080, 0x00040080, 0x21000000, 0x21040080, 0x01040000, 0x00000000, 0x20040000, 0x21000000,
     0x00040080, 0x01000080, 0x20000080, 0x00040000, 0x00000000, 0x20040000, 0x01040080, 0x20000080],
    [0x10000008, 0x10200000, 0x00002000, 0x10202008, 0x10200000, 0x00000008, 0x10202008, 0x00200000,
     0x10002000, 0x00202008, 0x00200000, 0x10000008, 0x00200008, 0x10002000, 0x10000000, 0x00002008,
     0x00000000, 0x00200008, 0x10002008, 0x00002000, 0x00202000, 0x10002008, 0x00000008, 0x10200008,
     0x10200008, 0x00000000, 0x00202008, 0x10202000, 0x00002008, 0x00202000, 0x10202000, 0x10000000,
     0x10002000, 0x00000008, 0x10200008, 0x00202000, 0x10202008, 0x00200000, 0x00002008, 0x10000008,
     0x00200000, 0x10002000, 0x10000000, 0x00002008, 0x10000008, 0x10202008, 0x00202000, 0x10200000,
     0x00202008, 0x10202000, 0x00000000, 0x10200008, 0x00000008, 0x00002000, 0x10200000, 0x00202008,
     0x00002000, 0x00200008, 0x10002008, 0x00000000, 0x10202000, 0x10000000, 0x00200008, 0x10002008],
    [0x00100000, 0x02100001, 0x02000401, 0x00000000, 0x00000400, 0x02000401, 0x00100401, 0x02100400,
     0x02100401, 0x00100000, 0x00000000, 0x02000001, 0x00000001, 0x02000000, 0x02100001, 0x00000401,
     0x02000400, 0x00100401, 0x00100001, 0x02000400, 0x02000001, 0x02100000, 0x02100400, 0x00100001,
     0x02100000, 0x00000400, 0x00000401, 0x02100401, 0x00100400, 0x00000001, 0x02000000, 0x00100400,
     0x02000000, 0x00100400, 0x00100000, 0x02000401, 0x02000401, 0x02100001, 0x02100001, 0x00000001,
     0x00100001, 0x02000000, 0x02000400, 0x00100000, 0x02100400, 0x00000401, 0x00100401, 0x02100400,
     0x00000401, 0x02000001, 0x02100401, 0x02100000, 0x00100400, 0x00000000, 0x00000001, 0x02100401,
     0x00000000, 0x00100401, 0x02100000, 0x00000400, 0x02000001, 0x02000400, 0x00000400, 0x00100001],
    [0x08000820, 0x00000800, 0x00020000, 0x08020820, 0x08000000, 0x08000820, 0x00000020, 0x08000000,
     0x00020020, 0x08020000, 0x08020820, 0x00020800, 0x08020800, 0x00020820, 0x00000800, 0x00000020,
     0x08020000, 0x08000020, 0x08000800, 0x00000820, 0x00020800, 0x00020020, 0x08020020, 0x08020800,
     0x00000820, 0x00000000, 0x00000000, 0x08020020, 0x08000020, 0x08000800, 0x00020820, 0x00020000,
     0x00020820, 0x00020000, 0x08020800, 0x00000800, 0x00000020, 0x08020020, 0x00000800, 0x00020820,
     0x08000800, 0x00000020, 0x08000020, 0x08020000, 0x08020020, 0x08000000, 0x00020000, 0x08000820,
     0x00000000, 0x08020820, 0x00020020, 0x08000020, 0x08020000, 0x08000800, 0x08000820, 0x00000000,
     0x08020820, 0x00020800, 0x00020800, 0x00000820, 0x00000820, 0x00020020, 0x08000000, 0x08020800]]"

section \<open>Code\<close>

fun shuffle_loop :: "u64 \<Rightarrow> nat list \<Rightarrow> u64 \<Rightarrow> u64" where
  "shuffle_loop inp [] res = res"
| "shuffle_loop inp (p # ps) res = shuffle_loop inp ps (res + (res + (drop_bit p inp AND 1)))"

definition shuffle :: "u64 \<Rightarrow> nat list \<Rightarrow> u64" where
  "shuffle inp ps = shuffle_loop inp ps 0"

text \<open>The loop of shuffle_inv runs through the table from its end.\<close>

fun shuffle_inv_loop :: "u64 \<Rightarrow> nat list \<Rightarrow> u64 \<Rightarrow> u64" where
  "shuffle_inv_loop inp [] res = res"
| "shuffle_inv_loop inp (p # ps) res = shuffle_inv_loop (drop_bit 1 inp) ps (res OR push_bit p (inp AND 1))"

definition shuffle_inv :: "u64 \<Rightarrow> nat list \<Rightarrow> u64" where
  "shuffle_inv inp ps = shuffle_inv_loop inp (rev ps) 0"

text \<open>Round function; \<open>f_loop n\<close> are the last \<open>n\<close> of the eight steps, with \<open>i = n - 1\<close> first.\<close>

fun f_loop :: "nat \<Rightarrow> u32 \<Rightarrow> u64 \<Rightarrow> u32 \<Rightarrow> u32" where
  "f_loop 0 r k out = out"
| "f_loop (Suc i) r k out =
     (let tmp = ucast ((ucast r XOR k) AND 0x3f) :: u8;
          out = out OR S_boxes_P_shuffle ! i ! unat tmp;
          r = drop_bit 4 r OR push_bit 28 r
      in f_loop i r (drop_bit 6 k) out)"

definition f_func :: "u32 \<Rightarrow> u64 \<Rightarrow> u32" where
  "f_func r k = f_loop 8 (push_bit 1 r OR drop_bit 31 r) k 0"

text \<open>The same with CONFIG_SMALL.\<close>

fun f_loop_small :: "nat \<Rightarrow> u32 \<Rightarrow> u64 \<Rightarrow> u32 \<Rightarrow> u32" where
  "f_loop_small 0 r k out = out"
| "f_loop_small (Suc i) r k out =
     (let tmp = ucast ((ucast r XOR k) AND 0x3f) :: u8;
          v = S_boxes ! i ! unat (drop_bit 1 tmp);
          v = (if tmp AND 1 \<noteq> 0 then drop_bit 4 v else v);
          out = drop_bit 4 out OR push_bit 28 (ucast v);
          r = drop_bit 4 r OR push_bit 28 r
      in f_loop_small i r (drop_bit 6 k) out)"

definition f_func_small :: "u32 \<Rightarrow> u64 \<Rightarrow> u32" where
  "f_func_small r k = ucast (shuffle (ucast (f_loop_small 8 (push_bit 1 r OR drop_bit 31 r) k 0)) P_shuffle)"

definition key_shift_left :: "u64 \<Rightarrow> u64" where
  "key_shift_left CDn =
     (let carries = drop_bit 27 CDn AND 0x10000001;
          CDn = push_bit 1 CDn;
          CDn = CDn AND NOT 0x10000001
      in CDn OR carries)"

fun gen_roundkeys_loop :: "nat \<Rightarrow> nat \<Rightarrow> u64 \<Rightarrow> u64 list" where
  "gen_roundkeys_loop 0 i CDn = []"
| "gen_roundkeys_loop (Suc n) i CDn =
     (let CDn = key_shift_left CDn;
          CDn = (if i > 1 \<and> i \<noteq> 8 \<and> i \<noteq> 15 then key_shift_left CDn else CDn)
      in shuffle CDn PC2_shuffle # gen_roundkeys_loop n (i + 1) CDn)"

definition gen_roundkeys :: "u64 \<Rightarrow> u64 list" where
  "gen_roundkeys key = gen_roundkeys_loop 16 0 (shuffle key PC1_shuffle)"

definition des_round :: "u64 \<Rightarrow> u64 \<Rightarrow> u64" where
  "des_round k inp =
     (let f_res = f_func (ucast inp) k;
          inp = push_bit 32 inp OR drop_bit 32 inp
      in inp XOR ucast f_res)"

definition des_encdec :: "u64 \<Rightarrow> u64 list \<Rightarrow> bool \<Rightarrow> u64" where
  "des_encdec inp K decrypt =
     (let dec = (if decrypt then 15 else 0);
          inp = shuffle inp IP_shuffle;
          inp = fold (\<lambda>i. des_round (K ! (dec XOR i))) [0..<16] inp;
          inp = push_bit 32 inp OR drop_bit 32 inp
      in shuffle_inv inp IP_shuffle)"

record AVDES =
  round_keys :: "u64 list list"
  triple_des :: bool

text \<open>\<open>None\<close> is the error return \<open>-1\<close>.\<close>

definition av_des_init :: "u8 list \<Rightarrow> int \<Rightarrow> AVDES option" where
  "av_des_init key key_bits =
     (if key_bits \<noteq> 64 \<and> key_bits \<noteq> 192 then None
      else
        let triple = (key_bits > 64);
            k0 = gen_roundkeys (AV_RB64 key)
        in Some \<lparr>round_keys = (if triple
               then [k0, gen_roundkeys (AV_RB64 (drop 8 key)), gen_roundkeys (AV_RB64 (drop 16 key))]
               else [k0]), triple_des = triple\<rparr>)"

definition des_decrypt_val :: "AVDES \<Rightarrow> u64 \<Rightarrow> u64" where
  "des_decrypt_val d src_val =
     (let src_val = (if triple_des d
            then des_encdec (des_encdec src_val (round_keys d ! 2) True) (round_keys d ! 1) False
            else src_val)
      in des_encdec src_val (round_keys d ! 0) True)"

definition des_encrypt_val :: "AVDES \<Rightarrow> u64 \<Rightarrow> u64" where
  "des_encrypt_val d val =
     (let dst_val = des_encdec val (round_keys d ! 0) False
      in if triple_des d
         then des_encdec (des_encdec dst_val (round_keys d ! 1) True) (round_keys d ! 2) False
         else dst_val)"

text \<open>
  The loop of av_des_crypt_mac: the values written to \<open>dst\<close> in order, and the last \<open>iv_val\<close>;
  \<open>src\<close> may be NULL, \<open>chain\<close> says that \<open>iv\<close> is not.
\<close>

fun des_crypt_loop :: "AVDES \<Rightarrow> u8 list option \<Rightarrow> nat \<Rightarrow> bool \<Rightarrow> u64 \<Rightarrow> bool \<Rightarrow> u64 list \<times> u64" where
  "des_crypt_loop d src 0 chain iv_val decrypt = ([], iv_val)"
| "des_crypt_loop d src (Suc count) chain iv_val decrypt =
     (let src_val = (case src of None \<Rightarrow> 0 | Some s \<Rightarrow> AV_RB64 s);
          (dst_val, iv_val) =
            (if decrypt then (des_decrypt_val d src_val XOR iv_val, if chain then src_val else 0)
             else let dst_val = des_encrypt_val d (src_val XOR iv_val) in (dst_val, if chain then dst_val else 0));
          (rest, iv_val) = des_crypt_loop d (map_option (drop 8) src) count chain iv_val decrypt
      in (dst_val # rest, iv_val))"

definition av_des_crypt :: "AVDES \<Rightarrow> u8 list option \<Rightarrow> nat \<Rightarrow> u8 list option \<Rightarrow> bool \<Rightarrow> u8 list \<times> u8 list option" where
  "av_des_crypt d src count iv decrypt =
     (let (vals, iv_val) = des_crypt_loop d src count (iv \<noteq> None) (case iv of None \<Rightarrow> 0 | Some v \<Rightarrow> AV_RB64 v) decrypt
      in (concat (map AV_WB64 vals), if iv = None then None else Some (AV_WB64 iv_val)))"

text \<open>With \<open>mac\<close> every block overwrites the eight bytes of \<open>dst\<close>.\<close>

definition av_des_mac :: "AVDES \<Rightarrow> u8 list \<Rightarrow> u8 list \<Rightarrow> nat \<Rightarrow> u8 list" where
  "av_des_mac d dst src count =
     (let (vals, iv_val) = des_crypt_loop d (Some src) count True 0 False
      in if vals = [] then dst else AV_WB64 (last vals))"

section \<open>Bit permutations\<close>

lemma bit_double_add:
  "bit (res + (res + (drop_bit p inp AND 1)) :: u64) m \<longleftrightarrow>
     m < 64 \<and> (if m = 0 then bit inp p else bit res (m - 1))"
proof -
  have "push_bit 1 res AND (drop_bit p inp AND 1) = 0"
    by (rule bit_word_eqI) (unfold bit_and_iff bit_push_bit_iff bit_1_iff, auto)
  moreover have "res + (res + (drop_bit p inp AND 1)) = push_bit 1 res + (drop_bit p inp AND 1)"
    by (simp add: push_bit_eq_mult)
  ultimately have "res + (res + (drop_bit p inp AND 1)) = push_bit 1 res OR (drop_bit p inp AND 1)"
    by (simp only: disjunctive_add_eq_or)
  then show ?thesis
    by (simp only: bit_or_iff bit_push_bit_iff bit_and_iff bit_drop_bit_eq bit_1_iff comp_def)
      (cases m; auto dest: bit_imp_le_length)
qed

lemma bit_shuffle_loop:
  "bit (shuffle_loop inp ps res) m \<longleftrightarrow>
     m < 64 \<and> (if m < length ps then bit inp (ps ! (length ps - 1 - m)) else bit res (m - length ps))"
proof (induction ps arbitrary: res)
  case Nil
  then show ?case by (auto dest: bit_imp_le_length)
next
  case (Cons p ps)
  have "bit (shuffle_loop inp (p # ps) res) m \<longleftrightarrow> m < 64 \<and> (if m < length ps then bit inp (ps ! (length ps - 1 - m))
      else if m = length ps then bit inp p else bit res (m - length ps - 1))"
    unfolding shuffle_loop.simps Cons bit_double_add by auto
  then show ?case by (auto simp: nth_Cons' Suc_diff_le less_Suc_eq)
qed

lemma bit_shuffle_inv_loop:
  "bit (shuffle_inv_loop inp ps res) j \<longleftrightarrow>
     bit res j \<or> (j < 64 \<and> (\<exists>i < length ps. ps ! i = j \<and> bit inp i))"
proof (induction ps arbitrary: inp res)
  case Nil
  then show ?case by simp
next
  case (Cons p ps)
  have one: "bit (push_bit p (inp AND 1)) j \<longleftrightarrow> j < 64 \<and> j = p \<and> bit inp 0"
    unfolding bit_push_bit_iff bit_and_iff bit_1_iff by auto
  have "(\<exists>i < length (p # ps). (p # ps) ! i = j \<and> bit inp i) \<longleftrightarrow>
      (p = j \<and> bit inp 0) \<or> (\<exists>i < length ps. ps ! i = j \<and> bit inp (Suc i))"
    by (auto simp: less_Suc_eq_0_disj)
  then show ?case
    unfolding shuffle_inv_loop.simps Cons bit_or_iff one by (auto simp: bit_drop_bit_eq)
qed

lemma shuffle_inverse:
  assumes "distinct ps" "length ps = 64" "set ps = {0..<64}"
  shows "shuffle_inv (shuffle x ps) ps = x" "shuffle (shuffle_inv x ps) ps = x"
proof -
  have rv: "i < 64 \<Longrightarrow> rev ps ! i = ps ! (63 - i)" for i using assms(2) by (simp add: rev_nth)
  have sh: "bit (shuffle y ps) m \<longleftrightarrow> m < 64 \<and> bit y (ps ! (63 - m))" for y m
    using assms(2) by (auto simp: shuffle_def bit_shuffle_loop)
  have inv: "bit (shuffle_inv y ps) j \<longleftrightarrow> j < 64 \<and> (\<exists>i < 64. ps ! (63 - i) = j \<and> bit y i)" for y j
    using assms(2) rv by (auto simp: shuffle_inv_def bit_shuffle_inv_loop)
  have "\<exists>i < 64. ps ! (63 - i) = j" if "j < 64" for j
  proof -
    from that assms obtain k where "k < 64" "ps ! k = j" by (metis atLeastLessThan_iff in_set_conv_nth le0)
    then show ?thesis by (intro exI [of _ "63 - k"]) simp
  qed
  then show "shuffle_inv (shuffle x ps) ps = x"
    by (intro bit_word_eqI) (auto simp: sh inv)
  have "ps ! k < 64" if "k < 64" for k using that assms by (metis atLeastLessThan_iff nth_mem)
  moreover have "ps ! (63 - i) = ps ! (63 - m) \<longleftrightarrow> i = m" if "i < 64" "m < 64" for i m
    using that assms(1,2) by (auto simp: nth_eq_iff_index_eq)
  ultimately show "shuffle (shuffle_inv x ps) ps = x"
    by (intro bit_word_eqI) (auto simp: sh inv)
qed

lemma IP_perm: "distinct IP_shuffle" "length IP_shuffle = 64" "set IP_shuffle = {0..<64}"
proof -
  show "distinct IP_shuffle" "length IP_shuffle = 64" by (simp_all add: IP_shuffle_def)
  have "list_all (\<lambda>k. k < 64) IP_shuffle" by (simp add: IP_shuffle_def)
  then have "set IP_shuffle \<subseteq> {0..<64}" by (auto simp: list_all_iff)
  moreover have "card (set IP_shuffle) = 64" using \<open>distinct IP_shuffle\<close> \<open>length IP_shuffle = 64\<close> by (simp add: distinct_card)
  ultimately show "set IP_shuffle = {0..<64}" by (simp add: card_subset_eq)
qed

section \<open>Rounds\<close>

definition swap_halves :: "u64 \<Rightarrow> u64" where
  "swap_halves w = (push_bit 32 w OR drop_bit 32 w)"

lemma swap_halves_twice: "swap_halves (swap_halves w) = w"
  by (rule bit_word_eqI)
    (auto simp: swap_halves_def bit_or_iff bit_push_bit_iff bit_drop_bit_eq dest: bit_imp_le_length)

lemma des_round_undo: "des_round k (swap_halves (des_round k w)) = swap_halves w"
proof -
  have low: "(ucast (swap_halves (swap_halves w XOR ucast (x :: u32))) :: u32) = ucast w" for x
    by (rule bit_word_eqI)
      (auto simp: swap_halves_def bit_or_iff bit_push_bit_iff bit_drop_bit_eq bit_xor_iff bit_ucast_iff dest: bit_imp_le_length)
  have r: "des_round k v = swap_halves v XOR ucast (f_func (ucast v) k)" for v
    by (simp add: des_round_def swap_halves_def Let_def)
  show ?thesis unfolding r swap_halves_twice low by simp
qed

lemma des_rounds_undo: "fold des_round (rev ks) (swap_halves (fold des_round ks w)) = swap_halves w"
  by (induction ks arbitrary: w) (auto simp: des_round_undo)

lemma des_encdec_keys:
  "des_encdec inp K decrypt = shuffle_inv (swap_halves (fold des_round
     (if decrypt then rev (map ((!) K) [0..<16]) else map ((!) K) [0..<16]) (shuffle inp IP_shuffle))) IP_shuffle"
proof -
  have "[0..<16] = [0, 1, 2, 3, 4, 5, 6, 7, 8, 9, 10, 11, 12, 13, 14, 15]" by (simp add: upt_rec)
  moreover have "map ((XOR) 15) [0, 1, 2, 3, 4, 5, 6, 7, 8, 9, 10, 11, 12, 13, 14, 15] = rev ([0, 1, 2, 3, 4, 5, 6, 7, 8, 9, 10, 11, 12, 13, 14, 15] :: nat list)" by simp
  ultimately have "map ((XOR) 15) [0..<16] = rev [0..<16 :: nat]" by (simp only:)
  then have "map ((!) K) (map ((XOR) 15) [0..<16]) = map ((!) K) (rev [0..<16])" by simp
  then have "map (\<lambda>i. K ! (15 XOR i)) [0..<16] = rev (map ((!) K) [0..<16])" by (simp add: rev_map comp_def)
  then have "fold (\<lambda>i. des_round (K ! (15 XOR i))) [0..<16] x = fold des_round (rev (map ((!) K) [0..<16])) x" for x
    by (metis (no_types, lifting) comp_def fold_cong fold_map)
  moreover have "fold (\<lambda>i. des_round (K ! (0 XOR i))) [0..<16] x = fold des_round (map ((!) K) [0..<16]) x" for x
    by (simp add: fold_map comp_def)
  ultimately show ?thesis by (simp add: des_encdec_def Let_def swap_halves_def)
qed

lemma des_encdec_undo: "des_encdec (des_encdec inp K d) K (\<not> d) = inp"
proof -
  define ks where "ks = (if d then rev (map ((!) K) [0..<16]) else map ((!) K) [0..<16])"
  have rk: "rev ks = (if \<not> d then rev (map ((!) K) [0..<16]) else map ((!) K) [0..<16])" by (simp add: ks_def)
  then show ?thesis
    unfolding des_encdec_keys ks_def [symmetric] rk [symmetric]
    by (simp only: shuffle_inverse [OF IP_perm] des_rounds_undo swap_halves_twice)
qed

lemma des_val_undo: "des_decrypt_val d (des_encrypt_val d v) = v"
  using des_encdec_undo [of _ _ True] des_encdec_undo [of _ _ False]
  by (simp add: des_decrypt_val_def des_encrypt_val_def Let_def)

section \<open>The two builds of the round function\<close>

text \<open>Where the bits of the word before the P permutation go, and those of the nibble of box \<open>i\<close>.\<close>

definition P_places :: "nat list" where
  "P_places = [11, 17, 5, 27, 25, 10, 20, 0, 13, 21, 3, 28, 29, 7, 18, 24,
     31, 22, 12, 6, 26, 2, 16, 8, 14, 30, 4, 19, 1, 9, 15, 23]"

definition place :: "nat \<Rightarrow> u32" where
  "place q = push_bit q 1"

definition nibble_bits :: "nat \<Rightarrow> u32 list" where
  "nibble_bits i = map (\<lambda>j. place (P_places ! (28 - 4 * i + j))) [0, 1, 2, 3]"

lemma nibble_bits_table:
  "nibble_bits 0 = [0x2, 0x200, 0x8000, 0x800000]"
  "nibble_bits (Suc 0) = [0x4000, 0x40000000, 0x10, 0x80000]"
  "nibble_bits 2 = [0x4000000, 0x4, 0x10000, 0x100]"
  "nibble_bits 3 = [0x80000000, 0x400000, 0x1000, 0x40]"
  "nibble_bits 4 = [0x20000000, 0x80, 0x40000, 0x1000000]"
  "nibble_bits 5 = [0x2000, 0x200000, 0x8, 0x10000000]"
  "nibble_bits 6 = [0x2000000, 0x400, 0x100000, 0x1]"
  "nibble_bits 7 = [0x800, 0x20000, 0x20, 0x8000000]"
  by (simp_all add: nibble_bits_def P_places_def place_def)

definition or_bits :: "u32 list \<Rightarrow> u8 \<Rightarrow> u32" where
  "or_bits cs v = (if bit v 0 then cs ! 0 else 0) OR (if bit v 1 then cs ! 1 else 0) OR
     (if bit v 2 then cs ! 2 else 0) OR (if bit v 3 then cs ! 3 else 0)"

text \<open>A row of the big table: two entries for each byte of the small one.\<close>

definition row :: "nat \<Rightarrow> u32 list" where
  "row i = concat (map (\<lambda>v. [or_bits (nibble_bits i) v, or_bits (nibble_bits i) (drop_bit 4 v)]) (S_boxes ! i))"

lemma nth_concat_pairs:
  "t < 2 * length xs \<Longrightarrow> concat (map (\<lambda>v. [f v, g v]) xs) ! t = (if even t then f (xs ! (t div 2)) else g (xs ! (t div 2)))"
proof (induction xs arbitrary: t)
  case (Cons x xs)
  consider "t = 0" | "t = 1" | u where "t = Suc (Suc u)" by (metis One_nat_def not0_implies_Suc)
  then show ?case using Cons by cases auto
qed simp

lemma rows: "map row [0, 1, 2, 3, 4, 5, 6, 7] = S_boxes_P_shuffle"
  by (simp add: row_def or_bits_def nibble_bits_table S_boxes_def S_boxes_P_shuffle_def)

definition P_perm :: "u32 \<Rightarrow> u32" where
  "P_perm w = ucast (shuffle (ucast w) P_shuffle)"

lemma bit_P_perm: "bit (P_perm w) m \<longleftrightarrow> m < 32 \<and> bit w (P_shuffle ! (31 - m))"
proof -
  have "length P_shuffle = 32" by (simp add: P_shuffle_def)
  moreover have "m < 32 \<Longrightarrow> P_shuffle ! (31 - m) < 32"
  proof -
    have "list_all (\<lambda>k. k < 32) P_shuffle" by (simp add: P_shuffle_def)
    then show "m < 32 \<Longrightarrow> P_shuffle ! (31 - m) < 32"
      using \<open>length P_shuffle = 32\<close> by (simp add: list_all_length)
  qed
  ultimately show ?thesis
    by (auto simp: P_perm_def shuffle_def bit_shuffle_loop bit_ucast_iff)
qed

lemma P_perm_or: "P_perm (a OR b) = P_perm a OR P_perm b" "P_perm 0 = 0"
  by (rule bit_word_eqI; auto simp: bit_P_perm bit_or_iff)+

lemma P_places: "list_all (\<lambda>q. P_places ! q < 32 \<and> P_shuffle ! (31 - P_places ! q) = q) [0..<32]"
  by (simp add: P_places_def P_shuffle_def upt_rec)

lemma P_perm_single: "q < 32 \<Longrightarrow> P_perm (place q) = place (P_places ! q)"
proof (rule bit_word_eqI)
  fix m assume q: "q < 32" and "m < LENGTH(32)"
  then have m: "m < 32" by simp
  have d: "distinct P_shuffle" "length P_shuffle = 32" by (simp_all add: P_shuffle_def)
  have p: "P_places ! q < 32" "P_shuffle ! (31 - P_places ! q) = q" using P_places q by (simp_all add: list_all_iff)
  then have "P_shuffle ! (31 - m) = q \<longleftrightarrow> 31 - m = 31 - P_places ! q"
    using nth_eq_iff_index_eq [OF d(1), of "31 - m" "31 - P_places ! q"] by (simp add: d(2))
  then show "bit (P_perm (place q)) m \<longleftrightarrow> bit (place (P_places ! q)) m"
    using p(1) q m unfolding bit_P_perm place_def bit_push_bit_iff bit_1_iff by auto
qed

text \<open>The nibble of box \<open>i\<close>, moved down with the later steps, as single bits.\<close>

lemma nibble_moved:
  assumes "i < 8"
  shows "drop_bit (4 * i) (push_bit 28 (ucast (v :: u8) :: u32)) =
    (if bit v 0 then place (28 - 4 * i) else 0) OR (if bit v 1 then place (28 - 4 * i + 1) else 0) OR
    (if bit v 2 then place (28 - 4 * i + 2) else 0) OR (if bit v 3 then place (28 - 4 * i + 3) else 0)"
    (is "?l = ?r")
proof (rule bit_word_eqI)
  fix m assume m: "m < LENGTH(32)"
  have l: "bit ?l m \<longleftrightarrow> 28 \<le> 4 * i + m \<and> 4 * i + m < 32 \<and> bit v (4 * i + m - 28)"
    unfolding bit_drop_bit_eq comp_def bit_push_bit_iff bit_ucast_iff by (auto dest: bit_imp_le_length)
  have one: "bit (if b then place q else 0 :: u32) m \<longleftrightarrow> b \<and> m = q" for b q
    using m unfolding place_def if_distrib [of "\<lambda>w. bit w m"] bit_push_bit_iff bit_1_iff by auto
  consider (0) "m = 28 - 4 * i" | (1) "m = 28 - 4 * i + 1" | (2) "m = 28 - 4 * i + 2" | (3) "m = 28 - 4 * i + 3"
    | (none) "\<not> (28 \<le> 4 * i + m \<and> 4 * i + m < 32)"
    using assms by linarith
  then show "bit ?l m \<longleftrightarrow> bit ?r m"
    unfolding l bit_or_iff one using assms by cases auto
qed

lemma less_8: "(i :: nat) < 8 \<Longrightarrow> i \<in> {0, 1, 2, 3, 4, 5, 6, 7}"
  by (simp add: eval_nat_numeral less_Suc_eq) blast?

lemma eight: "i < 8 \<Longrightarrow> [0, 1, 2, 3, 4, 5, 6, 7 :: nat] ! i = i"
  by (drule less_8) auto

lemma P_perm_if: "P_perm (if b then x else 0) = (if b then P_perm x else 0)"
  by (simp add: P_perm_or)

lemma P_perm_nibble:
  assumes "i < 8"
  shows "P_perm (drop_bit (4 * i) (push_bit 28 (ucast v))) = or_bits (nibble_bits i) v"
proof -
  have e: "Suc (28 - 4 * i) = 29 - 4 * i" "Suc (29 - 4 * i) = 30 - 4 * i" using assms by simp_all
  show ?thesis unfolding nibble_moved [OF assms] P_perm_or(1) P_perm_if or_bits_def nibble_bits_def
    using assms by (simp add: P_perm_single e)
qed

lemma box_entry:
  assumes "i < 8" "t < 64"
  shows "S_boxes_P_shuffle ! i ! t =
    or_bits (nibble_bits i) (if even t then S_boxes ! i ! (t div 2) else drop_bit 4 (S_boxes ! i ! (t div 2)))"
proof -
  have "list_all (\<lambda>b. length b = 32) S_boxes" "length S_boxes = 8" by (simp_all add: S_boxes_def)
  then have "length (S_boxes ! i) = 32" using assms(1) by (simp add: list_all_length)
  moreover have "S_boxes_P_shuffle ! i = row i"
    unfolding rows [symmetric] using assms(1) by (subst nth_map, simp, subst eight, simp_all)
  ultimately show ?thesis using assms(2) by (simp add: row_def nth_concat_pairs)
qed

lemma f_loop_small_correct:
  "n \<le> 8 \<Longrightarrow> f_loop n r k (P_perm (drop_bit (4 * n) out)) = P_perm (f_loop_small n r k out)"
proof (induction n arbitrary: r k out)
  case (Suc i)
  define t :: u8 where "t = ucast ((ucast r XOR k) AND 0x3f)"
  define v where "v = (if t AND 1 \<noteq> 0 then drop_bit 4 (S_boxes ! i ! unat (drop_bit 1 t)) else S_boxes ! i ! unat (drop_bit 1 t))"
  have "unat t < 64"
  proof -
    have "t = ucast (ucast r XOR k) AND 0x3f" by (simp add: t_def unsigned_and_eq)
    then have "t \<le> 0x3f" by (simp add: word_and_le1)
    then show ?thesis by (simp add: word_le_nat_alt)
  qed
  moreover have "even (unat t) \<longleftrightarrow> t AND 1 = 0"
    using bit_unsigned_iff [of t 0, where 'a = nat] even_word_iff [of t] by (simp add: bit_0 even_word_def)
  moreover have "unat (drop_bit 1 t) = unat t div 2" by (simp only: unat_drop_bit_eq) (simp add: drop_bit_eq_div)
  ultimately have "S_boxes_P_shuffle ! i ! unat t = or_bits (nibble_bits i) v"
    using Suc.prems by (simp add: box_entry v_def)
  then have e: "S_boxes_P_shuffle ! i ! unat t = P_perm (drop_bit (4 * i) (push_bit 28 (ucast v)))"
    using Suc.prems by (simp add: P_perm_nibble)
  have "f_loop (Suc i) r k (P_perm (drop_bit (4 * Suc i) out)) = f_loop i (drop_bit 4 r OR push_bit 28 r) (drop_bit 6 k)
      (P_perm (drop_bit (4 * i) (drop_bit 4 out OR push_bit 28 (ucast v))))"
    by (simp add: Let_def e P_perm_or drop_bit_or add.commute flip: t_def)
  also have "\<dots> = P_perm (f_loop_small i (drop_bit 4 r OR push_bit 28 r) (drop_bit 6 k) (drop_bit 4 out OR push_bit 28 (ucast v)))"
    by (rule Suc.IH) (use Suc.prems in simp)
  also have "\<dots> = P_perm (f_loop_small (Suc i) r k out)"
    by (simp add: Let_def v_def flip: t_def)
  finally show ?case .
qed simp

text \<open>C31: the round function with the merged S-boxes of the default build equals the one of
  the small build, which looks up the packed S-boxes and then applies the P permutation.\<close>

theorem des_f_func_builds_agree: "f_func r k = f_func_small r k"
  using f_loop_small_correct [of 8 "push_bit 1 r OR drop_bit 31 r" k 0]
  by (simp add: f_func_def f_func_small_def P_perm_or flip: P_perm_def)

section \<open>Buffers\<close>

text \<open>One block as bytes, and a buffer as the loop of the other ciphers.\<close>

definition des_enc_block :: "AVDES \<Rightarrow> u8 list \<Rightarrow> u8 list" where
  "des_enc_block d b = AV_WB64 (des_encrypt_val d (AV_RB64 b))"

definition des_dec_block :: "AVDES \<Rightarrow> u8 list \<Rightarrow> u8 list" where
  "des_dec_block d b = AV_WB64 (des_decrypt_val d (AV_RB64 b))"

lemma length_AV_WB64: "length (AV_WB64 w) = 8"
  by (simp add: AV_WB64_def word_be_def)

interpretation des: block_cipher 8 "des_enc_block d" "des_dec_block d" for d
proof
  fix b :: "u8 list" assume b: "length b = 8"
  show "length (des_enc_block d b) = 8" by (simp add: des_enc_block_def length_AV_WB64)
  show "des_dec_block d (des_enc_block d b) = b"
    by (simp add: des_enc_block_def des_dec_block_def AV_RB64_AV_WB64 AV_WB64_AV_RB64 des_val_undo b)
qed

lemma word_le_xor: "(word_le n (a XOR b) :: 'b::len word list) = map2 (XOR) (word_le n a) (word_le n b)"
  by (induction n arbitrary: a b) (simp_all add: unsigned_xor_eq drop_bit_xor)

lemma AV_WB64_xor: "AV_WB64 (a XOR b) = xor_bytes (AV_WB64 a) (AV_WB64 b)"
  by (simp add: AV_WB64_def word_be_def xor_bytes_def word_le_xor rev_map zip_rev)

lemma des_crypt_loop_blocks:
  assumes "length s = 8 * count" "iv = None \<Longrightarrow> v = 0" "\<And>i. iv = Some i \<Longrightarrow> AV_WB64 v = i"
  shows "crypt_loop (des_enc_block d) (des_dec_block d) 8 False s count iv decrypt =
    (let (vals, v') = des_crypt_loop d (Some s) count (iv \<noteq> None) v decrypt
     in (concat (map AV_WB64 vals), if iv = None then None else Some (AV_WB64 v')))"
  using assms
proof (induction count arbitrary: s iv v)
  case 0
  then show ?case by (cases iv) auto
next
  case (Suc count)
  then have s: "AV_WB64 (AV_RB64 s) = take 8 s" "AV_RB64 (take 8 s) = AV_RB64 s" "length (drop 8 s) = 8 * count"
    using AV_WB64_AV_RB64 [of "take 8 s"] by (simp_all add: AV_RB64_def)
  have x: "des_enc_block d (xor_bytes (take 8 s) (AV_WB64 v)) = AV_WB64 (des_encrypt_val d (AV_RB64 s XOR v))"
    by (simp add: des_enc_block_def AV_RB64_AV_WB64 flip: s(1) AV_WB64_xor)
  have y: "xor_bytes (des_dec_block d (take 8 s)) (AV_WB64 v) = AV_WB64 (des_decrypt_val d (AV_RB64 s) XOR v)"
    by (simp add: des_dec_block_def s(2) AV_WB64_xor)
  have z: "des_enc_block d (take 8 s) = AV_WB64 (des_encrypt_val d (AV_RB64 s))"
    "des_dec_block d (take 8 s) = AV_WB64 (des_decrypt_val d (AV_RB64 s))"
    by (simp_all add: des_enc_block_def des_dec_block_def s(2))
  note IH = Suc.IH [OF s(3)]
  consider "iv = None" "v = 0" | "iv = Some (AV_WB64 v)" using Suc.prems by (cases iv) auto
  then show ?case
  proof cases
    case 1
    then show ?thesis using IH [of None 0] by (cases decrypt) (simp_all add: Let_def split_beta z)
  next
    case 2
    then show ?thesis
      using IH [of "Some (take 8 s)" "AV_RB64 s"] IH [of "Some (AV_WB64 (des_encrypt_val d (AV_RB64 s XOR v)))" "des_encrypt_val d (AV_RB64 s XOR v)"]
      by (cases decrypt) (simp_all add: Let_def split_beta x y s(1))
  qed
qed

lemma av_des_crypt_blocks:
  assumes "length src = 8 * count" "case iv of None \<Rightarrow> True | Some v \<Rightarrow> length v = 8"
  shows "av_des_crypt d (Some src) count iv decrypt =
    crypt_loop (des_enc_block d) (des_dec_block d) 8 False src count iv decrypt"
  unfolding av_des_crypt_def
  by (subst des_crypt_loop_blocks [where v = "case iv of None \<Rightarrow> 0 | Some v \<Rightarrow> AV_RB64 v"])
    (use assms in \<open>auto simp: AV_WB64_AV_RB64 split: option.splits\<close>)

lemma length_des_crypt_loop: "length (fst (des_crypt_loop d src count chain v decrypt)) = count"
  by (induction count arbitrary: src v) (simp_all add: Let_def split_beta)

section \<open>Properties\<close>

text \<open>C32: whatever the key schedule, decryption with the same vector gives the buffer back, for
  single and triple DES and with or without a vector; both leave the same vector behind, and with a
  vector encryption is cipher block chaining of the block cipher.\<close>

theorem av_des_crypt_roundtrip:
  assumes "length src = 8 * count" "case iv of None \<Rightarrow> True | Some v \<Rightarrow> length v = 8"
  shows "av_des_crypt d (Some (fst (av_des_crypt d (Some src) count iv False))) count iv True =
      (src, snd (av_des_crypt d (Some src) count iv False)) \<and>
    (\<forall>v. iv = Some v \<longrightarrow> fst (av_des_crypt d (Some src) count iv False) =
      concat (cbc_encrypt (des_enc_block d) v (blocks 8 count src)))"
proof -
  let ?c = "crypt_loop (des_enc_block d) (des_dec_block d) 8 False"
  have e: "av_des_crypt d (Some src) count iv False = ?c src count iv False"
    by (rule av_des_crypt_blocks [OF assms])
  have l: "length (fst (?c src count iv False)) = 8 * count"
    unfolding e [symmetric]
    by (simp add: av_des_crypt_def split_beta length_concat comp_def length_AV_WB64 length_des_crypt_loop sum_list_triv)
  have "?c (fst (?c src count iv False)) count iv True = (src, snd (?c src count iv False))"
  proof (cases iv)
    case None
    have "snd (?c s count None b) = None" for s b by (cases b; induction count arbitrary: s) (simp_all add: Let_def split_beta)
    then show ?thesis unfolding None by (intro prod_eqI) (simp_all add: des.loop_roundtrip_ecb [OF assms(1)])
  next
    case (Some v)
    then show ?thesis using assms by (simp add: des.loop_roundtrip)
  qed
  then show ?thesis unfolding e av_des_crypt_blocks [OF l assms(2)] by (auto simp: crypt_loop_encrypt)
qed

lemma av_des_crypt_roundtrip_witness:
  "av_des_crypt (the (av_des_init [0x12, 0x34, 0x56, 0x78, 0x9a, 0xbc, 0xde, 0xf0] 64)) (Some (fst (av_des_crypt
      (the (av_des_init [0x12, 0x34, 0x56, 0x78, 0x9a, 0xbc, 0xde, 0xf0] 64)) (Some [1, 2, 3, 4, 5, 6, 7, 8, 9, 10, 11, 12, 13, 14, 15, 16]) 2 (Some (replicate 8 7)) False))) 2
      (Some (replicate 8 7)) True = ([1, 2, 3, 4, 5, 6, 7, 8, 9, 10, 11, 12, 13, 14, 15, 16], snd (av_des_crypt
      (the (av_des_init [0x12, 0x34, 0x56, 0x78, 0x9a, 0xbc, 0xde, 0xf0] 64)) (Some [1, 2, 3, 4, 5, 6, 7, 8, 9, 10, 11, 12, 13, 14, 15, 16]) 2 (Some (replicate 8 7)) False))"
  by (rule av_des_crypt_roundtrip [THEN conjunct1]) simp_all

text \<open>Key lengths other than 64 and 192 bits are refused, and triple DES under three equal keys is DES.\<close>

theorem av_des_init_spec:
  assumes "length key = 8"
  shows "(av_des_init key kb = None \<longleftrightarrow> kb \<notin> {64, 192}) \<and>
    (\<exists>d t. av_des_init key 64 = Some d \<and> av_des_init (key @ key @ key) 192 = Some t \<and>
      length (round_keys d) = 1 \<and> length (round_keys t) = 3 \<and> (\<forall>ks \<in> set (round_keys t). length ks = 16) \<and>
      des_encrypt_val t = des_encrypt_val d \<and> des_decrypt_val t = des_decrypt_val d)"
proof -
  have l: "length (gen_roundkeys_loop n i x) = n" for n i x by (induction n arbitrary: i x) (auto simp: Let_def)
  have k: "AV_RB64 (key @ r) = AV_RB64 key" for r using assms by (simp add: AV_RB64_def)
  show ?thesis using assms k [of "[]"] des_encdec_undo [of _ _ True] des_encdec_undo [of _ _ False]
    by (auto simp: av_des_init_def k Let_def des_encrypt_val_def des_decrypt_val_def gen_roundkeys_def l fun_eq_iff)
qed

lemma av_des_init_spec_witness:
  "\<exists>d. av_des_init [1, 2, 3, 4, 5, 6, 7, 8] 64 = Some d \<and> length (round_keys d) = 1"
  using av_des_init_spec [of "[1, 2, 3, 4, 5, 6, 7, 8]"] by auto

text \<open>The message authentication code is the last block of the CBC encryption with a zero
  vector; it is left as it was for an empty message.\<close>

theorem av_des_mac_cbc:
  assumes "length src = 8 * count"
  shows "av_des_mac d dst src count =
    last (dst # cbc_encrypt (des_enc_block d) (replicate 8 0) (blocks 8 count src))"
proof -
  let ?vs = "fst (des_crypt_loop d (Some src) count True 0 False)"
  let ?bs = "blocks 8 count src" and ?z = "replicate 8 0 :: u8 list"
  let ?cs = "cbc_encrypt (des_enc_block d) ?z ?bs"
  have "word_le n (0 :: u64) = (replicate n 0 :: u8 list)" for n by (induction n) simp_all
  then have "AV_WB64 0 = ?z" by (simp add: AV_WB64_def word_be_def)
  then have "concat (map AV_WB64 ?vs) = concat ?cs"
    using des_crypt_loop_blocks [OF assms, where iv = "Some ?z" and v = 0 and d = d and decrypt = False]
    by (simp add: split_beta flip: crypt_loop_encrypt [where inplace = False and dec = "des_dec_block d"])
  moreover have "blocks 8 count (concat (map AV_WB64 ?vs)) = map AV_WB64 ?vs"
    by (rule blocks_concat) (simp_all add: length_AV_WB64 length_des_crypt_loop)
  moreover have "blocks 8 count (concat ?cs) = ?cs"
    by (rule blocks_concat [OF des.cbc_length [OF blocks_length [OF assms]]]) simp_all
  ultimately have "map AV_WB64 ?vs = ?cs" by metis
  then have c: "?cs = map AV_WB64 ?vs" by (rule sym)
  show ?thesis unfolding c by (simp add: av_des_mac_def split_beta last_map)
qed

lemma av_des_mac_cbc_witness:
  "av_des_mac (the (av_des_init [1, 2, 3, 4, 5, 6, 7, 8] 64)) (replicate 8 9) [1, 2, 3, 4, 5, 6, 7, 8] 1 =
    des_enc_block (the (av_des_init [1, 2, 3, 4, 5, 6, 7, 8] 64)) [1, 2, 3, 4, 5, 6, 7, 8]"
  using av_des_mac_cbc [of "[1, 2, 3, 4, 5, 6, 7, 8]" 1 "the (av_des_init [1, 2, 3, 4, 5, 6, 7, 8] 64)" "replicate 8 9"]
  by (simp add: xor_bytes_def eval_nat_numeral)

end
