(* ===== verification/PacketHeap.thy ===== *)
theory PacketHeap
  imports Prelude Complex_Main "HOL-Library.Monad_Syntax"
begin

text \<open>
  Demuxer packets as objects on a heap (mplayerxp/libmpdemux/demuxer_packet.cpp). A packet and
  its buffer are separate allocations; using or freeing memory that is not allocated is \<open>None\<close>.
  The second half says when a pointer starts a linked list of packets.
\<close>

section \<open>Packets\<close>

datatype dp_type_e = Generic | Video_Packet | Audio_Packet | Sub_Packet

record Demuxer_Packet =
  dp_type :: dp_type_e
  dp_pts :: rat \<comment> \<open>a float that is only copied and compared here\<close>
  dp_pos :: int
  dp_flags :: u32
  lang_id :: int
  dp_next :: "nat option" \<comment> \<open>\<open>None\<close> is NULL\<close>
  dp_len :: nat
  dp_buf :: "nat option"

abbreviation DP_NONKEYFRAME :: u32 where "DP_NONKEYFRAME \<equiv> 0"

record heap =
  hp_pkts :: "nat \<rightharpoonup> Demuxer_Packet"
  hp_bufs :: "nat \<rightharpoonup> u8 list"
  hp_fresh :: nat \<comment> \<open>the next address the allocator hands out\<close>

text \<open>The allocator's bytes read as zero here; every caller writes the bytes it keeps.\<close>

definition new_packet :: "nat \<Rightarrow> heap \<Rightarrow> nat \<times> heap" where
  "new_packet len h =
     (let a = hp_fresh h;
          p = \<lparr>dp_type = Generic, dp_pts = 0, dp_pos = 0, dp_flags = DP_NONKEYFRAME, lang_id = 0,
               dp_next = None, dp_len = len, dp_buf = Some a\<rparr>
      in (a, \<lparr>hp_pkts = (hp_pkts h)(a \<mapsto> p), hp_bufs = (hp_bufs h)(a \<mapsto> replicate len 0), hp_fresh = Suc a\<rparr>))"

definition delete_buf :: "nat option \<Rightarrow> heap \<Rightarrow> heap option" where
  "delete_buf b h = (case b of None \<Rightarrow> Some h
     | Some b \<Rightarrow> (case hp_bufs h b of None \<Rightarrow> None
         | Some _ \<Rightarrow> Some (h\<lparr>hp_bufs := (hp_bufs h)(b := None)\<rparr>)))"

definition delete_packet :: "nat \<Rightarrow> heap \<Rightarrow> heap option" where
  "delete_packet a h = do {
     p \<leftarrow> hp_pkts h a;
     h \<leftarrow> delete_buf (dp_buf p) h;
     Some (h\<lparr>hp_pkts := (hp_pkts h)(a := None)\<rparr>)
   }"

definition resize_packet :: "nat \<Rightarrow> nat \<Rightarrow> heap \<Rightarrow> heap option" where
  "resize_packet a newlen h = do {
     p \<leftarrow> hp_pkts h a;
     if dp_len p \<noteq> newlen then
       if newlen \<noteq> 0 then
         (case dp_buf p of
            None \<Rightarrow> let b = hp_fresh h in
              Some \<lparr>hp_pkts = (hp_pkts h)(a \<mapsto> p\<lparr>dp_buf := Some b, dp_len := newlen\<rparr>),
                    hp_bufs = (hp_bufs h)(b \<mapsto> replicate newlen 0), hp_fresh = Suc b\<rparr>
          | Some b \<Rightarrow> do {
              bs \<leftarrow> hp_bufs h b;
              Some (h\<lparr>hp_pkts := (hp_pkts h)(a \<mapsto> p\<lparr>dp_len := newlen\<rparr>),
                      hp_bufs := (hp_bufs h)(b \<mapsto> take newlen (bs @ replicate newlen 0))\<rparr>)
            })
       else do {
         h \<leftarrow> delete_buf (dp_buf p) h;
         Some (h\<lparr>hp_pkts := (hp_pkts h)(a \<mapsto> p\<lparr>dp_buf := None, dp_len := newlen\<rparr>)\<rparr>)
       }
     else Some h
   }"

text \<open>memcpy to the start of a packet's buffer.\<close>

definition copy_to_packet :: "nat \<Rightarrow> u8 list \<Rightarrow> heap \<Rightarrow> heap option" where
  "copy_to_packet a data h = do {
     p \<leftarrow> hp_pkts h a;
     b \<leftarrow> dp_buf p;
     bs \<leftarrow> hp_bufs h b;
     if length data \<le> length bs
     then Some (h\<lparr>hp_bufs := (hp_bufs h)(b \<mapsto> data @ drop (length data) bs)\<rparr>) else None
   }"

definition clone_packet :: "nat \<Rightarrow> heap \<Rightarrow> (nat \<times> heap) option" where
  "clone_packet a h = do {
     p \<leftarrow> hp_pkts h a;
     let (c, h) = new_packet (dp_len p) h;
     q \<leftarrow> hp_pkts h c;
     let h = h\<lparr>hp_pkts := (hp_pkts h)(c \<mapsto> q\<lparr>dp_pts := dp_pts p, dp_pos := dp_pos p,
                                             dp_flags := dp_flags p, dp_next := dp_next p\<rparr>)\<rparr>;
     b \<leftarrow> dp_buf p;
     bs \<leftarrow> hp_bufs h b;
     h \<leftarrow> copy_to_packet c (take (dp_len p) bs) h;
     Some (c, h)
   }"

section \<open>Lists of packets\<close>

text \<open>A packet that owns its buffer, and the bytes it holds.\<close>

definition live :: "heap \<Rightarrow> nat \<Rightarrow> bool" where
  "live h a = (case hp_pkts h a of None \<Rightarrow> False
     | Some p \<Rightarrow> dp_buf p = Some a \<and> dp_len p > 0 \<and> a < hp_fresh h \<and>
        (case hp_bufs h a of None \<Rightarrow> False | Some bs \<Rightarrow> length bs = dp_len p))"

definition bytes_at :: "heap \<Rightarrow> nat \<Rightarrow> u8 list" where
  "bytes_at h a = (case hp_bufs h a of None \<Rightarrow> [] | Some bs \<Rightarrow> bs)"

definition queued_bytes :: "heap \<Rightarrow> nat list \<Rightarrow> u8 list" where
  "queued_bytes h ps = concat (map (bytes_at h) ps)"

fun chain :: "heap \<Rightarrow> nat option \<Rightarrow> nat list \<Rightarrow> bool" where
  "chain h p [] = (p = None)"
| "chain h p (a # as) = (p = Some a \<and> (case hp_pkts h a of None \<Rightarrow> False | Some q \<Rightarrow> chain h (dp_next q) as))"

text \<open>Two heaps that agree on some packets.\<close>

definition same_at :: "nat set \<Rightarrow> heap \<Rightarrow> heap \<Rightarrow> bool" where
  "same_at A h h' = (hp_fresh h \<le> hp_fresh h' \<and>
     (\<forall>a\<in>A. hp_pkts h' a = hp_pkts h a \<and> hp_bufs h' a = hp_bufs h a))"

lemma same_at_refl [simp]: "same_at A h h"
  by (simp add: same_at_def)

lemma same_at_trans: "same_at A h h' \<Longrightarrow> same_at A h' h'' \<Longrightarrow> same_at A h h''"
  by (auto simp: same_at_def)

lemma same_at_subset: "same_at A h h' \<Longrightarrow> B \<subseteq> A \<Longrightarrow> same_at B h h'"
  by (auto simp: same_at_def)

lemma same_at_live: "same_at A h h' \<Longrightarrow> a \<in> A \<Longrightarrow> live h a \<Longrightarrow> live h' a"
  by (auto simp: same_at_def live_def split: option.splits)

lemma same_at_bytes: "same_at A h h' \<Longrightarrow> a \<in> A \<Longrightarrow> bytes_at h' a = bytes_at h a"
  by (auto simp: same_at_def bytes_at_def)

lemma same_at_queued: "same_at A h h' \<Longrightarrow> set ps \<subseteq> A \<Longrightarrow> queued_bytes h' ps = queued_bytes h ps"
  unfolding queued_bytes_def by (intro arg_cong [where f = concat] map_cong) (auto intro: same_at_bytes)

lemma same_at_chain: "same_at A h h' \<Longrightarrow> set ps \<subseteq> A \<Longrightarrow> chain h p ps \<Longrightarrow> chain h' p ps"
  by (induction ps arbitrary: p) (auto simp: same_at_def split: option.splits)

lemma liveD:
  assumes "live h a"
  obtains p bs where "hp_pkts h a = Some p" "dp_buf p = Some a" "dp_len p > 0" "hp_bufs h a = Some bs"
    "length bs = dp_len p" "bytes_at h a = bs" "a < hp_fresh h"
  using assms by (auto simp: live_def bytes_at_def split: option.splits)

lemma chain_first: "chain h p ps \<Longrightarrow> p = (case ps of [] \<Rightarrow> None | a # _ \<Rightarrow> Some a)"
  by (cases ps) auto

lemma chain_unique: "chain h p ps \<Longrightarrow> chain h p qs \<Longrightarrow> ps = qs"
proof (induction ps arbitrary: p qs)
  case Nil
  then show ?case by (cases qs) auto
next
  case (Cons a ps)
  then show ?case by (cases qs) (auto split: option.splits)
qed

text \<open>Hanging one more packet on the last one.\<close>

lemma chain_append:
  assumes "chain h p ps" "ps \<noteq> []" "hp_pkts h (last ps) = Some q" "hp_pkts h a = Some r" "dp_next r = None"
    "distinct ps" "a \<notin> set ps"
  shows "chain (h\<lparr>hp_pkts := (hp_pkts h)(last ps \<mapsto> q\<lparr>dp_next := Some a\<rparr>)\<rparr>) p (ps @ [a])"
  using assms
proof (induction ps arbitrary: p)
  case (Cons x xs)
  show ?case
  proof (cases "xs = []")
    case True
    then show ?thesis using Cons.prems by auto
  next
    case False
    then have "last xs \<noteq> x" using Cons.prems(6) last_in_set by fastforce
    moreover obtain s where s: "hp_pkts h x = Some s" "chain h (dp_next s) xs"
      using Cons.prems(1) by (auto split: option.splits)
    moreover have "chain (h\<lparr>hp_pkts := (hp_pkts h)(last xs \<mapsto> q\<lparr>dp_next := Some a\<rparr>)\<rparr>) (dp_next s) (xs @ [a])"
      using Cons.prems False s(2) by (intro Cons.IH) auto
    moreover have "hp_pkts (h\<lparr>hp_pkts := (hp_pkts h)(last xs \<mapsto> q\<lparr>dp_next := Some a\<rparr>)\<rparr>) x = Some s"
      using s(1) \<open>last xs \<noteq> x\<close> by simp
    ultimately show ?thesis using Cons.prems False by (simp del: fun_upd_apply heap.simps)
  qed
qed simp

end
