(* ===== verification/DemuxStream.thy ===== *)
theory DemuxStream
  imports PacketHeap
begin

text \<open>
  The packet queues between a demuxer and its readers: mplayerxp/libmpdemux/demuxer_stream.cpp
  and the parts of demuxer.cpp that drive them. A demuxer has three streams on a shared heap;
  its driver is a function that answers a call of demux with the packets it reads, for any of the
  streams. A result is \<open>None\<close> where the code would not return, \<open>Some None\<close> where it would use
  memory it does not own.
\<close>

section \<open>State\<close>

datatype sid = Audio | Video | Sub

record Demuxer_Stream =
  ds_pts :: rat
  ds_eof :: bool
  ds_pos :: int
  ds_dpos :: int
  ds_flags :: u32
  asf_packet :: "nat option"
  asf_seq :: int
  prev_pts :: rat
  pts_corr :: rat
  pts_flags :: int
  pack_no :: int
  ds_pts_bytes :: int
  ds_packs :: int
  ds_bytes :: int
  ds_first :: "nat option"
  ds_last :: "nat option"
  ds_current :: "nat option"
  ds_buffer_pos :: int
  ds_buffer_size :: int
  ds_buffer :: "nat option"

definition Demuxer_Stream_new :: Demuxer_Stream where
  "Demuxer_Stream_new =
     \<lparr>ds_pts = 0, ds_eof = False, ds_pos = 0, ds_dpos = 0, ds_flags = 0, asf_packet = None, asf_seq = -1,
      prev_pts = 0, pts_corr = 0, pts_flags = 0, pack_no = 0, ds_pts_bytes = 0, ds_packs = 0, ds_bytes = 0,
      ds_first = None, ds_last = None, ds_current = None, ds_buffer_pos = 0, ds_buffer_size = 0, ds_buffer = None\<rparr>"

text \<open>What a driver reads for one packet: \<open>pi_len\<close> is the size asked for, \<open>pi_data\<close> what the stream gave.\<close>

record packet_in =
  pi_sid :: sid
  pi_len :: nat
  pi_data :: "u8 list"
  pi_pts :: rat
  pi_pos :: int
  pi_flags :: u32

record 'd Demuxer =
  dm_stream :: "sid \<Rightarrow> Demuxer_Stream"
  dm_heap :: heap
  dm_priv :: 'd
  dm_synced :: int
  dm_filepos :: int

type_synonym 'd driver = "'d \<Rightarrow> sid \<Rightarrow> bool \<times> 'd \<times> packet_in list"

definition MAX_PACK_BYTES :: int where
  "MAX_PACK_BYTES = 0x1024 * 0x1024 * 4"

definition Demuxer_new :: "'d \<Rightarrow> 'd Demuxer" where
  "Demuxer_new d =
     \<lparr>dm_stream = (\<lambda>_. Demuxer_Stream_new), dm_heap = \<lparr>hp_pkts = Map.empty, hp_bufs = Map.empty, hp_fresh = 0\<rparr>,
      dm_priv = d, dm_synced = 0, dm_filepos = 0\<rparr>"

abbreviation set_stream :: "sid \<Rightarrow> Demuxer_Stream \<Rightarrow> 'd Demuxer \<Rightarrow> 'd Demuxer" where
  "set_stream s ds dm \<equiv> dm\<lparr>dm_stream := (dm_stream dm)(s := ds)\<rparr>"

section \<open>Adding packets\<close>

definition add_packet :: "nat \<Rightarrow> Demuxer_Stream \<times> heap \<Rightarrow> (Demuxer_Stream \<times> heap) option" where
  "add_packet dp = (\<lambda>(ds, h). do {
     p \<leftarrow> hp_pkts h dp;
     if dp_len p > 0 then do {
       let ds = ds\<lparr>ds_packs := ds_packs ds + 1, ds_bytes := ds_bytes ds + int (dp_len p)\<rparr>;
       (case ds_last ds of
          Some l \<Rightarrow> do {
            q \<leftarrow> hp_pkts h l;
            Some (ds\<lparr>ds_last := Some dp\<rparr>, h\<lparr>hp_pkts := (hp_pkts h)(l \<mapsto> q\<lparr>dp_next := Some dp\<rparr>)\<rparr>)
          }
        | None \<Rightarrow> Some (ds\<lparr>ds_first := Some dp, ds_last := Some dp\<rparr>, h))
     } else Some (ds, h)
   })"

definition read_packet :: "packet_in \<Rightarrow> Demuxer_Stream \<times> heap \<Rightarrow> (Demuxer_Stream \<times> heap) option" where
  "read_packet i = (\<lambda>(ds, h). do {
     let (dp, h) = new_packet (pi_len i) h;
     h \<leftarrow> copy_to_packet dp (pi_data i) h;
     let len = length (pi_data i);
     h \<leftarrow> resize_packet dp len h;
     p \<leftarrow> hp_pkts h dp;
     let h = h\<lparr>hp_pkts := (hp_pkts h)(dp \<mapsto> p\<lparr>dp_pts := pi_pts i, dp_pos := pi_pos i, dp_flags := pi_flags i\<rparr>)\<rparr>;
     add_packet dp (ds, h)
   })"

text \<open>Demuxer::demux: the driver's packets go to their streams in order.\<close>

fun read_packets :: "packet_in list \<Rightarrow> 'd Demuxer \<Rightarrow> 'd Demuxer option" where
  "read_packets [] dm = Some dm"
| "read_packets (i # is) dm =
     (case read_packet i (dm_stream dm (pi_sid i), dm_heap dm) of None \<Rightarrow> None
      | Some (ds, h) \<Rightarrow> read_packets is ((set_stream (pi_sid i) ds dm)\<lparr>dm_heap := h\<rparr>))"

definition demux :: "'d driver option \<Rightarrow> sid \<Rightarrow> 'd Demuxer \<Rightarrow> (bool \<times> 'd Demuxer) option" where
  "demux driver s dm = (case driver of None \<Rightarrow> Some (False, dm)
     | Some drv \<Rightarrow> (let (ok, d, is) = drv (dm_priv dm) s in
         case read_packets is (dm\<lparr>dm_priv := d\<rparr>) of None \<Rightarrow> None | Some dm \<Rightarrow> Some (ok, dm)))"

section \<open>Reading\<close>

definition take_first :: "sid \<Rightarrow> 'd Demuxer \<Rightarrow> 'd Demuxer option" where
  "take_first s dm = do {
     let ds = dm_stream dm s;
     a \<leftarrow> ds_first ds;
     p \<leftarrow> hp_pkts (dm_heap dm) a;
     let len = int (dp_len p);
     let ds = ds\<lparr>ds_buffer := dp_buf p, ds_buffer_pos := 0, ds_buffer_size := len, ds_pos := dp_pos p,
                 ds_dpos := ds_dpos ds + len, pack_no := pack_no ds + 1\<rparr>;
     let ds = (if dp_pts p \<noteq> 0 then ds\<lparr>ds_pts := dp_pts p, ds_pts_bytes := 0\<rparr> else ds);
     let ds = ds\<lparr>ds_pts_bytes := ds_pts_bytes ds + len, ds_flags := dp_flags p, ds_bytes := ds_bytes ds - len,
                 ds_current := Some a, ds_first := dp_next p,
                 ds_last := (if dp_next p = None then None else ds_last ds), ds_packs := ds_packs ds - 1\<rparr>;
     Some (set_stream s ds dm)
   }"

definition at_eof :: "sid \<Rightarrow> 'd Demuxer \<Rightarrow> 'd Demuxer" where
  "at_eof s dm = set_stream s ((dm_stream dm s)\<lparr>ds_buffer_pos := 0, ds_buffer_size := 0, ds_buffer := None,
     ds_current := None, ds_eof := True\<rparr>) dm"

partial_function (option) fill_loop :: "'d driver option \<Rightarrow> sid \<Rightarrow> 'd Demuxer \<Rightarrow> (bool \<times> 'd Demuxer) option option" where
  "fill_loop driver s dm =
     (if ds_packs (dm_stream dm s) \<noteq> 0 then Some (map_option (Pair True) (take_first s dm))
      else if MAX_PACK_BYTES \<le> ds_bytes (dm_stream dm Audio) then Some (Some (False, at_eof s dm))
      else if MAX_PACK_BYTES \<le> ds_bytes (dm_stream dm Video) then Some (Some (False, at_eof s dm))
      else case demux driver s dm of None \<Rightarrow> Some None
        | Some (ok, dm) \<Rightarrow> if \<not> ok then Some (Some (False, at_eof s dm)) else fill_loop driver s dm)"

definition fill_buffer :: "'d driver option \<Rightarrow> sid \<Rightarrow> 'd Demuxer \<Rightarrow> (bool \<times> 'd Demuxer) option option" where
  "fill_buffer driver s dm =
     (case delete_buf (ds_buffer (dm_stream dm s)) (dm_heap dm) of None \<Rightarrow> Some None
      | Some h \<Rightarrow> fill_loop driver s (dm\<lparr>dm_heap := h\<rparr>))"

text \<open>The next \<open>x\<close> bytes of the current buffer.\<close>

definition peek :: "sid \<Rightarrow> int \<Rightarrow> 'd Demuxer \<Rightarrow> u8 list option" where
  "peek s x dm = do {
     let ds = dm_stream dm s;
     b \<leftarrow> ds_buffer ds;
     bs \<leftarrow> hp_bufs (dm_heap dm) b;
     if 0 \<le> ds_buffer_pos ds \<and> 0 \<le> x \<and> ds_buffer_pos ds + x \<le> int (length bs)
     then Some (take (nat x) (drop (nat (ds_buffer_pos ds)) bs)) else None
   }"

abbreviation advance :: "sid \<Rightarrow> int \<Rightarrow> 'd Demuxer \<Rightarrow> 'd Demuxer" where
  "advance s x dm \<equiv> set_stream s ((dm_stream dm s)\<lparr>ds_buffer_pos := ds_buffer_pos (dm_stream dm s) + x\<rparr>) dm"

definition getch :: "'d driver option \<Rightarrow> sid \<Rightarrow> 'd Demuxer \<Rightarrow> (int \<times> 'd Demuxer) option option" where
  "getch driver s dm =
     (let next = (\<lambda>dm. case peek s 1 dm of None \<Rightarrow> None | Some bs \<Rightarrow> Some (uint (hd bs), advance s 1 dm))
      in if ds_buffer_pos (dm_stream dm s) < ds_buffer_size (dm_stream dm s) then Some (next dm)
         else case fill_buffer driver s dm of None \<Rightarrow> None
           | Some None \<Rightarrow> Some None
           | Some (Some (ok, dm)) \<Rightarrow> if \<not> ok then Some (Some (-1, dm)) else Some (next dm))"

text \<open>The loop of read_data; \<open>acc\<close> is what has been copied to \<open>mem\<close>.\<close>

partial_function (option) read_loop ::
  "'d driver option \<Rightarrow> sid \<Rightarrow> int \<Rightarrow> u8 list \<Rightarrow> 'd Demuxer \<Rightarrow> (u8 list \<times> 'd Demuxer) option option" where
  "read_loop driver s len acc dm =
     (if \<not> 0 < len then Some (Some (acc, dm))
      else let x = ds_buffer_size (dm_stream dm s) - ds_buffer_pos (dm_stream dm s) in
        if x = 0 then
          (case fill_buffer driver s dm of None \<Rightarrow> None
           | Some None \<Rightarrow> Some None
           | Some (Some (ok, dm)) \<Rightarrow> if \<not> ok then Some (Some (acc, dm)) else read_loop driver s len acc dm)
        else let x = (if len < x then len else x) in
          if x < 0 then Some (Some (acc, dm))
          else case peek s x dm of None \<Rightarrow> Some None
            | Some bs \<Rightarrow> read_loop driver s (len - x) (acc @ bs) (advance s x dm))"

definition read_data :: "'d driver option \<Rightarrow> sid \<Rightarrow> int \<Rightarrow> 'd Demuxer \<Rightarrow> (u8 list \<times> 'd Demuxer) option option" where
  "read_data driver s len dm = read_loop driver s len [] dm"

text \<open>The rest of the buffer, as get_packet and get_packet_sub hand it out.\<close>

definition rest_of_buffer :: "sid \<Rightarrow> 'd Demuxer \<Rightarrow> (u8 list option \<times> 'd Demuxer) option" where
  "rest_of_buffer s dm =
     (let len = ds_buffer_size (dm_stream dm s) - ds_buffer_pos (dm_stream dm s) in
      case peek s len dm of None \<Rightarrow> None | Some bs \<Rightarrow> Some (Some bs, advance s len dm))"

definition get_packet :: "'d driver option \<Rightarrow> sid \<Rightarrow> 'd Demuxer \<Rightarrow> (u8 list option \<times> 'd Demuxer) option option" where
  "get_packet driver s dm =
     (if ds_buffer_size (dm_stream dm s) \<le> ds_buffer_pos (dm_stream dm s)
      then case fill_buffer driver s dm of None \<Rightarrow> None
        | Some None \<Rightarrow> Some None
        | Some (Some (ok, dm)) \<Rightarrow> if \<not> ok then Some (Some (None, dm)) else Some (rest_of_buffer s dm)
      else Some (rest_of_buffer s dm))"

definition get_packet_sub :: "'d driver option \<Rightarrow> sid \<Rightarrow> 'd Demuxer \<Rightarrow> (u8 list option \<times> 'd Demuxer) option option" where
  "get_packet_sub driver s dm =
     (if ds_buffer_size (dm_stream dm s) \<le> ds_buffer_pos (dm_stream dm s)
      then if ds_packs (dm_stream dm s) = 0 then Some (Some (None, dm))
        else case fill_buffer driver s dm of None \<Rightarrow> None
          | Some None \<Rightarrow> Some None
          | Some (Some (ok, dm)) \<Rightarrow> if \<not> ok then Some (Some (None, dm)) else Some (rest_of_buffer s dm)
      else Some (rest_of_buffer s dm))"

text \<open>Demuxer::fill_buffer calls the driver without asking whether there is one.\<close>

partial_function (option) get_next_pts :: "'d driver option \<Rightarrow> sid \<Rightarrow> 'd Demuxer \<Rightarrow> (rat \<times> 'd Demuxer) option option" where
  "get_next_pts driver s dm =
     (case ds_first (dm_stream dm s) of
        Some a \<Rightarrow> Some (case hp_pkts (dm_heap dm) a of None \<Rightarrow> None | Some p \<Rightarrow> Some (dp_pts p, dm))
      | None \<Rightarrow>
          if MAX_PACK_BYTES \<le> ds_bytes (dm_stream dm Audio) then Some (Some (-1, dm))
          else if MAX_PACK_BYTES \<le> ds_bytes (dm_stream dm Video) then Some (Some (-1, dm))
          else if driver = None then Some None
          else case demux driver s dm of None \<Rightarrow> Some None
            | Some (ok, dm) \<Rightarrow> if \<not> ok then Some (Some (-1, dm)) else get_next_pts driver s dm)"

definition tell :: "Demuxer_Stream \<Rightarrow> int" where
  "tell ds = (ds_dpos ds - ds_buffer_size ds) + ds_buffer_pos ds"

definition tell_pts :: "Demuxer_Stream \<Rightarrow> int" where
  "tell_pts ds = (ds_pts_bytes ds - ds_buffer_size ds) + ds_buffer_pos ds"

definition buffer_roll_back :: "int \<Rightarrow> Demuxer_Stream \<Rightarrow> Demuxer_Stream" where
  "buffer_roll_back x ds = ds\<lparr>ds_buffer_pos := ds_buffer_pos ds - x\<rparr>"

section \<open>Freeing packets\<close>

partial_function (option) delete_chain :: "nat option \<Rightarrow> heap \<Rightarrow> heap option option" where
  "delete_chain dp h = (case dp of None \<Rightarrow> Some (Some h)
     | Some a \<Rightarrow> (case hp_pkts h a of None \<Rightarrow> Some None
         | Some p \<Rightarrow> (case delete_packet a h of None \<Rightarrow> Some None
             | Some h \<Rightarrow> delete_chain (dp_next p) h)))"

definition delete_ptr :: "nat option \<Rightarrow> heap \<Rightarrow> heap option" where
  "delete_ptr p h = (case p of None \<Rightarrow> Some h | Some a \<Rightarrow> delete_packet a h)"

definition free_packs :: "Demuxer_Stream \<times> heap \<Rightarrow> (Demuxer_Stream \<times> heap) option option" where
  "free_packs = (\<lambda>(ds, h). case delete_chain (ds_first ds) h of None \<Rightarrow> None
     | Some None \<Rightarrow> Some None
     | Some (Some h) \<Rightarrow> Some (do {
         h \<leftarrow> delete_ptr (asf_packet ds) h;
         h \<leftarrow> delete_ptr (ds_current ds) h;
         Some (ds\<lparr>asf_packet := None, ds_first := None, ds_last := None, ds_packs := 0, ds_bytes := 0,
                  ds_current := None, ds_buffer := None, ds_buffer_pos := ds_buffer_size ds,
                  ds_pts := 0, ds_pts_bytes := 0\<rparr>, h)
       }))"

text \<open>The loop of free_packs_until_pts: the packet it stops at, and the packets and bytes deleted.\<close>

partial_function (option) delete_until :: "rat \<Rightarrow> nat option \<Rightarrow> int \<Rightarrow> int \<Rightarrow> heap \<Rightarrow>
    (nat option \<times> int \<times> int \<times> heap) option option" where
  "delete_until pts dp packs bytes h = (case dp of None \<Rightarrow> Some (Some (None, packs, bytes, h))
     | Some a \<Rightarrow> (case hp_pkts h a of None \<Rightarrow> Some None
         | Some p \<Rightarrow>
             if pts \<le> dp_pts p then Some (Some (dp, packs, bytes, h))
             else case delete_packet a h of None \<Rightarrow> Some None
               | Some h \<Rightarrow> delete_until pts (dp_next p) (packs + 1) (bytes + int (dp_len p)) h))"

definition free_packs_until_pts :: "rat \<Rightarrow> Demuxer_Stream \<times> heap \<Rightarrow> (Demuxer_Stream \<times> heap) option option" where
  "free_packs_until_pts pts = (\<lambda>(ds, h). case delete_until pts (ds_first ds) 0 0 h of None \<Rightarrow> None
     | Some None \<Rightarrow> Some None
     | Some (Some (dp, packs, bytes, h)) \<Rightarrow> Some (do {
         (ds, h) \<leftarrow> (case dp of
             None \<Rightarrow> do {
               h \<leftarrow> delete_ptr (asf_packet ds) h;
               Some (ds\<lparr>asf_packet := None, ds_first := None, ds_last := None, ds_packs := 0, ds_bytes := 0, ds_pts := 0\<rparr>, h)
             }
           | Some a \<Rightarrow> do {
               p \<leftarrow> hp_pkts h a;
               Some (ds\<lparr>ds_first := Some a, ds_packs := ds_packs ds - packs, ds_bytes := ds_bytes ds - bytes, ds_pts := dp_pts p\<rparr>, h)
             });
         h \<leftarrow> delete_ptr (ds_current ds) h;
         Some (ds\<lparr>ds_current := None, ds_buffer := None, ds_buffer_pos := ds_buffer_size ds, ds_pts_bytes := 0\<rparr>, h)
       }))"

definition free_stream :: "sid \<Rightarrow> 'd Demuxer \<Rightarrow> 'd Demuxer option option" where
  "free_stream s dm = map_option (map_option (\<lambda>(ds, h). (set_stream s ds dm)\<lparr>dm_heap := h\<rparr>))
     (free_packs (dm_stream dm s, dm_heap dm))"

definition free_stream_until :: "rat \<Rightarrow> sid \<Rightarrow> 'd Demuxer \<Rightarrow> 'd Demuxer option option" where
  "free_stream_until pts s dm = map_option (map_option (\<lambda>(ds, h). (set_stream s ds dm)\<lparr>dm_heap := h\<rparr>))
     (free_packs_until_pts pts (dm_stream dm s, dm_heap dm))"

section \<open>Seeking\<close>

text \<open>
  Demuxer::seek without the fields of the audio header it resets: \<open>clear_eof\<close> is the stream's
  eof(0), \<open>drv_seek\<close> the driver's seek, if it has one, which here moves the driver's position only. The subtitle stream keeps its packets.
\<close>

definition seek :: "('d \<Rightarrow> 'd) option \<Rightarrow> ('d \<Rightarrow> 'd) \<Rightarrow> bool \<Rightarrow> bool \<Rightarrow> bool \<Rightarrow> 'd Demuxer \<Rightarrow> (int \<times> 'd Demuxer) option option" where
  "seek drv_seek clear_eof stream_seekable demuxer_seekable has_audio dm =
     (if \<not> stream_seekable then Some (Some (0, dm))
      else if \<not> demuxer_seekable then Some (Some (0, dm))
      else andthen (if has_audio then free_stream Audio dm else Some (Some dm)) (\<lambda>dm.
           andthen (free_stream Video dm) (\<lambda>dm.
             let dm = dm\<lparr>dm_priv := clear_eof (dm_priv dm)\<rparr>;
                 dm = set_stream Video ((dm_stream dm Video)\<lparr>ds_eof := False, prev_pts := 0\<rparr>) dm;
                 dm = set_stream Audio ((dm_stream dm Audio)\<lparr>ds_eof := False, prev_pts := 0\<rparr>) dm;
                 dm = dm\<lparr>dm_priv := (case drv_seek of Some f \<Rightarrow> f (dm_priv dm) | None \<Rightarrow> dm_priv dm)\<rparr>
             in Some (Some (1, dm)))))"

text \<open>The calls of the readers, as one type.\<close>

datatype stream_call = Getch sid | Read_data sid int | Get_packet sid | Get_packet_sub sid | Get_next_pts sid
  | Free_packs sid | Free_until rat sid

definition call :: "'d driver option \<Rightarrow> stream_call \<Rightarrow> 'd Demuxer \<Rightarrow> 'd Demuxer option option" where
  "call driver c dm = (case c of
       Getch s \<Rightarrow> map_option (map_option snd) (getch driver s dm)
     | Read_data s len \<Rightarrow> map_option (map_option snd) (read_data driver s len dm)
     | Get_packet s \<Rightarrow> map_option (map_option snd) (get_packet driver s dm)
     | Get_packet_sub s \<Rightarrow> map_option (map_option snd) (get_packet_sub driver s dm)
     | Get_next_pts s \<Rightarrow> map_option (map_option snd) (get_next_pts driver s dm)
     | Free_packs s \<Rightarrow> free_stream s dm
     | Free_until pts s \<Rightarrow> free_stream_until pts s dm)"

fun calls :: "'d driver option \<Rightarrow> stream_call list \<Rightarrow> 'd Demuxer \<Rightarrow> 'd Demuxer option option" where
  "calls driver [] dm = Some (Some dm)"
| "calls driver (c # cs) dm = andthen (call driver c dm) (calls driver cs)"

declare fill_loop.simps [code] read_loop.simps [code] get_next_pts.simps [code] delete_chain.simps [code] delete_until.simps [code]

end
