(* ===== verification/DemuxContent.thy ===== *)
theory DemuxContent
  imports DemuxStream
begin

text \<open>
  The packet queues keep what is demuxed: the invariant of the three queues on their shared heap,
  and that every operation of the theory \<open>DemuxStream\<close> keeps it and loses or reorders no byte.
\<close>

section \<open>Invariant\<close>

fun follow :: "heap \<Rightarrow> nat \<Rightarrow> nat option \<Rightarrow> nat list" where
  "follow h 0 p = []"
| "follow h (Suc n) p = (case p of None \<Rightarrow> [] | Some a \<Rightarrow>
     a # follow h n (case hp_pkts h a of None \<Rightarrow> None | Some q \<Rightarrow> dp_next q))"

lemma follow_chain: "chain h p ps \<Longrightarrow> follow h (length ps) p = ps"
  by (induction ps arbitrary: p) (auto split: option.splits)

definition queue_ok :: "heap \<Rightarrow> Demuxer_Stream \<Rightarrow> nat list \<Rightarrow> bool" where
  "queue_ok h ds ps = (chain h (ds_first ds) ps \<and> ds_last ds = (if ps = [] then None else Some (last ps)) \<and>
     distinct ps \<and> (\<forall>a\<in>set ps. live h a) \<and> ds_packs ds = int (length ps) \<and>
     ds_bytes ds = int (length (queued_bytes h ps)) \<and> asf_packet ds = None)"

definition current_ok :: "heap \<Rightarrow> Demuxer_Stream \<Rightarrow> bool" where
  "current_ok h ds = (case ds_current ds of
     None \<Rightarrow> ds_buffer ds = None \<and> ds_buffer_pos ds = ds_buffer_size ds
   | Some c \<Rightarrow> live h c \<and> ds_buffer ds = Some c \<and> ds_buffer_size ds = int (length (bytes_at h c)) \<and>
       0 \<le> ds_buffer_pos ds \<and> ds_buffer_pos ds \<le> ds_buffer_size ds)"

definition queue :: "'d Demuxer \<Rightarrow> sid \<Rightarrow> nat list" where
  "queue dm s = follow (dm_heap dm) (nat (ds_packs (dm_stream dm s))) (ds_first (dm_stream dm s))"

text \<open>The packets a stream owns; while a stream is being filled it has no current packet.\<close>

definition owned :: "sid set \<Rightarrow> 'd Demuxer \<Rightarrow> sid \<Rightarrow> nat set" where
  "owned busy dm s = set (queue dm s) \<union> (if s \<in> busy then {} else set_option (ds_current (dm_stream dm s)))"

definition dm_ok :: "sid set \<Rightarrow> 'd Demuxer \<Rightarrow> bool" where
  "dm_ok busy dm \<longleftrightarrow>
     (\<forall>s. queue_ok (dm_heap dm) (dm_stream dm s) (queue dm s)) \<and>
     (\<forall>s. s \<notin> busy \<longrightarrow> current_ok (dm_heap dm) (dm_stream dm s) \<and>
        set (queue dm s) \<inter> set_option (ds_current (dm_stream dm s)) = {}) \<and>
     (\<forall>s t. s \<noteq> t \<longrightarrow> owned busy dm s \<inter> owned busy dm t = {})"

definition unread :: "'d Demuxer \<Rightarrow> sid \<Rightarrow> u8 list" where
  "unread dm s = (case ds_buffer (dm_stream dm s) of None \<Rightarrow> []
     | Some b \<Rightarrow> drop (nat (ds_buffer_pos (dm_stream dm s))) (bytes_at (dm_heap dm) b))"

definition queued :: "'d Demuxer \<Rightarrow> sid \<Rightarrow> u8 list" where
  "queued dm s = queued_bytes (dm_heap dm) (queue dm s)"

lemma queue_okD: "queue_ok h ds ps \<Longrightarrow> follow h (nat (ds_packs ds)) (ds_first ds) = ps"
  by (simp add: queue_ok_def follow_chain)

lemma queue_eq: "queue_ok (dm_heap dm) (dm_stream dm s) ps \<Longrightarrow> queue dm s = ps"
  by (simp add: queue_def queue_okD)

lemma same_at_queue_ok:
  assumes "same_at A h h'" "set ps \<subseteq> A" "queue_ok h ds ps"
  shows "queue_ok h' ds ps"
  using assms same_at_chain [OF assms(1,2)] same_at_queued [OF assms(1,2)] same_at_live [OF assms(1)]
  by (auto simp: queue_ok_def)

lemma same_at_current_ok:
  assumes "same_at A h h'" "set_option (ds_current ds) \<subseteq> A" "current_ok h ds"
  shows "current_ok h' ds"
  using assms same_at_bytes [OF assms(1)] same_at_live [OF assms(1)]
  by (auto simp: current_ok_def split: option.splits)

lemma current_ok_cong:
  "ds_current ds' = ds_current ds \<Longrightarrow> ds_buffer ds' = ds_buffer ds \<Longrightarrow> ds_buffer_pos ds' = ds_buffer_pos ds \<Longrightarrow>
    ds_buffer_size ds' = ds_buffer_size ds \<Longrightarrow> current_ok h ds' = current_ok h ds"
  by (simp add: current_ok_def split: option.splits)

lemma dm_ok_queue: "dm_ok busy dm \<Longrightarrow> queue_ok (dm_heap dm) (dm_stream dm s) (queue dm s)"
  by (simp add: dm_ok_def)

lemma dm_ok_current: "dm_ok busy dm \<Longrightarrow> s \<notin> busy \<Longrightarrow> current_ok (dm_heap dm) (dm_stream dm s)"
  by (simp add: dm_ok_def)

lemma dm_ok_disjoint: "dm_ok busy dm \<Longrightarrow> s \<noteq> t \<Longrightarrow> owned busy dm s \<inter> owned busy dm t = {}"
  by (simp add: dm_ok_def)

lemma dm_ok_current_fresh:
  "dm_ok busy dm \<Longrightarrow> s \<notin> busy \<Longrightarrow> set (queue dm s) \<inter> set_option (ds_current (dm_stream dm s)) = {}"
  by (simp add: dm_ok_def)

lemma live_fresh: "live h a \<Longrightarrow> a < hp_fresh h"
  by (auto elim: liveD)

lemma owned_fresh: "dm_ok busy dm \<Longrightarrow> a \<in> owned busy dm s \<Longrightarrow> a < hp_fresh (dm_heap dm)"
  using dm_ok_queue [of busy dm s] dm_ok_current [of busy dm s]
  by (auto simp: owned_def queue_ok_def current_ok_def live_fresh split: if_splits)

section \<open>Adding packets\<close>

definition queue_only :: "Demuxer_Stream \<Rightarrow> Demuxer_Stream \<Rightarrow> bool" where
  "queue_only ds ds' \<longleftrightarrow> ds'\<lparr>ds_first := None, ds_last := None, ds_packs := 0, ds_bytes := 0\<rparr> =
     ds\<lparr>ds_first := None, ds_last := None, ds_packs := 0, ds_bytes := 0\<rparr>"

lemma queue_onlyD:
  assumes "queue_only ds ds'"
  shows "ds_current ds' = ds_current ds" "ds_buffer ds' = ds_buffer ds"
    "ds_buffer_pos ds' = ds_buffer_pos ds" "ds_buffer_size ds' = ds_buffer_size ds"
  using assms [unfolded queue_only_def, THEN arg_cong [where f = ds_current]]
    assms [unfolded queue_only_def, THEN arg_cong [where f = ds_buffer]]
    assms [unfolded queue_only_def, THEN arg_cong [where f = ds_buffer_pos]]
    assms [unfolded queue_only_def, THEN arg_cong [where f = ds_buffer_size]] by simp_all

lemma alloc_packet:
  assumes "length (pi_data i) \<le> pi_len i"
  shows "\<exists>h'. read_packet i (ds, h) = add_packet (hp_fresh h) (ds, h') \<and> same_at {a. a < hp_fresh h} h h' \<and>
    hp_fresh h' > hp_fresh h \<and>
    (\<exists>p. hp_pkts h' (hp_fresh h) = Some p \<and> dp_next p = None \<and> dp_len p = length (pi_data i)) \<and>
    (pi_data i \<noteq> [] \<longrightarrow> live h' (hp_fresh h) \<and> bytes_at h' (hp_fresh h) = pi_data i)"
  using assms
  by (auto simp: read_packet_def new_packet_def copy_to_packet_def resize_packet_def delete_buf_def Let_def
      same_at_def live_def bytes_at_def)

lemma add_packet_live:
  assumes q: "queue_ok h ds ps" and a: "live h a" "a \<notin> set ps" "hp_pkts h a = Some p" "dp_next p = None"
  shows "\<exists>ds' h'. add_packet a (ds, h) = Some (ds', h') \<and> queue_ok h' ds' (ps @ [a]) \<and>
    same_at (- set ps) h h' \<and> queued_bytes h' (ps @ [a]) = queued_bytes h ps @ bytes_at h a \<and> queue_only ds ds'"
proof (cases "ps = []")
  case True
  then show ?thesis using q a
    by (auto simp: add_packet_def queue_ok_def queue_only_def live_def queued_bytes_def bytes_at_def split: option.splits)
next
  case False
  then have l: "ds_last ds = Some (last ps)" "live h (last ps)" using q by (auto simp: queue_ok_def)
  then obtain q where ql: "hp_pkts h (last ps) = Some q" by (auto elim: liveD)
  define h' where "h' = h\<lparr>hp_pkts := (hp_pkts h)(last ps \<mapsto> q\<lparr>dp_next := Some a\<rparr>)\<rparr>"
  have lv: "live h' b = live h b" for b using ql by (simp add: live_def h'_def split: option.splits)
  have bt: "bytes_at h' = bytes_at h" by (rule ext) (simp add: bytes_at_def h'_def)
  have "chain h' (ds_first ds) (ps @ [a])"
    unfolding h'_def using q False ql a by (intro chain_append) (auto simp: queue_ok_def)
  moreover have "dp_len p = length (bytes_at h a)" "dp_len p > 0" using a by (auto elim!: liveD)
  moreover have "same_at (- set ps) h h'" using False by (auto simp: same_at_def h'_def)
  ultimately show ?thesis using q a l ql False
    by (auto simp: add_packet_def queue_ok_def queue_only_def lv bt queued_bytes_def h'_def [symmetric])
qed

lemma read_packet_queue:
  assumes "queue_ok h ds ps" "length (pi_data i) \<le> pi_len i"
  obtains ds' h' qs where "read_packet i (ds, h) = Some (ds', h')" "queue_ok h' ds' (ps @ qs)"
    "same_at ({a. a < hp_fresh h} - set ps) h h'" "\<forall>a\<in>set qs. hp_fresh h \<le> a"
    "queued_bytes h' (ps @ qs) = queued_bytes h ps @ pi_data i" "queue_only ds ds'"
proof -
  let ?a = "hp_fresh h"
  obtain h' p where h': "read_packet i (ds, h) = add_packet ?a (ds, h')" "same_at {a. a < ?a} h h'"
    and p: "hp_pkts h' ?a = Some p" "dp_next p = None" "dp_len p = length (pi_data i)"
    and lv: "pi_data i \<noteq> [] \<longrightarrow> live h' ?a \<and> bytes_at h' ?a = pi_data i"
    using alloc_packet [OF assms(2), of ds h] by (elim exE conjE) blast
  have ps: "set ps \<subseteq> {a. a < ?a}" using assms(1) by (auto simp: queue_ok_def elim: liveD)
  then have q: "queue_ok h' ds ps" "queued_bytes h' ps = queued_bytes h ps"
    using same_at_queue_ok [OF h'(2) _ assms(1)] same_at_queued [OF h'(2)] by auto
  show ?thesis
  proof (cases "pi_data i = []")
    case True
    have "add_packet ?a (ds, h') = Some (ds, h')" using p True by (simp add: add_packet_def)
    moreover have "same_at ({a. a < ?a} - set ps) h h'" by (rule same_at_subset [OF h'(2)]) auto
    ultimately show ?thesis using h'(1) q True by (intro that [of ds h' "[]"]) (simp_all add: queue_only_def)
  next
    case False
    have "live h' ?a" "bytes_at h' ?a = pi_data i" "?a \<notin> set ps" using False lv ps by auto
    note add_packet_live [OF q(1) this(1,3) p(1,2)]
    then obtain ds'' h'' where s: "add_packet ?a (ds, h') = Some (ds'', h'')" "queue_ok h'' ds'' (ps @ [?a])"
      "same_at (- set ps) h' h''" "queued_bytes h'' (ps @ [?a]) = queued_bytes h' ps @ bytes_at h' ?a" "queue_only ds ds''"
      by (elim exE conjE)
    have "same_at ({a. a < ?a} - set ps) h h''"
      by (rule same_at_trans [OF same_at_subset [OF h'(2)] same_at_subset [OF s(3)]]) auto
    then show ?thesis using h'(1) s q(2) \<open>bytes_at h' ?a = pi_data i\<close> by (intro that [of ds'' h'' "[?a]"]) simp_all
  qed
qed

text \<open>One stream changes; the packets the others own stay as they are.\<close>

lemma stream_step_ok:
  assumes ok: "dm_ok busy dm" and busy: "busy' - {s} = busy - {s}"
    and q: "queue_ok h' ds' ps'"
    and c: "s \<notin> busy' \<Longrightarrow> current_ok h' ds' \<and> set ps' \<inter> set_option (ds_current ds') = {}"
    and sm: "\<And>t. t \<noteq> s \<Longrightarrow> same_at (owned busy dm t) (dm_heap dm) h'"
    and own': "set ps' \<union> (if s \<in> busy' then {} else set_option (ds_current ds')) \<subseteq>
      owned busy dm s \<union> {a. hp_fresh (dm_heap dm) \<le> a}"
    and dm': "dm_heap dm' = h'" "dm_stream dm' = (dm_stream dm)(s := ds')"
  shows "dm_ok busy' dm'" "queue dm' s = ps'" "t \<noteq> s \<Longrightarrow> queued dm' t = queued dm t"
    "t \<noteq> s \<Longrightarrow> t \<notin> busy \<Longrightarrow> unread dm' t = unread dm t"
proof -
  have b: "t \<in> busy' \<longleftrightarrow> t \<in> busy" if "t \<noteq> s" for t using busy that by auto
  have qs: "queue_ok h' (dm_stream dm t) (queue dm t)" if "t \<noteq> s" for t
    by (rule same_at_queue_ok [OF sm [OF that] _ dm_ok_queue [OF ok]]) (simp add: owned_def)
  show qd: "queue dm' s = ps'" using q by (auto simp: dm' intro!: queue_eq)
  have qt: "queue dm' t = queue dm t" if "t \<noteq> s" for t
    using qs [OF that] that by (auto simp: dm' intro!: queue_eq)
  have co: "current_ok h' (dm_stream dm t)" if "t \<noteq> s" "t \<notin> busy" for t
    by (rule same_at_current_ok [OF sm [OF that(1)] _ dm_ok_current [OF ok that(2)]]) (simp add: owned_def that)
  show "queued dm' t = queued dm t" if "t \<noteq> s"
    using same_at_queued [OF sm [OF that]] by (auto simp: queued_def qt [OF that] owned_def dm')
  show "unread dm' t = unread dm t" if "t \<noteq> s" "t \<notin> busy"
    using that dm_ok_current [OF ok that(2)] same_at_bytes [OF sm [OF that(1)]]
    by (auto simp: unread_def dm' current_ok_def owned_def split: option.splits)
  have ow: "owned busy' dm' t = (if t = s then set ps' \<union> (if s \<in> busy' then {} else set_option (ds_current ds'))
      else owned busy dm t)" for t
    by (auto simp: owned_def qd qt dm' b)
  have "owned busy' dm' t \<inter> owned busy' dm' u = {}" if "t \<noteq> u" for t u
    using that dm_ok_disjoint [OF ok, of t u] dm_ok_disjoint [OF ok, of s t] dm_ok_disjoint [OF ok, of s u]
      own' owned_fresh [OF ok] unfolding ow by (cases "t = s"; cases "u = s") fastforce+
  moreover have "x \<notin> set (queue dm t)" if "t \<notin> busy" "ds_current (dm_stream dm t) = Some x" for t x
    using dm_ok_current_fresh [OF ok that(1)] that(2) by auto
  ultimately show "dm_ok busy' dm'"
    using q c qs co unfolding dm_ok_def
    by (intro conjI allI impI) (auto simp: dm' qd qt b)
qed

text \<open>Only the queue of the stream changes.\<close>

lemma queue_step_ok:
  assumes ok: "dm_ok busy dm" and q: "queue_ok h' ds' ps'" "queue_only (dm_stream dm s) ds'"
    and sm: "same_at ({a. a < hp_fresh (dm_heap dm)} - set (queue dm s)) (dm_heap dm) h'"
    and new: "set ps' \<subseteq> set (queue dm s) \<union> {a. hp_fresh (dm_heap dm) \<le> a}"
  defines "dm' \<equiv> (set_stream s ds' dm)\<lparr>dm_heap := h'\<rparr>"
  shows "dm_ok busy dm'" "queue dm' s = ps'" "t \<noteq> s \<Longrightarrow> queued dm' t = queued dm t"
    "t \<notin> busy \<Longrightarrow> unread dm' t = unread dm t"
proof -
  let ?A = "{a. a < hp_fresh (dm_heap dm)} - set (queue dm s)"
  note cu = queue_onlyD [OF q(2)]
  have own: "same_at (owned busy dm t) (dm_heap dm) h'" if "t \<noteq> s" for t
    by (rule same_at_subset [OF sm]) (use dm_ok_disjoint [OF ok that] owned_fresh [OF ok] in \<open>auto simp: owned_def [of _ _ s]\<close>)
  have cur: "set_option (ds_current (dm_stream dm s)) \<subseteq> ?A" if "s \<notin> busy"
    using owned_fresh [OF ok, of _ s] dm_ok_current_fresh [OF ok that] that by (auto simp: owned_def)
  have c: "current_ok h' ds' \<and> set ps' \<inter> set_option (ds_current ds') = {}" if "s \<notin> busy"
    using current_ok_cong [OF cu] same_at_current_ok [OF sm cur [OF that] dm_ok_current [OF ok that]] cur [OF that] new
    by (auto simp: cu)
  have sub: "set ps' \<union> (if s \<in> busy then {} else set_option (ds_current ds')) \<subseteq> owned busy dm s \<union> {a. hp_fresh (dm_heap dm) \<le> a}"
    using new by (auto simp: owned_def cu)
  have st: "dm_heap dm' = h'" "dm_stream dm' = (dm_stream dm)(s := ds')" by (simp_all add: dm'_def)
  note r = stream_step_ok [OF ok refl q(1) c own sub st]
  show "dm_ok busy dm'" "queue dm' s = ps'" "t \<noteq> s \<Longrightarrow> queued dm' t = queued dm t" using r by auto
  show "unread dm' t = unread dm t" if "t \<notin> busy"
  proof (cases "t = s")
    case True
    then show ?thesis using that cur dm_ok_current [OF ok that] same_at_bytes [OF sm]
      by (auto simp: unread_def st cu current_ok_def split: option.splits)
  qed (use r(4) that in auto)
qed

definition bytes_for :: "sid \<Rightarrow> packet_in list \<Rightarrow> u8 list" where
  "bytes_for s is = concat (map pi_data (filter (\<lambda>i. pi_sid i = s) is))"

definition fits :: "packet_in list \<Rightarrow> bool" where
  "fits is = (\<forall>i \<in> set is. length (pi_data i) \<le> pi_len i)"

lemma read_packets_ok:
  assumes "dm_ok busy dm" "fits is"
  shows "\<exists>dm'. read_packets is dm = Some dm' \<and> dm_ok busy dm' \<and> dm_priv dm' = dm_priv dm \<and>
    (\<forall>t. queued dm' t = queued dm t @ bytes_for t is) \<and> (\<forall>t. t \<notin> busy \<longrightarrow> unread dm' t = unread dm t)"
  using assms
proof (induction "is" arbitrary: dm)
  case (Cons i "is")
  let ?s = "pi_sid i"
  have "queue_ok (dm_heap dm) (dm_stream dm ?s) (queue dm ?s)" "length (pi_data i) \<le> pi_len i"
    using Cons.prems by (auto simp: dm_ok_def fits_def)
  then obtain ds' h' qs where r: "read_packet i (dm_stream dm ?s, dm_heap dm) = Some (ds', h')"
    "queue_ok h' ds' (queue dm ?s @ qs)" "same_at ({a. a < hp_fresh (dm_heap dm)} - set (queue dm ?s)) (dm_heap dm) h'"
    "\<forall>a\<in>set qs. hp_fresh (dm_heap dm) \<le> a" "queued_bytes h' (queue dm ?s @ qs) = queued dm ?s @ pi_data i"
    "queue_only (dm_stream dm ?s) ds'"
    by (rule read_packet_queue) (simp add: queued_def)
  define dm' where "dm' = (set_stream ?s ds' dm)\<lparr>dm_heap := h'\<rparr>"
  note st = queue_step_ok [OF Cons.prems(1) r(2,6,3), folded dm'_def]
  have "set (queue dm ?s @ qs) \<subseteq> set (queue dm ?s) \<union> {a. hp_fresh (dm_heap dm) \<le> a}" using r(4) by auto
  note st = st [OF this]
  have "queued dm' t = queued dm t @ (if t = ?s then pi_data i else [])" for t
    using st(2) st(3) [of t] r(5) by (auto simp: queued_def dm'_def)
  moreover obtain dm'' where "read_packets is dm' = Some dm''" "dm_ok busy dm''" "dm_priv dm'' = dm_priv dm'"
    "\<forall>t. queued dm'' t = queued dm' t @ bytes_for t is" "\<forall>t. t \<notin> busy \<longrightarrow> unread dm'' t = unread dm' t"
    using Cons.IH [OF st(1)] Cons.prems(2) by (auto simp: fits_def)
  ultimately show ?case
    using r(1) st(4) by (intro exI [of _ dm'']) (auto simp: bytes_for_def dm'_def)
qed (simp add: bytes_for_def)


section \<open>Reading\<close>

text \<open>The packets a driver has read in a run of calls for one stream.\<close>

inductive drv_steps :: "'d driver option \<Rightarrow> sid \<Rightarrow> 'd \<Rightarrow> packet_in list \<Rightarrow> 'd \<Rightarrow> bool" for driver s where
  none: "drv_steps driver s d [] d"
| step: "driver = Some drv \<Longrightarrow> drv d s = (ok, d', is) \<Longrightarrow> drv_steps driver s d' js d'' \<Longrightarrow> drv_steps driver s d (is @ js) d''"

definition all_fit :: "'d driver option \<Rightarrow> bool" where
  "all_fit driver = (\<forall>drv d s. driver = Some drv \<longrightarrow> fits (snd (snd (drv d s))))"

lemma drv_steps_trans: "drv_steps driver s d is d' \<Longrightarrow> drv_steps driver s d' js d'' \<Longrightarrow> drv_steps driver s d (is @ js) d''"
  by (induction rule: drv_steps.induct) (auto intro: drv_steps.intros)

lemma bytes_for_append [simp]: "bytes_for s (is @ js) = bytes_for s is @ bytes_for s js"
  by (simp add: bytes_for_def)

lemma bytes_for_Nil [simp]: "bytes_for s [] = []"
  by (simp add: bytes_for_def)

lemma set_priv [simp]:
  "queue (dm\<lparr>dm_priv := d\<rparr>) s = queue dm s" "queued (dm\<lparr>dm_priv := d\<rparr>) s = queued dm s"
  "owned busy (dm\<lparr>dm_priv := d\<rparr>) s = owned busy dm s" "dm_ok busy (dm\<lparr>dm_priv := d\<rparr>) = dm_ok busy dm"
  "unread (dm\<lparr>dm_priv := d\<rparr>) s = unread dm s"
proof -
  show q: "queue (dm\<lparr>dm_priv := d\<rparr>) s = queue dm s" for s by (simp add: queue_def)
  show o: "owned busy (dm\<lparr>dm_priv := d\<rparr>) s = owned busy dm s" for s by (simp add: owned_def q)
  show "queued (dm\<lparr>dm_priv := d\<rparr>) s = queued dm s" by (simp add: queued_def q)
  show "dm_ok busy (dm\<lparr>dm_priv := d\<rparr>) = dm_ok busy dm" by (simp add: dm_ok_def q o)
  show "unread (dm\<lparr>dm_priv := d\<rparr>) s = unread dm s" by (cases "ds_buffer (dm_stream dm s)") (simp_all add: unread_def)
qed

lemma demux_ok:
  assumes "dm_ok busy dm" "all_fit driver"
  obtains ok dm' "is" where "demux driver s dm = Some (ok, dm')" "dm_ok busy dm'" "drv_steps driver s (dm_priv dm) is (dm_priv dm')"
    "\<And>t. queued dm' t = queued dm t @ bytes_for t is" "\<And>t. t \<notin> busy \<Longrightarrow> unread dm' t = unread dm t"
proof (cases driver)
  case None
  then show ?thesis using assms by (intro that [of False dm "[]"]) (auto simp: demux_def intro: drv_steps.none)
next
  case (Some drv)
  obtain ok d' "is" where d: "drv (dm_priv dm) s = (ok, d', is)" by (metis prod_cases3)
  have e: "dm_ok busy (dm\<lparr>dm_priv := d'\<rparr>)" using assms(1) by simp
  have "fits is" using assms(2) [unfolded all_fit_def, rule_format, OF Some, of "dm_priv dm" s] d by simp
  from read_packets_ok [OF e(1) this] obtain dm' where r: "read_packets is (dm\<lparr>dm_priv := d'\<rparr>) = Some dm'" "dm_ok busy dm'"
    "dm_priv dm' = d'" "\<forall>t. queued dm' t = queued dm t @ bytes_for t is" "\<forall>t. t \<notin> busy \<longrightarrow> unread dm' t = unread dm t"
    by auto
  have "drv_steps driver s (dm_priv dm) is d'" using drv_steps.step [OF Some d drv_steps.none] by simp
  then show ?thesis using r Some d by (intro that [of ok dm' "is"]) (auto simp: demux_def)
qed

lemma take_first_ok:
  assumes ok: "dm_ok {s} dm" and n: "ds_packs (dm_stream dm s) \<noteq> 0"
  obtains dm' where "take_first s dm = Some dm'" "dm_ok {} dm'" "dm_priv dm' = dm_priv dm"
    "unread dm' s @ queued dm' s = queued dm s" "unread dm' s \<noteq> []"
    "\<And>t. t \<noteq> s \<Longrightarrow> queued dm' t = queued dm t \<and> unread dm' t = unread dm t"
proof -
  let ?h = "dm_heap dm" and ?ds = "dm_stream dm s"
  note q = dm_ok_queue [OF ok, of s]
  then obtain a qs where aq: "queue dm s = a # qs" using n by (cases "queue dm s") (auto simp: queue_ok_def)
  then have "live ?h a" using q by (simp add: queue_ok_def)
  then obtain p bs where p: "hp_pkts ?h a = Some p" "dp_buf p = Some a" "dp_len p > 0" "hp_bufs ?h a = Some bs"
    "length bs = dp_len p" "bytes_at ?h a = bs" by (rule liveD)
  have ch: "chain ?h (dp_next p) qs" "ds_first ?ds = Some a" using q p aq by (auto simp: queue_ok_def)
  then have nx: "dp_next p = None \<longleftrightarrow> qs = []" by (cases qs) auto
  obtain dm' where t: "take_first s dm = Some dm'" using p ch by (auto simp: take_first_def Let_def)
  define ds' where "ds' = dm_stream dm' s"
  have st: "dm_heap dm' = ?h" "dm_stream dm' = (dm_stream dm)(s := ds')" "dm_priv dm' = dm_priv dm"
    using t p ch by (auto simp: take_first_def Let_def ds'_def)
  have f: "ds_buffer ds' = Some a" "ds_buffer_pos ds' = 0" "ds_buffer_size ds' = int (length bs)" "ds_current ds' = Some a"
    "ds_first ds' = dp_next p" "ds_last ds' = (if qs = [] then None else ds_last ?ds)" "ds_packs ds' = ds_packs ?ds - 1"
    "ds_bytes ds' = ds_bytes ?ds - int (length bs)" "asf_packet ds' = asf_packet ?ds"
    using t p ch nx by (auto simp: take_first_def Let_def ds'_def)
  have q': "queue_ok ?h ds' qs" using q ch(1) p aq by (auto simp: queue_ok_def f queued_bytes_def)
  have c': "current_ok ?h ds' \<and> set qs \<inter> set_option (ds_current ds') = {}"
    using \<open>live ?h a\<close> p q aq by (auto simp: current_ok_def f queue_ok_def)
  have own: "set qs \<union> (if s \<in> {} then {} else set_option (ds_current ds')) \<subseteq> owned {s} dm s \<union> {a. hp_fresh ?h \<le> a}"
    by (auto simp: owned_def aq f)
  note r = stream_step_ok [OF ok _ q' _ _ own st(1,2)]
  have "dm_ok {} dm'" "queue dm' s = qs" "t \<noteq> s \<Longrightarrow> queued dm' t = queued dm t \<and> unread dm' t = unread dm t" for t
    using r c' by auto
  moreover have "unread dm' s = bs" by (simp add: unread_def st f p)
  ultimately show ?thesis
    using t p(3,5,6) st(3) aq by (intro that [of dm']) (auto simp: queued_def queued_bytes_def st(1))
qed

lemma at_eof_ok:
  assumes "dm_ok {s} dm"
  shows "dm_ok {} (at_eof s dm)" "unread (at_eof s dm) s = []" "queued (at_eof s dm) t = queued dm t"
    "t \<noteq> s \<Longrightarrow> unread (at_eof s dm) t = unread dm t" "dm_priv (at_eof s dm) = dm_priv dm"
proof -
  let ?ds = "(dm_stream dm s)\<lparr>ds_buffer_pos := 0, ds_buffer_size := 0, ds_buffer := None, ds_current := None, ds_eof := True\<rparr>"
  have q: "queue_ok (dm_heap dm) ?ds (queue dm s)" using dm_ok_queue [OF assms, of s] by (simp add: queue_ok_def)
  note r = stream_step_ok [OF assms, where busy' = "{}" and dm' = "at_eof s dm", OF _ q]
  show "dm_ok {} (at_eof s dm)" "t \<noteq> s \<Longrightarrow> unread (at_eof s dm) t = unread dm t"
    using r(1,4) by (auto simp: at_eof_def current_ok_def owned_def)
  show "unread (at_eof s dm) s = []" "dm_priv (at_eof s dm) = dm_priv dm" by (simp_all add: at_eof_def unread_def)
  show "queued (at_eof s dm) t = queued dm t" by (simp add: at_eof_def queued_def queue_def)
qed

lemma fill_start_ok:
  assumes "dm_ok {} dm"
  obtains h where "delete_buf (ds_buffer (dm_stream dm s)) (dm_heap dm) = Some h" "dm_ok {s} (dm\<lparr>dm_heap := h\<rparr>)"
    "\<And>t. queued (dm\<lparr>dm_heap := h\<rparr>) t = queued dm t" "\<And>t. t \<noteq> s \<Longrightarrow> unread (dm\<lparr>dm_heap := h\<rparr>) t = unread dm t"
proof -
  let ?h = "dm_heap dm" and ?ds = "dm_stream dm s"
  have c: "current_ok ?h ?ds" "set (queue dm s) \<inter> set_option (ds_current ?ds) = {}"
    using dm_ok_current [OF assms] dm_ok_current_fresh [OF assms] by auto
  define A where "A = - set_option (ds_current ?ds)"
  obtain h where h: "delete_buf (ds_buffer ?ds) ?h = Some h" "same_at A ?h h"
    using c(1) by (auto simp: current_ok_def delete_buf_def A_def same_at_def elim!: liveD split: option.splits)
  have own: "same_at (owned {} dm t) ?h h" if "t \<noteq> s" for t
    by (rule same_at_subset [OF h(2)]) (use dm_ok_disjoint [OF assms that] in \<open>auto simp: A_def owned_def\<close>)
  have qA: "set (queue dm s) \<subseteq> A" using c(2) by (auto simp: A_def)
  have q: "queue_ok h ?ds (queue dm s)" by (rule same_at_queue_ok [OF h(2) qA dm_ok_queue [OF assms]])
  let ?d = "dm\<lparr>dm_heap := h\<rparr>"
  have "dm_ok {s} ?d" "t \<noteq> s \<Longrightarrow> queued ?d t = queued dm t \<and> unread ?d t = unread dm t" "queue ?d s = queue dm s" for t
    using stream_step_ok [OF assms, where busy' = "{s}" and s = s and dm' = ?d, OF _ q _ own] by (auto simp: owned_def)
  moreover have "queued ?d s = queued dm s" using same_at_queued [OF h(2) qA] calculation(3) by (simp add: queued_def)
  ultimately show ?thesis using h by (intro that [of h]) (simp_all, metis)
qed


definition fill_post :: "'d driver option \<Rightarrow> sid \<Rightarrow> 'd Demuxer \<Rightarrow> bool \<Rightarrow> 'd Demuxer \<Rightarrow> packet_in list \<Rightarrow> bool" where
  "fill_post driver s dm ok dm' is \<longleftrightarrow>
     dm_ok {} dm' \<and> drv_steps driver s (dm_priv dm) is (dm_priv dm') \<and>
     unread dm' s @ queued dm' s = queued dm s @ bytes_for s is \<and> (ok \<longleftrightarrow> unread dm' s \<noteq> []) \<and>
     (\<forall>t. t \<noteq> s \<longrightarrow> unread dm' t = unread dm t \<and> queued dm' t = queued dm t @ bytes_for t is)"

lemma fill_post_more:
  assumes "drv_steps driver s (dm_priv dm) js (dm_priv dm1)" "\<And>t. queued dm1 t = queued dm t @ bytes_for t js"
    "\<And>t. t \<noteq> s \<Longrightarrow> unread dm1 t = unread dm t" "fill_post driver s dm1 ok dm' is"
  shows "fill_post driver s dm ok dm' (js @ is)"
  using assms by (auto simp: fill_post_def intro: drv_steps_trans)

lemma fill_post_eof: "dm_ok {s} dm \<Longrightarrow> fill_post driver s dm False (at_eof s dm) []"
  using at_eof_ok [of s dm] by (auto simp: fill_post_def intro: drv_steps.none)

lemmas fill_loop_induct = fill_loop.raw_induct [rotated, consumes 1, case_names step]

lemma fill_loop_ok:
  assumes "fill_loop driver s dm = Some r" "dm_ok {s} dm" "all_fit driver"
  shows "\<exists>ok dm' is. r = Some (ok, dm') \<and> fill_post driver s dm ok dm' is"
  using assms
proof (induction rule: fill_loop_induct)
  case (step rec driver s dm r)
  show ?case
  proof (cases "ds_packs (dm_stream dm s) \<noteq> 0")
    case True
    obtain dm' where "take_first s dm = Some dm'" "fill_post driver s dm True dm' []"
      by (rule take_first_ok [OF step(3) True]) (simp add: fill_post_def drv_steps.none)
    then show ?thesis using step(2) True by auto
  next
    case False
    obtain ok dm1 js where d: "demux driver s dm = Some (ok, dm1)" "dm_ok {s} dm1" "drv_steps driver s (dm_priv dm) js (dm_priv dm1)"
      "\<And>t. queued dm1 t = queued dm t @ bytes_for t js" "\<And>t. t \<notin> {s} \<Longrightarrow> unread dm1 t = unread dm t"
      by (rule demux_ok [OF step(3,4), of s]) (rule that)
    have "r = Some (False, at_eof s dm) \<or> r = Some (False, at_eof s dm1) \<or> rec driver s dm1 = Some r"
      using step(2) False unfolding d(1) by (simp split: if_splits)
    then consider (full) "r = Some (False, at_eof s dm)" | (stop) "r = Some (False, at_eof s dm1)" | (more) "rec driver s dm1 = Some r"
      by blast
    then show ?thesis
    proof cases
      case full
      then show ?thesis using fill_post_eof [OF step(3)] by blast
    next
      case stop
      then show ?thesis using fill_post_more [OF d(3,4) _ fill_post_eof [OF d(2)]] d(5) by auto
    next
      case more
      then obtain ok dm' "is" where "r = Some (ok, dm')" "fill_post driver s dm1 ok dm' is"
        using step(1) [OF more d(2) step(4)] by blast
      then show ?thesis using fill_post_more [OF d(3,4) _ \<open>fill_post driver s dm1 ok dm' is\<close>] d(5) by auto
    qed
  qed
qed

lemma fill_buffer_ok:
  assumes "fill_buffer driver s dm = Some r" "dm_ok {} dm" "all_fit driver"
  obtains ok dm' "is" where "r = Some (ok, dm')" "fill_post driver s dm ok dm' is"
proof -
  obtain h where h: "delete_buf (ds_buffer (dm_stream dm s)) (dm_heap dm) = Some h" "dm_ok {s} (dm\<lparr>dm_heap := h\<rparr>)"
    "\<And>t. queued (dm\<lparr>dm_heap := h\<rparr>) t = queued dm t" "\<And>t. t \<noteq> s \<Longrightarrow> unread (dm\<lparr>dm_heap := h\<rparr>) t = unread dm t"
    by (rule fill_start_ok [OF assms(2)]) blast
  have "fill_loop driver s (dm\<lparr>dm_heap := h\<rparr>) = Some r" using assms(1) h(1) by (simp add: fill_buffer_def)
  from fill_loop_ok [OF this h(2) assms(3)] show ?thesis
    using that h(3,4) by (auto simp: fill_post_def)
qed

section \<open>Streams of bytes\<close>

text \<open>What a reader of \<open>s\<close> will still get from what has been demuxed.\<close>

definition content :: "'d Demuxer \<Rightarrow> sid \<Rightarrow> u8 list" where
  "content dm s = unread dm s @ queued dm s"

lemma peek_advance_ok:
  assumes ok: "dm_ok {} dm" and x: "0 < x" "x \<le> ds_buffer_size (dm_stream dm s) - ds_buffer_pos (dm_stream dm s)"
  obtains bs where "peek s x dm = Some bs" "length bs = nat x" "dm_ok {} (advance s x dm)" "content dm s = bs @ content (advance s x dm) s"
    "\<And>t. t \<noteq> s \<Longrightarrow> content (advance s x dm) t = content dm t"
proof -
  let ?ds = "dm_stream dm s" and ?h = "dm_heap dm"
  have c: "current_ok ?h ?ds" by (rule dm_ok_current [OF ok]) simp
  then obtain b where b: "ds_current ?ds = Some b" using x by (auto simp: current_ok_def split: option.splits)
  then have l: "live ?h b" "ds_buffer ?ds = Some b" "ds_buffer_size ?ds = int (length (bytes_at ?h b))" "0 \<le> ds_buffer_pos ?ds"
    using c by (auto simp: current_ok_def)
  obtain bs where hb: "hp_bufs ?h b = Some bs" "bytes_at ?h b = bs" using l(1) by (auto elim: liveD)
  let ?ds' = "?ds\<lparr>ds_buffer_pos := ds_buffer_pos ?ds + x\<rparr>" and ?r = "take (nat x) (drop (nat (ds_buffer_pos ?ds)) bs)"
  have p: "peek s x dm = Some ?r" using l hb x by (simp add: peek_def)
  have q: "queue_ok ?h ?ds' (queue dm s)" using dm_ok_queue [OF ok, of s] by (simp add: queue_ok_def)
  have c': "current_ok ?h ?ds' \<and> set (queue dm s) \<inter> set_option (ds_current ?ds') = {}"
    using c x b dm_ok_current_fresh [OF ok, of s] by (auto simp: current_ok_def)
  have own: "set (queue dm s) \<union> (if s \<in> {} then {} else set_option (ds_current ?ds')) \<subseteq> owned {} dm s \<union> {a. hp_fresh ?h \<le> a}"
    by (auto simp: owned_def)
  note r = stream_step_ok [OF ok refl q c' same_at_refl own, of "advance s x dm"]
  have qe: "queued (advance s x dm) s = queued dm s" using r(2) by (simp add: queued_def)
  have u: "unread (advance s x dm) s = drop (nat x) (unread dm s)"
    using x l(4) by (simp add: unread_def l(2) hb nat_add_distrib add.commute)
  have "unread dm s = drop (nat (ds_buffer_pos ?ds)) bs" by (simp add: unread_def l(2) hb)
  then have "unread dm s = ?r @ unread (advance s x dm) s" by (simp only: u append_take_drop_id)
  then have "content dm s = ?r @ content (advance s x dm) s" by (simp add: content_def qe)
  moreover have "length ?r = nat x" using l hb x by auto
  ultimately show ?thesis using p r by (intro that [of ?r]) (auto simp: content_def)
qed


text \<open>Time stamps and marks of a stream do not matter for what it holds.\<close>

definition same_queue :: "Demuxer_Stream \<Rightarrow> Demuxer_Stream \<Rightarrow> bool" where
  "same_queue ds ds' \<longleftrightarrow> ds_first ds' = ds_first ds \<and> ds_last ds' = ds_last ds \<and> ds_packs ds' = ds_packs ds \<and> ds_bytes ds' = ds_bytes ds \<and>
     asf_packet ds' = asf_packet ds \<and> ds_current ds' = ds_current ds \<and> ds_buffer ds' = ds_buffer ds \<and>
     ds_buffer_pos ds' = ds_buffer_pos ds \<and> ds_buffer_size ds' = ds_buffer_size ds"

lemma same_queue_ok:
  assumes "dm_ok {} dm" "same_queue (dm_stream dm s) ds'"
  shows "dm_ok {} (set_stream s ds' dm)" "content (set_stream s ds' dm) t = content dm t"
proof -
  note e = assms(2) [unfolded same_queue_def]
  have q: "queue_ok (dm_heap dm) ds' (queue dm s)" using dm_ok_queue [OF assms(1), of s] e by (simp add: queue_ok_def)
  have c: "current_ok (dm_heap dm) ds' \<and> set (queue dm s) \<inter> set_option (ds_current ds') = {}"
    using dm_ok_current [OF assms(1), of s] dm_ok_current_fresh [OF assms(1), of s] e by (simp add: current_ok_def split: option.splits)
  note r = stream_step_ok [OF assms(1) refl q c, where dm' = "set_stream s ds' dm" and s = s]
  show "dm_ok {} (set_stream s ds' dm)" using r(1) e by (auto simp: owned_def)
  show "content (set_stream s ds' dm) t = content dm t"
    using e by (cases "t = s") (auto simp: content_def unread_def queued_def queue_def split: option.splits)
qed

lemma content_append: "fill_post driver s dm ok dm' is \<Longrightarrow> t \<noteq> s \<or> unread dm s = [] \<Longrightarrow> content dm' t = content dm t @ bytes_for t is"
  by (cases "t = s") (auto simp: fill_post_def content_def)

lemma nothing_unread:
  assumes "dm_ok {} dm" "ds_buffer_size (dm_stream dm s) \<le> ds_buffer_pos (dm_stream dm s)"
  shows "unread dm s = []"
  using dm_ok_current [OF assms(1), of s] assms(2) by (auto simp: current_ok_def unread_def split: option.splits)

definition read_post :: "'d driver option \<Rightarrow> sid \<Rightarrow> int \<Rightarrow> 'd Demuxer \<Rightarrow> u8 list \<Rightarrow> 'd Demuxer \<Rightarrow> bool" where
  "read_post driver s len dm out dm' \<longleftrightarrow>
     (\<exists>is. dm_ok {} dm' \<and> drv_steps driver s (dm_priv dm) is (dm_priv dm') \<and>
        out @ content dm' s = content dm s @ bytes_for s is \<and>
        (\<forall>t. t \<noteq> s \<longrightarrow> content dm' t = content dm t @ bytes_for t is) \<and>
        int (length out) \<le> max 0 len \<and> (int (length out) < len \<longrightarrow> unread dm' s = [] \<and> ds_eof (dm_stream dm' s)))"

lemmas read_loop_induct = read_loop.raw_induct [rotated, consumes 1, case_names step]

lemma fill_loop_eof:
  "fill_loop driver s dm = Some (Some (False, dm')) \<Longrightarrow> ds_eof (dm_stream dm' s)"
proof -
  have "fill_loop driver s dm = Some r \<Longrightarrow> r = Some (False, dm') \<longrightarrow> ds_eof (dm_stream dm' s)" for r
    by (induction rule: fill_loop_induct) (auto simp: at_eof_def split: if_splits option.splits)
  then show "fill_loop driver s dm = Some (Some (False, dm')) \<Longrightarrow> ds_eof (dm_stream dm' s)" by blast
qed

lemma read_loop_ok:
  assumes "read_loop driver s len acc dm = Some r" "dm_ok {} dm" "all_fit driver"
  shows "\<exists>out dm'. r = Some (acc @ out, dm') \<and> read_post driver s len dm out dm'"
  using assms
proof (induction rule: read_loop_induct)
  case (step rec driver s len acc dm r)
  let ?x = "ds_buffer_size (dm_stream dm s) - ds_buffer_pos (dm_stream dm s)"
  have x0: "0 \<le> ?x" using dm_ok_current [OF step(3), of s] by (auto simp: current_ok_def split: option.splits)
  consider (stop) "\<not> 0 < len" | (fill) "0 < len" "?x = 0" | (copy) "0 < len" "0 < ?x" using x0 by linarith
  then show ?case
  proof cases
    case stop
    then show ?thesis using step(2,3) by (auto simp: read_post_def intro!: exI [of _ "[]"] drv_steps.none)
  next
    case fill
    then obtain r1 where r1: "fill_buffer driver s dm = Some r1" using step(2) by (auto split: option.splits)
    obtain ok dm1 js where f: "r1 = Some (ok, dm1)" "fill_post driver s dm ok dm1 js"
      by (rule fill_buffer_ok [OF r1 step(3,4)]) blast
    have un: "unread dm s = []" using nothing_unread [OF step(3)] fill by simp
    note c = content_append [OF f(2)]
    show ?thesis
    proof (cases ok)
      case False
      have "ds_eof (dm_stream dm1 s)"
        using r1 f(1) False by (auto simp: fill_buffer_def split: option.splits dest: fill_loop_eof)
      then show ?thesis using step(2) fill r1 f False c un
        by (auto simp: read_post_def fill_post_def intro!: exI [of _ "js"])
    next
      case True
      then have "rec driver s len acc dm1 = Some r" using step(2) fill r1 f by simp
      from step(1) [OF this _ step(4)] f(2) obtain out dm' "is" where
        "r = Some (acc @ out, dm')" "dm_ok {} dm'" "drv_steps driver s (dm_priv dm1) is (dm_priv dm')"
        "out @ content dm' s = content dm1 s @ bytes_for s is" "\<forall>t. t \<noteq> s \<longrightarrow> content dm' t = content dm1 t @ bytes_for t is"
        "int (length out) \<le> max 0 len" "int (length out) < len \<longrightarrow> unread dm' s = [] \<and> ds_eof (dm_stream dm' s)"
        by (auto simp: read_post_def fill_post_def)
      then show ?thesis using f(2) c un drv_steps_trans
        by (auto simp: read_post_def fill_post_def intro!: exI [of _ "js @ is"])
    qed
  next
    case copy
    let ?y = "if len < ?x then len else ?x"
    have y: "0 < ?y" "?y \<le> ?x" using copy by auto
    obtain bs where p: "peek s ?y dm = Some bs" "length bs = nat ?y" "dm_ok {} (advance s ?y dm)"
      "content dm s = bs @ content (advance s ?y dm) s" "\<And>t. t \<noteq> s \<Longrightarrow> content (advance s ?y dm) t = content dm t"
      by (rule peek_advance_ok [OF step(3) y]) blast
    have "rec driver s (len - ?y) (acc @ bs) (advance s ?y dm) = Some r" using step(2) copy y p(1) by (simp add: Let_def split: if_splits)
    from step(1) [OF this p(3) step(4)] obtain out dm' where r: "r = Some ((acc @ bs) @ out, dm')"
      "read_post driver s (len - ?y) (advance s ?y dm) out dm'" by blast
    have "read_post driver s len dm (bs @ out) dm'"
      using r(2) p(2,4,5) y by (auto simp: read_post_def split: if_splits)
    then show ?thesis using r(1) by auto
  qed
qed


section \<open>Drivers that get on\<close>

text \<open>
  What the streams need of a driver: it keeps to the length it asks for, and a successful call
  brings bytes for the audio stream, the video stream or the stream it is called for, or gets
  closer to a call that does or fails.
\<close>

locale demux_driver =
  fixes driver :: "'d driver" and idle :: "'d \<Rightarrow> nat"
  assumes fit: "driver d s = (ok, d', is) \<Longrightarrow> fits is"
    and progress: "driver d s = (True, d', is) \<Longrightarrow> bytes_for Audio is @ bytes_for Video is @ bytes_for s is \<noteq> [] \<or> idle d' < idle d"
begin

lemma driver_all_fit: "all_fit (Some driver)"
proof -
  have "fits (snd (snd (driver d s)))" for d s by (cases "driver d s") (auto dest: fit)
  then show ?thesis by (simp add: all_fit_def)
qed

lemma demux_calls:
  assumes "dm_ok busy dm"
  obtains ok dm' "is" where "demux (Some driver) s dm = Some (ok, dm')" "dm_ok busy dm'"
    "\<And>t. queued dm' t = queued dm t @ bytes_for t is" "\<And>t. t \<notin> busy \<Longrightarrow> unread dm' t = unread dm t"
    "ok \<Longrightarrow> bytes_for Audio is @ bytes_for Video is @ bytes_for s is \<noteq> [] \<or> idle (dm_priv dm') < idle (dm_priv dm)"
proof -
  obtain ok d' "is" where d: "driver (dm_priv dm) s = (ok, d', is)" by (metis prod_cases3)
  obtain dm' where "read_packets is (dm\<lparr>dm_priv := d'\<rparr>) = Some dm'" "dm_ok busy dm'" "dm_priv dm' = d'"
    "\<forall>t. queued dm' t = queued dm t @ bytes_for t is" "\<forall>t. t \<notin> busy \<longrightarrow> unread dm' t = unread dm t"
    using read_packets_ok [of busy "dm\<lparr>dm_priv := d'\<rparr>" "is"] assms fit [OF d] by auto
  then show ?thesis using d progress [of "dm_priv dm" s d' "is"] by (intro that [of ok dm' "is"]) (auto simp: demux_def)
qed

definition room :: "'d Demuxer \<Rightarrow> nat" where
  "room dm = nat (2 * MAX_PACK_BYTES - int (length (queued dm Audio)) - int (length (queued dm Video)))"

lemma bytes_queued: "dm_ok busy dm \<Longrightarrow> ds_bytes (dm_stream dm t) = int (length (queued dm t))"
  using dm_ok_queue [of busy dm t] by (simp add: queue_ok_def queued_def)

lemma call_progress:
  assumes "dm_ok busy dm" "\<And>t. queued dm1 t = queued dm t @ bytes_for t is"
    "bytes_for Audio is @ bytes_for Video is @ bytes_for s is \<noteq> [] \<or> idle (dm_priv dm1) < idle (dm_priv dm)"
    "ds_bytes (dm_stream dm Audio) < MAX_PACK_BYTES" "ds_bytes (dm_stream dm Video) < MAX_PACK_BYTES" "queue dm s = []"
  shows "(dm1, dm) \<in> measures [\<lambda>dm. if queued dm s = [] then 1 else 0, room, \<lambda>dm. idle (dm_priv dm)]"
proof -
  define a b where "a = length (bytes_for Audio is)" and "b = length (bytes_for Video is)"
  then have "length (queued dm1 Audio) = length (queued dm Audio) + a" "length (queued dm1 Video) = length (queued dm Video) + b"
    by (simp_all add: assms(2))
  moreover have "0 < a + b \<or> queued dm1 s \<noteq> [] \<or> idle (dm_priv dm1) < idle (dm_priv dm)"
    using assms(3) by (auto simp: a_def b_def assms(2))
  ultimately have "queued dm1 s \<noteq> [] \<or> room dm1 < room dm \<or> room dm1 \<le> room dm \<and> idle (dm_priv dm1) < idle (dm_priv dm)"
    using assms(4,5) unfolding room_def bytes_queued [OF assms(1)] by linarith
  then show ?thesis using assms(6) by (auto simp: queued_def queued_bytes_def)
qed

lemma fill_loop_returns:
  assumes "dm_ok {s} dm"
  shows "\<exists>ok dm'. fill_loop (Some driver) s dm = Some (Some (ok, dm'))"
  using assms
proof (induction dm rule: wf_induct_rule [where r = "measures [\<lambda>dm. if queued dm s = [] then 1 else 0, room, \<lambda>dm. idle (dm_priv dm)]", OF wf_measures])
  case (1 dm)
  show ?case
  proof (cases "ds_packs (dm_stream dm s) \<noteq> 0")
    case True
    obtain dm' where "take_first s dm = Some dm'" by (rule take_first_ok [OF 1(2) True]) (rule that)
    then show ?thesis using True by (subst fill_loop.simps) auto
  next
    case False
    obtain ok dm1 "is" where d: "demux (Some driver) s dm = Some (ok, dm1)" "dm_ok {s} dm1"
      "\<And>t. queued dm1 t = queued dm t @ bytes_for t is"
      "ok \<Longrightarrow> bytes_for Audio is @ bytes_for Video is @ bytes_for s is \<noteq> [] \<or> idle (dm_priv dm1) < idle (dm_priv dm)"
      by (rule demux_calls [OF 1(2), of s]) (rule that)
    show ?thesis
    proof (cases "MAX_PACK_BYTES \<le> ds_bytes (dm_stream dm Audio) \<or> MAX_PACK_BYTES \<le> ds_bytes (dm_stream dm Video) \<or> \<not> ok")
      case True
      then show ?thesis using False by (subst fill_loop.simps) (auto simp: d(1))
    next
      case False2: False
      then have "(dm1, dm) \<in> measures [\<lambda>dm. if queued dm s = [] then 1 else 0, room, \<lambda>dm. idle (dm_priv dm)]"
        using d(4) dm_ok_queue [OF 1(2), of s] False False2 by (intro call_progress [OF 1(2) d(3)]) (auto simp: queue_ok_def)
      from 1(1) [OF this d(2)] show ?thesis using False False2 by (subst fill_loop.simps) (simp add: d(1))
    qed
  qed
qed

lemma fill_buffer_returns:
  assumes "dm_ok {} dm"
  obtains ok dm' where "fill_buffer (Some driver) s dm = Some (Some (ok, dm'))"
proof -
  obtain h where h: "delete_buf (ds_buffer (dm_stream dm s)) (dm_heap dm) = Some h" "dm_ok {s} (dm\<lparr>dm_heap := h\<rparr>)"
    by (rule fill_start_ok [OF assms, of s]) (rule that)
  then show ?thesis using fill_loop_returns [OF h(2)] that by (auto simp: fill_buffer_def)
qed

lemma read_loop_returns:
  assumes "dm_ok {} dm"
  shows "\<exists>out dm'. read_loop (Some driver) s len acc dm = Some (Some (out, dm'))"
  using assms
proof (induction "(nat len, length (unread dm s) = 0)" arbitrary: len acc dm rule: wf_induct_rule
    [where r = "measures [fst, \<lambda>x. if snd x then 1 else 0]", OF wf_measures])
  case (1 len dm acc)
  note IH = 1(1)
  let ?x = "ds_buffer_size (dm_stream dm s) - ds_buffer_pos (dm_stream dm s)"
  have x0: "0 \<le> ?x" "int (length (unread dm s)) = ?x"
    using dm_ok_current [OF 1(2), of s] by (auto simp: current_ok_def unread_def split: option.splits)
  consider (stop) "\<not> 0 < len" | (fill) "0 < len" "?x = 0" | (copy) "0 < len" "0 < ?x" using x0 by linarith
  then show ?case
  proof cases
    case stop
    then show ?thesis by (subst read_loop.simps) simp
  next
    case fill
    obtain ok dm1 where f: "fill_buffer (Some driver) s dm = Some (Some (ok, dm1))" by (rule fill_buffer_returns [OF 1(2)])
    obtain "is" where p: "fill_post (Some driver) s dm ok dm1 is"
      by (rule fill_buffer_ok [OF f 1(2) driver_all_fit]) auto
    show ?thesis
    proof (cases ok)
      case True
      then have "unread dm1 s \<noteq> []" "dm_ok {} dm1" using p by (auto simp: fill_post_def)
      then show ?thesis using IH [of len dm1 acc] fill True x0 by (subst read_loop.simps) (simp add: f)
    qed (use fill in \<open>subst read_loop.simps, simp add: f\<close>)
  next
    case copy
    let ?y = "if len < ?x then len else ?x"
    have y: "0 < ?y" "?y \<le> ?x" using copy by auto
    obtain bs where p: "peek s ?y dm = Some bs" "dm_ok {} (advance s ?y dm)"
      by (rule peek_advance_ok [OF 1(2) y]) (rule that)
    then show ?thesis using IH [of "len - ?y" "advance s ?y dm" "acc @ bs"] copy p y by (subst read_loop.simps) (simp add: Let_def)
  qed
qed

end

section \<open>Freeing\<close>

lemma same_at_lives: "same_at A h h' \<Longrightarrow> S \<subseteq> A \<Longrightarrow> \<forall>c \<in> S. live h c \<Longrightarrow> \<forall>c \<in> S. live h' c"
  by (blast intro: same_at_live)

lemma delete_packet_live:
  assumes "live h a"
  obtains h' where "delete_packet a h = Some h'" "same_at (- {a}) h h'"
  using assms by (elim liveD) (auto simp: delete_packet_def delete_buf_def same_at_def)

lemma chain_live_Cons:
  assumes "chain h (Some a) (b # ps)"
  obtains p where "a = b" "hp_pkts h a = Some p" "chain h (dp_next p) ps"
  using assms by (auto split: option.splits)

lemma delete_chain_ok:
  assumes "chain h p ps" "distinct ps" "\<forall>a \<in> set ps. live h a"
  shows "\<exists>h'. delete_chain p h = Some (Some h') \<and> same_at (- set ps) h h'"
  using assms
proof (induction ps arbitrary: p h)
  case Nil
  then show ?case by (subst delete_chain.simps) simp
next
  case (Cons a ps)
  then obtain q where q: "p = Some a" "hp_pkts h a = Some q" "chain h (dp_next q) ps" by (auto split: option.splits)
  obtain h1 where h1: "delete_packet a h = Some h1" "same_at (- {a}) h h1"
    by (rule delete_packet_live [of h a]) (use Cons.prems in auto)
  have sub: "set ps \<subseteq> - {a}" using Cons.prems(2) by auto
  have lv: "\<forall>c \<in> set ps. live h1 c" using Cons.prems(3) by (intro same_at_lives [OF h1(2) sub]) simp
  obtain h' where "delete_chain (dp_next q) h1 = Some (Some h')" "same_at (- set ps) h1 h'"
    using Cons.IH [OF same_at_chain [OF h1(2) sub q(3)]] Cons.prems lv by auto
  moreover from this have "same_at (- set (a # ps)) h h'"
    by (intro same_at_trans [OF same_at_subset [OF h1(2)] same_at_subset]) auto
  ultimately show ?case using q h1(1) by (subst delete_chain.simps) simp
qed

definition pts_at :: "heap \<Rightarrow> nat \<Rightarrow> rat" where
  "pts_at h a = (case hp_pkts h a of None \<Rightarrow> 0 | Some p \<Rightarrow> dp_pts p)"

lemma delete_until_ok:
  fixes t :: rat
  assumes "chain h p ps" "distinct ps" "\<forall>a \<in> set ps. live h a"
  defines "qs \<equiv> dropWhile (\<lambda>a. pts_at h a < t) ps"
  shows "\<exists>h' pre. ps = pre @ qs \<and>
    delete_until t p k b h = Some (Some (case qs of [] \<Rightarrow> None | a # _ \<Rightarrow> Some a, k + int (length pre), b + int (length (queued_bytes h pre)), h')) \<and>
    same_at (- set pre) h h' \<and> chain h (case qs of [] \<Rightarrow> None | a # _ \<Rightarrow> Some a) qs"
  using assms(1-3) unfolding qs_def
proof (induction ps arbitrary: p h k b)
  case Nil
  then show ?case by (subst delete_until.simps) (simp add: queued_bytes_def)
next
  case (Cons a ps)
  then obtain q where q: "p = Some a" "hp_pkts h a = Some q" "chain h (dp_next q) ps" by (auto split: option.splits)
  show ?case
  proof (cases "pts_at h a < t")
    case False
    then show ?thesis using q by (subst delete_until.simps) (simp add: pts_at_def queued_bytes_def exI [of _ h])
  next
    case True
    obtain h1 where h1: "delete_packet a h = Some h1" "same_at (- {a}) h h1"
      by (rule delete_packet_live [of h a]) (use Cons.prems in auto)
    have sub: "set ps \<subseteq> - {a}" using Cons.prems(2) by auto
    have pt: "pts_at h1 c = pts_at h c" if "c \<in> set ps" for c using h1(2) sub that by (auto simp: same_at_def pts_at_def subset_iff)
    have lv: "\<forall>c \<in> set ps. live h1 c" using Cons.prems(3) by (intro same_at_lives [OF h1(2) sub]) simp
    have dw: "dropWhile (\<lambda>a. pts_at h1 a < t) ps = dropWhile (\<lambda>a. pts_at h a < t) ps" by (rule dropWhile_cong) (simp_all add: pt)
    let ?qs = "dropWhile (\<lambda>a. pts_at h a < t) ps"
    let ?p = "case ?qs of [] \<Rightarrow> None | a # _ \<Rightarrow> Some a"
    obtain h' pre where r: "ps = pre @ ?qs" "delete_until t (dp_next q) (k + 1) (b + int (dp_len q)) h1 =
        Some (Some (?p, k + 1 + int (length pre), b + int (dp_len q) + int (length (queued_bytes h1 pre)), h'))"
      "same_at (- set pre) h1 h'"
      using Cons.IH [OF same_at_chain [OF h1(2) sub q(3)], of "k + 1" "b + int (dp_len q)"] Cons.prems lv
      unfolding dw by auto
    have len: "dp_len q = length (bytes_at h a)" using Cons.prems(3) q(2) by (auto elim!: liveD)
    have "set pre \<subseteq> - {a}" using sub r(1) by (metis Un_subset_iff set_append)
    then have "queued_bytes h1 pre = queued_bytes h pre" by (rule same_at_queued [OF h1(2)])
    moreover have "same_at (- set (a # pre)) h h'"
      by (rule same_at_trans [OF same_at_subset [OF h1(2)] same_at_subset [OF r(3)]]) auto
    moreover have "chain h ?p ?qs"
    proof -
      have "chain h (dp_next q) (pre @ ?qs)" using q(3) r(1) by simp
      then have "\<exists>p'. chain h p' ?qs" by (induction pre arbitrary: q) (auto split: option.splits)
      then show ?thesis by (metis chain_first)
    qed
    ultimately show ?thesis
      using q h1(1) r(1,2) True by (subst delete_until.simps) (auto simp: pts_at_def len queued_bytes_def add.assoc intro!: exI [of _ "a # pre"])
  qed
qed


text \<open>After the packets the current one goes, and the stream starts afresh.\<close>

lemma delete_current:
  assumes ok: "dm_ok {} dm" and sm: "same_at (- set pre) (dm_heap dm) h1" and pre: "set pre \<subseteq> set (queue dm s)"
  obtains h where "delete_ptr (ds_current (dm_stream dm s)) h1 = Some h"
    "same_at (- (set pre \<union> set_option (ds_current (dm_stream dm s)))) (dm_heap dm) h"
proof (cases "ds_current (dm_stream dm s)")
  case None
  then show ?thesis using sm by (intro that [of h1]) (simp_all add: delete_ptr_def)
next
  case (Some c)
  then have "live (dm_heap dm) c" "c \<notin> set pre"
    using dm_ok_current [OF ok, of s] dm_ok_current_fresh [OF ok, of s] pre by (auto simp: current_ok_def)
  then have "live h1 c" using same_at_live [OF sm] by simp
  then obtain h where h: "delete_packet c h1 = Some h" "same_at (- {c}) h1 h" by (rule delete_packet_live)
  have "same_at (- (set pre \<union> {c})) (dm_heap dm) h"
    by (rule same_at_trans [OF same_at_subset [OF sm] same_at_subset [OF h(2)]]) auto
  then show ?thesis using h(1) Some by (intro that [of h]) (simp_all add: delete_ptr_def)
qed

lemma freed_ok:
  assumes ok: "dm_ok {} dm" and pre: "queue dm s = pre @ qs"
    and sm: "same_at (- (set pre \<union> set_option (ds_current (dm_stream dm s)))) (dm_heap dm) h"
    and ds': "chain (dm_heap dm) (ds_first ds') qs" "ds_last ds' = (if qs = [] then None else Some (last qs))"
      "ds_packs ds' = int (length qs)" "ds_bytes ds' = int (length (queued_bytes (dm_heap dm) qs))" "asf_packet ds' = None"
      "ds_current ds' = None" "ds_buffer ds' = None" "ds_buffer_pos ds' = ds_buffer_size ds'"
    and dm': "dm' = (set_stream s ds' dm)\<lparr>dm_heap := h\<rparr>"
  shows "dm_ok {} dm'" "content dm' s = queued_bytes (dm_heap dm) qs" "t \<noteq> s \<Longrightarrow> content dm' t = content dm t"
    "queue dm' s = qs" "same_at (set qs) (dm_heap dm) h"
proof -
  let ?A = "- (set pre \<union> set_option (ds_current (dm_stream dm s)))"
  have own: "same_at (owned {} dm t) (dm_heap dm) h" if "t \<noteq> s" for t
    by (rule same_at_subset [OF sm]) (use dm_ok_disjoint [OF ok that] pre in \<open>auto simp: owned_def\<close>)
  have q0: "distinct (pre @ qs)" "\<forall>a \<in> set (pre @ qs). live (dm_heap dm) a" using dm_ok_queue [OF ok, of s] pre by (auto simp: queue_ok_def)
  have sub: "set qs \<subseteq> ?A" using q0(1) dm_ok_current_fresh [OF ok, of s] pre by auto
  then show sq: "same_at (set qs) (dm_heap dm) h" using same_at_subset [OF sm] by blast
  have "queue_ok (dm_heap dm) ds' qs" using q0 ds' by (simp add: queue_ok_def)
  then have q: "queue_ok h ds' qs" by (rule same_at_queue_ok [OF sm sub])
  have c: "current_ok h ds' \<and> set qs \<inter> set_option (ds_current ds') = {}" by (simp add: current_ok_def ds')
  have o: "set qs \<union> (if s \<in> {} then {} else set_option (ds_current ds')) \<subseteq> owned {} dm s \<union> {a. hp_fresh (dm_heap dm) \<le> a}"
    using pre by (auto simp: owned_def ds')
  have st: "dm_heap dm' = h" "dm_stream dm' = (dm_stream dm)(s := ds')" by (simp_all add: dm')
  note r = stream_step_ok [OF ok refl q c own o st]
  show "dm_ok {} dm'" "queue dm' s = qs" "t \<noteq> s \<Longrightarrow> content dm' t = content dm t" using r by (auto simp: content_def)
  show "content dm' s = queued_bytes (dm_heap dm) qs"
    using r(2) same_at_queued [OF sm sub] by (simp add: content_def unread_def queued_def st ds')
qed

lemma free_stream_ok:
  assumes ok: "dm_ok {} dm"
  obtains dm' where "free_stream s dm = Some (Some dm')" "dm_ok {} dm'" "dm_priv dm' = dm_priv dm" "content dm' s = []"
    "\<And>t. t \<noteq> s \<Longrightarrow> content dm' t = content dm t"
proof -
  let ?ds = "dm_stream dm s"
  have q: "queue_ok (dm_heap dm) ?ds (queue dm s)" by (rule dm_ok_queue [OF ok])
  then obtain h1 where h1: "delete_chain (ds_first ?ds) (dm_heap dm) = Some (Some h1)" "same_at (- set (queue dm s)) (dm_heap dm) h1"
    using delete_chain_ok [of "dm_heap dm" "ds_first ?ds" "queue dm s"] by (auto simp: queue_ok_def)
  obtain h where h: "delete_ptr (ds_current ?ds) h1 = Some h" "same_at (- (set (queue dm s) \<union> set_option (ds_current ?ds))) (dm_heap dm) h"
    by (rule delete_current [OF ok h1(2)]) auto
  define ds' where "ds' = ?ds\<lparr>asf_packet := None, ds_first := None, ds_last := None, ds_packs := 0, ds_bytes := 0,
    ds_current := None, ds_buffer := None, ds_buffer_pos := ds_buffer_size ?ds, ds_pts := 0, ds_pts_bytes := 0\<rparr>"
  have e: "free_stream s dm = Some (Some ((set_stream s ds' dm)\<lparr>dm_heap := h\<rparr>))"
    using q h1(1) h(1) by (simp add: free_stream_def free_packs_def ds'_def queue_ok_def) (simp add: delete_ptr_def)
  show ?thesis
    using freed_ok [OF ok _ h(2), of "[]" ds' "(set_stream s ds' dm)\<lparr>dm_heap := h\<rparr>"] e
    by (intro that [of "(set_stream s ds' dm)\<lparr>dm_heap := h\<rparr>"]) (simp_all add: ds'_def queued_bytes_def)
qed

lemma free_until_ok:
  fixes t :: rat and s :: sid
  assumes ok: "dm_ok {} dm"
  defines "qs \<equiv> dropWhile (\<lambda>a. pts_at (dm_heap dm) a < t) (queue dm s)"
  obtains dm' where "free_stream_until t s dm = Some (Some dm')" "dm_ok {} dm'" "dm_priv dm' = dm_priv dm" "queue dm' s = qs"
    "content dm' s = queued_bytes (dm_heap dm) qs" "\<And>u. u \<noteq> s \<Longrightarrow> content dm' u = content dm u"
    "same_at (set qs) (dm_heap dm) (dm_heap dm')"
    "ds_pts (dm_stream dm' s) = (case qs of [] \<Rightarrow> 0 | a # _ \<Rightarrow> pts_at (dm_heap dm) a)"
proof -
  let ?ds = "dm_stream dm s" and ?h = "dm_heap dm"
  let ?p = "case qs of [] \<Rightarrow> None | a # _ \<Rightarrow> Some a"
  have q: "queue_ok ?h ?ds (queue dm s)" by (rule dm_ok_queue [OF ok])
  then obtain h1 pre where h1: "queue dm s = pre @ qs" "delete_until t (ds_first ?ds) 0 0 ?h =
      Some (Some (?p, int (length pre), int (length (queued_bytes ?h pre)), h1))" "same_at (- set pre) ?h h1" "chain ?h ?p qs"
    using delete_until_ok [of ?h "ds_first ?ds" "queue dm s" t 0 0] unfolding qs_def by (auto simp: queue_ok_def)
  obtain h where h: "delete_ptr (ds_current ?ds) h1 = Some h" "same_at (- (set pre \<union> set_option (ds_current ?ds))) ?h h"
    by (rule delete_current [OF ok h1(3)]) (use h1(1) in auto)
  define ds' where "ds' = (if qs = [] then ?ds\<lparr>asf_packet := None, ds_first := None, ds_last := None, ds_packs := 0, ds_bytes := 0, ds_pts := 0\<rparr>
     else ?ds\<lparr>ds_first := ?p, ds_packs := int (length qs), ds_bytes := int (length (queued_bytes ?h qs)), ds_pts := pts_at ?h (hd qs)\<rparr>)
    \<lparr>ds_current := None, ds_buffer := None, ds_buffer_pos := ds_buffer_size ?ds, ds_pts_bytes := 0\<rparr>"
  define dm' where "dm' = (set_stream s ds' dm)\<lparr>dm_heap := h\<rparr>"
  have cnt: "ds_packs ?ds - int (length pre) = int (length qs)" "asf_packet ?ds = None"
    "ds_bytes ?ds - int (length (queued_bytes ?h pre)) = int (length (queued_bytes ?h qs))" "ds_last ?ds = (if pre @ qs = [] then None else Some (last (pre @ qs)))"
    using q unfolding h1(1) by (auto simp: queue_ok_def queued_bytes_def)
  have e: "free_stream_until t s dm = Some (Some dm')"
  proof (cases qs)
    case Nil
    then show ?thesis using h1(2) h(1) cnt(2) by (simp add: free_stream_until_def free_packs_until_pts_def ds'_def dm'_def) (simp add: delete_ptr_def)
  next
    case (Cons a as)
    then have "a \<in> - set pre" using q h1(1) by (auto simp: queue_ok_def)
    then have "hp_pkts h1 a = hp_pkts ?h a" "live ?h a" using h1(1,3) q Cons by (auto simp: same_at_def queue_ok_def)
    then show ?thesis using h1(2) h(1) cnt Cons
      by (auto elim!: liveD simp: free_stream_until_def free_packs_until_pts_def ds'_def dm'_def pts_at_def)
  qed
  show ?thesis
    using freed_ok [OF ok h1(1) h(2), of ds' dm'] e h1(4) cnt
    by (intro that [of dm']) (auto simp: ds'_def dm'_def queued_bytes_def split: list.splits)
qed


section \<open>The readers\<close>

definition delivers :: "'d driver option \<Rightarrow> sid \<Rightarrow> 'd Demuxer \<Rightarrow> u8 list \<Rightarrow> 'd Demuxer \<Rightarrow> bool" where
  "delivers driver s dm out dm' \<longleftrightarrow>
     (\<exists>is. dm_ok {} dm' \<and> drv_steps driver s (dm_priv dm) is (dm_priv dm') \<and>
        out @ content dm' s = content dm s @ bytes_for s is \<and>
        (\<forall>t. t \<noteq> s \<longrightarrow> content dm' t = content dm t @ bytes_for t is))"

lemma deliversD: "delivers driver s dm out dm' \<Longrightarrow> dm_ok {} dm'"
  by (auto simp: delivers_def)

lemma read_post_delivers: "read_post driver s len dm out dm' \<Longrightarrow> delivers driver s dm out dm'"
  by (auto simp: read_post_def delivers_def)

lemma fill_delivers: "fill_post driver s dm ok dm' is \<Longrightarrow> unread dm s = [] \<Longrightarrow> delivers driver s dm [] dm'"
  using content_append [of driver s dm ok dm' "is"] by (auto simp: delivers_def fill_post_def)

lemma delivers_then:
  assumes "delivers driver s dm [] dm1" "dm_priv dm' = dm_priv dm1" "dm_ok {} dm'" "content dm1 s = out @ content dm' s"
    "\<And>t. t \<noteq> s \<Longrightarrow> content dm' t = content dm1 t"
  shows "delivers driver s dm out dm'"
  using assms by (auto simp: delivers_def)

lemma delivers_trans: "delivers driver s dm out dm1 \<Longrightarrow> delivers driver s dm1 out' dm' \<Longrightarrow> delivers driver s dm (out @ out') dm'"
proof -
  assume "delivers driver s dm out dm1" "delivers driver s dm1 out' dm'"
  then obtain js "is" where "drv_steps driver s (dm_priv dm) js (dm_priv dm1)" "drv_steps driver s (dm_priv dm1) is (dm_priv dm')"
    "out @ content dm1 s = content dm s @ bytes_for s js" "out' @ content dm' s = content dm1 s @ bytes_for s is" "dm_ok {} dm'"
    "\<forall>t. t \<noteq> s \<longrightarrow> content dm1 t = content dm t @ bytes_for t js" "\<forall>t. t \<noteq> s \<longrightarrow> content dm' t = content dm1 t @ bytes_for t is"
    by (auto simp: delivers_def)
  moreover from this(3,4) have "(out @ out') @ content dm' s = content dm s @ bytes_for s (js @ is)"
    by (metis append_assoc bytes_for_append)
  ultimately show "delivers driver s dm (out @ out') dm'"
    unfolding delivers_def by (intro exI [of _ "js @ is"]) (simp add: drv_steps_trans)
qed

lemma delivers_refl: "dm_ok {} dm \<Longrightarrow> delivers driver s dm [] dm"
  by (auto simp: delivers_def intro!: exI [of _ "[]"] drv_steps.none)

lemma unread_length:
  assumes "dm_ok {} dm"
  shows "int (length (unread dm s)) = ds_buffer_size (dm_stream dm s) - ds_buffer_pos (dm_stream dm s)"
  using dm_ok_current [OF assms, of s] by (auto simp: current_ok_def unread_def split: option.splits)

text \<open>Either there is something to read already, or the buffer is filled first.\<close>

lemma filled:
  assumes "fill_buffer driver s dm = Some r" "dm_ok {} dm" "all_fit driver"
    "ds_buffer_size (dm_stream dm s) \<le> ds_buffer_pos (dm_stream dm s)"
  obtains ok dm' where "r = Some (ok, dm')" "delivers driver s dm [] dm'"
    "ok \<Longrightarrow> ds_buffer_pos (dm_stream dm' s) < ds_buffer_size (dm_stream dm' s)"
proof -
  obtain ok dm' "is" where f: "r = Some (ok, dm')" "fill_post driver s dm ok dm' is"
    by (rule fill_buffer_ok [OF assms(1-3)]) (rule that)
  have "dm_ok {} dm'" using f(2) by (simp add: fill_post_def)
  note len = unread_length [OF this, of s]
  have "0 < int (length (unread dm' s))" if ok using f(2) that by (simp add: fill_post_def)
  then have "ok \<Longrightarrow> ds_buffer_pos (dm_stream dm' s) < ds_buffer_size (dm_stream dm' s)" unfolding len by simp
  then show ?thesis by (rule that [OF f(1) fill_delivers [OF f(2) nothing_unread [OF assms(2,4)]]])
qed

lemma next_byte:
  assumes "delivers driver s dm [] dm1" "ds_buffer_pos (dm_stream dm1 s) < ds_buffer_size (dm_stream dm1 s)"
  obtains b where "peek s 1 dm1 = Some [b]" "delivers driver s dm [b] (advance s 1 dm1)"
proof -
  obtain bs where p: "peek s 1 dm1 = Some bs" "length bs = nat 1" "dm_ok {} (advance s 1 dm1)"
    "content dm1 s = bs @ content (advance s 1 dm1) s" "\<And>t. t \<noteq> s \<Longrightarrow> content (advance s 1 dm1) t = content dm1 t"
    by (rule peek_advance_ok [OF deliversD [OF assms(1)], of 1 s]) (use assms(2) in auto)
  obtain b where "bs = [b]" using p(2) by (cases bs) auto
  then show ?thesis using p delivers_then [OF assms(1) _ p(3)] by (intro that [of b]) auto
qed

lemma rest_bytes:
  assumes "delivers driver s dm [] dm1" "ds_buffer_pos (dm_stream dm1 s) < ds_buffer_size (dm_stream dm1 s)"
  obtains bs dm' where "rest_of_buffer s dm1 = Some (Some bs, dm')" "bs \<noteq> []" "delivers driver s dm bs dm'"
proof -
  let ?x = "ds_buffer_size (dm_stream dm1 s) - ds_buffer_pos (dm_stream dm1 s)"
  obtain bs where p: "peek s ?x dm1 = Some bs" "length bs = nat ?x" "dm_ok {} (advance s ?x dm1)"
    "content dm1 s = bs @ content (advance s ?x dm1) s" "\<And>t. t \<noteq> s \<Longrightarrow> content (advance s ?x dm1) t = content dm1 t"
    by (rule peek_advance_ok [OF deliversD [OF assms(1)], of ?x s]) (use assms(2) in auto)
  then show ?thesis using assms(2) delivers_then [OF assms(1) _ p(3)]
    by (intro that [of bs "advance s ?x dm1"]) (auto simp: rest_of_buffer_def)
qed

lemma getch_ok:
  assumes "getch driver s dm = Some r" "dm_ok {} dm" "all_fit driver"
  shows "\<exists>c dm'. r = Some (c, dm') \<and> (c = -1 \<and> delivers driver s dm [] dm' \<or> (\<exists>b. c = uint b \<and> delivers driver s dm [b] dm'))"
proof (cases "ds_buffer_pos (dm_stream dm s) < ds_buffer_size (dm_stream dm s)")
  case True
  obtain b where "peek s 1 dm = Some [b]" "delivers driver s dm [b] (advance s 1 dm)"
    by (rule next_byte [OF delivers_refl [OF assms(2)] True]) (rule that)
  then show ?thesis using assms(1) True by (auto simp: getch_def Let_def)
next
  case False
  then obtain r1 where r1: "fill_buffer driver s dm = Some r1" using assms(1) by (auto simp: getch_def Let_def split: option.splits)
  obtain ok dm1 where f: "r1 = Some (ok, dm1)" "delivers driver s dm [] dm1"
    "ok \<Longrightarrow> ds_buffer_pos (dm_stream dm1 s) < ds_buffer_size (dm_stream dm1 s)"
    by (rule filled [OF r1 assms(2,3)]) (use False in \<open>auto intro: that\<close>)
  show ?thesis
  proof (cases ok)
    case True
    obtain b where "peek s 1 dm1 = Some [b]" "delivers driver s dm [b] (advance s 1 dm1)"
      by (rule next_byte [OF f(2) f(3) [OF True]]) (rule that)
    then show ?thesis using assms(1) False True f(1) r1 by (auto simp: getch_def Let_def)
  qed (use assms(1) False f r1 in \<open>auto simp: getch_def Let_def\<close>)
qed

lemma get_packet_ok:
  assumes "get_packet driver s dm = Some r" "dm_ok {} dm" "all_fit driver"
  shows "\<exists>res dm'. r = Some (res, dm') \<and> (case res of None \<Rightarrow> delivers driver s dm [] dm' | Some bs \<Rightarrow> bs \<noteq> [] \<and> delivers driver s dm bs dm')"
proof (cases "ds_buffer_size (dm_stream dm s) \<le> ds_buffer_pos (dm_stream dm s)")
  case False
  obtain bs dm' where "rest_of_buffer s dm = Some (Some bs, dm')" "bs \<noteq> []" "delivers driver s dm bs dm'"
    by (rule rest_bytes [OF delivers_refl [OF assms(2)], of s driver]) (use False in \<open>auto intro: that\<close>)
  moreover from this(1) have "r = Some (Some bs, dm')" using assms(1) False by (simp add: get_packet_def)
  ultimately show ?thesis by auto
next
  case True
  then obtain r1 where r1: "fill_buffer driver s dm = Some r1" using assms(1) by (auto simp: get_packet_def split: option.splits)
  obtain ok dm1 where f: "r1 = Some (ok, dm1)" "delivers driver s dm [] dm1"
    "ok \<Longrightarrow> ds_buffer_pos (dm_stream dm1 s) < ds_buffer_size (dm_stream dm1 s)"
    by (rule filled [OF r1 assms(2,3) True]) (rule that)
  show ?thesis
  proof (cases ok)
    case True2: True
    obtain bs dm' where "rest_of_buffer s dm1 = Some (Some bs, dm')" "bs \<noteq> []" "delivers driver s dm bs dm'"
      by (rule rest_bytes [OF f(2) f(3) [OF True2]]) (rule that)
    moreover from this(1) have "r = Some (Some bs, dm')" using assms(1) True True2 f(1) r1 by (simp add: get_packet_def)
    ultimately show ?thesis by auto
  qed (use assms(1) True f r1 in \<open>auto simp: get_packet_def\<close>)
qed

lemma get_packet_sub_eq:
  "get_packet_sub driver s dm =
    (if ds_buffer_size (dm_stream dm s) \<le> ds_buffer_pos (dm_stream dm s) \<and> ds_packs (dm_stream dm s) = 0
     then Some (Some (None, dm)) else get_packet driver s dm)"
  by (simp add: get_packet_sub_def get_packet_def)

lemmas get_next_pts_induct = get_next_pts.raw_induct [rotated, consumes 1, case_names step]

lemma get_next_pts_ok:
  assumes "get_next_pts driver s dm = Some r" "dm_ok {} dm" "all_fit driver" "driver \<noteq> None"
  shows "\<exists>pts dm'. r = Some (pts, dm') \<and> delivers driver s dm [] dm' \<and>
    (pts = -1 \<or> (\<exists>a as. queue dm' s = a # as \<and> pts = pts_at (dm_heap dm') a))"
  using assms
proof (induction rule: get_next_pts_induct)
  case (step rec driver s dm r)
  have fq: "ds_first (dm_stream dm s) = (case queue dm s of [] \<Rightarrow> None | a # _ \<Rightarrow> Some a)" "\<forall>a \<in> set (queue dm s). live (dm_heap dm) a"
    using dm_ok_queue [OF step(3), of s] by (auto simp: queue_ok_def dest: chain_first)
  show ?case
  proof (cases "queue dm s")
    case (Cons a as)
    then have "live (dm_heap dm) a" using fq by simp
    then obtain p where "hp_pkts (dm_heap dm) a = Some p" by (rule liveD)
    then show ?thesis using step(2) Cons fq(1) delivers_refl [OF step(3)] by (auto simp: pts_at_def)
  next
    case Nil
    obtain ok dm1 js where d: "demux driver s dm = Some (ok, dm1)" "dm_ok {} dm1" "drv_steps driver s (dm_priv dm) js (dm_priv dm1)"
      "\<And>t. queued dm1 t = queued dm t @ bytes_for t js" "\<And>t. t \<notin> {} \<Longrightarrow> unread dm1 t = unread dm t"
      by (rule demux_ok [OF step(3,4), of s]) (rule that)
    have d1: "delivers driver s dm [] dm1" using d by (auto simp: delivers_def content_def)
    have "r = Some (-1, dm) \<or> \<not> ok \<and> r = Some (-1, dm1) \<or> rec driver s dm1 = Some r"
      using step(2,5) Nil fq(1) unfolding d(1) by (simp split: if_splits)
    then consider "r = Some (-1, dm)" | "r = Some (-1, dm1)" | "rec driver s dm1 = Some r" by blast
    then show ?thesis
    proof cases
      case 1
      then show ?thesis using delivers_refl [OF step(3)] by blast
    next
      case 2
      then show ?thesis using d1 by blast
    next
      case 3
      from step(1) [OF 3 d(2) step(4,5)] show ?thesis using delivers_trans [OF d1] by fastforce
    qed
  qed
qed

section \<open>Any sequence of calls\<close>

lemma Demuxer_new_ok: "dm_ok {} (Demuxer_new d)" "content (Demuxer_new d) s = []"
  by (auto simp: dm_ok_def queue_ok_def current_ok_def queue_def owned_def Demuxer_new_def Demuxer_Stream_new_def
      queued_bytes_def content_def unread_def queued_def)

context demux_driver
begin

lemma get_next_pts_returns:
  assumes "dm_ok {} dm"
  shows "\<exists>r. get_next_pts (Some driver) s dm = Some r"
  using assms
proof (induction dm rule: wf_induct_rule [where r = "measures [\<lambda>dm. if queued dm s = [] then 1 else 0, room, \<lambda>dm. idle (dm_priv dm)]", OF wf_measures])
  case (1 dm)
  show ?case
  proof (cases "ds_first (dm_stream dm s) = None")
    case False
    then show ?thesis by (subst get_next_pts.simps) auto
  next
    case first: True
    obtain ok dm1 "is" where d: "demux (Some driver) s dm = Some (ok, dm1)" "dm_ok {} dm1"
      "\<And>t. queued dm1 t = queued dm t @ bytes_for t is"
      "ok \<Longrightarrow> bytes_for Audio is @ bytes_for Video is @ bytes_for s is \<noteq> [] \<or> idle (dm_priv dm1) < idle (dm_priv dm)"
      by (rule demux_calls [OF 1(2), of s]) (rule that)
    show ?thesis
    proof (cases "MAX_PACK_BYTES \<le> ds_bytes (dm_stream dm Audio) \<or> MAX_PACK_BYTES \<le> ds_bytes (dm_stream dm Video) \<or> \<not> ok")
      case True
      then show ?thesis using first by (subst get_next_pts.simps) (auto simp: d(1))
    next
      case False
      then have "(dm1, dm) \<in> measures [\<lambda>dm. if queued dm s = [] then 1 else 0, room, \<lambda>dm. idle (dm_priv dm)]"
        using d(4) dm_ok_queue [OF 1(2), of s] False first by (intro call_progress [OF 1(2) d(3)]) (auto simp: queue_ok_def dest: chain_first split: list.splits)
      from 1(1) [OF this d(2)] show ?thesis using first False by (subst get_next_pts.simps) (auto simp: d(1))
    qed
  qed
qed

lemma readers_return:
  assumes "dm_ok {} dm"
  shows "\<exists>r. getch (Some driver) s dm = Some r" "\<exists>r. get_packet (Some driver) s dm = Some r"
    "\<exists>r. read_data (Some driver) s len dm = Some r"
proof -
  obtain ok dm' where f: "fill_buffer (Some driver) s dm = Some (Some (ok, dm'))" by (rule fill_buffer_returns [OF assms])
  then show "\<exists>r. getch (Some driver) s dm = Some r" "\<exists>r. get_packet (Some driver) s dm = Some r"
    by (simp_all add: getch_def get_packet_def Let_def)
  show "\<exists>r. read_data (Some driver) s len dm = Some r"
    using read_loop_returns [OF assms, of s len "[]"] by (auto simp: read_data_def)
qed

lemma get_packet_safe:
  assumes "dm_ok {} dm"
  shows "\<exists>res dm'. get_packet (Some driver) s dm = Some (Some (res, dm')) \<and> dm_ok {} dm'"
proof -
  obtain r where r: "get_packet (Some driver) s dm = Some r" using readers_return(2) [OF assms] by blast
  obtain res dm' where "r = Some (res, dm')" "case res of None \<Rightarrow> delivers (Some driver) s dm [] dm' | Some bs \<Rightarrow> bs \<noteq> [] \<and> delivers (Some driver) s dm bs dm'"
    using get_packet_ok [OF r assms driver_all_fit] by blast
  then show ?thesis using r by (cases res) (auto dest: deliversD)
qed

lemma call_ok:
  assumes "dm_ok {} dm"
  shows "\<exists>dm'. call (Some driver) c dm = Some (Some dm') \<and> dm_ok {} dm'"
proof (cases c)
  case (Getch s)
  obtain r where r: "getch (Some driver) s dm = Some r" using readers_return(1) [OF assms] by blast
  obtain c' dm' where "r = Some (c', dm')" "dm_ok {} dm'" using getch_ok [OF r assms driver_all_fit] deliversD by blast
  then show ?thesis using r Getch by (simp add: call_def)
next
  case (Read_data s len)
  obtain r where r: "read_data (Some driver) s len dm = Some r" using readers_return(3) [OF assms] by blast
  obtain out dm' where "r = Some ([] @ out, dm')" "read_post (Some driver) s len dm out dm'"
    using read_loop_ok [OF r [unfolded read_data_def] assms driver_all_fit] by blast
  then show ?thesis using r Read_data deliversD [OF read_post_delivers] by (simp add: call_def)
next
  case (Get_packet s)
  then show ?thesis using get_packet_safe [OF assms, of s] by (auto simp: call_def)
next
  case (Get_packet_sub s)
  then show ?thesis using get_packet_safe [OF assms, of s] assms by (auto simp: call_def get_packet_sub_eq)
next
  case (Get_next_pts s)
  obtain r where r: "get_next_pts (Some driver) s dm = Some r" using get_next_pts_returns [OF assms] by blast
  obtain p dm' where "r = Some (p, dm')" "dm_ok {} dm'" using get_next_pts_ok [OF r assms driver_all_fit] deliversD by blast
  then show ?thesis using r Get_next_pts by (simp add: call_def)
next
  case (Free_packs s)
  obtain dm' where "free_stream s dm = Some (Some dm')" "dm_ok {} dm'" by (rule free_stream_ok [OF assms]) (rule that)
  then show ?thesis using Free_packs by (simp add: call_def)
next
  case (Free_until t s)
  obtain dm' where "free_stream_until t s dm = Some (Some dm')" "dm_ok {} dm'" by (rule free_until_ok [OF assms]) (rule that)
  then show ?thesis using Free_until by (simp add: call_def)
qed

lemma calls_ok: "dm_ok {} dm \<Longrightarrow> \<exists>dm'. calls (Some driver) cs dm = Some (Some dm') \<and> dm_ok {} dm'"
proof (induction cs arbitrary: dm)
  case (Cons c cs)
  then obtain dm1 where "call (Some driver) c dm = Some (Some dm1)" "dm_ok {} dm1" using call_ok by blast
  then show ?case using Cons.IH [of dm1] by (simp add: andthen_def)
qed simp

end

end
