(* ===== verification/Stream.thy ===== *)
theory Stream
  imports Bytes
begin

text \<open>
  Byte streams (mplayerxp/libmpstream2/stream.cpp) over a file (s_file.cpp). The file is the
  list of its bytes; the get position and the state bits of the C++ \<open>ifstream\<close> are as the language
  defines them. \<open>junk\<close> are the bytes of a new packet that nothing has been read into.
\<close>

section \<open>Files\<close>

record File_Stream =
  fs_file :: "u8 list"
  fs_get :: int \<comment> \<open>the get position of the \<open>ifstream\<close>\<close>
  fs_good :: bool \<comment> \<open>none of its state bits is set\<close>
  fs_spos :: int
  fs_end_pos :: int

definition file_open :: "u8 list \<Rightarrow> File_Stream" where
  "file_open file = \<lparr>fs_file = file, fs_get = 0, fs_good = True, fs_spos = 0, fs_end_pos = int (length file)\<rparr>"

text \<open>The bytes stored in the packet, the return value, the new state; \<open>tellg\<close> of a failed stream is -1.\<close>

definition file_read :: "nat \<Rightarrow> File_Stream \<Rightarrow> u8 list \<times> int \<times> File_Stream" where
  "file_read len f =
     (if \<not> fs_good f then ([], -1, f\<lparr>fs_spos := -1\<rparr>)
      else let rest = drop (nat (fs_get f)) (fs_file f) in
        if len \<le> length rest
        then (take len rest, int len, f\<lparr>fs_get := fs_get f + int len, fs_spos := fs_get f + int len\<rparr>)
        else (rest, -1, f\<lparr>fs_get := fs_get f + int (length rest), fs_good := False, fs_spos := -1\<rparr>))"

text \<open>The calls of \<open>clear\<close> leave only the end-of-file bit, which \<open>seekg\<close> clears.\<close>

definition file_seek :: "int \<Rightarrow> File_Stream \<Rightarrow> int \<times> File_Stream" where
  "file_seek pos f =
     (if pos < 0 then (-1, f\<lparr>fs_good := False, fs_spos := -1\<rparr>)
      else (pos, f\<lparr>fs_get := pos, fs_good := True, fs_spos := pos\<rparr>))"

section \<open>Streams\<close>

record Stream =
  st_driver :: File_Stream
  st_eof :: bool

definition stream_open :: "u8 list \<Rightarrow> Stream" where
  "stream_open file = \<lparr>st_driver = file_open file, st_eof = False\<rparr>"

definition stream_tell :: "Stream \<Rightarrow> int" where
  "stream_tell st = fs_spos (st_driver st)"

definition stream_seek :: "int \<Rightarrow> Stream \<Rightarrow> int \<times> Stream" where
  "stream_seek off st = (let (r, f) = file_seek off (st_driver st) in (r, st\<lparr>st_driver := f\<rparr>))"

definition stream_skip :: "int \<Rightarrow> Stream \<Rightarrow> int \<times> Stream" where
  "stream_skip off st = (let (r, st) = stream_seek (stream_tell st + off) st in (if r \<noteq> 0 then 1 else 0, st))"

definition stream_reset :: "Stream \<Rightarrow> Stream" where
  "stream_reset st = (if st_eof st then let (r, st) = stream_seek 0 st in st\<lparr>st_eof := False\<rparr> else st)"

definition stream_set_eof :: "bool \<Rightarrow> Stream \<Rightarrow> Stream" where
  "stream_set_eof e st = (let st = (if \<not> e then stream_reset st else st) in st\<lparr>st_eof := e\<rparr>)"

text \<open>The packet has the size asked for, whatever could be read.\<close>

definition stream_read :: "(nat \<Rightarrow> u8) \<Rightarrow> nat \<Rightarrow> Stream \<Rightarrow> u8 list \<times> Stream" where
  "stream_read junk tot st =
     (let (bs, rc, f) = file_read tot (st_driver st);
          st = st\<lparr>st_driver := f\<rparr>;
          st = (if rc \<le> 0 then stream_set_eof True st else st)
      in (bs @ map junk [length bs..<tot], st))"

text \<open>Numbers: the machine is little-endian, me2be swaps the bytes and me2le does not.\<close>

definition stream_read_byte :: "(nat \<Rightarrow> u8) \<Rightarrow> Stream \<Rightarrow> int \<times> Stream" where
  "stream_read_byte junk st = (let (rc, st) = stream_read junk 1 st in (if st_eof st then -256 else uint (hd rc), st))"

definition stream_read_word :: "(nat \<Rightarrow> u8) \<Rightarrow> Stream \<Rightarrow> u16 \<times> Stream" where
  "stream_read_word junk st = (let (rc, st) = stream_read junk 2 st in (be_word rc, st))"

definition stream_read_dword :: "(nat \<Rightarrow> u8) \<Rightarrow> Stream \<Rightarrow> u32 \<times> Stream" where
  "stream_read_dword junk st = (let (rc, st) = stream_read junk 4 st in (be_word rc, st))"

definition stream_read_qword :: "(nat \<Rightarrow> u8) \<Rightarrow> Stream \<Rightarrow> u64 \<times> Stream" where
  "stream_read_qword junk st = (let (rc, st) = stream_read junk 8 st in (be_word rc, st))"

definition stream_read_le_word :: "(nat \<Rightarrow> u8) \<Rightarrow> Stream \<Rightarrow> u16 \<times> Stream" where
  "stream_read_le_word junk st = (let (rc, st) = stream_read junk 2 st in (le_word rc, st))"

definition stream_read_le_dword :: "(nat \<Rightarrow> u8) \<Rightarrow> Stream \<Rightarrow> u32 \<times> Stream" where
  "stream_read_le_dword junk st = (let (rc, st) = stream_read junk 4 st in (le_word rc, st))"

definition stream_read_le_qword :: "(nat \<Rightarrow> u8) \<Rightarrow> Stream \<Rightarrow> u64 \<times> Stream" where
  "stream_read_le_qword junk st = (let (rc, st) = stream_read junk 8 st in (le_word rc, st))"

definition stream_read_int24 :: "(nat \<Rightarrow> u8) \<Rightarrow> Stream \<Rightarrow> u32 \<times> Stream" where
  "stream_read_int24 junk st =
     (let (y, st) = stream_read_byte junk st; y = word_of_int y;
          (b, st) = stream_read_byte junk st; y = push_bit 8 y OR word_of_int b;
          (b, st) = stream_read_byte junk st; y = push_bit 8 y OR word_of_int b
      in (y, st))"

section \<open>Memory streams\<close>

record Memory_Stream =
  ms_buffer :: "u8 list"
  ms_pos :: int
  ms_len :: nat

definition memory_open :: "u8 list \<Rightarrow> Memory_Stream" where
  "memory_open data = \<lparr>ms_buffer = data, ms_pos = 0, ms_len = length data\<rparr>"

text \<open>\<open>None\<close>: more bytes are copied than the buffer has.\<close>

definition memory_read :: "nat \<Rightarrow> Memory_Stream \<Rightarrow> (u8 list \<times> Memory_Stream) option" where
  "memory_read tot m =
     (if tot \<le> length (ms_buffer m) then Some (take tot (ms_buffer m), m\<lparr>ms_pos := ms_pos m + int tot\<rparr>) else None)"

definition memory_seek :: "int \<Rightarrow> Memory_Stream \<Rightarrow> int \<times> Memory_Stream" where
  "memory_seek p m = (p, m\<lparr>ms_pos := p\<rparr>)"

definition memory_skip :: "int \<Rightarrow> Memory_Stream \<Rightarrow> int \<times> Memory_Stream" where
  "memory_skip len m = (1, m\<lparr>ms_pos := ms_pos m + len\<rparr>)"

definition memory_eof :: "Memory_Stream \<Rightarrow> bool" where
  "memory_eof m = (ms_pos m \<ge> int (ms_len m))"

definition memory_set_eof :: "bool \<Rightarrow> Memory_Stream \<Rightarrow> Memory_Stream" where
  "memory_set_eof e m = (if e then m\<lparr>ms_pos := int (ms_len m) + 1\<rparr> else m\<lparr>ms_pos := 0\<rparr>)"

definition memory_reset :: "Memory_Stream \<Rightarrow> Memory_Stream" where
  "memory_reset m = m\<lparr>ms_pos := 0\<rparr>"

section \<open>Reading in order\<close>

text \<open>A stream that stands at byte \<open>n\<close> of its file.\<close>

definition stands_at :: "nat \<Rightarrow> u8 list \<Rightarrow> Stream \<Rightarrow> bool" where
  "stands_at n file st = (fs_file (st_driver st) = file \<and> fs_get (st_driver st) = int n \<and> fs_good (st_driver st) \<and>
     fs_spos (st_driver st) = int n \<and> \<not> st_eof st)"

lemma stands_at_open [simp]: "stands_at 0 file (stream_open file)"
  by (simp add: stands_at_def stream_open_def file_open_def)

lemma stream_read_inside:
  assumes "stands_at n file st" "n + len \<le> length file" "0 < len"
  obtains st' where "stream_read junk len st = (take len (drop n file), st')" "stands_at (n + len) file st'"
proof -
  have "file_read len (st_driver st) = (take len (drop n file), int len,
      (st_driver st)\<lparr>fs_get := int n + int len, fs_spos := int n + int len\<rparr>)"
    using assms by (auto simp: file_read_def stands_at_def Let_def)
  then have "stream_read junk len st =
      (take len (drop n file), st\<lparr>st_driver := (st_driver st)\<lparr>fs_get := int n + int len, fs_spos := int n + int len\<rparr>\<rparr>)"
    using assms(2,3) by (simp add: stream_read_def)
  then show ?thesis by (rule that) (use assms(1) in \<open>simp add: stands_at_def\<close>)
qed

lemma stream_read_beyond:
  assumes "stands_at n file st" "n \<le> length file" "length file < n + len"
  obtains st' where "stream_read junk len st = (drop n file @ map junk [length file - n..<len], st')"
    "st_eof st'" "stream_tell st' = -1" "\<not> fs_good (st_driver st')" "fs_file (st_driver st') = file"
proof -
  let ?f = "(st_driver st)\<lparr>fs_get := int n + int (length (drop n file)), fs_good := False, fs_spos := -1\<rparr>"
  have "file_read len (st_driver st) = (drop n file, -1, ?f)"
    using assms by (auto simp: file_read_def stands_at_def Let_def)
  then have "stream_read junk len st = (drop n file @ map junk [length file - n..<len], st\<lparr>st_driver := ?f, st_eof := True\<rparr>)"
    by (simp add: stream_read_def stream_set_eof_def)
  then show ?thesis by (rule that) (use assms(1) in \<open>simp_all add: stands_at_def stream_tell_def\<close>)
qed

lemma length_stream_read [simp]: "length (fst (stream_read junk len st)) = len"
  by (auto simp: stream_read_def file_read_def Let_def split: prod.splits if_splits)

lemma stream_seek_stands: "fs_file (st_driver st) = file \<Longrightarrow> \<not> st_eof st \<Longrightarrow> stands_at n file (snd (stream_seek (int n) st))"
  by (simp add: stream_seek_def file_seek_def stands_at_def)

fun reads :: "(nat \<Rightarrow> u8) \<Rightarrow> nat list \<Rightarrow> Stream \<Rightarrow> u8 list list \<times> Stream" where
  "reads junk [] st = ([], st)"
| "reads junk (n # ns) st = (let (bs, st) = stream_read junk n st; (rest, st) = reads junk ns st in (bs # rest, st))"

lemma reads_inside:
  assumes "stands_at n file st" "n + sum_list ns \<le> length file" "\<forall>k \<in> set ns. 0 < k"
  shows "concat (fst (reads junk ns st)) = take (sum_list ns) (drop n file) \<and> stands_at (n + sum_list ns) file (snd (reads junk ns st))"
  using assms
proof (induction ns arbitrary: n st)
  case (Cons k ns)
  obtain st' where s: "stream_read junk k st = (take k (drop n file), st')" "stands_at (n + k) file st'"
    by (rule stream_read_inside [OF Cons.prems(1), of k]) (use Cons.prems in auto)
  from Cons.IH [OF s(2)] Cons.prems show ?case
    by (simp add: s(1) split_beta take_add drop_drop add.commute add.left_commute)
qed simp

text \<open>C40: whatever the sizes of the reads, a file stream hands out the bytes of the file in order, and
  numbers are read from them with the first byte first; a read beyond the end still returns a packet
  of the size asked for, of which only the first bytes come from the file, and sets the end flag, and
  reset goes back to the beginning.\<close>

theorem stream_reads_in_order:
  assumes "stands_at n file st" "n + sum_list ns \<le> length file" "\<forall>k \<in> set ns. 0 < k"
  shows "concat (fst (reads junk ns st)) = take (sum_list ns) (drop n file) \<and>
    stream_tell (snd (reads junk ns st)) = int (n + sum_list ns) \<and>
    (n + 4 \<le> length file \<longrightarrow> fst (stream_read_dword junk st) = be_word (take 4 (drop n file)) \<and>
       fst (stream_read_le_dword junk st) = le_word (take 4 (drop n file))) \<and>
    (n < length file \<longrightarrow> fst (stream_read_byte junk st) = uint (file ! n)) \<and>
    (length file < n + k \<longrightarrow> length (fst (stream_read junk k st)) = k \<and>
       take (length file - n) (fst (stream_read junk k st)) = drop n file \<and> st_eof (snd (stream_read junk k st)) \<and>
       fst (stream_read_byte junk (snd (stream_read junk k st))) = -256 \<and>
       stands_at 0 file (stream_reset (snd (stream_read junk k st))))"
proof -
  have d: "fst (stream_read_dword junk st) = be_word (take 4 (drop n file))" "fst (stream_read_le_dword junk st) = le_word (take 4 (drop n file))"
    if "n + 4 \<le> length file"
    by (rule stream_read_inside [OF assms(1) that, of junk], simp, simp add: stream_read_dword_def stream_read_le_dword_def)+
  have b: "fst (stream_read_byte junk st) = uint (file ! n)" if "n < length file"
  proof -
    obtain st' where "stream_read junk 1 st = (take 1 (drop n file), st')" "stands_at (n + 1) file st'"
      using stream_read_inside [OF assms(1), of 1 junk] \<open>n < length file\<close> by (metis One_nat_def Suc_leI add.commute plus_1_eq_Suc zero_less_one)
    then show ?thesis using that by (simp add: stream_read_byte_def stands_at_def hd_drop_conv_nth take_Suc)
  qed
  have e: "take (length file - n) (fst (stream_read junk k st)) = drop n file \<and> st_eof (snd (stream_read junk k st)) \<and>
      fst (stream_read_byte junk (snd (stream_read junk k st))) = -256 \<and> stands_at 0 file (stream_reset (snd (stream_read junk k st)))"
    if long: "length file < n + k"
  proof -
    obtain st' where s: "stream_read junk k st = (drop n file @ map junk [length file - n..<k], st')"
      "st_eof st'" "\<not> fs_good (st_driver st')" "fs_file (st_driver st') = file"
      by (rule stream_read_beyond [OF assms(1) _ long, of junk]) (use assms(2) in simp, rule that)
    have "fst (stream_read_byte junk st') = -256"
      using s(3) by (simp add: stream_read_byte_def stream_read_def file_read_def Let_def stream_set_eof_def)
    moreover have "stands_at 0 file (stream_reset st')"
      using s(2,4) by (simp add: stream_reset_def stream_seek_def file_seek_def stands_at_def)
    ultimately show ?thesis using s(1,2) by simp
  qed
  from reads_inside [OF assms, of junk] d b e show ?thesis by (auto simp: stands_at_def stream_tell_def)
qed

lemma stream_reads_in_order_witness:
  "concat (fst (reads (\<lambda>_. 0) [2, 1] (stream_open [1, 2, 3, 4, 5]))) = [1, 2, 3]"
  using stream_reads_in_order [of 0 "[1, 2, 3, 4, 5]" "stream_open [1, 2, 3, 4, 5]" "[2, 1]" "\<lambda>_. 0" 9] by simp

text \<open>Reading a memory stream again gives the first bytes again.\<close>

lemma memory_read_repeats:
  assumes "memory_read n m = Some (bs, m')" "memory_read n m' = Some (bs', m'')"
  shows "bs' = bs" "ms_pos m'' = ms_pos m + 2 * int n"
  using assms by (auto simp: memory_read_def split: if_splits)

end
