(* ===== verification/RawDemux.thy ===== *)
theory RawDemux
  imports DemuxContent Stream
begin

text \<open>
  Two drivers, for raw video and raw audio (mplayerxp/libmpdemux/demux_rawvideo.cpp and
  demux_rawaudio.cpp): they meet the contract of the demuxer, and with them the bytes of the
  file reach the reader of the stream.
\<close>

section \<open>Drivers\<close>

abbreviation DP_KEYFRAME :: u32 where "DP_KEYFRAME \<equiv> 1"

definition rawvideo_demux :: "(nat \<Rightarrow> u8) \<Rightarrow> nat \<Rightarrow> Stream driver" where
  "rawvideo_demux junk imgsize st s =
     (if st_eof st then (False, st, [])
      else if s \<noteq> Video then (False, st, [])
      else let (bs, st') = stream_read junk imgsize st
        in (True, st', [\<lparr>pi_sid = s, pi_len = imgsize, pi_data = bs, pi_pts = 0, pi_pos = stream_tell st, pi_flags = DP_KEYFRAME\<rparr>]))"

text \<open>\<open>l\<close> is nAvgBytesPerSec.\<close>

definition rawaudio_demux :: "(nat \<Rightarrow> u8) \<Rightarrow> nat \<Rightarrow> Stream driver" where
  "rawaudio_demux junk l st s =
     (let spos = stream_tell st in
      if st_eof st then (False, st, [])
      else let (bs, st') = stream_read junk l st
        in (True, st', [\<lparr>pi_sid = s, pi_len = l, pi_data = bs, pi_pts = of_int spos / of_nat l, pi_pos = spos, pi_flags = DP_NONKEYFRAME\<rparr>]))"

lemma bytes_for_one [simp]: "bytes_for t [i] = (if pi_sid i = t then pi_data i else [])"
  by (simp add: bytes_for_def)

lemma stream_read_len: "stream_read junk len st = (bs, st') \<Longrightarrow> length bs = len"
  by (metis fst_conv length_stream_read)

lemma stream_read_nonempty: "0 < len \<Longrightarrow> fst (stream_read junk len st) \<noteq> []"
  by (metis length_stream_read length_greater_0_conv)

interpretation rawvideo: demux_driver "rawvideo_demux junk (Suc n)" "\<lambda>_. 0" for junk n
proof
  fix st s ok st' "is"
  assume d: "rawvideo_demux junk (Suc n) st s = (ok, st', is)"
  show "fits is" using d
    by (auto simp: rawvideo_demux_def fits_def stream_read_len split: if_splits prod.splits)
next
  fix st s st' "is"
  assume "rawvideo_demux junk (Suc n) st s = (True, st', is)"
  then show "bytes_for Audio is @ bytes_for Video is @ bytes_for s is \<noteq> [] \<or> (0 :: nat) < 0"
    using stream_read_nonempty [of "Suc n" junk st] by (auto simp: rawvideo_demux_def split: if_splits prod.splits)
qed

interpretation rawaudio: demux_driver "rawaudio_demux junk (Suc n)" "\<lambda>_. 0" for junk n
proof
  fix st s ok st' "is"
  assume d: "rawaudio_demux junk (Suc n) st s = (ok, st', is)"
  show "fits is" using d
    by (auto simp: rawaudio_demux_def fits_def Let_def stream_read_len split: if_splits prod.splits)
next
  fix st s st' "is"
  assume "rawaudio_demux junk (Suc n) st s = (True, st', is)"
  then show "bytes_for Audio is @ bytes_for Video is @ bytes_for s is \<noteq> [] \<or> (0 :: nat) < 0"
    using stream_read_nonempty [of "Suc n" junk st] by (auto simp: rawaudio_demux_def Let_def split: if_splits prod.splits)
qed

lemma queue_nonempty: "queue_ok h ds ps \<Longrightarrow> queued_bytes h ps = [] \<Longrightarrow> ps = []"
  by (cases ps) (auto simp: queue_ok_def queued_bytes_def elim!: liveD)

section \<open>From the file to the reader\<close>

text \<open>
  A demuxer whose reader stands at byte \<open>n\<close> of the file: what is demuxed follows in the file, and
  the stream stands behind it at the end of a frame of \<open>Suc f\<close> bytes.
\<close>

definition follows :: "nat \<Rightarrow> nat \<Rightarrow> u8 list \<Rightarrow> Stream Demuxer \<Rightarrow> u8 list \<Rightarrow> bool" where
  "follows f n file dm bs \<longleftrightarrow> bs = take (length bs) (drop n file) \<and> n + length bs \<le> length file \<and>
     stands_at (n + length bs) file (dm_priv dm) \<and> Suc f dvd n + length bs \<and> queued dm Audio = []"

lemma frame_fits: "Suc f dvd n \<Longrightarrow> Suc f dvd length file \<Longrightarrow> n < length file \<Longrightarrow> n + Suc f \<le> length file"
  by (metis dvd_imp_le dvd_diff_nat zero_less_diff le_diff_conv2 less_imp_le add.commute)

lemma follows_advance:
  assumes "follows f n file dm (bs @ cs)" "dm_priv dm' = dm_priv dm" "queued dm' Audio = queued dm Audio"
  shows "follows f (n + length bs) file dm' cs" "bs = take (length bs) (drop n file)"
proof -
  have e: "bs @ cs = take (length bs) (drop n file) @ take (length cs) (drop (n + length bs) file)"
    "n + length bs + length cs \<le> length file"
    using assms(1) by (simp_all add: follows_def take_add drop_drop add.commute add.left_commute)
  then show "bs = take (length bs) (drop n file)" by (subst (asm) append_eq_append_conv) auto
  moreover have "cs = take (length cs) (drop (n + length bs) file)" using e by (subst (asm) append_eq_append_conv) auto
  ultimately show "follows f (n + length bs) file dm' cs" using assms by (simp add: follows_def add.assoc)
qed

lemma demux_frame:
  assumes ok: "dm_ok {Video} dm" and e: "follows f n file dm []" "queued dm Video = []" and st: "n + Suc f \<le> length file"
  obtains dm1 where "fill_loop (Some (rawvideo_demux junk (Suc f))) Video dm = fill_loop (Some (rawvideo_demux junk (Suc f))) Video dm1"
    "dm_ok {Video} dm1" "queued dm1 Video \<noteq> []" "follows f n file dm1 (queued dm1 Video)"
proof -
  let ?drv = "rawvideo_demux junk (Suc f)"
  have e1: "stands_at n file (dm_priv dm)" "queued dm Audio = []" "Suc f dvd n" using e(1) by (simp_all add: follows_def)
  obtain st' where r: "stream_read junk (Suc f) (dm_priv dm) = (take (Suc f) (drop n file), st')" "stands_at (n + Suc f) file st'"
    by (rule stream_read_inside [OF e1(1) st]) simp
  define i where "i = \<lparr>pi_sid = Video, pi_len = Suc f, pi_data = take (Suc f) (drop n file), pi_pts = 0,
    pi_pos = stream_tell (dm_priv dm), pi_flags = DP_KEYFRAME\<rparr>"
  have d: "?drv (dm_priv dm) Video = (True, st', [i])" using e1(1) r(1) by (simp add: rawvideo_demux_def stands_at_def i_def)
  have len: "length (take (Suc f) (drop n file)) = Suc f" using st by simp
  obtain dm1 where d1: "read_packets [i] (dm\<lparr>dm_priv := st'\<rparr>) = Some dm1" "dm_ok {Video} dm1" "dm_priv dm1 = st'"
    "\<forall>t. queued dm1 t = queued dm t @ bytes_for t [i]"
    using read_packets_ok [of "{Video}" "dm\<lparr>dm_priv := st'\<rparr>" "[i]"] ok len by (auto simp: fits_def i_def)
  have q1: "queued dm1 Video = take (Suc f) (drop n file)" "queued dm1 Audio = []" using d1(4) e(2) e1 by (simp_all add: i_def)
  have "ds_bytes (dm_stream dm Audio) = 0" "ds_bytes (dm_stream dm Video) = 0" "ds_packs (dm_stream dm Video) = 0"
    using dm_ok_queue [OF ok, of Audio] dm_ok_queue [OF ok, of Video] e(2) e1 queue_nonempty [OF dm_ok_queue [OF ok, of Video]]
    by (auto simp: queue_ok_def queued_def)
  then have "fill_loop (Some ?drv) Video dm = fill_loop (Some ?drv) Video dm1"
    by (subst fill_loop.simps) (simp add: demux_def d d1(1) MAX_PACK_BYTES_def del: read_packets.simps)
  moreover have "follows f n file dm1 (queued dm1 Video)"
    unfolding follows_def q1 len d1(3) using r(2) st e1(3) by (simp del: add_Suc_right)
  moreover have "queued dm1 Video \<noteq> []" unfolding q1 using len by auto
  ultimately show ?thesis using d1(2) by (intro that [of dm1]) simp_all
qed

lemma fill_frame:
  assumes ok: "dm_ok {Video} dm" and e: "follows f n file dm (queued dm Video)" and n: "n < length file" "Suc f dvd length file"
  obtains dm' where "fill_loop (Some (rawvideo_demux junk (Suc f))) Video dm = Some (Some (True, dm'))" "dm_ok {} dm'"
    "unread dm' Video \<noteq> []" "follows f n file dm' (content dm' Video)"
proof -
  let ?fill = "fill_loop (Some (rawvideo_demux junk (Suc f))) Video"
  obtain dm1 where d1: "?fill dm = ?fill dm1" "dm_ok {Video} dm1" "queued dm1 Video \<noteq> []" "follows f n file dm1 (queued dm1 Video)"
  proof (cases "queued dm Video = []")
    case True
    then have "Suc f dvd n" "follows f n file dm []" using e by (simp_all add: follows_def)
    then show ?thesis using demux_frame [OF ok _ True frame_fits] n that by blast
  next
    case False
    then show ?thesis by (rule that [OF refl ok _ e])
  qed
  have p1: "ds_packs (dm_stream dm1 Video) \<noteq> 0"
    using dm_ok_queue [OF d1(2), of Video] d1(3) by (auto simp: queue_ok_def queued_def queued_bytes_def)
  obtain dm' where t: "take_first Video dm1 = Some dm'" "dm_ok {} dm'" "dm_priv dm' = dm_priv dm1"
    "unread dm' Video @ queued dm' Video = queued dm1 Video" "unread dm' Video \<noteq> []"
    "\<And>t. t \<noteq> Video \<Longrightarrow> queued dm' t = queued dm1 t \<and> unread dm' t = unread dm1 t"
    by (rule take_first_ok [OF d1(2) p1]) (rule that)
  have "?fill dm1 = Some (Some (True, dm'))" using p1 by (subst fill_loop.simps) (simp add: t(1))
  moreover have "follows f n file dm' (content dm' Video)" using d1(4) t(3,4,6) by (simp add: follows_def content_def)
  ultimately show ?thesis using d1(1) t(2,5) by (intro that [of dm']) simp_all
qed

lemma read_loop_file:
  assumes "dm_ok {} dm" "follows f n file dm (content dm Video)" "n + len \<le> length file" "Suc f dvd length file"
  shows "\<exists>dm'. read_loop (Some (rawvideo_demux junk (Suc f))) Video (int len) acc dm = Some (Some (acc @ take len (drop n file), dm')) \<and>
    dm_ok {} dm' \<and> follows f (n + len) file dm' (content dm' Video)"
  using assms
proof (induction "(len, unread dm Video = [])" arbitrary: n len acc dm rule: wf_induct_rule
    [where r = "measures [fst, \<lambda>x. if snd x then 1 else 0]", OF wf_measures])
  case (1 len dm n acc)
  let ?drv = "Some (rawvideo_demux junk (Suc f))"
  let ?x = "ds_buffer_size (dm_stream dm Video) - ds_buffer_pos (dm_stream dm Video)"
  have x: "int (length (unread dm Video)) = ?x" by (rule unread_length [OF 1(2)])
  consider (stop) "len = 0" | (fill) "0 < len" "unread dm Video = []" | (copy) "0 < len" "unread dm Video \<noteq> []" by auto
  then show ?case
  proof cases
    case stop
    then show ?thesis using 1(2,3) by (subst read_loop.simps) simp
  next
    case fill
    obtain h where h: "delete_buf (ds_buffer (dm_stream dm Video)) (dm_heap dm) = Some h" "dm_ok {Video} (dm\<lparr>dm_heap := h\<rparr>)"
      "\<And>t. queued (dm\<lparr>dm_heap := h\<rparr>) t = queued dm t"
      by (rule fill_start_ok [OF 1(2), of Video]) (rule that)
    have "follows f n file (dm\<lparr>dm_heap := h\<rparr>) (queued (dm\<lparr>dm_heap := h\<rparr>) Video)"
      using 1(3) fill(2) h(3) by (simp add: follows_def content_def)
    moreover have "n < length file" using fill(1) 1(4) by simp
    ultimately obtain dm1 where d1: "fill_loop ?drv Video (dm\<lparr>dm_heap := h\<rparr>) = Some (Some (True, dm1))" "dm_ok {} dm1"
      "unread dm1 Video \<noteq> []" "follows f n file dm1 (content dm1 Video)"
      by (rule fill_frame [OF h(2) _ _ 1(5)]) (rule that)
    show ?thesis
      using 1(1) [of len dm1 n acc] d1 fill 1(4,5) x by (subst read_loop.simps) (simp add: fill_buffer_def h(1))
  next
    case copy
    let ?y = "if int len < ?x then int len else ?x"
    have "0 < int (length (unread dm Video))" using copy by simp
    then have y: "0 < ?y" "?y \<le> ?x" "nat ?y \<le> len" unfolding x using copy by auto
    obtain bs where p: "peek Video ?y dm = Some bs" "length bs = nat ?y" "dm_ok {} (advance Video ?y dm)"
      "content dm Video = bs @ content (advance Video ?y dm) Video" "\<And>t. t \<noteq> Video \<Longrightarrow> content (advance Video ?y dm) t = content dm t"
      by (rule peek_advance_ok [OF 1(2) y(1,2)]) (rule that)
    define dm2 where "dm2 = advance Video ?y dm"
    have "queued dm2 Audio = queued dm Audio" by (simp add: dm2_def queued_def queue_def)
    moreover have "dm_priv dm2 = dm_priv dm" by (simp add: dm2_def)
    moreover note p = p [folded dm2_def]
    ultimately have fo: "follows f (n + length bs) file dm2 (content dm2 Video)" "bs = take (length bs) (drop n file)"
      using follows_advance [where dm' = dm2 and dm = dm and cs = "content dm2 Video" and bs = bs] 1(3) unfolding p(4) by blast+
    have l: "int (len - length bs) = int len - ?y" "len - length bs < len" "n + length bs + (len - length bs) \<le> length file"
      "length bs \<le> len" using y p(2) 1(4) by auto
    then obtain dm' where r: "read_loop ?drv Video (int len - ?y) (acc @ bs) dm2 =
        Some (Some ((acc @ bs) @ take (len - length bs) (drop (n + length bs) file), dm'))" "dm_ok {} dm'"
      "follows f (n + length bs + (len - length bs)) file dm' (content dm' Video)"
      using 1(1) [of "len - length bs" dm2 "n + length bs" "acc @ bs"] p(3) fo(1) 1(5) by auto
    have "bs @ take (len - length bs) (drop (n + length bs) file) = take len (drop n file)"
      using fo(2) l(4) by (metis add.commute drop_drop le_add_diff_inverse take_add)
    then show ?thesis using r l(4) copy y p(1) by (subst read_loop.simps) (auto simp: Let_def dm2_def)
  qed
qed

end
