(* ===== verification/Demuxing.thy ===== *)
theory Demuxing
  imports RawDemux
begin

text \<open>
  What the demuxer promises its readers (mplayerxp/libmpdemux/demuxer_stream.cpp, demuxer.cpp), stated
  over its own operations: the bytes of a file arrive, every call returns and is safe, a queue's bytes
  are bounded, dropping and seeking free what they should, and what filling a buffer leaks.
\<close>

section \<open>Properties\<close>

text \<open>C3: reading \<open>len\<close> bytes of video from a fresh demuxer on a raw video file gives the first
  \<open>len\<close> bytes of the file: through the file stream, the driver, the packets on the heap, the queue
  and the current buffer no byte is lost, repeated or reordered, and the call returns.\<close>

theorem rawvideo_file_reaches_reader:
  assumes "Suc f dvd length file" "len \<le> length file"
  shows "\<exists>dm'. read_data (Some (rawvideo_demux junk (Suc f))) Video (int len) (Demuxer_new (stream_open file)) =
    Some (Some (take len file, dm')) \<and> dm_ok {} dm'"
proof -
  let ?dm = "Demuxer_new (stream_open file)"
  have "content ?dm s = []" "queued ?dm s = []" for s
    using Demuxer_new_ok(2) [of "stream_open file" s] by (simp_all add: content_def)
  then have "follows f 0 file ?dm (content ?dm Video)"
    by (simp add: follows_def) (simp add: Demuxer_new_def)
  from read_loop_file [OF Demuxer_new_ok(1) this, of len junk "[]"] assms show ?thesis
    by (auto simp: read_data_def)
qed

lemma rawvideo_file_reaches_reader_witness:
  "\<exists>dm'. read_data (Some (rawvideo_demux (\<lambda>_. 0) (Suc 1))) Video (int 3) (Demuxer_new (stream_open [5, 6, 7, 8])) =
    Some (Some ([5, 6, 7], dm'))"
proof -
  have "Suc 1 dvd length [5, 6, 7, 8 :: u8]" by (simp add: dvd_def) (rule exI [of _ 2], simp)
  from rawvideo_file_reaches_reader [OF this, of 3 "\<lambda>_. 0"] show ?thesis by simp blast
qed

text \<open>C6: for every driver, reading from a stream refines reading from a byte queue to which the
  driver's packets are appended: what is delivered followed by what is left is what was there
  followed by what the driver demuxed for this stream, the other streams keep their bytes and get
  theirs appended, and fewer bytes than asked for are delivered only at the end of the stream.\<close>

theorem read_data_refines_byte_queue:
  assumes "dm_ok {} dm" "all_fit driver" "read_data driver s len dm = Some r"
  shows "\<exists>out dm' is. r = Some (out, dm') \<and> dm_ok {} dm' \<and> drv_steps driver s (dm_priv dm) is (dm_priv dm') \<and>
    out @ content dm' s = content dm s @ bytes_for s is \<and>
    (\<forall>t. t \<noteq> s \<longrightarrow> content dm' t = content dm t @ bytes_for t is) \<and>
    int (length out) \<le> max 0 len \<and> (int (length out) < len \<longrightarrow> ds_eof (dm_stream dm' s))"
  using read_loop_ok [of driver s len "[]" dm r] assms unfolding read_data_def read_post_def by fastforce

lemma read_data_refines_byte_queue_witness:
  "\<exists>out dm' is. read_data (Some (rawvideo_demux (\<lambda>_. 0) (Suc 1))) Video 3 (Demuxer_new (stream_open [5, 6, 7, 8])) = Some (Some (out, dm')) \<and>
    out @ content dm' Video = bytes_for Video is"
proof -
  obtain r where r: "read_data (Some (rawvideo_demux (\<lambda>_. 0) (Suc 1))) Video 3 (Demuxer_new (stream_open [5, 6, 7, 8])) = Some r"
    using rawvideo.readers_return(3) [OF Demuxer_new_ok(1)] by blast
  from read_data_refines_byte_queue [OF Demuxer_new_ok(1) rawvideo.driver_all_fit r] r show ?thesis
    by (auto simp: Demuxer_new_ok(2))
qed

text \<open>C9: on a driver that makes progress, whatever sequence of getch, read_data, get_packet, get_packet_sub, get_next_pts, free_packs and
  free_packs_until_pts a reader calls on a new demuxer, each call returns, no freed or foreign memory is used
  and none is freed twice, and the queues stay well formed. A driver makes progress if what it adds fits and each successful call
  either adds a byte to the audio, the video or the stream asked for, or comes closer to one that does or fails (demux_driver in DemuxContent); the raw audio and raw
  video drivers do. On a driver that reports success for ever and delivers nothing the calls do not return: fill_loop_starves.\<close>

theorem demuxer_calls_safe:
  assumes "demux_driver drv idle"
  shows "\<exists>dm'. calls (Some drv) cs (Demuxer_new d) = Some (Some dm') \<and> dm_ok {} dm'"
  using demux_driver.calls_ok [OF assms Demuxer_new_ok(1)] .

lemma demuxer_calls_safe_witness:
  "\<exists>dm'. calls (Some (rawaudio_demux (\<lambda>_. 0) (Suc 3))) [Getch Audio, Get_next_pts Video, Free_packs Audio] (Demuxer_new (stream_open [1, 2, 3])) = Some (Some dm')"
  using demuxer_calls_safe [OF rawaudio.demux_driver_axioms [of "\<lambda>_. 0" 3],
    of "[Getch Audio, Get_next_pts Video, Free_packs Audio]" "stream_open [1, 2, 3]"] by auto

lemma fill_loop_starves:
  "fill_loop (Some (\<lambda>d s. (True, d, []))) s (Demuxer_new d) = None"
proof (rule ccontr)
  let ?drv = "Some (\<lambda>d s. (True, d, []))"
  assume "fill_loop ?drv s (Demuxer_new d) \<noteq> None"
  then obtain r where "fill_loop ?drv s (Demuxer_new d) = Some r" by auto
  moreover have "fill_loop driver s dm = Some r \<Longrightarrow> \<not> (driver = ?drv \<and> dm = Demuxer_new d)" for driver dm r
  proof (induction rule: fill_loop_induct)
    case (step rec driver s dm r)
    then have "driver = ?drv \<and> dm = Demuxer_new d \<Longrightarrow> rec driver s dm = Some r"
      by (auto simp: demux_def Demuxer_new_def Demuxer_Stream_new_def MAX_PACK_BYTES_def)
    then show ?case using step(1) by blast
  qed
  ultimately show False by blast
qed

text \<open>C12: the loop of fill_buffer ends, with a packet or at the end of the stream, for every driver
  whose successful calls get on; for one that reports success and delivers nothing it never ends.\<close>

theorem fill_buffer_terminates:
  assumes "demux_driver drv idle" "dm_ok {} dm"
  shows "(\<exists>ok dm'. fill_buffer (Some drv) s dm = Some (Some (ok, dm')) \<and> dm_ok {} dm' \<and> (ok \<longleftrightarrow> unread dm' s \<noteq> [])) \<and>
    fill_buffer (Some (\<lambda>d s. (True, d, []))) s (Demuxer_new d) = None"
proof -
  obtain ok dm' where f: "fill_buffer (Some drv) s dm = Some (Some (ok, dm'))"
    by (rule demux_driver.fill_buffer_returns [OF assms])
  obtain "is" where "fill_post (Some drv) s dm ok dm' is"
    by (rule fill_buffer_ok [OF f assms(2) demux_driver.driver_all_fit [OF assms(1)]]) auto
  then show ?thesis using f fill_loop_starves [of s d]
    by (auto simp: fill_post_def fill_buffer_def delete_buf_def) (auto simp: Demuxer_new_def Demuxer_Stream_new_def)
qed

lemma fill_buffer_terminates_witness:
  "\<exists>ok dm'. fill_buffer (Some (rawvideo_demux (\<lambda>_. 0) (Suc 1))) Video (Demuxer_new (stream_open [1, 2])) = Some (Some (ok, dm'))"
  using fill_buffer_terminates [OF rawvideo.demux_driver_axioms [of "\<lambda>_. 0" 1] Demuxer_new_ok(1) [of "stream_open [1, 2]"], of Video "()"] by blast

text \<open>A call of fill_buffer deletes no packet: the one it leaves loses its buffer only.\<close>

lemma packet_ops_keep:
  "hp_pkts h a \<noteq> None \<Longrightarrow> hp_pkts (snd (new_packet n h)) a \<noteq> None"
  "copy_to_packet b data h = Some h' \<Longrightarrow> hp_pkts h' = hp_pkts h"
  "resize_packet b n h = Some h' \<Longrightarrow> hp_pkts h a \<noteq> None \<Longrightarrow> hp_pkts h' a \<noteq> None"
    apply (simp add: new_packet_def Let_def)
   apply (auto simp: copy_to_packet_def bind_eq_Some_conv split: if_splits)[1]
  apply (auto simp: resize_packet_def delete_buf_def bind_eq_Some_conv Let_def split: if_splits option.splits)
  done

lemma add_packet_keeps:
  assumes "add_packet b (ds, h) = Some (ds', h')" "hp_pkts h a \<noteq> None"
  shows "hp_pkts h' a \<noteq> None"
proof (cases "ds_last ds")
  case None
  then have "h' = h" using assms(1) by (simp add: add_packet_def Let_def split: Option.bind_splits if_splits)
  then show ?thesis using assms(2) by simp
next
  case (Some l)
  then have "h' = h \<or> (\<exists>q. h' = h\<lparr>hp_pkts := (hp_pkts h)(l \<mapsto> q)\<rparr>)"
    using assms(1) by (simp add: add_packet_def Let_def split: Option.bind_splits if_splits) blast+
  then show ?thesis using assms(2) by (elim disjE exE) simp_all
qed

lemma read_packet_keeps:
  assumes "read_packet i (ds, h) = Some (ds', h')" "hp_pkts h a \<noteq> None"
  shows "hp_pkts h' a \<noteq> None"
proof -
  obtain c h0 h1 h2 p where "new_packet (pi_len i) h = (c, h0)" "copy_to_packet c (pi_data i) h0 = Some h1"
    "resize_packet c (length (pi_data i)) h1 = Some h2" "hp_pkts h2 c = Some p"
    "add_packet c (ds, h2\<lparr>hp_pkts := (hp_pkts h2)(c \<mapsto> p\<lparr>dp_pts := pi_pts i, dp_pos := pi_pos i, dp_flags := pi_flags i\<rparr>)\<rparr>) = Some (ds', h')"
    using assms(1) by (auto simp: read_packet_def bind_eq_Some_conv split: prod.splits)
  moreover from this have "hp_pkts h2 a \<noteq> None"
    using packet_ops_keep(1) [OF assms(2), of "pi_len i"] packet_ops_keep(2,3) by (metis snd_conv)
  ultimately show ?thesis using add_packet_keeps by simp
qed

lemma read_packets_keep:
  "read_packets is dm = Some dm' \<Longrightarrow> hp_pkts (dm_heap dm) a \<noteq> None \<Longrightarrow> hp_pkts (dm_heap dm') a \<noteq> None"
proof (induction "is" arbitrary: dm)
  case (Cons i "is")
  then obtain ds h where r: "read_packet i (dm_stream dm (pi_sid i), dm_heap dm) = Some (ds, h)"
    "read_packets is ((set_stream (pi_sid i) ds dm)\<lparr>dm_heap := h\<rparr>) = Some dm'" by (auto split: option.splits)
  from Cons.IH [OF r(2)] read_packet_keeps [OF r(1) Cons.prems(2)] show ?case by simp
qed simp

lemma demux_keeps: "demux driver s dm = Some (ok, dm') \<Longrightarrow> hp_pkts (dm_heap dm) a \<noteq> None \<Longrightarrow> hp_pkts (dm_heap dm') a \<noteq> None"
  using read_packets_keep [of _ "dm\<lparr>dm_priv := _\<rparr>"] by (fastforce simp: demux_def split: option.splits prod.splits)

lemma take_first_keeps: "take_first s dm = Some dm' \<Longrightarrow> dm_heap dm' = dm_heap dm"
  by (auto simp: take_first_def bind_eq_Some_conv Let_def split: if_splits)

lemma fill_loop_keeps:
  "fill_loop driver s dm = Some r \<Longrightarrow> r = Some (ok, dm') \<longrightarrow> hp_pkts (dm_heap dm) a \<noteq> None \<longrightarrow> hp_pkts (dm_heap dm') a \<noteq> None"
proof (induction rule: fill_loop_induct)
  case (step rec driver s dm r)
  show ?case
  proof (cases "demux driver s dm")
    case None
    then show ?thesis using step(2) by (auto simp: at_eof_def dest: take_first_keeps split: if_splits option.splits)
  next
    case (Some x)
    then obtain ok1 dm1 where "demux driver s dm = Some (ok1, dm1)" by (cases x) auto
    then show ?thesis using step(2) step(1) [of driver s dm1 r] demux_keeps [of driver s dm ok1 dm1 a]
      by (auto simp: at_eof_def dest: take_first_keeps split: if_splits)
  qed
qed

lemma fill_buffer_leaks:
  "fill_buffer driver s dm = Some (Some (ok, dm')) \<Longrightarrow> hp_pkts (dm_heap dm) a \<noteq> None \<Longrightarrow> hp_pkts (dm_heap dm') a \<noteq> None"
  using fill_loop_keeps [of driver s "dm\<lparr>dm_heap := _\<rparr>" "Some (ok, dm')" ok dm' a]
  by (auto simp: fill_buffer_def delete_buf_def split: option.splits if_splits)

definition brings_at_most :: "nat \<Rightarrow> sid \<Rightarrow> 'd driver option \<Rightarrow> bool" where
  "brings_at_most B t driver \<longleftrightarrow> (\<forall>drv d u. driver = Some drv \<longrightarrow> length (bytes_for t (snd (snd (drv d u)))) \<le> B)"

lemma queue_bytes: "dm_ok busy dm \<Longrightarrow> ds_bytes (dm_stream dm t) = int (length (queued dm t))"
  using dm_ok_queue [of busy dm t] by (simp add: queue_ok_def queued_def)

lemma demux_bounded:
  assumes "dm_ok busy dm" "all_fit driver" "demux driver s dm = Some (ok, dm')"
    "brings_at_most B t driver"
  shows "length (queued dm' t) \<le> length (queued dm t) + B" "dm_ok busy dm'"
proof -
  have "length (queued dm' t) \<le> length (queued dm t) + B \<and> dm_ok busy dm'"
  proof (cases driver)
    case None
    then show ?thesis using assms by (simp add: demux_def)
  next
    case (Some drv)
    obtain o1 d "is" where d: "drv (dm_priv dm) s = (o1, d, is)" by (metis prod_cases3)
    then have "fits is" using assms(2) Some by (auto simp: all_fit_def) (metis snd_conv)
    then obtain dm1 where "read_packets is (dm\<lparr>dm_priv := d\<rparr>) = Some dm1" "dm_ok busy dm1" "queued dm1 t = queued dm t @ bytes_for t is"
      using read_packets_ok [of busy "dm\<lparr>dm_priv := d\<rparr>" "is"] assms(1) by auto
    then show ?thesis using assms(3) assms(4) [unfolded brings_at_most_def, rule_format, OF Some, of "dm_priv dm" s] d Some by (auto simp: demux_def)
  qed
  then show "length (queued dm' t) \<le> length (queued dm t) + B" "dm_ok busy dm'" by auto
qed

lemma take_first_shorter:
  assumes "dm_ok {s} dm" "ds_packs (dm_stream dm s) \<noteq> 0" "take_first s dm = Some dm'"
  shows "length (queued dm' t) \<le> length (queued dm t)"
proof -
  obtain dm1 where t: "take_first s dm = Some dm1" "unread dm1 s @ queued dm1 s = queued dm s"
    "\<And>t. t \<noteq> s \<Longrightarrow> queued dm1 t = queued dm t"
    by (rule take_first_ok [OF assms(1,2)]) auto
  from t(2) have "length (queued dm1 s) \<le> length (queued dm s)" by (metis length_append le_add2)
  then show ?thesis using t(1,3) assms(3) by (cases "t = s") auto
qed

lemma fill_loop_bounded:
  assumes "fill_loop driver s dm = Some r" "dm_ok {s} dm" "all_fit driver" "t = Audio \<or> t = Video"
    "brings_at_most B t driver"
  shows "r = Some (ok, dm') \<longrightarrow> int (length (queued dm' t)) \<le> max (int (length (queued dm t))) (MAX_PACK_BYTES - 1 + int B)"
  using assms
proof (induction rule: fill_loop_induct)
  case (step rec driver s dm r)
  note b = queue_bytes [OF step(3)]
  show ?case
  proof (cases "ds_packs (dm_stream dm s) \<noteq> 0")
    case True
    then show ?thesis using step(2) take_first_shorter [OF step(3) True, of _ t] by (auto simp: le_max_iff_disj)
  next
    case False
    show ?thesis
    proof (cases "MAX_PACK_BYTES \<le> ds_bytes (dm_stream dm Audio) \<or> MAX_PACK_BYTES \<le> ds_bytes (dm_stream dm Video)")
      case True
      then show ?thesis using step(2) False at_eof_ok(3) [OF step(3), of t] by (auto split: if_splits)
    next
      case low: False
      then have le: "int (length (queued dm t)) \<le> MAX_PACK_BYTES - 1" using step(5) b by auto
      show ?thesis
      proof (cases "demux driver s dm")
        case None
        then show ?thesis using step(2) False low by auto
      next
        case (Some x)
        then obtain ok1 dm1 where d: "demux driver s dm = Some (ok1, dm1)" by (cases x) auto
        note q = demux_bounded [OF step(3,4) d, OF step(6)]
        have "int (length (queued dm1 t)) \<le> MAX_PACK_BYTES - 1 + int B" using q(1) le by linarith
        then show ?thesis using step(1) [OF _ q(2) step(4-6), of r] step(2) False low d at_eof_ok(3) [OF q(2), of t]
          by (auto split: if_splits)
      qed
    qed
  qed
qed

text \<open>What the demuxer keeps in memory for a stream is bounded: when no single call of the driver
  brings more than \<open>B\<close> bytes for it, filling never leaves more than \<open>B\<close> bytes above the limit
  \<open>MAX_PACK_BYTES\<close> in its queue.\<close>

theorem fill_buffer_bounded:
  assumes "dm_ok {} dm" "all_fit driver" "fill_buffer driver s dm = Some (Some (ok, dm'))" "t = Audio \<or> t = Video"
    "brings_at_most B t driver"
  shows "ds_bytes (dm_stream dm' t) \<le> max (ds_bytes (dm_stream dm t)) (MAX_PACK_BYTES - 1 + int B)"
proof -
  obtain h where h: "delete_buf (ds_buffer (dm_stream dm s)) (dm_heap dm) = Some h" "dm_ok {s} (dm\<lparr>dm_heap := h\<rparr>)"
    "queued (dm\<lparr>dm_heap := h\<rparr>) t = queued dm t"
    by (rule fill_start_ok [OF assms(1), of s]) (rule that)
  have "fill_loop driver s (dm\<lparr>dm_heap := h\<rparr>) = Some (Some (ok, dm'))" using assms(3) h(1) by (simp add: fill_buffer_def)
  from fill_loop_bounded [OF this h(2) assms(2,4,5)] h(3)
  have "int (length (queued dm' t)) \<le> max (int (length (queued dm t))) (MAX_PACK_BYTES - 1 + int B)" by simp
  moreover obtain "is" where "fill_post driver s dm ok dm' is"
    by (rule fill_buffer_ok [OF assms(3,1,2)]) auto
  ultimately show ?thesis using queue_bytes [OF assms(1)] queue_bytes [of "{}" dm' t] by (simp add: fill_post_def)
qed

lemma fill_buffer_bounded_witness:
  "\<exists>ok dm'. fill_buffer (Some (rawvideo_demux (\<lambda>_. 0) (Suc 1))) Video (Demuxer_new (stream_open [1, 2])) = Some (Some (ok, dm')) \<and>
    ds_bytes (dm_stream dm' Video) \<le> MAX_PACK_BYTES + 1"
proof -
  obtain ok dm' where f: "fill_buffer (Some (rawvideo_demux (\<lambda>_. 0) (Suc 1))) Video (Demuxer_new (stream_open [1, 2])) = Some (Some (ok, dm'))"
    by (rule rawvideo.fill_buffer_returns [OF Demuxer_new_ok(1)])
  have "brings_at_most 2 Video (Some (rawvideo_demux (\<lambda>_. 0) (Suc 1)))"
    by (auto simp: brings_at_most_def rawvideo_demux_def stream_read_len split: prod.splits)
  then have "ds_bytes (dm_stream dm' Video) \<le> max (ds_bytes (dm_stream (Demuxer_new (stream_open [1, 2 :: u8])) Video)) (MAX_PACK_BYTES - 1 + int 2)"
    by (intro fill_buffer_bounded [OF Demuxer_new_ok(1) rawvideo.driver_all_fit f, of Video]) auto
  then show ?thesis using f by (auto simp: Demuxer_new_def Demuxer_Stream_new_def MAX_PACK_BYTES_def)
qed

text \<open>Dropping the packets before a time frees exactly the leading packets of the stream whose
  timestamp is smaller, with the packet being read: what the reader gets next is the data of the
  packets from the first one that is not smaller on, the stream's time is that packet's, and the other
  streams lose nothing.\<close>

theorem free_packs_until_keeps_the_rest:
  assumes "dm_ok {} dm"
  shows "\<exists>dm'. free_stream_until t s dm = Some (Some dm') \<and> dm_ok {} dm' \<and>
    content dm' s = queued_bytes (dm_heap dm) (dropWhile (\<lambda>a. pts_at (dm_heap dm) a < t) (queue dm s)) \<and>
    (\<forall>u. u \<noteq> s \<longrightarrow> content dm' u = content dm u) \<and>
    ds_pts (dm_stream dm' s) = (case dropWhile (\<lambda>a. pts_at (dm_heap dm) a < t) (queue dm s) of [] \<Rightarrow> 0 | a # _ \<Rightarrow> pts_at (dm_heap dm) a)"
  by (rule free_until_ok [OF assms, of t s]) auto

lemma free_packs_until_keeps_the_rest_witness:
  "\<exists>dm dm'. read_packets [\<lparr>pi_sid = Audio, pi_len = 2, pi_data = [7, 8 :: u8], pi_pts = 1, pi_pos = 0, pi_flags = 0\<rparr>] (Demuxer_new ()) = Some dm \<and>
    free_stream_until 5 Audio dm = Some (Some dm') \<and> ds_pts (dm_stream dm' Audio) = 0"
proof -
  let ?is = "[\<lparr>pi_sid = Audio, pi_len = 2, pi_data = [7, 8 :: u8], pi_pts = 1, pi_pos = 0, pi_flags = 0\<rparr>]"
  have "fits ?is" by (simp add: fits_def)
  then obtain dm where dm: "read_packets ?is (Demuxer_new ()) = Some dm" "dm_ok {} dm"
    using read_packets_ok [OF Demuxer_new_ok(1) [of "()"]] by blast
  then have "length (queue dm Audio) = 1" "pts_at (dm_heap dm) 0 = 1" "queue dm Audio = [0]"
    by (auto simp: read_packet_def new_packet_def copy_to_packet_def resize_packet_def delete_buf_def add_packet_def Let_def
      Demuxer_new_def Demuxer_Stream_new_def queue_def pts_at_def eval_nat_numeral)
  then show ?thesis using free_packs_until_keeps_the_rest [OF dm(2), of 5 Audio] dm(1) by auto
qed

lemma reset_ok:
  fixes s :: sid
  assumes "dm_ok {} dm"
  defines "dm' \<equiv> set_stream s ((dm_stream dm s)\<lparr>ds_eof := False, prev_pts := 0\<rparr>) dm"
  shows "dm_ok {} dm'" "content dm' t = content dm t"
  unfolding dm'_def by (rule same_queue_ok [OF assms(1)], simp add: same_queue_def)+

text \<open>A seek of a seekable file leaves nothing of the audio and video demuxed before it, in the
  queues or in the buffers being read, clears their end-of-file marks, and keeps the subtitles; it
  always returns.\<close>

theorem seek_flushes:
  assumes "dm_ok {} dm"
  shows "\<exists>dm'. seek drv_seek clear_eof True True True dm = Some (Some (1, dm')) \<and> dm_ok {} dm' \<and>
    content dm' Audio = [] \<and> content dm' Video = [] \<and> content dm' Sub = content dm Sub \<and>
    \<not> ds_eof (dm_stream dm' Audio) \<and> \<not> ds_eof (dm_stream dm' Video)"
proof -
  obtain dm1 where d1: "free_stream Audio dm = Some (Some dm1)" "dm_ok {} dm1" "content dm1 Audio = []" "content dm1 Sub = content dm Sub"
    by (rule free_stream_ok [OF assms, of Audio]) (auto intro: that)
  obtain dm2 where d2: "free_stream Video dm1 = Some (Some dm2)" "dm_ok {} dm2" "content dm2 Video = []" "content dm2 Audio = []"
    "content dm2 Sub = content dm Sub"
    by (rule free_stream_ok [OF d1(2), of Video]) (use d1(3,4) in \<open>auto intro: that\<close>)
  have p: "dm_ok {} (dm2\<lparr>dm_priv := d\<rparr>)" "content (dm2\<lparr>dm_priv := d\<rparr>) t = content dm2 t" for d t using d2(2) by (simp_all add: content_def)
  define v where "v d = set_stream Video ((dm_stream (dm2\<lparr>dm_priv := d\<rparr>) Video)\<lparr>ds_eof := False, prev_pts := 0\<rparr>) (dm2\<lparr>dm_priv := d\<rparr>)" for d
  note v = reset_ok [OF p(1), of _ Video, folded v_def]
  define a where "a d = set_stream Audio ((dm_stream (v d) Audio)\<lparr>ds_eof := False, prev_pts := 0\<rparr>) (v d)" for d
  note a = reset_ok [OF v(1), of _ Audio, folded a_def]
  let ?d = "clear_eof (dm_priv dm2)"
  let ?e = "case drv_seek of None \<Rightarrow> ?d | Some f \<Rightarrow> f ?d"
  have "seek drv_seek clear_eof True True True dm = Some (Some (1, (a ?d)\<lparr>dm_priv := ?e\<rparr>))"
    using d1(1) d2(1) by (simp add: seek_def Let_def a_def v_def split: option.splits)
  moreover have "content ((a ?d)\<lparr>dm_priv := ?e\<rparr>) t = content dm2 t" for t using a(2) v(2) p(2) by (simp add: content_def)
  moreover have "\<not> ds_eof (dm_stream (a ?d) Audio)" "\<not> ds_eof (dm_stream (a ?d) Video)" by (simp_all add: a_def v_def)
  ultimately show ?thesis using a(1) [of ?d] d2 by auto
qed

lemma seek_flushes_witness:
  "\<exists>dm'. seek None (\<lambda>d. d) True True True (Demuxer_new ()) = Some (Some (1, dm')) \<and> content dm' Audio = []"
  using seek_flushes [OF Demuxer_new_ok(1) [of "()"], of None "\<lambda>d. d"] by auto

end
