(* ===== verification/BinaryPacket.thy ===== *)
theory BinaryPacket
  imports Bytes
begin

text \<open>
  The byte strings handed from component to component (mplayerxp/xmpcore/binary_packet.cpp).
  Sizes and positions are 64-bit \<open>size_t\<close> values; \<open>Bad_memory\<close> is an access outside the buffer.
  The comparison operators make the packets an instance of \<open>linorder\<close>.
\<close>

section \<open>Code\<close>

datatype binary_packet = Packet (cdata: "u8 list")

datatype 'a outcome = Ok 'a | Out_of_range | Bad_memory

abbreviation bp_size :: "binary_packet \<Rightarrow> u64" where
  "bp_size p \<equiv> of_nat (length (cdata p))"

definition bp_empty :: "binary_packet \<Rightarrow> bool" where
  "bp_empty p = (bp_size p = 0)"

definition bp_assign :: "u8 list \<Rightarrow> binary_packet \<Rightarrow> binary_packet" where
  "bp_assign data p = Packet data"

definition bp_append :: "u8 list \<Rightarrow> binary_packet \<Rightarrow> binary_packet" where
  "bp_append data p = Packet (cdata p @ data)"

text \<open>\<open>junk\<close> are the bytes the allocator leaves in new memory.\<close>

definition bp_resize :: "(nat \<Rightarrow> u8) \<Rightarrow> u64 \<Rightarrow> binary_packet \<Rightarrow> binary_packet" where
  "bp_resize junk newsz p = Packet (take (unat newsz) (cdata p) @ map junk [length (cdata p)..<unat newsz])"

definition bp_clear :: "binary_packet \<Rightarrow> binary_packet" where
  "bp_clear p = bp_resize (\<lambda>_. 0) 0 p"

text \<open>memmove and memcpy inside a buffer of \<open>xs\<close>.\<close>

definition memmove :: "nat \<Rightarrow> nat \<Rightarrow> nat \<Rightarrow> u8 list \<Rightarrow> u8 list option" where
  "memmove dst src n xs =
     (if n = 0 then Some xs
      else if dst + n \<le> length xs \<and> src + n \<le> length xs
      then Some (take dst xs @ take n (drop src xs) @ drop (dst + n) xs) else None)"

definition memcpy_at :: "nat \<Rightarrow> u8 list \<Rightarrow> u8 list \<Rightarrow> u8 list option" where
  "memcpy_at dst data xs =
     (if data = [] then Some xs
      else if dst + length data \<le> length xs then Some (take dst xs @ data @ drop (dst + length data) xs) else None)"

definition of_mem :: "u8 list option \<Rightarrow> binary_packet outcome" where
  "of_mem r = (case r of None \<Rightarrow> Bad_memory | Some xs \<Rightarrow> Ok (Packet xs))"

definition bp_insert :: "(nat \<Rightarrow> u8) \<Rightarrow> u64 \<Rightarrow> u8 list \<Rightarrow> binary_packet \<Rightarrow> binary_packet outcome" where
  "bp_insert junk pos sdata p =
     (let slen = length sdata;
          q = bp_resize junk (bp_size p + of_nat slen) p
      in case memmove (unat (pos + of_nat slen)) (unat pos) slen (cdata q) of
           None \<Rightarrow> Bad_memory
         | Some xs \<Rightarrow> of_mem (memcpy_at (unat pos) sdata xs))"

definition bp_replace :: "u64 \<Rightarrow> u8 list \<Rightarrow> binary_packet \<Rightarrow> binary_packet outcome" where
  "bp_replace pos sdata p =
     (if pos + of_nat (length sdata) > bp_size p then Out_of_range
      else of_mem (memcpy_at (unat pos) sdata (cdata p)))"

definition bp_remove :: "(nat \<Rightarrow> u8) \<Rightarrow> u64 \<Rightarrow> u64 \<Rightarrow> binary_packet \<Rightarrow> binary_packet outcome" where
  "bp_remove junk pos n p =
     (let len = bp_size p in
      if pos + n = len then Ok (bp_resize junk (len - n) p)
      else if pos + n < len then
        (case memmove (unat pos) (unat (pos + n)) (unat n) (cdata p) of
           None \<Rightarrow> Bad_memory
         | Some xs \<Rightarrow> Ok (bp_resize junk (len - n) (Packet xs)))
      else Out_of_range)"

definition bp_plus :: "binary_packet \<Rightarrow> binary_packet \<Rightarrow> binary_packet" where
  "bp_plus p q = Packet (cdata p @ cdata q)"

definition bp_at :: "u64 \<Rightarrow> binary_packet \<Rightarrow> u8 outcome" where
  "bp_at idx p = (if idx < bp_size p then Ok (cdata p ! unat idx) else Out_of_range)"

definition bp_front :: "binary_packet \<Rightarrow> u8 outcome" where
  "bp_front p = (case cdata p of [] \<Rightarrow> Bad_memory | b # _ \<Rightarrow> Ok b)"

definition bp_back :: "binary_packet \<Rightarrow> u8 outcome" where
  "bp_back p = (case cdata p of [] \<Rightarrow> Bad_memory | _ \<Rightarrow> Ok (last (cdata p)))"

definition bp_subpacket :: "u64 \<Rightarrow> u64 \<Rightarrow> binary_packet \<Rightarrow> binary_packet outcome" where
  "bp_subpacket start n p =
     (if start + n > bp_size p then Out_of_range
      else if n = 0 \<or> unat start + unat n \<le> length (cdata p)
      then Ok (Packet (take (unat n) (drop (unat start) (cdata p)))) else Bad_memory)"

fun memcmp :: "u8 list \<Rightarrow> u8 list \<Rightarrow> int" where
  "memcmp (a # as) (b # bs) = (if a = b then memcmp as bs else uint a - uint b)"
| "memcmp _ _ = 0"

definition bp_eq :: "binary_packet \<Rightarrow> binary_packet \<Rightarrow> bool" where
  "bp_eq p q = (if length (cdata p) = length (cdata q) then memcmp (cdata p) (cdata q) = 0 else False)"

definition bp_ne :: "binary_packet \<Rightarrow> binary_packet \<Rightarrow> bool" where
  "bp_ne p q = (if length (cdata p) = length (cdata q) then memcmp (cdata p) (cdata q) \<noteq> 0 else True)"

definition bp_less :: "binary_packet \<Rightarrow> binary_packet \<Rightarrow> bool" where
  "bp_less p q = (if length (cdata p) = length (cdata q) then memcmp (cdata p) (cdata q) < 0 else length (cdata p) < length (cdata q))"

definition bp_less_eq :: "binary_packet \<Rightarrow> binary_packet \<Rightarrow> bool" where
  "bp_less_eq p q = (if length (cdata p) = length (cdata q) then memcmp (cdata p) (cdata q) \<le> 0 else length (cdata p) < length (cdata q))"

instantiation binary_packet :: linorder
begin

definition less_binary_packet :: "binary_packet \<Rightarrow> binary_packet \<Rightarrow> bool" where
  "less_binary_packet = bp_less"

definition less_eq_binary_packet :: "binary_packet \<Rightarrow> binary_packet \<Rightarrow> bool" where
  "less_eq_binary_packet = bp_less_eq"

lemma memcmp_anti: "length as = length bs \<Longrightarrow> memcmp bs as = - memcmp as bs"
  by (induction as bs rule: memcmp.induct) auto

lemma memcmp_zero: "length as = length bs \<Longrightarrow> memcmp as bs = 0 \<longleftrightarrow> as = bs"
  by (induction as bs rule: memcmp.induct) (auto simp: word_uint_eq_iff)

lemma memcmp_trans:
  "length as = length bs \<Longrightarrow> length bs = length cs \<Longrightarrow> memcmp as bs \<le> 0 \<Longrightarrow> memcmp bs cs \<le> 0 \<Longrightarrow> memcmp as cs \<le> 0"
proof (induction as arbitrary: bs cs)
  case (Cons a as)
  then obtain b bs' c cs' where [simp]: "bs = b # bs'" "cs = c # cs'" by (metis length_Suc_conv)
  show ?case using Cons.IH [of bs' cs'] Cons.prems by (auto simp: word_uint_eq_iff split: if_splits)
qed simp

instance
proof
  fix p q r :: binary_packet
  show "p < q \<longleftrightarrow> p \<le> q \<and> \<not> q \<le> p"
    using memcmp_anti [of "cdata p" "cdata q"] by (auto simp: less_binary_packet_def bp_less_def less_eq_binary_packet_def bp_less_eq_def)
  show "p \<le> p" using memcmp_zero [of "cdata p" "cdata p"] by (simp add: less_eq_binary_packet_def bp_less_eq_def)
  show "p \<le> q \<Longrightarrow> q \<le> r \<Longrightarrow> p \<le> r"
    using memcmp_trans [of "cdata p" "cdata q" "cdata r"] by (auto simp: less_eq_binary_packet_def bp_less_eq_def split: if_splits)
  show "p \<le> q \<Longrightarrow> q \<le> p \<Longrightarrow> p = q"
    using memcmp_anti [of "cdata p" "cdata q"] memcmp_zero [of "cdata p" "cdata q"]
    by (auto simp: less_eq_binary_packet_def bp_less_eq_def binary_packet.expand split: if_splits)
  show "p \<le> q \<or> q \<le> p"
    using memcmp_anti [of "cdata p" "cdata q"] by (auto simp: less_eq_binary_packet_def bp_less_eq_def)
qed

end

section \<open>Properties\<close>

lemma unat_add_small: "unat a + unat b < 2 ^ 64 \<Longrightarrow> unat (a + b :: u64) = unat a + unat b"
  by (simp add: unat_word_ariths)

lemma unat_len: "n < 2 ^ 64 \<Longrightarrow> unat (of_nat n :: u64) = n"
  by (simp add: unat_of_nat)

lemma bp_size_less: "length (cdata p) < 2 ^ 64 \<Longrightarrow> w \<le> bp_size p \<longleftrightarrow> unat w \<le> length (cdata p)"
  by (simp add: word_le_nat_alt unat_len)

lemma bp_eq_is_eq [simp]: "bp_eq p q \<longleftrightarrow> p = q"
  by (cases p; cases q) (auto simp: bp_eq_def memcmp_zero)

lemma bp_ne_is_ne [simp]: "bp_ne p q \<longleftrightarrow> p \<noteq> q"
  by (cases p; cases q) (auto simp: bp_ne_def memcmp_zero)

text \<open>Overwriting, cutting out and cutting off do what they say as long as the position and the
  length do not wrap around; a part read back after it was written is what was written, everything
  out of range is refused, and the comparisons are a total order in which \<open>==\<close> is equality.\<close>

theorem binary_packet_edits:
  assumes "length (cdata p) < 2 ^ 63" "unat pos < 2 ^ 63" "length data < 2 ^ 63"
  shows "bp_replace pos data p = (if unat pos + length data \<le> length (cdata p)
      then Ok (Packet (take (unat pos) (cdata p) @ data @ drop (unat pos + length data) (cdata p))) else Out_of_range) \<and>
    (\<forall>q. bp_replace pos data p = Ok q \<longrightarrow> length (cdata q) = length (cdata p) \<and>
      bp_subpacket pos (of_nat (length data)) q = Ok (Packet data)) \<and>
    bp_subpacket pos (of_nat (length data)) p = (if unat pos + length data \<le> length (cdata p)
      then Ok (Packet (take (length data) (drop (unat pos) (cdata p)))) else Out_of_range) \<and>
    (unat pos + length data = length (cdata p) \<longrightarrow>
      bp_remove junk pos (of_nat (length data)) p = Ok (Packet (take (unat pos) (cdata p)))) \<and>
    (bp_eq p q \<longleftrightarrow> \<not> bp_ne p q) \<and> (p \<le> q \<longleftrightarrow> p < q \<or> bp_eq p q) \<and> (p < q \<or> bp_eq p q \<or> q < p)"
proof -
  let ?n = "length data" and ?xs = "cdata p"
  let ?w = "of_nat ?n :: u64"
  have w: "unat ?w = ?n" using assms(3) by (intro unat_len) simp
  have s: "unat (pos + ?w) = unat pos + ?n" using assms w by (subst unat_add_small) simp_all
  have sz: "unat (bp_size p) = length ?xs" using assms(1) by (intro unat_len) simp
  have gt: "pos + ?w > bp_size p \<longleftrightarrow> \<not> unat pos + ?n \<le> length ?xs" using s sz by (simp add: word_less_nat_alt not_le)
  have r: "bp_replace pos data p = (if unat pos + ?n \<le> length ?xs
      then Ok (Packet (take (unat pos) ?xs @ data @ drop (unat pos + ?n) ?xs)) else Out_of_range)"
    unfolding bp_replace_def gt by (auto simp: memcpy_at_def of_mem_def)
  have sub: "bp_subpacket pos ?w q = Ok (Packet (take ?n (drop (unat pos) (cdata q))))"
    if "length (cdata q) = length ?xs" "unat pos + ?n \<le> length ?xs" for q
    using that gt by (simp add: bp_subpacket_def w)
  have rem: "bp_remove junk pos ?w p = Ok (Packet (take (unat pos) ?xs))" if e: "unat pos + ?n = length ?xs"
  proof -
    have "pos + ?w = bp_size p" by (rule word_unat_eq_iff [THEN iffD2]) (simp add: s sz e)
    moreover have "unat (bp_size p - ?w) = unat pos" using calculation by (metis add_diff_cancel_right')
    ultimately show ?thesis using e by (simp add: bp_remove_def bp_resize_def)
  qed
  moreover have "bp_subpacket pos ?w p = Out_of_range" if "\<not> unat pos + ?n \<le> length ?xs"
    using that gt by (simp add: bp_subpacket_def)
  ultimately show ?thesis using r sub by (auto simp: less_le)
qed

lemma binary_packet_edits_witness:
  "bp_replace 1 [8, 9] (Packet [1, 2, 3, 4]) = Ok (Packet [1, 8, 9, 4]) \<and>
   bp_remove (\<lambda>_. 0) 2 2 (Packet [1, 2, 3, 4]) = Ok (Packet [1, 2])"
  using binary_packet_edits [of "Packet [1, 2, 3, 4]" 1 "[8, 9]" "\<lambda>_. 0" "Packet []"]
    binary_packet_edits [of "Packet [1, 2, 3, 4]" 2 "[8, 9]" "\<lambda>_. 0" "Packet []"] by simp

text \<open>Insert moves as many bytes as it inserts and remove as many as it removes, instead of the
  bytes behind the position: they are right exactly when that part is as long as the inserted or the
  removed one; when it is shorter they leave the buffer, when it is longer insert gives bytes that
  nobody wrote and remove keeps removed ones.\<close>

theorem binary_packet_insert_remove:
  assumes "length (cdata p) < 2 ^ 62" "length data < 2 ^ 62" "data \<noteq> []" "unat pos \<le> length (cdata p)"
  defines "xs \<equiv> cdata p" and "n \<equiv> length data"
  shows "(length xs - unat pos < n \<longrightarrow> bp_insert junk pos data p = Bad_memory) \<and>
    (length xs - unat pos = n \<longrightarrow> bp_insert junk pos data p = Ok (Packet (take (unat pos) xs @ data @ drop (unat pos) xs))) \<and>
    (n < length xs - unat pos \<longrightarrow> (\<exists>junk. bp_insert junk pos data p \<noteq> Ok (Packet (take (unat pos) xs @ data @ drop (unat pos) xs)))) \<and>
    (unat pos + n < length xs \<longrightarrow>
      (length xs - unat pos - n < n \<longrightarrow> bp_remove junk pos (of_nat n) p = Bad_memory) \<and>
      (length xs - unat pos - n = n \<longrightarrow> bp_remove junk pos (of_nat n) p = Ok (Packet (take (unat pos) xs @ drop (unat pos + n) xs)))) \<and>
    bp_remove junk 0 1 (Packet [1, 2, 3]) = Ok (Packet [2, 2])"
proof -
  let ?m = "length xs" and ?p = "unat pos"
  have w: "unat (of_nat n :: u64) = n" unfolding n_def using assms(2) by (intro unat_len) simp
  have sz: "unat (bp_size p) = ?m" unfolding xs_def using assms(1) by (intro unat_len) simp
  have small: "?m < 2 ^ 62" "n < 2 ^ 62" "?p \<le> ?m" "0 < n" using assms by (simp_all add: xs_def n_def)
  have s: "unat (pos + of_nat n) = ?p + n" "unat (bp_size p + of_nat n) = ?m + n"
    using small w sz by (simp_all add: unat_add_small)
  define ys where "ys junk = xs @ map junk [?m..<?m + n]" for junk
  have ly: "length (ys junk) = ?m + n" for junk by (simp add: ys_def)
  have ins: "bp_insert junk pos data p = (if ?p + n \<le> ?m
      then Ok (Packet (take ?p xs @ data @ take n (drop ?p xs) @ drop (?p + n + n) (ys junk))) else Bad_memory)" for junk
  proof -
    have q: "cdata (bp_resize junk (bp_size p + of_nat n) p) = ys junk" using small(4) by (simp add: bp_resize_def s(2) ys_def xs_def)
    have "memmove (?p + n) ?p n (ys junk) = (if ?p + n \<le> ?m then Some (take (?p + n) (ys junk) @ take n (drop ?p (ys junk)) @ drop (?p + n + n) (ys junk)) else None)"
      using small by (simp add: memmove_def ly)
    moreover have "take ?p (ys junk) = take ?p xs" "?p + n \<le> ?m \<Longrightarrow> take n (drop ?p (ys junk)) = take n (drop ?p xs)"
      using small by (simp_all add: ys_def)
    ultimately show ?thesis
      using small by (simp add: bp_insert_def Let_def q s(1) flip: n_def) (simp add: memcpy_at_def of_mem_def n_def ly assms(3))
  qed
  have far: "\<exists>junk. bp_insert junk pos data p \<noteq> Ok (Packet (take ?p xs @ data @ drop ?p xs))" if t: "n < ?m - ?p"
  proof -
    let ?j = "\<lambda>_. last xs + 1"
    have "xs \<noteq> []" using t by auto
    have "\<not> n \<le> ?p + n + n - ?m" using t small(4) by linarith
    then have "last (take ?p xs @ data @ take n (drop ?p xs) @ drop (?p + n + n) (ys ?j)) = last xs + 1"
      using t small(4) by (simp add: ys_def last_append last_drop last_map)
    moreover have "?p < ?m" using t by linarith
    then have "last (take ?p xs @ data @ drop ?p xs) = last xs" by (simp add: last_append last_drop)
    ultimately have "take ?p xs @ data @ take n (drop ?p xs) @ drop (?p + n + n) (ys ?j) \<noteq> take ?p xs @ data @ drop ?p xs"
      by (metis add_cancel_left_right one_neq_zero)
    then show ?thesis using t unfolding ins by (intro exI [of _ ?j]) simp
  qed
  have rem: "bp_remove junk pos (of_nat n) p = (if n \<le> ?m - ?p - n
      then Ok (Packet (take (?m - n) (take ?p xs @ take n (drop (?p + n) xs) @ drop (?p + n) xs))) else Bad_memory)" if t: "?p + n < ?m"
  proof -
    have "pos + of_nat n < bp_size p" using t by (simp add: word_less_nat_alt s sz)
    moreover have "unat (bp_size p - of_nat n) = ?m - n" using t w sz by (subst unat_sub) (simp_all add: word_le_nat_alt)
    ultimately show ?thesis using t small
      by (simp add: bp_remove_def Let_def s(1) w memmove_def flip: xs_def) (auto simp: bp_resize_def)
  qed
  have c: "bp_remove junk 0 1 (Packet [1, 2, 3]) = Ok (Packet [2, 2])"
    by (simp add: bp_remove_def memmove_def bp_resize_def)
  have mid: "bp_insert junk pos data p = Ok (Packet (take ?p xs @ data @ drop ?p xs))" if "?m - ?p = n"
  proof -
    have "?m = ?p + n" using that small(3) by linarith
    then show ?thesis unfolding ins by (simp add: ly)
  qed
  have short: "bp_insert junk pos data p = Bad_memory" if "?m - ?p < n" unfolding ins using that by auto
  have gone: "bp_remove junk pos (of_nat n) p = Bad_memory" if "?p + n < ?m" "?m - ?p - n < n"
    using that by (simp add: rem)
  have half: "bp_remove junk pos (of_nat n) p = Ok (Packet (take ?p xs @ drop (?p + n) xs))" if "?p + n < ?m" "?m - ?p - n = n"
    using that by (simp add: rem)
  show ?thesis using mid short far gone half c by blast
qed

lemma binary_packet_insert_remove_witness:
  "bp_insert (\<lambda>_. 0) 3 [9, 9] (Packet [1, 2, 3, 4]) = Bad_memory \<and>
   bp_insert (\<lambda>_. 0) 2 [9, 9] (Packet [1, 2, 3, 4]) = Ok (Packet [1, 2, 9, 9, 3, 4]) \<and>
   bp_remove (\<lambda>_. 0) 1 2 (Packet [1, 2, 3, 4]) = Bad_memory"
  using binary_packet_insert_remove [of "Packet [1, 2, 3, 4]" "[9, 9]" 3 "\<lambda>_. 0"]
    binary_packet_insert_remove [of "Packet [1, 2, 3, 4]" "[9, 9]" 2 "\<lambda>_. 0"]
    binary_packet_insert_remove [of "Packet [1, 2, 3, 4]" "[9, 9]" 1 "\<lambda>_. 0"] by simp

end
