(* ===== verification/AudioBuffer.thy ===== *)
theory AudioBuffer
  imports Bytes Complex_Main "HOL-Library.Signed_Division"
begin

text \<open>
  The ring of decoded audio between the audio decoder thread and the audio player
  (mplayerxp/xmpcore/xmp_adecoder.cpp). The decoder moves \<open>head\<close>, the player \<open>tail\<close>; when the
  rest of the ring is too short for a decoder call the head goes back to the start and \<open>len\<close>
  remembers where the data ends. The fields keep the C types: \<open>to_unsigned\<close> and \<open>to_int\<close> are
  the conversions the code makes between them. The decoder is a function: None is a call that does
  not return, Some None one that uses memory that is not its own. Each function runs as a whole; a
  reader that has to wait for data gives control back and is resumed. Indices are never negative, so
  that their C remainder is \<open>mod\<close>.
\<close>

section \<open>State\<close>

definition to_unsigned :: "int \<Rightarrow> int" where
  "to_unsigned x = x mod 2 ^ 32"

definition to_int :: "int \<Rightarrow> int" where
  "to_int x = (x + 2 ^ 31) mod 2 ^ 32 - 2 ^ 31"

record audio_buffer_index =
  abi_pts :: rat \<comment> \<open>a float\<close>
  abi_index :: int

record audio_buffer =
  ab_buffer :: "u8 list"
  ab_head :: int
  ab_tail :: int
  ab_len :: int \<comment> \<open>unsigned\<close>
  ab_size :: int \<comment> \<open>unsigned\<close>
  ab_min_reserv :: int
  ab_min_len :: int
  ab_eof :: bool
  ab_HasReset :: bool
  ab_blocked_readers :: int
  ab_indices :: "audio_buffer_index list"
  ab_index_head :: int
  ab_index_tail :: int
  ab_index_len :: int

text \<open>The fields of \<open>sh_audio_t\<close> the ring uses.\<close>

record sh_audio =
  audio_out_minsize :: int \<comment> \<open>unsigned\<close>
  af_bps :: int \<comment> \<open>unsigned\<close>

definition ENOMEM :: int where "ENOMEM = 12"

text \<open>\<open>mem1\<close> and \<open>mem2\<close> say whether the two allocations succeed, \<open>junk\<close> what new memory holds.\<close>

definition init_audio_buffer :: "bool \<Rightarrow> bool \<Rightarrow> (nat \<Rightarrow> u8) \<Rightarrow> (nat \<Rightarrow> audio_buffer_index) \<Rightarrow> int \<Rightarrow> int \<Rightarrow> int \<Rightarrow>
    audio_buffer \<Rightarrow> int \<times> audio_buffer" where
  "init_audio_buffer mem1 mem2 junk junk_indices sz min_reserv indices ab =
     (if \<not> mem1 then (ENOMEM, ab\<lparr>ab_buffer := []\<rparr>)
      else if \<not> mem2 then (ENOMEM, ab\<lparr>ab_buffer := [], ab_indices := []\<rparr>)
      else (0, \<lparr>ab_buffer = map junk [0..<nat sz], ab_head = 0, ab_tail = 0, ab_len = to_unsigned sz,
        ab_size = to_unsigned sz, ab_min_reserv = min_reserv, ab_min_len = sz div indices + 1, ab_eof = False,
        ab_HasReset = False, ab_blocked_readers = 0, ab_indices = map junk_indices [0..<nat indices],
        ab_index_head = 0, ab_index_tail = 0, ab_index_len = indices\<rparr>))"

text \<open>What is left after a blocked reader has been woken, and after every thread has gone.\<close>

definition uninit_audio_buffer :: "audio_buffer \<Rightarrow> audio_buffer" where
  "uninit_audio_buffer ab = ab\<lparr>ab_eof := True, ab_index_len := 0, ab_index_head := 0, ab_index_tail := 0, ab_head := 0, ab_tail := 0,
     ab_len := 0, ab_size := 0, ab_min_reserv := 0, ab_min_len := 0, ab_HasReset := False, ab_blocked_readers := 0,
     ab_buffer := [], ab_indices := []\<rparr>"

definition reset_audio_buffer :: "audio_buffer \<Rightarrow> audio_buffer" where
  "reset_audio_buffer ab = ab\<lparr>ab_tail := ab_head ab, ab_len := ab_size ab, ab_eof := False, ab_HasReset := True,
     ab_index_tail := ab_index_head ab\<rparr>"

section \<open>The reader\<close>

text \<open>
  The loop of read_audio_buffer; \<open>out\<close> is what has been copied so far. True: the reader waits on
  the condition variable.
\<close>

partial_function (option) read_copy :: "int \<Rightarrow> int \<Rightarrow> u8 list \<Rightarrow> audio_buffer \<Rightarrow> (bool \<times> u8 list \<times> audio_buffer) option option" where
  "read_copy minlen maxlen out ab =
     (let len = int (length out); head = ab_head ab; tail = ab_tail ab in
      if \<not> len < minlen then Some (Some (False, out, ab))
      else if tail = head then
        if ab_eof ab then Some (Some (False, out, ab))
        else Some (Some (True, out, ab\<lparr>ab_blocked_readers := ab_blocked_readers ab + 1\<rparr>))
      else let l = min (to_int (maxlen - len)) (head - tail);
               k = (if l < 0 then to_int (min (to_unsigned (maxlen - len)) (to_unsigned (ab_len ab - tail))) else l)
        in if l < 0 \<and> k = 0 then read_copy minlen maxlen out (if head \<noteq> tail then ab\<lparr>ab_tail := 0\<rparr> else ab)
           else if tail < 0 \<or> k < 0 \<or> int (length (ab_buffer ab)) < tail + k then Some None
           else let t = tail + k in
             read_copy minlen maxlen (out @ take (nat k) (drop (nat tail) (ab_buffer ab)))
               (ab\<lparr>ab_tail := (if ab_len ab \<le> to_unsigned t \<and> t \<noteq> head then 0 else t)\<rparr>))"

text \<open>The reader is woken: after a reset it starts again.\<close>

definition wake_reader :: "u8 list \<Rightarrow> audio_buffer \<Rightarrow> u8 list \<times> audio_buffer" where
  "wake_reader out ab =
     (let ab = ab\<lparr>ab_blocked_readers := ab_blocked_readers ab - 1\<rparr>
      in if ab_HasReset ab then ([], ab\<lparr>ab_HasReset := False\<rparr>) else (out, ab))"

abbreviation index_at :: "audio_buffer \<Rightarrow> int \<Rightarrow> audio_buffer_index" where
  "index_at ab i \<equiv> ab_indices ab ! nat i"

text \<open>The index entries that lie in what has been read are passed over.\<close>

partial_function (option) skip_indices :: "audio_buffer \<Rightarrow> int \<Rightarrow> int \<Rightarrow> int option" where
  "skip_indices ab head_pos next =
     (if next \<noteq> ab_index_head ab \<and>
         ((ab_tail ab \<le> ab_head ab \<and>
           (abi_index (index_at ab next) \<le> ab_tail ab \<or> head_pos < abi_index (index_at ab next))) \<or>
          (ab_head ab < abi_index (index_at ab next) \<and> abi_index (index_at ab next) \<le> ab_tail ab))
      then skip_indices ab head_pos ((next + 1) mod ab_index_len ab) else Some next)"

text \<open>Where the search starts, and what it leaves: the entry of the first byte not read yet.\<close>

definition start_index :: "audio_buffer \<Rightarrow> int \<times> audio_buffer" where
  "start_index ab =
     (let next = (ab_index_tail ab + 1) mod ab_index_len ab
      in if next \<noteq> ab_index_head ab \<and> abi_index (index_at ab next) = abi_index (index_at ab (ab_index_tail ab))
         then ((next + 1) mod ab_index_len ab, ab\<lparr>ab_index_tail := next\<rparr>) else (next, ab))"

definition settle_index :: "sh_audio \<Rightarrow> int \<Rightarrow> audio_buffer \<Rightarrow> audio_buffer" where
  "settle_index sh next ab =
     (let t = (next - 1 + ab_index_len ab) mod ab_index_len ab; e = index_at ab t; tail = ab_tail ab; buff_len = to_int (ab_len ab)
      in if abi_index e \<noteq> tail
         then ab\<lparr>ab_index_tail := t, ab_indices := (ab_indices ab)[nat t := \<lparr>abi_pts = abi_pts e +
                of_int ((tail - abi_index e + buff_len) smod buff_len) / of_int (af_bps sh), abi_index = tail\<rparr>]\<rparr>
         else ab\<lparr>ab_index_tail := t\<rparr>)"

definition read_pts :: "sh_audio \<Rightarrow> audio_buffer \<Rightarrow> (rat \<times> audio_buffer) option" where
  "read_pts sh ab =
     (let n = ab_index_len ab; head_pos = abi_index (index_at ab ((ab_index_head ab - 1 + n) mod n));
          (next, ab) = start_index ab
      in case skip_indices ab head_pos next of None \<Rightarrow> None
         | Some next \<Rightarrow> Some (abi_pts (index_at ab (ab_index_tail ab)), settle_index sh next ab))"

datatype read_result = Waiting "u8 list" audio_buffer | Read "u8 list" "rat option" audio_buffer

text \<open>read_audio_buffer from where it stands: \<open>out\<close> is empty at the call.\<close>

definition read_audio_buffer :: "sh_audio \<Rightarrow> int \<Rightarrow> int \<Rightarrow> u8 list \<Rightarrow> audio_buffer \<Rightarrow> read_result option option" where
  "read_audio_buffer sh minlen maxlen out ab =
     (case read_copy minlen maxlen out ab of None \<Rightarrow> None
      | Some None \<Rightarrow> Some None
      | Some (Some (waits, out, ab)) \<Rightarrow>
          if waits then Some (Some (Waiting out ab))
          else if out = [] then Some (Some (Read out None ab))
          else (case read_pts sh ab of None \<Rightarrow> None
            | Some (pts, ab) \<Rightarrow> Some (Some (Read out (Some pts) ab))))"

definition get_len_audio_buffer :: "audio_buffer \<Rightarrow> int" where
  "get_len_audio_buffer ab =
     (let len = ab_head ab - ab_tail ab in if len < 0 then to_int (len + ab_len ab) else len)"

definition get_delay_audio_buffer :: "sh_audio \<Rightarrow> audio_buffer \<Rightarrow> rat" where
  "get_delay_audio_buffer sh ab =
     (let delay = ab_head ab - ab_tail ab; delay = (if delay < 0 then to_int (delay + ab_len ab) else delay)
      in of_int delay / of_int (af_bps sh))"

section \<open>The decoder\<close>

text \<open>
  A decoder call gets the least and the largest length wanted and the room in the buffer. It says
  which bytes it writes to the buffer, how many of them count, and their time stamp.
\<close>

type_synonym 'd decoder = "'d \<Rightarrow> int \<Rightarrow> int \<Rightarrow> int \<Rightarrow> (u8 list \<times> int \<times> rat \<times> 'd) option option"

definition push_index :: "rat \<Rightarrow> audio_buffer \<Rightarrow> audio_buffer" where
  "push_index pts ab =
     (let next = (ab_index_head ab + 1) mod ab_index_len ab
      in if next \<noteq> ab_index_tail ab
         then ab\<lparr>ab_indices := (ab_indices ab)[nat (ab_index_head ab) := \<lparr>abi_pts = pts, abi_index = ab_head ab\<rparr>],
                ab_index_head := next\<rparr>
         else ab)"

definition write_head :: "u8 list \<Rightarrow> audio_buffer \<Rightarrow> audio_buffer option" where
  "write_head bs ab = (if 0 \<le> ab_head ab \<and> ab_head ab + int (length bs) \<le> int (length (ab_buffer ab))
     then Some (ab\<lparr>ab_buffer := overwrite (ab_buffer ab) (nat (ab_head ab)) bs\<rparr>) else None)"

text \<open>The loop of decode_audio_buffer: \<open>ret\<close> is what the last call returned.\<close>

partial_function (option) decode_loop :: "'d decoder \<Rightarrow> int \<Rightarrow> int \<Rightarrow> int \<Rightarrow> int \<Rightarrow> int \<Rightarrow> int \<Rightarrow> audio_buffer \<Rightarrow> 'd \<Rightarrow>
    (int \<times> audio_buffer \<times> 'd) option option" where
  "decode_loop run minsize len l l2 ret blen ab d =
     (if \<not> (to_unsigned l < len \<and> minsize \<le> to_unsigned l2) then Some (Some (ret, ab, d))
      else case run d (to_unsigned (ab_min_len ab)) (to_unsigned l2) (to_unsigned blen) of None \<Rightarrow> None
        | Some None \<Rightarrow> Some None
        | Some (Some (bs, n, pts, d)) \<Rightarrow>
            (case write_head bs ab of None \<Rightarrow> Some None
             | Some ab \<Rightarrow>
                 let ret = to_int n in
                 if ret \<le> 0 then Some (Some (ret, ab, d))
                 else let ab = push_index pts ab; ab = ab\<lparr>ab_head := ab_head ab + ret\<rparr>
                   in decode_loop run minsize len (l + ret) (l2 - ret) ret (blen - ret) ab d))"

text \<open>Where decoding starts and how much is asked for; None: there is no room.\<close>

definition decode_room :: "int \<Rightarrow> int \<Rightarrow> audio_buffer \<Rightarrow> (int \<times> int) option \<times> audio_buffer" where
  "decode_room minsize len ab =
     (let len = (if len < minsize then minsize else len);
          wrap = (to_unsigned (ab_size ab - ab_head ab) \<le> to_unsigned (ab_min_reserv ab))
      in if wrap \<and> ab_tail ab = 0 then (None, ab)
         else let ab = (if wrap then ab\<lparr>ab_len := to_unsigned (ab_head ab), ab_head := 0\<rparr> else ab);
                  len = (if wrap then min len (to_unsigned (ab_tail ab - ab_head ab - ab_min_reserv ab)) else len)
           in if wrap \<and> len < minsize then (None, ab)
              else let blen = to_int (ab_size ab - ab_head ab);
                       l = to_unsigned (blen - ab_min_reserv ab);
                       len = (if l < len then max l minsize else len);
                       l = ab_tail ab - ab_head ab
                in if 0 < l
                   then let blen = l; l = to_unsigned (l - ab_min_reserv ab) in
                     if l < len then (if l < minsize then (None, ab) else (Some (l, blen), ab)) else (Some (len, blen), ab)
                   else (Some (len, blen), ab))"

text \<open>After the loop: the end of the data and the head.\<close>

definition settle_head :: "audio_buffer \<Rightarrow> audio_buffer" where
  "settle_head ab =
     (let ab = (if ab_len ab < to_unsigned (ab_head ab) then ab\<lparr>ab_len := to_unsigned (ab_head ab)\<rparr> else ab)
      in if ab_size ab \<le> to_unsigned (ab_head ab) \<and> 0 < ab_tail ab then ab\<lparr>ab_head := 0\<rparr> else ab)"

text \<open>\<open>at_eof\<close> is the end-of-file flag of the demuxer stream the decoder reads from.\<close>

definition decode_audio_buffer :: "int \<Rightarrow> 'd decoder \<Rightarrow> ('d \<Rightarrow> bool) \<Rightarrow> sh_audio \<Rightarrow> int \<Rightarrow> audio_buffer \<Rightarrow> 'd \<Rightarrow>
    (int \<times> audio_buffer \<times> 'd) option option" where
  "decode_audio_buffer max_outburst run at_eof sh len ab d =
     (case decode_room (audio_out_minsize sh) len ab of
        (None, ab) \<Rightarrow> Some (Some (0, ab, d))
      | (Some (len, blen), ab) \<Rightarrow>
          (case decode_loop run (audio_out_minsize sh) len 0 (to_int len) 0 blen ab d of None \<Rightarrow> None
           | Some None \<Rightarrow> Some None
           | Some (Some (ret, ab, d)) \<Rightarrow>
               if ret \<le> 0 \<and> at_eof d then Some (Some (0, ab\<lparr>ab_eof := True\<rparr>, d))
               else let ab = settle_head ab in Some (Some (if get_len_audio_buffer ab < max_outburst then 2 else 1, ab, d))))"

definition get_free_audio_buffer :: "audio_buffer \<Rightarrow> int \<times> audio_buffer" where
  "get_free_audio_buffer ab =
     (if ab_eof ab then (-1, ab)
      else let ab = (if to_unsigned (ab_size ab - ab_head ab) < to_unsigned (ab_min_reserv ab) \<and> 0 < ab_tail ab
                     then ab\<lparr>ab_len := to_unsigned (ab_head ab), ab_head := 0\<rparr> else ab);
               len = ab_tail ab - ab_head ab;
               len = (if len \<le> 0 then to_int (len + ab_size ab) else len) - ab_min_reserv ab
        in (if len \<le> 0 then 0 else len, ab))"

text \<open>
  One turn of the decoder thread. \<open>pref\<close> is None without video; with video it is how much audio
  goes with the decoded video, \<open>vbuf_size / fps * af_bps\<close> as an int. The first component of the result
  says whether the engine's end-of-file flag is set.
\<close>

definition xp_thread_decode_audio :: "int \<Rightarrow> 'd decoder \<Rightarrow> ('d \<Rightarrow> bool) \<Rightarrow> sh_audio \<Rightarrow> int option \<Rightarrow> audio_buffer \<Rightarrow> 'd \<Rightarrow>
    (bool \<times> int \<times> audio_buffer \<times> 'd) option option" where
  "xp_thread_decode_audio max_outburst run at_eof sh pref ab d =
     (let (free_buf, ab) = get_free_audio_buffer ab;
          decode = (\<lambda>len. map_option (map_option (Pair False)) (decode_audio_buffer max_outburst run at_eof sh (to_unsigned len) ab d))
      in if free_buf = -1 then Some (Some (True, 0, ab, d))
         else if free_buf < to_int (audio_out_minsize sh) then Some (Some (False, 0, ab, d))
         else let len = to_unsigned (get_len_audio_buffer ab) in
           if len < max_outburst then decode max_outburst
           else case pref of
               None \<Rightarrow> decode (min free_buf max_outburst)
             | Some p \<Rightarrow> let pref_buf = to_int (p - len) in
                 if 0 < pref_buf \<and> audio_out_minsize sh < min pref_buf free_buf then decode (min pref_buf free_buf)
                 else Some (Some (False, 0, ab, d)))"

declare read_copy.simps [code] skip_indices.simps [code] decode_loop.simps [code]

end
