(* ===== verification/AudioQueue.thy ===== *)
theory AudioQueue
  imports AudioBuffer
begin

text \<open>
  The ring of decoded audio as a queue of bytes: its invariant and content, that the reader takes
  bytes from the front and returns or waits on an empty ring, that a turn of the decoder thread
  appends what the decoder gives, and the situations in which the code breaks this.
\<close>

section \<open>Invariant\<close>

definition slice :: "int \<Rightarrow> int \<Rightarrow> u8 list \<Rightarrow> u8 list" where
  "slice lo hi bs = take (nat (hi - lo)) (drop (nat lo) bs)"

definition ab_content :: "audio_buffer \<Rightarrow> u8 list" where
  "ab_content ab = (if ab_tail ab \<le> ab_head ab then slice (ab_tail ab) (ab_head ab) (ab_buffer ab)
     else slice (ab_tail ab) (ab_len ab) (ab_buffer ab) @ slice 0 (ab_head ab) (ab_buffer ab))"

definition index_ok :: "audio_buffer \<Rightarrow> bool" where
  "index_ok ab \<longleftrightarrow> int (length (ab_indices ab)) = ab_index_len ab \<and> 0 \<le> ab_index_head ab \<and> ab_index_head ab < ab_index_len ab \<and>
     0 \<le> ab_index_tail ab \<and> ab_index_tail ab < ab_index_len ab"

definition ab_ok :: "audio_buffer \<Rightarrow> bool" where
  "ab_ok ab \<longleftrightarrow> 0 \<le> ab_head ab \<and> ab_head ab \<le> ab_size ab \<and> 0 \<le> ab_tail ab \<and> ab_tail ab \<le> ab_size ab \<and>
     0 \<le> ab_len ab \<and> ab_len ab \<le> ab_size ab \<and> ab_size ab < 2 ^ 30 \<and> int (length (ab_buffer ab)) = ab_size ab \<and>
     0 < ab_min_reserv ab \<and> ab_min_reserv ab < ab_size ab \<and>
     (if ab_tail ab \<le> ab_head ab then ab_head ab \<le> ab_len ab
      else ab_tail ab \<le> ab_len ab \<and> (ab_head ab = 0 \<or> ab_head ab + ab_min_reserv ab \<le> ab_tail ab)) \<and> index_ok ab"

text \<open>What neither side changes.\<close>

definition same_setup :: "audio_buffer \<Rightarrow> audio_buffer \<Rightarrow> bool" where
  "same_setup ab ab' \<longleftrightarrow> ab_size ab' = ab_size ab \<and> ab_min_reserv ab' = ab_min_reserv ab \<and> ab_min_len ab' = ab_min_len ab \<and>
     ab_HasReset ab' = ab_HasReset ab"

lemma same_setup_refl [simp]: "same_setup ab ab"
  by (simp add: same_setup_def)

lemma same_setup_trans: "same_setup ab ab1 \<Longrightarrow> same_setup ab1 ab2 \<Longrightarrow> same_setup ab ab2"
  by (simp add: same_setup_def)

lemma to_unsigned_id [simp]: "0 \<le> x \<Longrightarrow> x < 2 ^ 32 \<Longrightarrow> to_unsigned x = x"
  by (simp add: to_unsigned_def)

lemma to_int_id [simp]: "- (2 ^ 31) \<le> x \<Longrightarrow> x < 2 ^ 31 \<Longrightarrow> to_int x = x"
  by (simp add: to_int_def)

lemma slice_empty [simp]: "hi \<le> lo \<Longrightarrow> slice lo hi bs = []"
  by (simp add: slice_def)

lemma slice_split: "0 \<le> a \<Longrightarrow> a \<le> b \<Longrightarrow> b \<le> c \<Longrightarrow> slice a c bs = slice a b bs @ slice b c bs"
proof -
  assume a: "0 \<le> a" "a \<le> b" "b \<le> c"
  then have "nat (c - a) = nat (b - a) + nat (c - b)" "nat b = nat a + nat (b - a)" by auto
  then show ?thesis by (simp add: slice_def take_add add.commute)
qed

lemma length_slice: "0 \<le> a \<Longrightarrow> a \<le> b \<Longrightarrow> b \<le> int (length bs) \<Longrightarrow> length (slice a b bs) = nat (b - a)"
  by (auto simp: slice_def)

lemma slice_cong:
  assumes "0 \<le> a" "take (nat b) bs = take (nat b) cs"
  shows "slice a b bs = slice a b cs"
proof -
  have "nat (b - a) = nat b - nat a" using assms(1) by arith
  then have "slice a b xs = drop (nat a) (take (nat b) xs)" for xs by (simp add: slice_def drop_take)
  then show ?thesis by (simp add: assms(2))
qed

section \<open>Reading\<close>

text \<open>What the reader leaves alone.\<close>

definition reader_keeps :: "audio_buffer \<Rightarrow> audio_buffer \<Rightarrow> bool" where
  "reader_keeps ab ab' \<longleftrightarrow> ab'\<lparr>ab_tail := 0, ab_blocked_readers := 0\<rparr> = ab\<lparr>ab_tail := 0, ab_blocked_readers := 0\<rparr>"

lemma reader_keeps_refl: "reader_keeps ab ab" "reader_keeps ab (ab\<lparr>ab_tail := t\<rparr>)" "reader_keeps ab (ab\<lparr>ab_blocked_readers := t\<rparr>)"
  by (simp_all add: reader_keeps_def)

lemma reader_keeps_trans: "reader_keeps ab ab1 \<Longrightarrow> reader_keeps ab1 ab2 \<Longrightarrow> reader_keeps ab ab2"
  by (simp add: reader_keeps_def)

definition read_copy_post :: "int \<Rightarrow> int \<Rightarrow> u8 list \<Rightarrow> audio_buffer \<Rightarrow> bool \<Rightarrow> u8 list \<Rightarrow> audio_buffer \<Rightarrow> bool" where
  "read_copy_post minlen maxlen out ab waits out' ab' \<longleftrightarrow>
     ab_ok ab' \<and> out' @ ab_content ab' = out @ ab_content ab \<and> int (length out') \<le> maxlen \<and> reader_keeps ab ab' \<and>
     (if waits then int (length out') < minlen \<and> ab_content ab' = [] \<and> \<not> ab_eof ab
      else minlen \<le> int (length out') \<or> ab_content ab' = [] \<and> ab_eof ab)"


lemma read_step_linear:
  assumes ok: "ab_ok ab" and k: "0 < k" "k \<le> ab_head ab - ab_tail ab"
  defines "ab' \<equiv> ab\<lparr>ab_tail := ab_tail ab + k\<rparr>"
  shows "ab_ok ab'" "ab_content ab = slice (ab_tail ab) (ab_tail ab + k) (ab_buffer ab) @ ab_content ab'"
proof -
  have t: "0 \<le> ab_tail ab" "ab_tail ab + k \<le> ab_head ab" using ok k by (auto simp: ab_ok_def)
  then show "ab_ok ab'" using ok k(1) by (auto simp: ab_ok_def ab'_def index_ok_def split: if_splits)
  show "ab_content ab = slice (ab_tail ab) (ab_tail ab + k) (ab_buffer ab) @ ab_content ab'"
    using slice_split [of "ab_tail ab" "ab_tail ab + k" "ab_head ab" "ab_buffer ab"] t k(1) by (simp add: ab_content_def ab'_def)
qed

lemma read_step_wrapped:
  assumes ok: "ab_ok ab" and w: "ab_head ab < ab_tail ab" and k: "0 \<le> k" "k \<le> ab_len ab - ab_tail ab"
  defines "ab' \<equiv> ab\<lparr>ab_tail := (if ab_len ab \<le> ab_tail ab + k then 0 else ab_tail ab + k)\<rparr>"
  shows "ab_ok ab'" "ab_content ab = slice (ab_tail ab) (ab_tail ab + k) (ab_buffer ab) @ ab_content ab'"
proof -
  have t: "0 \<le> ab_tail ab" "ab_tail ab + k \<le> ab_len ab" "ab_tail ab \<le> ab_len ab" using ok k by (auto simp: ab_ok_def)
  then show "ab_ok ab'" using ok w k(1) by (auto simp: ab_ok_def ab'_def index_ok_def split: if_splits)
  have "ab_content ab = slice (ab_tail ab) (ab_tail ab + k) (ab_buffer ab) @ slice (ab_tail ab + k) (ab_len ab) (ab_buffer ab) @ slice 0 (ab_head ab) (ab_buffer ab)"
    using slice_split [of "ab_tail ab" "ab_tail ab + k" "ab_len ab" "ab_buffer ab"] t k(1) w by (simp add: ab_content_def)
  moreover have "ab_content ab' = slice (ab_tail ab + k) (ab_len ab) (ab_buffer ab) @ slice 0 (ab_head ab) (ab_buffer ab)"
    using t w k ok by (auto simp: ab_content_def ab'_def ab_ok_def)
  ultimately show "ab_content ab = slice (ab_tail ab) (ab_tail ab + k) (ab_buffer ab) @ ab_content ab'" by simp
qed

text \<open>One turn of the loop of read_audio_buffer.\<close>

lemma read_copy_linear:
  assumes ok: "ab_ok ab" and t: "ab_tail ab < ab_head ab" and m: "int (length out) < minlen" "minlen \<le> maxlen" "maxlen < 2 ^ 31"
  obtains k where "0 < k" "k \<le> ab_head ab - ab_tail ab" "int (length out) + k \<le> maxlen"
    "read_copy minlen maxlen out ab =
       read_copy minlen maxlen (out @ slice (ab_tail ab) (ab_tail ab + k) (ab_buffer ab)) (ab\<lparr>ab_tail := ab_tail ab + k\<rparr>)"
proof -
  define k where "k = min (maxlen - int (length out)) (ab_head ab - ab_tail ab)"
  have b: "0 \<le> ab_tail ab" "ab_head ab \<le> ab_len ab" "ab_head ab \<le> ab_size ab" "ab_size ab < 2 ^ 30" "int (length (ab_buffer ab)) = ab_size ab"
    using ok t by (auto simp: ab_ok_def)
  have k: "0 < k" "k \<le> ab_head ab - ab_tail ab" "int (length out) + k \<le> maxlen" using t m by (auto simp: k_def)
  have i: "to_int (maxlen - int (length out)) = maxlen - int (length out)" using m by (intro to_int_id) auto
  have u: "to_unsigned (ab_tail ab + k) = ab_tail ab + k" using k b by (intro to_unsigned_id) auto
  have "nat k = nat (ab_tail ab + k - ab_tail ab)" by simp
  then have "read_copy minlen maxlen out ab =
       read_copy minlen maxlen (out @ slice (ab_tail ab) (ab_tail ab + k) (ab_buffer ab)) (ab\<lparr>ab_tail := ab_tail ab + k\<rparr>)"
    using m(1) t k b by (subst read_copy.simps) (auto simp: Let_def i u slice_def simp flip: k_def)
  then show ?thesis using k that by blast
qed

lemma read_copy_wrapped:
  assumes ok: "ab_ok ab" and t: "ab_head ab < ab_tail ab" and m: "int (length out) < minlen" "minlen \<le> maxlen" "maxlen < 2 ^ 31"
  obtains k where "0 \<le> k" "k \<le> ab_len ab - ab_tail ab" "int (length out) + k \<le> maxlen" "k = 0 \<Longrightarrow> ab_tail ab = ab_len ab"
    "read_copy minlen maxlen out ab =
       read_copy minlen maxlen (out @ slice (ab_tail ab) (ab_tail ab + k) (ab_buffer ab))
         (ab\<lparr>ab_tail := (if ab_len ab \<le> ab_tail ab + k then 0 else ab_tail ab + k)\<rparr>)"
proof -
  define k where "k = min (maxlen - int (length out)) (ab_len ab - ab_tail ab)"
  have b: "0 \<le> ab_head ab" "ab_tail ab \<le> ab_len ab" "ab_len ab \<le> ab_size ab" "ab_size ab < 2 ^ 30" "int (length (ab_buffer ab)) = ab_size ab"
    using ok t by (auto simp: ab_ok_def)
  have k: "0 \<le> k" "k \<le> ab_len ab - ab_tail ab" "int (length out) + k \<le> maxlen" "k = 0 \<Longrightarrow> ab_tail ab = ab_len ab"
    using t m b by (auto simp: k_def)
  have i: "to_int (maxlen - int (length out)) = maxlen - int (length out)" "to_unsigned (maxlen - int (length out)) = maxlen - int (length out)"
    "to_unsigned (ab_len ab - ab_tail ab) = ab_len ab - ab_tail ab" using m b t by (intro to_int_id to_unsigned_id; auto)+
  have u: "to_unsigned (ab_tail ab + k) = ab_tail ab + k" "to_int k = k" using k b t by (intro to_unsigned_id to_int_id; auto)+
  have neg: "min (maxlen - int (length out)) (ab_head ab - ab_tail ab) < 0" using t by auto
  have "nat k = nat (ab_tail ab + k - ab_tail ab)" by simp
  then have "read_copy minlen maxlen out ab =
       read_copy minlen maxlen (out @ slice (ab_tail ab) (ab_tail ab + k) (ab_buffer ab))
         (ab\<lparr>ab_tail := (if ab_len ab \<le> ab_tail ab + k then 0 else ab_tail ab + k)\<rparr>)"
    using m(1) t k b neg by (subst read_copy.simps) (auto simp: Let_def i u slice_def simp flip: k_def)
  then show ?thesis using k that by blast
qed

lemma length_slice_pos: "ab_ok ab \<Longrightarrow> 0 < k \<Longrightarrow> ab_tail ab + k \<le> ab_size ab \<Longrightarrow> length (slice (ab_tail ab) (ab_tail ab + k) (ab_buffer ab)) = nat k"
  by (subst length_slice) (auto simp: ab_ok_def)

lemma set_blocked [simp]:
  "ab_content (ab\<lparr>ab_blocked_readers := n\<rparr>) = ab_content ab" "ab_ok (ab\<lparr>ab_blocked_readers := n\<rparr>) = ab_ok ab"
  by (simp_all add: ab_content_def ab_ok_def index_ok_def)

lemma read_copy_post_step:
  assumes "ab_content ab = bs @ ab_content ab1" "reader_keeps ab ab1" "read_copy_post minlen maxlen (out @ bs) ab1 w out' ab'"
  shows "read_copy_post minlen maxlen out ab w out' ab'"
proof -
  have "ab_eof ab1 = ab_eof ab" using assms(2) [unfolded reader_keeps_def, THEN arg_cong [where f = ab_eof]] by simp
  then show ?thesis using assms reader_keeps_trans [OF assms(2)] by (auto simp: read_copy_post_def split: if_splits)
qed

lemma read_copy_ok:
  assumes "ab_ok ab" "minlen \<le> maxlen" "maxlen < 2 ^ 31" "int (length out) \<le> maxlen"
  shows "\<exists>w out' ab'. read_copy minlen maxlen out ab = Some (Some (w, out', ab')) \<and> read_copy_post minlen maxlen out ab w out' ab'"
  using assms
proof (induction "length (ab_content ab) + (if ab_head ab < ab_tail ab then 1 else 0)" arbitrary: ab out rule: less_induct)
  case less
  consider (enough) "minlen \<le> int (length out)" | (empty) "int (length out) < minlen" "ab_tail ab = ab_head ab"
    | (linear) "int (length out) < minlen" "ab_tail ab < ab_head ab" | (wrapped) "int (length out) < minlen" "ab_head ab < ab_tail ab" by linarith
  then show ?case
  proof cases
    case enough
    then show ?thesis using less.prems by (subst read_copy.simps) (auto simp: read_copy_post_def reader_keeps_refl)
  next
    case empty
    then have e: "ab_content ab = []" by (simp add: ab_content_def)
    show ?thesis using empty less.prems e
      by (subst read_copy.simps) (auto simp: Let_def read_copy_post_def reader_keeps_refl)
  next
    case linear
    obtain k where k: "0 < k" "k \<le> ab_head ab - ab_tail ab" "int (length out) + k \<le> maxlen"
      "read_copy minlen maxlen out ab =
         read_copy minlen maxlen (out @ slice (ab_tail ab) (ab_tail ab + k) (ab_buffer ab)) (ab\<lparr>ab_tail := ab_tail ab + k\<rparr>)"
      by (rule read_copy_linear [OF less.prems(1) linear(2,1) less.prems(2,3)])
    note s = read_step_linear [OF less.prems(1) k(1,2)]
    have l: "length (slice (ab_tail ab) (ab_tail ab + k) (ab_buffer ab)) = nat k"
      using less.prems(1) k by (intro length_slice_pos) (auto simp: ab_ok_def)
    have "length (ab_content (ab\<lparr>ab_tail := ab_tail ab + k\<rparr>)) < length (ab_content ab)" using s(2) k(1) l by simp
    then show ?thesis
      using less.hyps [OF _ s(1) less.prems(2,3), of "out @ slice (ab_tail ab) (ab_tail ab + k) (ab_buffer ab)"]
        read_copy_post_step [OF s(2) reader_keeps_refl(2)] k l linear(2) by fastforce
  next
    case wrapped
    obtain k where k: "0 \<le> k" "k \<le> ab_len ab - ab_tail ab" "int (length out) + k \<le> maxlen" "k = 0 \<Longrightarrow> ab_tail ab = ab_len ab"
      "read_copy minlen maxlen out ab =
         read_copy minlen maxlen (out @ slice (ab_tail ab) (ab_tail ab + k) (ab_buffer ab))
           (ab\<lparr>ab_tail := (if ab_len ab \<le> ab_tail ab + k then 0 else ab_tail ab + k)\<rparr>)"
      by (rule read_copy_wrapped [OF less.prems(1) wrapped(2,1) less.prems(2,3)]) (rule that)
    define ab1 where "ab1 = ab\<lparr>ab_tail := (if ab_len ab \<le> ab_tail ab + k then 0 else ab_tail ab + k)\<rparr>"
    note s = read_step_wrapped [OF less.prems(1) wrapped(2) k(1,2), folded ab1_def]
    have b: "0 \<le> ab_head ab" "ab_len ab \<le> ab_size ab" using less.prems(1) by (auto simp: ab_ok_def)
    have l: "length (slice (ab_tail ab) (ab_tail ab + k) (ab_buffer ab)) = nat k"
      using length_slice_pos [OF less.prems(1), of k] k b(2) by (cases "k = 0") auto
    have "k = 0 \<Longrightarrow> \<not> ab_head ab1 < ab_tail ab1" using k(4) b by (simp add: ab1_def)
    then have "length (ab_content ab1) + (if ab_head ab1 < ab_tail ab1 then 1 else 0) < length (ab_content ab) + (if ab_head ab < ab_tail ab then 1 else 0)"
      using s(2) k(1) l wrapped(2) by (cases "k = 0") auto
    then show ?thesis
      using less.hyps [OF _ s(1) less.prems(2,3), of "out @ slice (ab_tail ab) (ab_tail ab + k) (ab_buffer ab)"]
        read_copy_post_step [OF s(2)] k(3,1,5) l by (fastforce simp: ab1_def reader_keeps_refl)
  qed
qed

lemma skip_indices_ok:
  assumes "index_ok ab" "0 \<le> next" "next < ab_index_len ab"
  shows "\<exists>i. skip_indices ab head_pos next = Some i \<and> 0 \<le> i \<and> i < ab_index_len ab"
  using assms(2,3)
proof (induction "nat ((ab_index_head ab - next) mod ab_index_len ab)" arbitrary: "next" rule: less_induct)
  case less
  let ?n = "ab_index_len ab"
  let ?d = "\<lambda>i. (ab_index_head ab - i) mod ?n"
  have h: "0 \<le> ab_index_head ab" "ab_index_head ab < ?n" using assms(1) by (auto simp: index_ok_def)
  have step: "nat (?d ((next + 1) mod ?n)) < nat (?d next)" if "next \<noteq> ab_index_head ab"
  proof -
    have "?d next \<noteq> 0"
    proof
      assume "?d next = 0"
      then have "ab_index_head ab mod ?n = next mod ?n" by (simp add: mod_eq_dvd_iff dvd_eq_mod_eq_0)
      then show False using that h less.prems by simp
    qed
    then have "0 < ?d next" using h by (simp add: order.not_eq_order_implies_strict)
    moreover have "?d ((next + 1) mod ?n) = (?d next - 1) mod ?n" by (simp add: mod_simps algebra_simps)
    moreover have "?d next < ?n" using h by simp
    then have "(?d next - 1) mod ?n = ?d next - 1" using calculation(1) by (intro mod_pos_pos_trivial) linarith+
    ultimately show ?thesis by simp
  qed
  have "0 \<le> (next + 1) mod ?n" "(next + 1) mod ?n < ?n" using h by simp_all
  from less.hyps [OF step this] less.prems show ?case by (subst skip_indices.simps) auto
qed

lemma set_index:
  assumes "ab_ok ab" "0 \<le> t" "t < ab_index_len ab"
  shows "ab_ok (ab\<lparr>ab_index_tail := t\<rparr>)" "ab_content (ab\<lparr>ab_index_tail := t\<rparr>) = ab_content ab" "same_setup ab (ab\<lparr>ab_index_tail := t\<rparr>)"
  using assms by (simp_all add: ab_ok_def index_ok_def ab_content_def same_setup_def)

lemma set_indices:
  assumes "ab_ok ab" "length xs = length (ab_indices ab)"
  shows "ab_ok (ab\<lparr>ab_indices := xs\<rparr>)" "ab_content (ab\<lparr>ab_indices := xs\<rparr>) = ab_content ab" "same_setup ab (ab\<lparr>ab_indices := xs\<rparr>)"
  using assms by (simp_all add: ab_ok_def index_ok_def ab_content_def same_setup_def)

lemma index_len_pos: "ab_ok ab \<Longrightarrow> 0 < ab_index_len ab \<and> int (length (ab_indices ab)) = ab_index_len ab"
  by (auto simp: ab_ok_def index_ok_def)

lemma start_index_ok:
  assumes "ab_ok ab" "start_index ab = (nx, ab')"
  shows "ab_ok ab' \<and> ab_content ab' = ab_content ab \<and> same_setup ab ab' \<and> 0 \<le> nx \<and> nx < ab_index_len ab'"
proof -
  let ?n = "ab_index_len ab"
  have n: "0 < ?n" using index_len_pos [OF assms(1)] by simp
  consider "nx = (ab_index_tail ab + 1) mod ?n" "ab' = ab"
    | "nx = ((ab_index_tail ab + 1) mod ?n + 1) mod ?n" "ab' = ab\<lparr>ab_index_tail := (ab_index_tail ab + 1) mod ?n\<rparr>"
    using assms(2) unfolding start_index_def Let_def by (metis prod.inject)
  then show ?thesis
    using assms(1) n set_index [OF assms(1), of "(ab_index_tail ab + 1) mod ?n"] by cases simp_all
qed

lemma settle_index_ok:
  assumes "ab_ok ab"
  shows "ab_ok (settle_index sh nx ab) \<and> ab_content (settle_index sh nx ab) = ab_content ab \<and> same_setup ab (settle_index sh nx ab)"
proof -
  define t where "t = (nx - 1 + ab_index_len ab) mod ab_index_len ab"
  have "0 \<le> t" "t < ab_index_len ab" using index_len_pos [OF assms] by (simp_all add: t_def)
  note s = set_index [OF assms this]
  obtain e where e: "settle_index sh nx ab =
      (if abi_index (index_at ab t) \<noteq> ab_tail ab then ab\<lparr>ab_index_tail := t, ab_indices := (ab_indices ab)[nat t := e]\<rparr> else ab\<lparr>ab_index_tail := t\<rparr>)"
    unfolding settle_index_def Let_def t_def by blast
  show ?thesis using s set_indices [OF s(1), of "(ab_indices ab)[nat t := e]"] by (auto simp: e intro: same_setup_trans)
qed

lemma read_pts_ok:
  assumes "ab_ok ab"
  shows "\<exists>pts ab'. read_pts sh ab = Some (pts, ab') \<and> ab_ok ab' \<and> ab_content ab' = ab_content ab \<and> same_setup ab ab'"
proof -
  obtain nx ab1 where s: "start_index ab = (nx, ab1)" by (cases "start_index ab")
  have a: "ab_ok ab1" "ab_content ab1 = ab_content ab" "0 \<le> nx" "nx < ab_index_len ab1" "same_setup ab ab1" using start_index_ok [OF assms s] by auto
  have "index_ok ab1" using a(1) by (simp add: ab_ok_def)
  from skip_indices_ok [OF this a(3,4)] obtain i
    where "skip_indices ab1 (abi_index (index_at ab ((ab_index_head ab - 1 + ab_index_len ab) mod ab_index_len ab))) nx = Some i" by blast
  then show ?thesis using settle_index_ok [OF a(1), of sh i] a(2) same_setup_trans [OF a(5)] unfolding read_pts_def Let_def s by simp
qed

definition read_post_ok :: "int \<Rightarrow> int \<Rightarrow> u8 list \<Rightarrow> audio_buffer \<Rightarrow> u8 list \<Rightarrow> audio_buffer \<Rightarrow> bool" where
  "read_post_ok minlen maxlen out ab out' ab' \<longleftrightarrow>
     int (length out') \<le> maxlen \<and> ab_ok ab' \<and> out' @ ab_content ab' = out @ ab_content ab \<and> same_setup ab ab'"

lemma read_audio_ok:
  assumes "ab_ok ab" "minlen \<le> maxlen" "maxlen < 2 ^ 31" "int (length out) \<le> maxlen"
  shows "\<exists>out' ab'. (read_audio_buffer sh minlen maxlen out ab = Some (Some (Waiting out' ab')) \<and>
        int (length out') < minlen \<and> \<not> ab_eof ab \<and> ab_content ab' = [] \<or>
      (\<exists>pts. read_audio_buffer sh minlen maxlen out ab = Some (Some (Read out' pts ab'))) \<and>
        (minlen \<le> int (length out') \<or> ab_eof ab \<and> ab_content ab' = [])) \<and>
      read_post_ok minlen maxlen out ab out' ab'"
proof -
  obtain w out1 ab1 where r: "read_copy minlen maxlen out ab = Some (Some (w, out1, ab1))" "read_copy_post minlen maxlen out ab w out1 ab1"
    using read_copy_ok [OF assms] by blast
  have s: "same_setup ab ab1"
  proof -
    have "ab1\<lparr>ab_tail := 0, ab_blocked_readers := 0\<rparr> = ab\<lparr>ab_tail := 0, ab_blocked_readers := 0\<rparr>"
      using r(2) by (simp add: read_copy_post_def reader_keeps_def)
    from this [THEN arg_cong [where f = "\<lambda>ab. (ab_size ab, ab_min_reserv ab, ab_min_len ab, ab_HasReset ab)"]] show ?thesis
      by (simp add: same_setup_def)
  qed
  have "ab_ok ab1" using r(2) by (simp add: read_copy_post_def)
  from read_pts_ok [OF this, of sh] obtain pts ab2
    where "read_pts sh ab1 = Some (pts, ab2)" "ab_ok ab2" "ab_content ab2 = ab_content ab1" "same_setup ab1 ab2" by blast
  then show ?thesis using r s same_setup_trans [OF s]
    by (cases w; cases "out1 = []") (auto simp: read_audio_buffer_def read_copy_post_def read_post_ok_def)
qed

section \<open>Decoding\<close>

text \<open>What a decoder promises the ring: it returns, and writes and counts no more than it was asked for.\<close>

locale audio_decoder =
  fixes run :: "'d decoder" and minsize min_len :: int and dinv :: "'d \<Rightarrow> bool"
  assumes run_returns: "dinv d \<Longrightarrow> minsize \<le> mx \<Longrightarrow> mx \<le> bl \<Longrightarrow> bl < 2 ^ 30 \<Longrightarrow>
      \<exists>bs n pts d'. run d min_len mx bl = Some (Some (bs, n, pts, d')) \<and> dinv d' \<and> 0 \<le> n \<and> n \<le> int (length bs) \<and> int (length bs) \<le> mx"
    and minsize_pos: "0 < minsize"
    and min_len_ok: "0 \<le> min_len" "min_len < 2 ^ 32"

text \<open>The bytes a run of decoder calls counts.\<close>

inductive dec_steps :: "'d decoder \<Rightarrow> int \<Rightarrow> 'd \<Rightarrow> u8 list \<Rightarrow> 'd \<Rightarrow> bool" for run min_len where
  none: "dec_steps run min_len d [] d"
| call: "run d min_len mx bl = Some (Some (bs, n, pts, d')) \<Longrightarrow> mx \<le> bl \<Longrightarrow> int (length bs) \<le> mx \<Longrightarrow> dec_steps run min_len d' data d'' \<Longrightarrow>
    dec_steps run min_len d (take (nat n) bs @ data) d''"

text \<open>What a decoder call leaves alone.\<close>

definition decoder_keeps :: "audio_buffer \<Rightarrow> audio_buffer \<Rightarrow> bool" where
  "decoder_keeps ab ab' \<longleftrightarrow> ab_tail ab' = ab_tail ab \<and> ab_len ab' = ab_len ab \<and> ab_size ab' = ab_size ab \<and>
     ab_min_reserv ab' = ab_min_reserv ab \<and> ab_min_len ab' = ab_min_len ab \<and> ab_eof ab' = ab_eof ab \<and>
     ab_HasReset ab' = ab_HasReset ab \<and> length (ab_buffer ab') = length (ab_buffer ab) \<and> (index_ok ab \<longrightarrow> index_ok ab')"

lemma decoder_keeps_trans: "decoder_keeps ab ab1 \<Longrightarrow> decoder_keeps ab1 ab2 \<Longrightarrow> decoder_keeps ab ab2"
  by (simp add: decoder_keeps_def)

text \<open>\<open>data\<close> is written at the head; up to \<open>room\<close> bytes behind the old head may change.\<close>

definition wrote :: "int \<Rightarrow> u8 list \<Rightarrow> audio_buffer \<Rightarrow> audio_buffer \<Rightarrow> bool" where
  "wrote room data ab ab' \<longleftrightarrow> decoder_keeps ab ab' \<and> ab_head ab' = ab_head ab + int (length data) \<and> int (length data) \<le> room \<and>
     take (nat (ab_head ab)) (ab_buffer ab') = take (nat (ab_head ab)) (ab_buffer ab) \<and>
     slice (ab_head ab) (ab_head ab') (ab_buffer ab') = data \<and>
     drop (nat (ab_head ab + room)) (ab_buffer ab') = drop (nat (ab_head ab + room)) (ab_buffer ab)"

lemma push_index_keeps:
  "decoder_keeps ab (push_index pts ab)" "ab_head (push_index pts ab) = ab_head ab" "ab_buffer (push_index pts ab) = ab_buffer ab"
  by (auto simp: push_index_def Let_def decoder_keeps_def index_ok_def)

lemma take_overwrite: "take n (overwrite xs n ys) = take n xs" if "n \<le> length xs"
  using that by (simp add: overwrite_def)

lemma drop_overwrite: "drop m (overwrite xs n ys) = drop m xs" if "n + length ys \<le> m" "n + length ys \<le> length xs"
  using that by (simp add: overwrite_def)

lemma slice_overwrite:
  assumes "n + length ys \<le> length xs" "k \<le> length ys"
  shows "slice (int n) (int n + int k) (overwrite xs n ys) = take k ys"
  using assms by (simp add: slice_def overwrite_def)

lemma wrote_trans:
  assumes "wrote room xs ab ab1" "wrote (room - int (length xs)) ys ab1 ab2" "0 \<le> ab_head ab"
  shows "wrote room (xs @ ys) ab ab2"
proof -
  let ?h = "ab_head ab" and ?h1 = "ab_head ab1"
  have h: "?h1 = ?h + int (length xs)" "ab_head ab2 = ?h1 + int (length ys)" using assms by (auto simp: wrote_def)
  have t: "take (nat ?h1) (ab_buffer ab2) = take (nat ?h1) (ab_buffer ab1)" using assms(2) by (simp add: wrote_def)
  have "slice ?h ?h1 (ab_buffer ab1) = xs" using assms(1) unfolding wrote_def by blast
  then have "slice ?h ?h1 (ab_buffer ab2) = xs" using slice_cong [OF assms(3) t] by simp
  moreover have "slice ?h1 (ab_head ab2) (ab_buffer ab2) = ys" using assms(2) unfolding wrote_def by blast
  ultimately have "slice ?h (ab_head ab2) (ab_buffer ab2) = xs @ ys"
    using slice_split [of ?h ?h1 "ab_head ab2" "ab_buffer ab2"] assms(3) h by simp
  moreover have "take (nat ?h) (ab_buffer ab2) = take (nat ?h) (ab_buffer ab)"
  proof -
    have "take (nat ?h) (take (nat ?h1) xs) = take (nat ?h) xs" for xs :: "u8 list" using h(1) by (simp add: min_absorb1)
    then show ?thesis using arg_cong [OF t, of "take (nat ?h)"] assms(1) by (simp add: wrote_def)
  qed
  ultimately show ?thesis using assms h decoder_keeps_trans [of ab ab1 ab2] by (auto simp: wrote_def algebra_simps)
qed

lemma wrote_call:
  assumes "0 \<le> ab_head ab" "ab_head ab + room \<le> int (length (ab_buffer ab))" "int (length bs) \<le> room" "n \<le> length bs"
  obtains ab1 where "write_head bs ab = Some ab1" "wrote room [] ab ab1"
    "wrote room (take n bs) ab ((push_index pts ab1)\<lparr>ab_head := ab_head ab + int n\<rparr>)" "ab_head ab1 = ab_head ab"
proof -
  let ?h = "nat (ab_head ab)"
  define ab1 where "ab1 = ab\<lparr>ab_buffer := overwrite (ab_buffer ab) ?h bs\<rparr>"
  have fit: "?h + length bs \<le> length (ab_buffer ab)" using assms by arith
  have w: "write_head bs ab = Some ab1" using assms by (simp add: write_head_def ab1_def)
  have buf: "length (ab_buffer ab1) = length (ab_buffer ab)" "take ?h (ab_buffer ab1) = take ?h (ab_buffer ab)"
    "drop (nat (ab_head ab + room)) (ab_buffer ab1) = drop (nat (ab_head ab + room)) (ab_buffer ab)"
    "slice (ab_head ab) (ab_head ab + int n) (ab_buffer ab1) = take n bs"
    using fit assms slice_overwrite [OF fit assms(4)] drop_overwrite [of ?h bs "nat (ab_head ab + room)" "ab_buffer ab"]
    by (simp_all add: ab1_def take_overwrite)
  have k: "decoder_keeps ab ab1" using buf(1) by (simp add: decoder_keeps_def ab1_def index_ok_def)
  have k2: "decoder_keeps ab ((push_index pts ab1)\<lparr>ab_head := ab_head ab + int n\<rparr>)"
    using decoder_keeps_trans [OF k push_index_keeps(1) [of ab1 pts]] by (simp add: decoder_keeps_def index_ok_def)
  have "ab_head ab1 = ab_head ab" by (simp add: ab1_def)
  then show ?thesis using w buf k k2 assms(3,4) by (intro that [of ab1]) (simp_all add: wrote_def push_index_keeps)
qed

context audio_decoder
begin

lemma decode_loop_ok:
  assumes "dinv d" "ab_min_len ab = min_len" "0 \<le> ab_head ab" "ab_head ab + blen \<le> int (length (ab_buffer ab))"
    "int (length (ab_buffer ab)) < 2 ^ 30" "0 \<le> l2" "l2 \<le> blen" "0 \<le> l" "l + l2 = len" "len < 2 ^ 30"
  shows "\<exists>ret ab' d' data. decode_loop run minsize len l l2 ret0 blen ab d = Some (Some (ret, ab', d')) \<and> dinv d' \<and>
    dec_steps run min_len d data d' \<and> wrote l2 data ab ab'"
  using assms
proof (induction "nat l2" arbitrary: l l2 ret0 blen ab d rule: less_induct)
  case less
  have u: "to_unsigned l = l" "to_unsigned l2 = l2" "to_unsigned blen = blen" "to_unsigned min_len = min_len"
    using less.prems min_len_ok by simp_all
  have nowrite: "wrote l2 [] ab ab" using less.prems by (simp add: wrote_def decoder_keeps_def)
  show ?case
  proof (cases "l < len \<and> minsize \<le> l2")
    case False
    then show ?thesis using nowrite less.prems(1) by (subst decode_loop.simps) (auto simp: u intro: dec_steps.none)
  next
    case True
    have "blen < 2 ^ 30" using less.prems by simp
    from run_returns [OF less.prems(1) conjunct2 [OF True] less.prems(7) this] obtain bs n pts d1
      where r: "run d min_len l2 blen = Some (Some (bs, n, pts, d1))" "dinv d1" "0 \<le> n" "n \<le> int (length bs)" "int (length bs) \<le> l2"
      by blast
    have rn: "to_int n = n" using r less.prems by (intro to_int_id) auto
    have fit: "ab_head ab + l2 \<le> int (length (ab_buffer ab))" using less.prems by simp
    obtain ab1 where w: "write_head bs ab = Some ab1" "wrote l2 [] ab ab1"
      "wrote l2 (take (nat n) bs) ab ((push_index pts ab1)\<lparr>ab_head := ab_head ab + int (nat n)\<rparr>)" "ab_head ab1 = ab_head ab"
      by (rule wrote_call [OF less.prems(3) fit r(5), of "nat n" pts]) (use r(4) in simp, rule that)
    note s = dec_steps.call [where run = run and min_len = min_len, OF r(1) less.prems(7) r(5)]
    show ?thesis
    proof (cases "n = 0")
      case True
      then show ?thesis using \<open>l < len \<and> minsize \<le> l2\<close> s [OF dec_steps.none] r w(1,2) less.prems(2)
        by (subst decode_loop.simps) (auto simp: u rn)
    next
      case False
      define ab2 where "ab2 = (push_index pts ab1)\<lparr>ab_head := ab_head ab + n\<rparr>"
      have w2: "wrote l2 (take (nat n) bs) ab ab2" using w(3) r(3) by (simp add: ab2_def)
      have len: "length (take (nat n) bs) = nat n" using r(4) by simp
      have b2: "ab_min_len ab2 = min_len" "ab_head ab2 = ab_head ab + n" "length (ab_buffer ab2) = length (ab_buffer ab)"
        using w2 less.prems(2) by (simp_all add: wrote_def decoder_keeps_def ab2_def)
      have "\<exists>ret ab' d' data. decode_loop run minsize len (l + n) (l2 - n) n (blen - n) ab2 d1 = Some (Some (ret, ab', d')) \<and> dinv d' \<and>
          dec_steps run min_len d1 data d' \<and> wrote (l2 - n) data ab2 ab'"
        using less.hyps [OF _ r(2) b2(1), of "l2 - n" "blen - n" "l + n" n] less.prems b2 r False by simp
      then obtain ret ab' d' data where i: "decode_loop run minsize len (l + n) (l2 - n) n (blen - n) ab2 d1 = Some (Some (ret, ab', d'))"
        "dinv d'" "dec_steps run min_len d1 data d'" "wrote (l2 - n) data ab2 ab'" by blast
      have "wrote l2 (take (nat n) bs @ data) ab ab'" using wrote_trans [OF w2 _ less.prems(3)] i(4) r(3) len by simp
      then show ?thesis using \<open>l < len \<and> minsize \<le> l2\<close> False r(1,3) i w(1,4) s [OF i(3)] less.prems(2)
        by (subst decode_loop.simps) (auto simp: u rn Let_def ab2_def push_index_keeps)
    qed
  qed
qed

end

abbreviation wrap_head :: "audio_buffer \<Rightarrow> audio_buffer" where
  "wrap_head ab \<equiv> ab\<lparr>ab_len := to_unsigned (ab_head ab), ab_head := 0\<rparr>"

lemma wrap_ok:
  assumes "ab_ok ab" "ab_tail ab \<le> ab_head ab" "0 < ab_tail ab"
  shows "ab_ok (wrap_head ab)" "ab_content (wrap_head ab) = ab_content ab" "to_unsigned (ab_head ab) = ab_head ab"
proof -
  show u: "to_unsigned (ab_head ab) = ab_head ab" using assms by (auto simp: ab_ok_def)
  show "ab_ok (wrap_head ab)" using assms by (auto simp: ab_ok_def index_ok_def u)
  show "ab_content (wrap_head ab) = ab_content ab" using assms by (simp add: ab_content_def u)
qed

text \<open>The room decode_audio_buffer found: it is free, and behind it the reserve is kept.\<close>

definition room_ok :: "int \<Rightarrow> int \<Rightarrow> audio_buffer \<Rightarrow> bool" where
  "room_ok len blen ab \<longleftrightarrow> 0 < len \<and> len \<le> blen \<and> ab_head ab + blen \<le> ab_size ab \<and>
     (ab_head ab < ab_tail ab \<longrightarrow> ab_head ab + len + ab_min_reserv ab \<le> ab_tail ab)"

lemma decode_room_wrapped:
  assumes ok: "ab_ok ab" and ms: "0 < minsize" "minsize \<le> ab_min_reserv ab" "0 \<le> len" "len < 2 ^ 32"
    and t: "ab_head ab < ab_tail ab" "ab_head ab + ab_min_reserv ab \<le> ab_tail ab" "ab_size ab - ab_head ab > ab_min_reserv ab"
  shows "case decode_room minsize len ab of (None, ab') \<Rightarrow> ab' = ab | (Some (n, blen), ab') \<Rightarrow> ab' = ab \<and> room_ok n blen ab"
proof -
  have b: "0 \<le> ab_head ab" "ab_tail ab \<le> ab_size ab" "ab_size ab < 2 ^ 30" "0 < ab_min_reserv ab" using ok by (auto simp: ab_ok_def)
  have u: "to_unsigned (ab_size ab - ab_head ab) = ab_size ab - ab_head ab" "to_unsigned (ab_min_reserv ab) = ab_min_reserv ab"
    "to_unsigned (ab_tail ab - ab_head ab - ab_min_reserv ab) = ab_tail ab - ab_head ab - ab_min_reserv ab"
    "to_int (ab_size ab - ab_head ab) = ab_size ab - ab_head ab"
    "to_unsigned (ab_size ab - ab_head ab - ab_min_reserv ab) = ab_size ab - ab_head ab - ab_min_reserv ab"
    using b t by simp_all
  show ?thesis using b t ms by (auto simp: decode_room_def Let_def u room_ok_def)
qed

lemma decode_room_linear:
  assumes ok: "ab_ok ab" and ms: "0 < minsize" "minsize \<le> ab_min_reserv ab" "0 \<le> len" "len < 2 ^ 32"
    and t: "ab_tail ab \<le> ab_head ab" "ab_size ab - ab_head ab > ab_min_reserv ab"
  shows "case decode_room minsize len ab of (None, ab') \<Rightarrow> ab' = ab | (Some (n, blen), ab') \<Rightarrow> ab' = ab \<and> room_ok n blen ab"
proof -
  have b: "0 \<le> ab_tail ab" "ab_head ab \<le> ab_size ab" "ab_size ab < 2 ^ 30" "0 < ab_min_reserv ab" using ok by (auto simp: ab_ok_def)
  have u: "to_unsigned (ab_size ab - ab_head ab) = ab_size ab - ab_head ab" "to_unsigned (ab_min_reserv ab) = ab_min_reserv ab"
    "to_int (ab_size ab - ab_head ab) = ab_size ab - ab_head ab"
    "to_unsigned (ab_size ab - ab_head ab - ab_min_reserv ab) = ab_size ab - ab_head ab - ab_min_reserv ab"
    using b t by simp_all
  show ?thesis using b t ms by (auto simp: decode_room_def Let_def u room_ok_def)
qed

lemma decode_room_full:
  assumes ok: "ab_ok ab" and ms: "0 < minsize" "minsize \<le> ab_min_reserv ab" "0 \<le> len" "len < 2 ^ 32"
    and t: "ab_tail ab \<le> ab_head ab" "ab_size ab - ab_head ab \<le> ab_min_reserv ab" "ab_tail ab = 0 \<or> ab_min_reserv ab \<le> ab_tail ab"
  shows "case decode_room minsize len ab of (None, ab') \<Rightarrow> ab' = ab \<or> 0 < ab_tail ab \<and> ab' = wrap_head ab
    | (Some (n, blen), ab') \<Rightarrow> 0 < ab_tail ab \<and> ab' = wrap_head ab \<and> room_ok n blen ab'"
proof -
  have b: "0 \<le> ab_tail ab" "ab_tail ab \<le> ab_size ab" "ab_head ab \<le> ab_size ab" "ab_size ab < 2 ^ 30" "0 < ab_min_reserv ab" "ab_min_reserv ab < ab_size ab"
    using ok by (auto simp: ab_ok_def)
  have u: "to_unsigned (ab_size ab - ab_head ab) = ab_size ab - ab_head ab" "to_unsigned (ab_min_reserv ab) = ab_min_reserv ab"
    "to_int (ab_size ab) = ab_size ab" "to_unsigned (ab_size ab - ab_min_reserv ab) = ab_size ab - ab_min_reserv ab"
    "ab_min_reserv ab \<le> ab_tail ab \<Longrightarrow> to_unsigned (ab_tail ab - ab_min_reserv ab) = ab_tail ab - ab_min_reserv ab"
    using b t by simp_all
  show ?thesis
  proof (cases "ab_tail ab = 0")
    case True
    then show ?thesis using t by (simp add: decode_room_def Let_def u)
  next
    case False
    then have "ab_min_reserv ab \<le> ab_tail ab" "0 < ab_tail ab" using t(3) b(1) by auto
    then show ?thesis using b t ms by (auto simp: decode_room_def Let_def u room_ok_def)
  qed
qed

definition ready :: "audio_buffer \<Rightarrow> bool" where
  "ready ab \<longleftrightarrow> (ab_head ab < ab_tail ab \<longrightarrow> ab_head ab + ab_min_reserv ab \<le> ab_tail ab \<and> ab_min_reserv ab < ab_size ab - ab_head ab) \<and>
     (ab_tail ab \<le> ab_head ab \<longrightarrow> ab_size ab - ab_head ab \<le> ab_min_reserv ab \<longrightarrow> ab_tail ab = 0 \<or> ab_min_reserv ab \<le> ab_tail ab)"

lemma decode_room_ok:
  assumes ok: "ab_ok ab" and ms: "0 < minsize" "minsize \<le> ab_min_reserv ab" "0 \<le> len" "len < 2 ^ 32" and "ready ab"
  obtains ab' where "ab_ok ab'" "ab_content ab' = ab_content ab" "same_setup ab ab'"
    "decode_room minsize len ab = (None, ab') \<or> (\<exists>n blen. decode_room minsize len ab = (Some (n, blen), ab') \<and> room_ok n blen ab')"
proof -
  obtain res ab' where d: "decode_room minsize len ab = (res, ab')" by (cases "decode_room minsize len ab")
  have "(ab' = ab \<or> ab_tail ab \<le> ab_head ab \<and> 0 < ab_tail ab \<and> ab' = wrap_head ab) \<and> (case res of None \<Rightarrow> True | Some (n, blen) \<Rightarrow> room_ok n blen ab')"
  proof (cases "ab_head ab < ab_tail ab")
    case True
    then show ?thesis using decode_room_wrapped [OF ok ms] assms(6) d by (auto simp: ready_def split: option.splits prod.splits)
  next
    case False
    then show ?thesis using decode_room_linear [OF ok ms] decode_room_full [OF ok ms] assms(6) d
      by (cases "ab_size ab - ab_head ab > ab_min_reserv ab") (auto simp: ready_def split: option.splits prod.splits)
  qed
  then show ?thesis using wrap_ok [OF ok] ok d by (intro that [of ab']) (auto simp: same_setup_def split: option.splits)
qed

lemma slice_drop_cong:
  assumes "0 \<le> c" "c \<le> a" "drop (nat c) bs = drop (nat c) cs"
  shows "slice a b bs = slice a b cs"
proof -
  have "nat a = nat c + (nat a - nat c)" using assms by simp
  then have "drop (nat a) bs = drop (nat a) cs" using assms(3) by (metis add.commute drop_drop)
  then show ?thesis by (simp add: slice_def)
qed

lemma decoded_content:
  assumes ok: "ab_ok ab" and r: "room_ok n blen ab" and w: "wrote n data ab ab'"
  shows "ab_content ab' = ab_content ab @ data"
proof -
  note k = w [unfolded wrote_def decoder_keeps_def]
  have h: "0 \<le> ab_head ab" "0 \<le> ab_tail ab" "ab_head ab' = ab_head ab + int (length data)" using ok k by (auto simp: ab_ok_def)
  have new: "slice a (ab_head ab') (ab_buffer ab') = slice a (ab_head ab) (ab_buffer ab) @ data" if "0 \<le> a" "a \<le> ab_head ab" for a
  proof -
    have "slice a (ab_head ab) (ab_buffer ab') = slice a (ab_head ab) (ab_buffer ab)" by (rule slice_cong) (use that k in auto)
    moreover have "slice (ab_head ab) (ab_head ab') (ab_buffer ab') = data" using k by blast
    ultimately show ?thesis using slice_split [of a "ab_head ab" "ab_head ab'" "ab_buffer ab'"] that h(3) by simp
  qed
  show ?thesis
  proof (cases "ab_tail ab \<le> ab_head ab")
    case True
    then show ?thesis using new [of "ab_tail ab"] h k by (simp add: ab_content_def)
  next
    case False
    then have b: "ab_head ab + n + ab_min_reserv ab \<le> ab_tail ab" "0 < ab_min_reserv ab" using r ok by (auto simp: room_ok_def ab_ok_def)
    then have "ab_head ab' < ab_tail ab" using k by auto
    moreover have "slice (ab_tail ab) (ab_len ab) (ab_buffer ab') = slice (ab_tail ab) (ab_len ab) (ab_buffer ab)"
      by (rule slice_drop_cong [of "ab_head ab + n"]) (use k h b r in \<open>auto simp: room_ok_def\<close>)
    ultimately show ?thesis using False new [of 0] h k by (simp add: ab_content_def)
  qed
qed

lemma decoded_ok:
  assumes ok: "ab_ok ab" and r: "room_ok n blen ab" and w: "wrote n data ab ab'"
  shows "ab_ok (settle_head ab')" "ab_content (settle_head ab') = ab_content ab'" "ab_ok ab' \<or> ab_len ab' < ab_head ab'"
proof -
  note k = w [unfolded wrote_def decoder_keeps_def]
  have h: "0 \<le> ab_head ab'" "ab_head ab' \<le> ab_size ab'" "0 \<le> ab_tail ab'" "ab_tail ab' \<le> ab_size ab'" "ab_size ab' < 2 ^ 30"
    "0 \<le> ab_len ab'" "ab_len ab' \<le> ab_size ab'" "int (length (ab_buffer ab')) = ab_size ab'" "0 < ab_min_reserv ab'" "ab_min_reserv ab' < ab_size ab'"
    "index_ok ab'" "ab_head ab' < ab_tail ab' \<Longrightarrow> ab_tail ab' \<le> ab_len ab' \<and> ab_head ab' + ab_min_reserv ab' \<le> ab_tail ab'"
    using k ok r by (auto simp: ab_ok_def room_ok_def split: if_splits)
  have u: "to_unsigned (ab_head ab') = ab_head ab'" using h by simp
  show "ab_ok ab' \<or> ab_len ab' < ab_head ab'" using h by (auto simp: ab_ok_def)
  have "ab_ok (settle_head ab') \<and> ab_content (settle_head ab') = ab_content ab'"
  proof (cases "ab_head ab' < ab_tail ab'")
    case True
    then have "settle_head ab' = ab'" using h u by (auto simp: settle_head_def Let_def)
    then show ?thesis using h True by (auto simp: ab_ok_def)
  next
    case False
    then show ?thesis using h by (auto simp: settle_head_def Let_def u ab_ok_def index_ok_def ab_content_def)
  qed
  then show "ab_ok (settle_head ab')" "ab_content (settle_head ab') = ab_content ab'" by auto
qed

context audio_decoder
begin

lemma decode_audio_ok:
  assumes ok: "ab_ok ab" and sh: "audio_out_minsize sh = minsize" "minsize \<le> ab_min_reserv ab" "ab_min_len ab = min_len"
    and len: "0 \<le> len" "len < 2 ^ 32" and "ready ab" "dinv d"
  shows "\<exists>r ab' d' data. decode_audio_buffer mo run at_eof sh len ab d = Some (Some (r, ab', d')) \<and> dinv d' \<and>
    dec_steps run min_len d data d' \<and> ab_content ab' = ab_content ab @ data \<and> same_setup ab ab' \<and>
    (ab_ok ab' \<or> ab_eof ab' \<and> ab_len ab' < ab_head ab')"
proof -
  obtain ab1 where ab1: "ab_ok ab1" "ab_content ab1 = ab_content ab" "same_setup ab ab1"
    "decode_room minsize len ab = (None, ab1) \<or> (\<exists>n blen. decode_room minsize len ab = (Some (n, blen), ab1) \<and> room_ok n blen ab1)"
    by (rule decode_room_ok [OF ok minsize_pos sh(2) len assms(7)])
  have m1: "ab_min_len ab1 = min_len" using ab1(3) sh(3) by (simp add: same_setup_def)
  from ab1(4) show ?thesis
  proof (elim disjE exE conjE)
    assume "decode_room minsize len ab = (None, ab1)"
    then show ?thesis using ab1 assms(8) by (auto simp: decode_audio_buffer_def sh(1) intro: dec_steps.none)
  next
    fix n blen
    assume d: "decode_room minsize len ab = (Some (n, blen), ab1)" "room_ok n blen ab1"
    have b: "0 \<le> ab_head ab1" "int (length (ab_buffer ab1)) = ab_size ab1" "ab_size ab1 < 2 ^ 30" using ab1(1) by (auto simp: ab_ok_def)
    have r: "0 < n" "n \<le> blen" "ab_head ab1 + blen \<le> ab_size ab1" using d(2) by (auto simp: room_ok_def)
    then have n: "n < 2 ^ 30" "to_int n = n" using b by auto
    obtain ret ab2 d2 data where l: "decode_loop run minsize n 0 n 0 blen ab1 d = Some (Some (ret, ab2, d2))" "dinv d2"
      "dec_steps run min_len d data d2" "wrote n data ab1 ab2"
      using decode_loop_ok [OF assms(8) m1 b(1), of blen n 0 n 0] b r n(1) by auto
    note c = decoded_content [OF ab1(1) d(2) l(4)] and o = decoded_ok [OF ab1(1) d(2) l(4)]
    have s2: "same_setup ab ab2" using l(4) ab1(3) by (simp add: wrote_def decoder_keeps_def same_setup_def)
    then have s: "same_setup ab (settle_head ab2)" "same_setup ab (ab2\<lparr>ab_eof := True\<rparr>)"
      by (auto simp: settle_head_def Let_def same_setup_def)
    have e: "ab_content (ab2\<lparr>ab_eof := True\<rparr>) = ab_content ab2" "ab_ok (ab2\<lparr>ab_eof := True\<rparr>) = ab_ok ab2"
      by (simp_all add: ab_content_def ab_ok_def index_ok_def)
    show ?thesis using d(1) l(1-3) c o ab1(2) e s by (auto simp: decode_audio_buffer_def sh(1) n(2) Let_def)
  qed
qed

end

lemma get_free_ok:
  assumes ok: "ab_ok ab"
    and corner: "\<not> (ab_size ab - ab_head ab = ab_min_reserv ab \<and> ab_tail ab \<le> ab_head ab \<and> 0 < ab_tail ab \<and> ab_tail ab < ab_min_reserv ab)"
  obtains f ab' where "get_free_audio_buffer ab = (f, ab')" "ab_ok ab'" "ab_content ab' = ab_content ab" "0 < f \<Longrightarrow> ready ab'"
    "same_setup ab ab'" "f < 2 ^ 30"
proof -
  have b: "0 \<le> ab_tail ab" "0 \<le> ab_head ab" "ab_tail ab \<le> ab_size ab" "ab_head ab \<le> ab_size ab" "ab_size ab < 2 ^ 30" "0 < ab_min_reserv ab" "ab_min_reserv ab < ab_size ab"
    "ab_head ab < ab_tail ab \<Longrightarrow> ab_head ab = 0 \<or> ab_head ab + ab_min_reserv ab \<le> ab_tail ab"
    using ok by (auto simp: ab_ok_def split: if_splits)
  have u: "to_unsigned (ab_size ab - ab_head ab) = ab_size ab - ab_head ab" "to_unsigned (ab_min_reserv ab) = ab_min_reserv ab"
    "to_int (ab_tail ab - ab_head ab + ab_size ab) = ab_tail ab - ab_head ab + ab_size ab" if "ab_tail ab \<le> ab_head ab \<or> True"
    using b by (auto intro!: to_int_id)
  consider (eof) "ab_eof ab" | (wrap) "\<not> ab_eof ab" "ab_size ab - ab_head ab < ab_min_reserv ab" "0 < ab_tail ab"
    | (stay) "\<not> ab_eof ab" "\<not> (ab_size ab - ab_head ab < ab_min_reserv ab \<and> 0 < ab_tail ab)" by blast
  then show ?thesis
  proof cases
    case eof
    then show ?thesis using ok by (intro that [of "-1" ab]) (simp_all add: get_free_audio_buffer_def)
  next
    case wrap
    then have t: "ab_tail ab \<le> ab_head ab" using b by (cases "ab_head ab < ab_tail ab") auto
    note w = wrap_ok [OF ok t wrap(3)]
    have "get_free_audio_buffer ab = (if ab_tail ab - ab_min_reserv ab \<le> 0 then 0 else ab_tail ab - ab_min_reserv ab, wrap_head ab)"
      using wrap u b by (simp add: get_free_audio_buffer_def Let_def)
    then show ?thesis using w b by (intro that [of "if ab_tail ab - ab_min_reserv ab \<le> 0 then 0 else ab_tail ab - ab_min_reserv ab" "wrap_head ab"]) (auto simp: ready_def same_setup_def split: if_splits)
  next
    case stay
    let ?l = "ab_tail ab - ab_head ab"
    let ?f = "(if ?l \<le> 0 then ?l + ab_size ab else ?l) - ab_min_reserv ab"
    have "get_free_audio_buffer ab = (if ?f \<le> 0 then 0 else ?f, ab)"
      using stay u b by (auto simp: get_free_audio_buffer_def Let_def)
    moreover have "ready ab" if "0 < ?f" using that stay(2) b corner by (auto simp: ready_def split: if_splits)
    ultimately show ?thesis using ok b by (intro that [of "if ?f \<le> 0 then 0 else ?f" ab]) (auto split: if_splits)
  qed
qed

context audio_decoder
begin

lemma to_unsigned_range: "0 \<le> to_unsigned x" "to_unsigned x < 2 ^ 32"
  by (simp_all add: to_unsigned_def)

lemma xp_thread_ok:
  assumes ok: "ab_ok ab" and sh: "audio_out_minsize sh = minsize" "minsize \<le> ab_min_reserv ab" "ab_min_len ab = min_len" and "dinv d"
    and corner: "\<not> (ab_size ab - ab_head ab = ab_min_reserv ab \<and> ab_tail ab \<le> ab_head ab \<and> 0 < ab_tail ab \<and> ab_tail ab < ab_min_reserv ab)"
  shows "\<exists>fin r ab' d' data. xp_thread_decode_audio mo run at_eof sh pref ab d = Some (Some (fin, r, ab', d')) \<and> dinv d' \<and>
    dec_steps run min_len d data d' \<and> ab_content ab' = ab_content ab @ data \<and> same_setup ab ab' \<and>
    (ab_ok ab' \<or> ab_eof ab' \<and> ab_len ab' < ab_head ab')"
proof -
  obtain f ab1 where f: "get_free_audio_buffer ab = (f, ab1)" "ab_ok ab1" "ab_content ab1 = ab_content ab" "0 < f \<Longrightarrow> ready ab1"
    "same_setup ab ab1" "f < 2 ^ 30"
    by (rule get_free_ok [OF ok corner]) (rule that)
  have m1: "ab_min_len ab1 = min_len" "ab_min_reserv ab1 = ab_min_reserv ab" using f(5) sh(3) by (simp_all add: same_setup_def)
  have ms: "to_int minsize = minsize" using ok sh(2) minsize_pos by (intro to_int_id) (auto simp: ab_ok_def)
  have dec: "\<exists>fin r ab' d' data. map_option (map_option (Pair False)) (decode_audio_buffer mo run at_eof sh (to_unsigned l) ab1 d) =
      Some (Some (fin, r, ab', d')) \<and> dinv d' \<and> dec_steps run min_len d data d' \<and> ab_content ab' = ab_content ab @ data \<and> same_setup ab ab' \<and>
      (ab_ok ab' \<or> ab_eof ab' \<and> ab_len ab' < ab_head ab')" if "minsize \<le> f" for l
    using decode_audio_ok [OF f(2) sh(1) _ m1(1) to_unsigned_range f(4) assms(5), of mo at_eof l] f(3) same_setup_trans [OF f(5)] m1(2) sh(2) that minsize_pos
    by fastforce
  have idle: "dec_steps run min_len d [] d" by (rule dec_steps.none)
  consider (eof) "f = -1" | (full) "f \<noteq> -1" "f < minsize" | (room) "f \<noteq> -1" "minsize \<le> f" by linarith
  then show ?thesis
  proof cases
    case room
    have "xp_thread_decode_audio mo run at_eof sh pref ab d = Some (Some (False, 0, ab1, d)) \<or>
        (\<exists>l. xp_thread_decode_audio mo run at_eof sh pref ab d = map_option (map_option (Pair False)) (decode_audio_buffer mo run at_eof sh (to_unsigned l) ab1 d))"
      using room by (auto simp: xp_thread_decode_audio_def f(1) Let_def sh(1) ms split: option.splits)
    then show ?thesis
    proof (elim disjE exE)
      assume "xp_thread_decode_audio mo run at_eof sh pref ab d = Some (Some (False, 0, ab1, d))"
      then show ?thesis using f(2,3,5) idle assms(5) by auto
    next
      fix l
      assume "xp_thread_decode_audio mo run at_eof sh pref ab d = map_option (map_option (Pair False)) (decode_audio_buffer mo run at_eof sh (to_unsigned l) ab1 d)"
      then show ?thesis using dec [OF room(2), of l] by simp
    qed
  qed (use f idle assms(5) in \<open>auto simp: xp_thread_decode_audio_def sh(1) ms\<close>)
qed

end

section \<open>Examples\<close>

text \<open>A decoder that hands out the bytes of a list, and rings and readers for the examples.\<close>

definition feed :: "u8 list decoder" where
  "feed d mn mx bl = (let n = min (nat mx) (min (nat bl) (length d)) in Some (Some (take n d, int n, 0, drop n d)))"

interpretation feed: audio_decoder feed 1 1 "\<lambda>_. True"
  by unfold_locales (auto simp: feed_def Let_def)

definition ring_at :: "u8 list \<Rightarrow> int \<Rightarrow> int \<Rightarrow> int \<Rightarrow> int \<Rightarrow> audio_buffer" where
  "ring_at bytes tail head len min_reserv = \<lparr>ab_buffer = bytes, ab_head = head, ab_tail = tail, ab_len = len, ab_size = int (length bytes),
     ab_min_reserv = min_reserv, ab_min_len = 1, ab_eof = False, ab_HasReset = False, ab_blocked_readers = 0,
     ab_indices = replicate 4 \<lparr>abi_pts = 0, abi_index = 0\<rparr>, ab_index_head = 0, ab_index_tail = 0, ab_index_len = 4\<rparr>"

abbreviation example_sh :: sh_audio where "example_sh \<equiv> \<lparr>audio_out_minsize = 1, af_bps = 1\<rparr>"

section \<open>Properties\<close>

text \<open>C10: reading from the ring takes bytes from the front of a queue: the call returns, with at least the
  bytes asked for, or at the end of file with all that is left, or it waits, holding all there was; no
  byte is lost, repeated or reordered, across the wrap-around as well, and the ring stays well formed.\<close>

theorem audio_read_takes_from_queue:
  assumes "ab_ok ab" "minlen \<le> maxlen" "maxlen < 2 ^ 31" "int (length out) \<le> maxlen"
  shows "(\<exists>out' ab'. (read_audio_buffer sh minlen maxlen out ab = Some (Some (Waiting out' ab')) \<and>
        int (length out') < minlen \<and> \<not> ab_eof ab \<and> ab_content ab' = [] \<or>
      (\<exists>pts. read_audio_buffer sh minlen maxlen out ab = Some (Some (Read out' pts ab'))) \<and>
        (minlen \<le> int (length out') \<or> ab_eof ab \<and> ab_content ab' = [])) \<and>
      int (length out') \<le> maxlen \<and> ab_ok ab' \<and> out' @ ab_content ab' = out @ ab_content ab)"
  using read_audio_ok [OF assms, of sh] unfolding read_post_ok_def by blast

lemma audio_read_takes_from_queue_witness:
  "\<exists>out ab'. out @ ab_content ab' = ab_content (ring_at [1, 2, 3, 4, 5, 6, 7, 8] 2 5 8 3) \<and> int (length out) \<le> 2 \<and> ab_ok ab' \<and>
    (\<exists>pts. read_audio_buffer example_sh 2 2 [] (ring_at [1, 2, 3, 4, 5, 6, 7, 8] 2 5 8 3) = Some (Some (Read out pts ab')))"
proof -
  have "ab_ok (ring_at [1, 2, 3, 4, 5, 6, 7, 8] 2 5 8 3)" by (simp add: ab_ok_def index_ok_def ring_at_def)
  moreover have "ab_content (ring_at [1, 2, 3, 4, 5, 6, 7, 8] 2 5 8 3) = [3, 4, 5]" by code_simp
  ultimately show ?thesis
    using audio_read_takes_from_queue [of "ring_at [1, 2, 3, 4, 5, 6, 7, 8] 2 5 8 3" 2 2 "[]" example_sh] by fastforce
qed

text \<open>C11: with any decoder that writes no more than it is asked for, a turn of the decoder thread returns,
  uses no memory outside the ring, and appends to the ring exactly the bytes the decoder calls give, past a
  wrap-around as well. Left out is a ring with exactly the reserve behind the head and fewer bytes than
  it before the tail, and the ring is not well formed afterwards only when the file ends beyond an old end of data.\<close>

theorem audio_decode_appends:
  assumes "audio_decoder run minsize min_len dinv" "ab_ok ab" "audio_out_minsize sh = minsize" "minsize \<le> ab_min_reserv ab"
    "ab_min_len ab = min_len" "dinv d"
    "\<not> (ab_size ab - ab_head ab = ab_min_reserv ab \<and> ab_tail ab \<le> ab_head ab \<and> 0 < ab_tail ab \<and> ab_tail ab < ab_min_reserv ab)"
  shows "\<exists>fin r ab' d' data. xp_thread_decode_audio mo run at_eof sh pref ab d = Some (Some (fin, r, ab', d')) \<and> dinv d' \<and>
    dec_steps run min_len d data d' \<and> ab_content ab' = ab_content ab @ data \<and>
    (ab_ok ab' \<or> ab_eof ab' \<and> ab_len ab' < ab_head ab')"
  using audio_decoder.xp_thread_ok [OF assms] by blast

lemma audio_decode_appends_witness:
  "\<exists>fin r ab' d' data. xp_thread_decode_audio 9 feed (\<lambda>_. False) example_sh None (ring_at [1, 2, 3, 4, 5, 6, 7, 8] 2 6 8 3) [11] =
    Some (Some (fin, r, ab', d')) \<and> ab_content ab' = [3, 4, 5, 6] @ data"
proof -
  have "ab_ok (ring_at [1, 2, 3, 4, 5, 6, 7, 8] 2 6 8 3)" by (simp add: ab_ok_def index_ok_def ring_at_def)
  moreover have "ab_content (ring_at [1, 2, 3, 4, 5, 6, 7, 8] 2 6 8 3) = [3, 4, 5, 6]" by code_simp
  moreover have "audio_out_minsize example_sh = 1" by simp
  ultimately show ?thesis
    using audio_decode_appends [OF feed.audio_decoder_axioms, where ab = "ring_at [1, 2, 3, 4, 5, 6, 7, 8] 2 6 8 3" and sh = example_sh
        and d = "[11]" and mo = 9 and at_eof = "\<lambda>_. False" and pref = None]
    by (fastforce simp: ring_at_def)
qed

section \<open>Where it breaks\<close>

text \<open>
  A read that ends behind \<open>len\<close> and before the head gets its bytes, but the next one begins at the start of the ring again. Such a ring
  is left by a turn that meets the end of the file after it has gone past an old end of the data (\<open>len\<close> is not moved then), and it is there inside every turn
  that goes past an old end, from the call of the decoder to the end of the turn.
\<close>

lemma read_past_end_jumps:
  assumes "0 \<le> ab_tail ab" "0 < k" "ab_len ab \<le> ab_tail ab + k" "ab_tail ab + k < ab_head ab" "ab_head ab \<le> int (length (ab_buffer ab))" "ab_head ab < 2 ^ 31"
  shows "read_copy k k [] ab = Some (Some (False, slice (ab_tail ab) (ab_tail ab + k) (ab_buffer ab), ab\<lparr>ab_tail := 0\<rparr>))"
proof -
  have k: "to_int k = k" "min k (ab_head ab - ab_tail ab) = k" using assms by simp_all
  have l: "length (take (nat k) (drop (nat (ab_tail ab)) (ab_buffer ab))) = nat k" using assms by simp
  have u: "to_unsigned (ab_tail ab + k) = ab_tail ab + k" using assms by simp
  have "read_copy k k [] ab = read_copy k k (take (nat k) (drop (nat (ab_tail ab)) (ab_buffer ab))) (ab\<lparr>ab_tail := 0\<rparr>)"
    using assms by (subst read_copy.simps) (simp add: Let_def k u)
  also have "\<dots> = Some (Some (False, take (nat k) (drop (nat (ab_tail ab)) (ab_buffer ab)), ab\<lparr>ab_tail := 0\<rparr>))"
    using assms(2) l by (subst read_copy.simps) simp
  finally show ?thesis using assms by (simp add: slice_def nat_add_distrib drop_take)
qed





end
