(* ===== verification/DecAudio.thy ===== *)
theory DecAudio
  imports RawDemux AudioQueue
begin

text \<open>
  From the demuxer to the ring of decoded audio: the locked interface to the demuxer with the time
  stamps of audio (mplayerxp/libmpdemux/demuxer_r.cpp), the PCM decoder (libmpcodecs/ad_pcm.cpp) and
  the wrapper that runs a decoder and the filters behind it (libmpcodecs/dec_audio.cpp). A \<open>float\<close> is
  a rational without rounding; the locks make each function one step.
\<close>

section \<open>The demuxer behind its lock\<close>

text \<open>
  The state the functions share: the demuxer, the first audio time stamp of the engine (None is HUGE) and
  the correction of it that is still to be made (None: no correction needed).
\<close>

record 'd demuxer_r =
  dr_dm :: "'d Demuxer"
  initial_apts :: "rat option"
  initial_apts_corr :: "(int \<times> int) option"

text \<open>
  What the correction of time stamps depends on: whether the file format or the options ask for it, the time
  stamp of the stream, and the bytes per second of the audio.
\<close>

record pts_conf =
  pc_fix :: bool
  pc_stream_pts :: rat
  pc_i_bps :: int

definition get_ds_stream_pts :: "pts_conf \<Rightarrow> Demuxer_Stream \<Rightarrow> int \<Rightarrow> rat \<times> (int \<times> int) option \<times> Demuxer_Stream" where
  "get_ds_stream_pts pc ds nbytes =
     (let jump = (pc_fix pc \<and> pts_flags ds \<noteq> 0 \<and> ds_pts ds < 1 \<and> prev_pts ds > 2);
          ds = (if jump then ds\<lparr>pts_corr := (if pc_stream_pts pc > 0 then pc_stream_pts pc else prev_pts ds), pts_flags := 0\<rparr> else ds);
          ds = (if pc_fix pc \<and> ds_pts ds > 1 then ds\<lparr>pts_flags := 1\<rparr> else ds);
          ds = (if pc_fix pc \<and> \<not> ds_eof ds then ds\<lparr>prev_pts := ds_pts ds + pts_corr ds\<rparr> else ds)
      in if pc_i_bps pc \<noteq> 0
         then (ds_pts ds + pts_corr ds + of_int (tell_pts ds - nbytes) / of_int (pc_i_bps pc), None, ds)
         else (ds_pts ds, Some (tell_pts ds, nbytes), ds))"

text \<open>The part that follows each read.\<close>

definition stamp :: "pts_conf \<Rightarrow> sid \<Rightarrow> int \<Rightarrow> 'd Demuxer \<Rightarrow> 'd demuxer_r \<Rightarrow> rat \<times> 'd demuxer_r" where
  "stamp pc s nbytes dm r =
     (let (pts, corr, ds) = get_ds_stream_pts pc (dm_stream dm s) nbytes
      in (pts, r\<lparr>dr_dm := set_stream s ds dm, initial_apts_corr := corr,
                 initial_apts := (case initial_apts r of None \<Rightarrow> Some pts | Some p \<Rightarrow> Some p)\<rparr>))"

definition demux_getc_r :: "pts_conf \<Rightarrow> 'd driver option \<Rightarrow> sid \<Rightarrow> 'd demuxer_r \<Rightarrow> (int \<times> rat \<times> 'd demuxer_r) option option" where
  "demux_getc_r pc driver s r =
     map_option (map_option (\<lambda>(c, dm). (c, stamp pc s 1 dm r))) (getch driver s (dr_dm r))"

definition demux_read_data_r :: "pts_conf \<Rightarrow> 'd driver option \<Rightarrow> sid \<Rightarrow> int \<Rightarrow> 'd demuxer_r \<Rightarrow> (u8 list \<times> rat \<times> 'd demuxer_r) option option" where
  "demux_read_data_r pc driver s len r =
     map_option (map_option (\<lambda>(bs, dm). (bs, stamp pc s (int (length bs)) dm r))) (read_data driver s len (dr_dm r))"

text \<open>At the end of the stream the length is -1.\<close>

definition ds_get_packet_r :: "pts_conf \<Rightarrow> 'd driver option \<Rightarrow> sid \<Rightarrow> 'd demuxer_r \<Rightarrow> (u8 list option \<times> rat \<times> 'd demuxer_r) option option" where
  "ds_get_packet_r pc driver s r =
     map_option (map_option (\<lambda>(p, dm). (p, stamp pc s (case p of None \<Rightarrow> -1 | Some bs \<Rightarrow> int (length bs)) dm r))) (get_packet driver s (dr_dm r))"

definition ds_get_packet_sub_r :: "'d driver option \<Rightarrow> sid \<Rightarrow> 'd demuxer_r \<Rightarrow> (u8 list option \<times> 'd demuxer_r) option option" where
  "ds_get_packet_sub_r driver s r =
     map_option (map_option (\<lambda>(p, dm). (p, r\<lparr>dr_dm := dm\<rparr>))) (get_packet_sub driver s (dr_dm r))"

definition demux_seek_r :: "('d \<Rightarrow> 'd) option \<Rightarrow> ('d \<Rightarrow> 'd) \<Rightarrow> bool \<Rightarrow> bool \<Rightarrow> bool \<Rightarrow> 'd demuxer_r \<Rightarrow> (int \<times> 'd demuxer_r) option option" where
  "demux_seek_r drv_seek clear_eof stream_seekable demuxer_seekable has_audio r =
     map_option (map_option (\<lambda>(ok, dm). (ok, r\<lparr>dr_dm := dm\<rparr>))) (seek drv_seek clear_eof stream_seekable demuxer_seekable has_audio (dr_dm r))"

section \<open>Decoders\<close>

text \<open>A decoder returns the bytes it writes to the buffer, its return value and the time stamp.\<close>

type_synonym 's codec = "'s \<Rightarrow> int \<Rightarrow> int \<Rightarrow> (u8 list \<times> int \<times> rat \<times> 's) option option"

text \<open>\<open>sample\<close> is the size of one sample of every channel.\<close>

definition pcm_run :: "pts_conf \<Rightarrow> 'd driver option \<Rightarrow> int \<Rightarrow> 'd demuxer_r codec" where
  "pcm_run pc driver sample r minlen maxlen =
     (let len = to_unsigned (to_unsigned (minlen + sample - 1) div sample * sample)
      in if maxlen < len then Some (Some ([], to_unsigned (-1), 0, r))
         else map_option (map_option (\<lambda>(bs, pts, r). (bs, int (length bs), pts, r))) (demux_read_data_r pc driver Audio len r))"

text \<open>The fields of \<open>sh_audio_t\<close> of the wrapper: what the filters gave that has not been handed out.\<close>

record 's AD_Interface =
  ad_inited :: bool
  ad_codec :: 's
  af_buffer :: "u8 list"
  af_pts :: rat
  ad_af_bps :: int
  ad_o_bps :: int

definition AD_run :: "'s codec \<Rightarrow> (u8 list \<Rightarrow> u8 list) option \<Rightarrow> 's AD_Interface decoder" where
  "AD_run codec af_play sh minlen maxlen buflen =
     (if \<not> ad_inited sh then Some (Some ([], 0, 0, sh))
      else if af_buffer sh \<noteq> [] then
        let cp_size = min (nat buflen) (length (af_buffer sh)); pts = af_pts sh;
            sh' = sh\<lparr>af_buffer := drop cp_size (af_buffer sh),
                   af_pts := (if cp_size < length (af_buffer sh) then pts + of_nat cp_size / of_int (ad_af_bps sh) else pts)\<rparr>
        in Some (Some (take cp_size (af_buffer sh), int cp_size, pts, sh'))
      else let maxlen = (if ad_o_bps sh < ad_af_bps sh then min maxlen (to_unsigned (buflen * ad_o_bps sh) div ad_af_bps sh) else maxlen)
        in case codec (ad_codec sh) minlen maxlen of None \<Rightarrow> None
           | Some None \<Rightarrow> Some None
           | Some (Some (raw, len, pts, c)) \<Rightarrow>
               let sh = sh\<lparr>ad_codec := c\<rparr> in
               (case af_play of None \<Rightarrow> Some (Some (raw, 0, pts, sh))
                | Some play \<Rightarrow>
                    if len = 0 then Some (Some (raw, 0, pts, sh))
                    else if int (length raw) < len then Some None
                    else let pafd = play (take (nat len) raw); cp_size = min (nat buflen) (length pafd)
                      in Some (Some (take cp_size pafd @ drop cp_size raw, int cp_size, pts,
                           sh\<lparr>af_buffer := drop cp_size pafd,
                              af_pts := (if cp_size < length pafd then pts + of_nat cp_size / of_int (ad_af_bps sh) else af_pts sh)\<rparr>))))"

end
