(* ===== verification/AudioPath.thy ===== *)
theory AudioPath
  imports DecAudio "HOL-Library.Sublist"
begin

text \<open>
  Audio from the file to the player: the PCM decoder on top of any demuxer driver meets what the ring
  of decoded audio asks of a decoder, and with the raw audio driver everything the player reads is
  what the file holds, in order.
\<close>

section \<open>The PCM decoder\<close>

lemma stamp_ok:
  assumes "dm_ok {} dm"
  shows "dm_ok {} (dr_dm (snd (stamp pc s n dm r)))" "content (dr_dm (snd (stamp pc s n dm r))) t = content dm t"
    "dm_priv (dr_dm (snd (stamp pc s n dm r))) = dm_priv dm"
proof -
  obtain pts corr ds where g: "get_ds_stream_pts pc (dm_stream dm s) n = (pts, corr, ds)" by (metis prod_cases3)
  then have "same_queue (dm_stream dm s) ds"
    by (auto simp: get_ds_stream_pts_def Let_def same_queue_def split: if_splits)
  from same_queue_ok [OF assms this]
  show "dm_ok {} (dr_dm (snd (stamp pc s n dm r)))" "content (dr_dm (snd (stamp pc s n dm r))) t = content dm t"
    "dm_priv (dr_dm (snd (stamp pc s n dm r))) = dm_priv dm" by (simp_all add: stamp_def g)
qed

text \<open>The state in which the wrapper hands everything it gets on: no filter holds anything back.\<close>

definition passing :: "'d demuxer_r AD_Interface \<Rightarrow> bool" where
  "passing sh \<longleftrightarrow> ad_inited sh \<and> af_buffer sh = [] \<and> ad_af_bps sh \<le> ad_o_bps sh \<and> dm_ok {} (dr_dm (ad_codec sh))"

abbreviation sh_dm :: "'d demuxer_r AD_Interface \<Rightarrow> 'd Demuxer" where
  "sh_dm sh \<equiv> dr_dm (ad_codec sh)"

abbreviation pcm :: "pts_conf \<Rightarrow> 'd driver option \<Rightarrow> int \<Rightarrow> 'd demuxer_r AD_Interface decoder" where
  "pcm pc driver sample \<equiv> AD_run (pcm_run pc driver sample) (Some (\<lambda>bs. bs))"

text \<open>The bytes \<open>out\<close> have been taken from the audio stream.\<close>

definition drawn :: "'d driver option \<Rightarrow> 'd demuxer_r AD_Interface \<Rightarrow> u8 list \<Rightarrow> 'd demuxer_r AD_Interface \<Rightarrow> bool" where
  "drawn driver sh out sh' \<longleftrightarrow> passing sh' \<and> (\<exists>is. drv_steps driver Audio (dm_priv (sh_dm sh)) is (dm_priv (sh_dm sh')) \<and>
     out @ content (sh_dm sh') Audio = content (sh_dm sh) Audio @ bytes_for Audio is)"

lemma drawn_refl: "passing sh \<Longrightarrow> drawn driver sh [] sh"
  unfolding drawn_def by (force intro: drv_steps.none)

lemma drawn_trans:
  assumes "drawn driver sh xs sh1" "drawn driver sh1 ys sh'"
  shows "drawn driver sh (xs @ ys) sh'"
proof -
  obtain "is" js where "drv_steps driver Audio (dm_priv (sh_dm sh)) is (dm_priv (sh_dm sh1))" "xs @ content (sh_dm sh1) Audio = content (sh_dm sh) Audio @ bytes_for Audio is"
    "drv_steps driver Audio (dm_priv (sh_dm sh1)) js (dm_priv (sh_dm sh'))" "ys @ content (sh_dm sh') Audio = content (sh_dm sh1) Audio @ bytes_for Audio js"
    using assms by (auto simp: drawn_def)
  then have "drv_steps driver Audio (dm_priv (sh_dm sh)) (is @ js) (dm_priv (sh_dm sh'))"
    "(xs @ ys) @ content (sh_dm sh') Audio = content (sh_dm sh) Audio @ bytes_for Audio (is @ js)"
    by (blast intro: drv_steps_trans, simp)
  then show ?thesis using assms(2) unfolding drawn_def by blast
qed

locale pcm_player = demux_driver driver idle
  for driver :: "'d driver" and idle :: "'d \<Rightarrow> nat" +
  fixes pc :: pts_conf and sample minsize min_len :: int
  assumes sample_pos: "0 < sample" "sample < 2 ^ 30"
    and min_len_pos: "0 \<le> min_len"
    and room_for_samples: "(min_len + sample - 1) div sample * sample \<le> minsize"
    and minsize_ok: "0 < minsize" "minsize < 2 ^ 30"
begin

lemma rounded:
  "to_unsigned (to_unsigned (min_len + sample - 1) div sample * sample) = (min_len + sample - 1) div sample * sample"
  "0 \<le> (min_len + sample - 1) div sample * sample" "min_len < 2 ^ 30"
proof -
  let ?x = "min_len + sample - 1"
  have "?x div sample * sample = ?x - ?x mod sample" by (simp add: minus_mod_eq_div_mult)
  moreover have "?x mod sample < sample" using sample_pos by simp
  ultimately have "min_len \<le> ?x div sample * sample" by linarith
  then show m: "min_len < 2 ^ 30" using room_for_samples minsize_ok by simp
  show "0 \<le> ?x div sample * sample" using sample_pos min_len_pos by (simp add: pos_imp_zdiv_nonneg_iff)
  moreover have "to_unsigned ?x = ?x" using m sample_pos min_len_pos by simp
  ultimately show "to_unsigned (to_unsigned ?x div sample * sample) = ?x div sample * sample"
    using room_for_samples minsize_ok by simp
qed

text \<open>A call with enough room takes at most the rounded length from the stream.\<close>

lemma pcm_call:
  assumes "passing sh" "(min_len + sample - 1) div sample * sample \<le> mx" "mx \<le> bl"
  obtains bs pts sh' where "pcm pc (Some driver) sample sh min_len mx bl = Some (Some (bs, int (length bs), pts, sh'))"
    "int (length bs) \<le> mx" "drawn (Some driver) sh bs sh'"
proof -
  let ?len = "(min_len + sample - 1) div sample * sample"
  have ok: "dm_ok {} (sh_dm sh)" using assms(1) by (simp add: passing_def)
  obtain bs dm where r: "read_loop (Some driver) Audio ?len [] (sh_dm sh) = Some (Some (bs, dm))"
    using read_loop_returns [OF ok, of Audio ?len "[]"] by blast
  have p: "read_post (Some driver) Audio ?len (sh_dm sh) bs dm"
    using read_loop_ok [OF r ok driver_all_fit] by auto
  then have dm: "dm_ok {} dm" "int (length bs) \<le> ?len" using rounded(2) by (auto simp: read_post_def)
  define r' where "r' = stamp pc Audio (int (length bs)) dm (ad_codec sh)"
  have c: "pcm_run pc (Some driver) sample (ad_codec sh) min_len mx = Some (Some (bs, int (length bs), r'))"
    using assms(2) r by (simp add: pcm_run_def rounded demux_read_data_r_def read_data_def r'_def split: prod.splits)
  define sh1 where "sh1 = sh\<lparr>ad_codec := snd r'\<rparr>"
  define sh2 where "sh2 = (if bs = [] then sh1 else sh1\<lparr>af_buffer := [], af_pts := af_pts sh1\<rparr>)"
  have "pcm pc (Some driver) sample sh min_len mx bl = Some (Some (bs, int (length bs), fst r', sh2))"
    using assms(1,3) c dm(2) assms(2) by (cases r') (simp add: AD_run_def passing_def Let_def sh2_def sh1_def)
  moreover have "drawn (Some driver) sh bs sh2"
    using assms(1) p dm(1) stamp_ok [OF dm(1), of pc Audio "int (length bs)" "ad_codec sh"]
    by (auto simp: drawn_def passing_def sh2_def sh1_def r'_def read_post_def)
  ultimately show ?thesis using that dm(2) assms(2) by fastforce
qed

lemma pcm_short:
  assumes "passing sh" "mx < (min_len + sample - 1) div sample * sample"
  shows "pcm pc (Some driver) sample sh min_len mx bl = Some None"
proof -
  have "to_unsigned (-1) = 2 ^ 32 - 1" by (simp add: to_unsigned_def)
  then show ?thesis using assms by (simp add: AD_run_def passing_def Let_def pcm_run_def rounded)
qed

end

sublocale pcm_player \<subseteq> pcm: audio_decoder "pcm pc (Some driver) sample" minsize min_len passing
proof
  fix sh :: "'d demuxer_r AD_Interface" and mx bl
  assume a: "passing sh" "minsize \<le> mx" "mx \<le> bl"
  have "(min_len + sample - 1) div sample * sample \<le> mx" using room_for_samples a(2) by simp
  then obtain bs pts sh' where "pcm pc (Some driver) sample sh min_len mx bl = Some (Some (bs, int (length bs), pts, sh'))"
    "int (length bs) \<le> mx" "drawn (Some driver) sh bs sh'" by (rule pcm_call [OF a(1) _ a(3)]) (rule that)
  then show "\<exists>bs n pts d'. pcm pc (Some driver) sample sh min_len mx bl = Some (Some (bs, n, pts, d')) \<and> passing d' \<and> 0 \<le> n \<and> n \<le> int (length bs) \<and> int (length bs) \<le> mx"
    by (auto simp: drawn_def)
qed (use minsize_ok min_len_pos rounded(3) in simp_all)

context pcm_player
begin

lemma pcm_decoder: "audio_decoder (pcm pc (Some driver) sample) minsize min_len passing"
  by (rule pcm.audio_decoder_axioms)

lemma pcm_steps:
  "dec_steps (pcm pc (Some driver) sample) min_len sh data sh' \<Longrightarrow> passing sh \<Longrightarrow> drawn (Some driver) sh data sh'"
proof (induction rule: dec_steps.induct)
  case (none sh)
  then show ?case by (rule drawn_refl)
next
  case (call sh mx bl bs n pts sh1 data sh')
  have "\<not> mx < (min_len + sample - 1) div sample * sample" using pcm_short [OF call.prems, of mx bl] call.hyps(1) by auto
  then obtain bs' pts' sh1' where "pcm pc (Some driver) sample sh min_len mx bl = Some (Some (bs', int (length bs'), pts', sh1'))"
    "drawn (Some driver) sh bs' sh1'" using pcm_call [OF call.prems _ call.hyps(2)] by (metis not_less)
  then have d: "drawn (Some driver) sh (take (nat n) bs) sh1" using call.hyps(1) by auto
  then show ?case using drawn_trans [OF d] call.IH by (simp add: drawn_def)
qed

end

section \<open>The raw audio file\<close>





section \<open>The player\<close>

text \<open>
  The two situations in which a turn of the decoder thread may break the ring: no room is kept in front of the tail, or the end of the
  data is not moved behind the head (audio_corner_loses and read_past_end_jumps in AudioQueue).
\<close>

definition ring_corner :: "audio_buffer \<Rightarrow> bool" where
  "ring_corner ab \<longleftrightarrow> ab_size ab - ab_head ab = ab_min_reserv ab \<and> ab_tail ab \<le> ab_head ab \<and> 0 < ab_tail ab \<and> ab_tail ab < ab_min_reserv ab"

definition past_end :: "audio_buffer \<Rightarrow> bool" where
  "past_end ab \<longleftrightarrow> ab_eof ab \<and> ab_len ab < ab_head ab"

text \<open>
  Turns of the decoder thread and reads of the player, one after the other in any order: a turn or a read that has begun goes on to its
  end or, for a read, until it waits. (In the program a turn holds head_mutex and a read tail_mutex, so that a read may also fall between
  two writes of a turn; read_past_end_jumps shows what it may find there.) \<open>heard\<close> is what reads have
  returned, \<open>pend\<close> what a reader that waits has got, \<open>broken\<close> whether a turn began in the corner or ended past the end.
\<close>

inductive serial_run :: "int \<Rightarrow> 'd decoder \<Rightarrow> ('d \<Rightarrow> bool) \<Rightarrow> sh_audio \<Rightarrow> audio_buffer \<Rightarrow> 'd \<Rightarrow> bool \<Rightarrow> u8 list \<Rightarrow> u8 list \<Rightarrow> audio_buffer \<Rightarrow> 'd \<Rightarrow> bool"
  for mo run ended sha ab0 d0 where
  start: "serial_run mo run ended sha ab0 d0 False [] [] ab0 d0"
| turn: "serial_run mo run ended sha ab0 d0 broken heard pend ab d \<Longrightarrow>
    xp_thread_decode_audio mo run ended sha pref ab d = Some (Some (fin, r, ab', d')) \<Longrightarrow>
    serial_run mo run ended sha ab0 d0 (broken \<or> ring_corner ab \<or> past_end ab') heard pend ab' d'"
| wait: "serial_run mo run ended sha ab0 d0 broken heard pend ab d \<Longrightarrow> minlen \<le> maxlen \<Longrightarrow> maxlen < 2 ^ 31 \<Longrightarrow> int (length pend) \<le> maxlen \<Longrightarrow>
    read_audio_buffer sha minlen maxlen pend ab = Some (Some (Waiting pend' ab')) \<Longrightarrow> serial_run mo run ended sha ab0 d0 broken heard pend' ab' d"
| wake: "serial_run mo run ended sha ab0 d0 broken heard pend ab d \<Longrightarrow> wake_reader pend ab = (pend', ab') \<Longrightarrow>
    serial_run mo run ended sha ab0 d0 broken heard pend' ab' d"
| give: "serial_run mo run ended sha ab0 d0 broken heard pend ab d \<Longrightarrow> minlen \<le> maxlen \<Longrightarrow> maxlen < 2 ^ 31 \<Longrightarrow> int (length pend) \<le> maxlen \<Longrightarrow>
    read_audio_buffer sha minlen maxlen pend ab = Some (Some (Read out pts ab')) \<Longrightarrow> serial_run mo run ended sha ab0 d0 broken (heard @ out) [] ab' d"

text \<open>The ring between the two: what is heard, pending and in the ring is what the decoder has given.\<close>

definition ring_inv :: "'d decoder \<Rightarrow> int \<Rightarrow> audio_buffer \<Rightarrow> 'd \<Rightarrow> u8 list \<Rightarrow> audio_buffer \<Rightarrow> 'd \<Rightarrow> bool" where
  "ring_inv run min_len ab0 d0 got ab d \<longleftrightarrow> ab_ok ab \<and> same_setup ab0 ab \<and> dec_steps run min_len d0 (got @ ab_content ab) d"

lemma dec_steps_trans: "dec_steps run min_len d xs d1 \<Longrightarrow> dec_steps run min_len d1 ys d' \<Longrightarrow> dec_steps run min_len d (xs @ ys) d'"
  by (induction rule: dec_steps.induct) (auto intro: dec_steps.intros)

lemma ring_inv_read:
  assumes "ring_inv run min_len ab0 d0 (heard @ pend) ab d" "minlen \<le> maxlen" "maxlen < 2 ^ 31" "int (length pend) \<le> maxlen"
    "read_audio_buffer sha minlen maxlen pend ab = Some (Some r)" "r = Waiting out ab' \<or> r = Read out pts ab'"
  shows "ring_inv run min_len ab0 d0 (heard @ out) ab' d"
proof -
  have "ab_ok ab" using assms(1) by (simp add: ring_inv_def)
  from read_audio_ok [OF this assms(2-4), of sha] assms(5,6) have "read_post_ok minlen maxlen pend ab out ab'" by auto
  then show ?thesis using assms(1) same_setup_trans by (auto simp: ring_inv_def read_post_ok_def)
qed

context audio_decoder
begin

lemma ring_inv_serial:
  assumes "serial_run mo run ended sha ab0 d0 broken heard pend ab d" "\<not> broken" "ab_ok ab0" "ab_content ab0 = []" "\<not> ab_HasReset ab0" "dinv d0"
    "audio_out_minsize sha = minsize" "minsize \<le> ab_min_reserv ab0" "ab_min_len ab0 = min_len"
  shows "ring_inv run min_len ab0 d0 (heard @ pend) ab d \<and> dinv d"
  using assms
proof (induction rule: serial_run.induct)
  case start
  then show ?case by (simp add: ring_inv_def dec_steps.none)
next
  case (turn broken heard pend ab d pref fin r ab' d')
  then have i: "ring_inv run min_len ab0 d0 (heard @ pend) ab d" "dinv d" by auto
  then have a: "ab_ok ab" "minsize \<le> ab_min_reserv ab" "ab_min_len ab = min_len"
    using turn.prems by (auto simp: ring_inv_def same_setup_def)
  obtain data where "dinv d'" "dec_steps run min_len d data d'" "ab_content ab' = ab_content ab @ data" "same_setup ab ab'" "ab_ok ab' \<or> past_end ab'"
    using xp_thread_ok [OF a(1) turn.prems(6) a(2,3) i(2), of mo ended pref] turn.hyps(2) turn.prems(1) by (auto simp: ring_corner_def past_end_def)
  then show ?case using i(1) turn.prems(1) dec_steps_trans same_setup_trans by (fastforce simp: ring_inv_def)
next
  case (wait broken heard pend ab d minlen maxlen pend' ab')
  then show ?case using ring_inv_read [of run min_len ab0 d0 heard pend ab d minlen maxlen sha] by blast
next
  case (wake broken heard pend ab d pend' ab')
  then have "\<not> ab_HasReset ab" by (auto simp: ring_inv_def same_setup_def)
  then have "pend' = pend" "ab' = ab\<lparr>ab_blocked_readers := ab_blocked_readers ab - 1\<rparr>"
    using wake.hyps(2) by (auto simp: wake_reader_def Let_def)
  then show ?case using wake by (simp add: ring_inv_def same_setup_def)
next
  case (give broken heard pend ab d minlen maxlen out pts ab')
  then show ?case using ring_inv_read [of run min_len ab0 d0 heard pend ab d minlen maxlen sha] by simp
qed

end


interpretation raw_pcm: pcm_player "rawaudio_demux junk (Suc l)" "\<lambda>_. 0" pc 2 4 3 for junk l pc
  by unfold_locales simp_all










end
