(* ===== verification/SubFind.thy ===== *)
theory SubFind
  imports Prelude
begin

text \<open>
  Which subtitle is shown (mplayerxp/libmpsub/find_sub.cpp): the last answer and the gap around it are
  tried first, then the next subtitle, then a binary search. For subtitles in order that do not overlap
  this is the same as looking through all of them.
\<close>

section \<open>The search\<close>

text \<open>The times of a subtitle, unsigned; the text does not matter here.\<close>

record subtitle =
  sub_start :: nat
  sub_end :: nat

text \<open>
  The static variables of find_sub and the output's pointer to the subtitle it shows, as an index.
  \<open>osd_changed\<close>: the output has been told that the subtitle may change.
\<close>

record sub_finder =
  current_sub :: int
  nosub_range_start :: nat
  nosub_range_end :: nat
  vo_sub :: "int option"
  osd_changed :: bool

definition ULONG_MAX :: nat where
  "ULONG_MAX = 2 ^ 64 - 1"

definition sub_finder_init :: sub_finder where
  "sub_finder_init = \<lparr>current_sub = 0, nosub_range_start = ULONG_MAX, nosub_range_end = ULONG_MAX, vo_sub = None, osd_changed = False\<rparr>"

text \<open>The array; None is an access outside of it.\<close>

definition sub_at :: "subtitle list \<Rightarrow> int \<Rightarrow> subtitle option" where
  "sub_at subs i = (if 0 \<le> i \<and> i < int (length subs) then Some (subs ! nat i) else None)"

definition covers :: "subtitle \<Rightarrow> nat \<Rightarrow> bool" where
  "covers s key \<longleftrightarrow> sub_start s \<le> key \<and> key \<le> sub_end s"

text \<open>The first test: is what is shown, or the gap that is shown, still right?\<close>

definition still_right :: "subtitle list \<Rightarrow> nat \<Rightarrow> sub_finder \<Rightarrow> bool option" where
  "still_right subs key f = (case vo_sub f of
       Some i \<Rightarrow> (case sub_at subs i of None \<Rightarrow> None | Some s \<Rightarrow> Some (covers s key))
     | None \<Rightarrow> Some (nosub_range_start f < key \<and> key < nosub_range_end f))"

text \<open>Between the subtitles \<open>i\<close> and \<open>i + 1\<close> nothing is shown.\<close>

definition in_gap :: "subtitle list \<Rightarrow> int \<Rightarrow> nat \<Rightarrow> bool option" where
  "in_gap subs i key = (case (sub_at subs i, sub_at subs (i + 1)) of
     (Some s, Some t) \<Rightarrow> Some (sub_end s < key \<and> key < sub_start t) | _ \<Rightarrow> None)"

definition show_gap :: "nat \<Rightarrow> nat \<Rightarrow> sub_finder \<Rightarrow> sub_finder" where
  "show_gap a b f = f\<lparr>nosub_range_start := a, nosub_range_end := b, vo_sub := None\<rparr>"

definition show_gap_at :: "subtitle list \<Rightarrow> int \<Rightarrow> sub_finder \<Rightarrow> sub_finder" where
  "show_gap_at subs i f = show_gap (sub_end (subs ! nat i)) (sub_start (subs ! nat (i + 1))) f"

text \<open>The loop of the binary search; True: found.\<close>

function binary_search :: "subtitle list \<Rightarrow> nat \<Rightarrow> int \<Rightarrow> int \<Rightarrow> sub_finder \<Rightarrow> (bool \<times> sub_finder) option" where
  "binary_search subs key i j f =
     (if j < i then Some (False, f)
      else let c = (i + j + 1) div 2; f = f\<lparr>current_sub := c, vo_sub := Some c\<rparr>
        in case sub_at subs c of None \<Rightarrow> None
          | Some s \<Rightarrow> if key < sub_start s then binary_search subs key i (c - 1) f
                     else if sub_end s < key then binary_search subs key (c + 1) j f
                     else Some (True, f))"
  by pat_completeness auto
termination
  by (relation "measure (\<lambda>(_, _, i, j, _). nat (j - i + 1))") (auto simp: Let_def)

declare binary_search.simps [simp del]

text \<open>What is done when the search has found nothing.\<close>

definition where_are_we :: "subtitle list \<Rightarrow> nat \<Rightarrow> sub_finder \<Rightarrow> sub_finder option" where
  "where_are_we subs key f =
     (case vo_sub f of None \<Rightarrow> None
      | Some i \<Rightarrow> (case sub_at subs i of None \<Rightarrow> None
      | Some s \<Rightarrow>
          if key < sub_start s then
            if current_sub f \<le> 0 then Some (show_gap (key - 1) (sub_start s) f)
            else let f = f\<lparr>current_sub := current_sub f - 1\<rparr> in
              (case in_gap subs (current_sub f) key of None \<Rightarrow> None
               | Some g \<Rightarrow> Some (if g then show_gap_at subs (current_sub f) f else f\<lparr>vo_sub := None\<rparr>))
          else if key \<le> sub_end s then Some (f\<lparr>vo_sub := None\<rparr>)
          else if int (length subs) \<le> current_sub f + 1 then Some (show_gap (sub_end s) 0x7FFFFFFF f)
          else (case in_gap subs (current_sub f) key of None \<Rightarrow> None
               | Some g \<Rightarrow> Some (if g then show_gap_at subs (current_sub f) f else f\<lparr>vo_sub := None\<rparr>))))"

definition search_sub :: "subtitle list \<Rightarrow> nat \<Rightarrow> sub_finder \<Rightarrow> sub_finder option" where
  "search_sub subs key f =
     (case binary_search subs key 0 (int (length subs) - 1) f of None \<Rightarrow> None
      | Some (True, f) \<Rightarrow> Some f
      | Some (False, f) \<Rightarrow> where_are_we subs key f)"

text \<open>The next subtitle, before the search; True: it is settled.\<close>

definition next_sub :: "subtitle list \<Rightarrow> nat \<Rightarrow> sub_finder \<Rightarrow> (bool \<times> sub_finder) option" where
  "next_sub subs key f =
     (if 0 \<le> current_sub f \<and> current_sub f + 1 < int (length subs) then
        (case in_gap subs (current_sub f) key of None \<Rightarrow> None
         | Some True \<Rightarrow> Some (True, show_gap_at subs (current_sub f) f)
         | Some False \<Rightarrow> let c = current_sub f + 1; f = f\<lparr>current_sub := c, vo_sub := Some c\<rparr>
             in case sub_at subs c of None \<Rightarrow> None | Some s \<Rightarrow> Some (covers s key, f))
      else Some (False, f))"

text \<open>The array pointer is null when there are no subtitles at all; None is a use of memory outside the array.\<close>

definition find_sub :: "subtitle list option \<Rightarrow> nat \<Rightarrow> sub_finder \<Rightarrow> sub_finder option" where
  "find_sub subtitles key f = (case subtitles of None \<Rightarrow> Some f
     | Some subs \<Rightarrow>
        (case still_right subs key f of None \<Rightarrow> None
         | Some True \<Rightarrow> Some f
         | Some False \<Rightarrow>
            let f = f\<lparr>osd_changed := True\<rparr> in
            if key \<le> 0 then Some (f\<lparr>vo_sub := None\<rparr>)
            else (case next_sub subs key f of None \<Rightarrow> None
              | Some (True, f) \<Rightarrow> Some f
              | Some (False, f) \<Rightarrow> search_sub subs key f)))"

section \<open>Subtitles in order\<close>

definition in_order :: "subtitle list \<Rightarrow> bool" where
  "in_order subs \<longleftrightarrow> (\<forall>s \<in> set subs. sub_start s \<le> sub_end s) \<and>
     sorted_wrt (\<lambda>s t. sub_end s < sub_start t) subs"

text \<open>The reference: the first subtitle of the array that covers the time.\<close>

definition covering :: "subtitle list \<Rightarrow> nat \<Rightarrow> int option" where
  "covering subs key = map_option int (find (\<lambda>i. covers (subs ! i) key) [0..<length subs])"

text \<open>
  What the state keeps: the index is inside the array, and no subtitle covers a time inside the remembered gap.
\<close>

definition finder_ok :: "subtitle list \<Rightarrow> sub_finder \<Rightarrow> bool" where
  "finder_ok subs f \<longleftrightarrow> 0 \<le> current_sub f \<and> current_sub f < int (length subs) \<and>
     (\<forall>i. vo_sub f = Some i \<longrightarrow> 0 \<le> i \<and> i < int (length subs)) \<and>
     (\<forall>key. nosub_range_start f < key \<and> key < nosub_range_end f \<longrightarrow> (\<forall>s \<in> set subs. \<not> covers s key))"

lemma in_orderD:
  assumes "in_order subs"
  shows "i < length subs \<Longrightarrow> sub_start (subs ! i) \<le> sub_end (subs ! i)"
    "i < j \<Longrightarrow> j < length subs \<Longrightarrow> sub_end (subs ! i) < sub_start (subs ! j)"
  using assms by (simp_all add: in_order_def sorted_wrt_iff_nth_less)

text \<open>Every subtitle before \<open>c\<close> has ended and every one from \<open>c\<close> on has not begun.\<close>

definition between :: "subtitle list \<Rightarrow> int \<Rightarrow> nat \<Rightarrow> bool" where
  "between subs c key \<longleftrightarrow> (\<forall>m < length subs. (int m < c \<longrightarrow> sub_end (subs ! m) < key) \<and> (c \<le> int m \<longrightarrow> key < sub_start (subs ! m)))"

lemma between_uncovered: "between subs c key \<Longrightarrow> s \<in> set subs \<Longrightarrow> \<not> covers s key"
  by (auto simp: between_def covers_def in_set_conv_nth not_le dest: leD)

lemma ended_before:
  assumes "in_order subs" "c < length subs" "sub_end (subs ! c) < key" "m \<le> c"
  shows "sub_end (subs ! m) < key"
proof (cases "m = c")
  case False
  then have "sub_end (subs ! m) < sub_start (subs ! c)" "sub_start (subs ! c) \<le> sub_end (subs ! c)"
    using in_orderD [OF assms(1)] assms(2,4) by simp_all
  then show ?thesis using assms(3) by simp
qed (use assms in simp)

lemma not_begun_after:
  assumes "in_order subs" "m < length subs" "key < sub_start (subs ! c)" "c \<le> m"
  shows "key < sub_start (subs ! m)"
proof (cases "m = c")
  case False
  then have "sub_end (subs ! c) < sub_start (subs ! m)" "sub_start (subs ! c) \<le> sub_end (subs ! c)"
    using in_orderD [OF assms(1)] assms(2,4) by simp_all
  then show ?thesis using assms(3) by simp
qed (use assms in simp)

lemma between_gap:
  assumes "in_order subs" "i + 1 < length subs" "sub_end (subs ! i) < key" "key < sub_start (subs ! (i + 1))"
  shows "between subs (int i + 1) key"
  using ended_before [OF assms(1) _ assms(3)] not_begun_after [OF assms(1) _ assms(4)] assms(2)
  by (auto simp: between_def)

lemma gap_uncovered:
  assumes "in_order subs" "0 \<le> i" "i + 1 < int (length subs)" "sub_end (subs ! nat i) < key" "key < sub_start (subs ! nat (i + 1))" "s \<in> set subs"
  shows "\<not> covers s key"
proof -
  have "nat (i + 1) = nat i + 1" "nat i + 1 < length subs" using assms(2,3) by simp_all
  then have "between subs (int (nat i) + 1) key" using assms(4,5) by (intro between_gap [OF assms(1)]) simp_all
  then show ?thesis using assms(6) by (rule between_uncovered)
qed

lemma covering_at:
  assumes "in_order subs" "0 \<le> c" "c < int (length subs)" "covers (subs ! nat c) key"
  shows "covering subs key = Some c"
proof -
  have "\<not> covers (subs ! m) key" if "m < nat c" for m
    using in_orderD(2) [OF assms(1) that] assms(2-4) by (force simp: covers_def)
  then have "find (\<lambda>i. covers (subs ! i) key) [0..<length subs] = Some (nat c)"
    using assms(2,3,4) by (auto simp: find_Some_iff intro!: exI [of _ "nat c"])
  then show ?thesis using assms(2) by (simp add: covering_def)
qed

lemma covering_none: "(\<And>s. s \<in> set subs \<Longrightarrow> \<not> covers s key) \<Longrightarrow> covering subs key = None"
  by (auto simp: covering_def find_None_iff)

section \<open>The search finds it\<close>

text \<open>What a search has decided: what to show, with the rest of the state sound.\<close>

definition decided :: "subtitle list \<Rightarrow> nat \<Rightarrow> sub_finder option \<Rightarrow> bool \<Rightarrow> bool" where
  "decided subs key r told \<longleftrightarrow> (\<exists>f. r = Some f \<and> finder_ok subs f \<and> vo_sub f = covering subs key \<and> osd_changed f = told)"

lemma finder_ok_show [simp]:
  "finder_ok subs (f\<lparr>current_sub := c, vo_sub := Some c\<rparr>) \<longleftrightarrow>
     0 \<le> c \<and> c < int (length subs) \<and> (\<forall>key. nosub_range_start f < key \<and> key < nosub_range_end f \<longrightarrow> (\<forall>s \<in> set subs. \<not> covers s key))"
  by (auto simp: finder_ok_def)

lemma decided_gap:
  assumes "0 \<le> current_sub f" "current_sub f < int (length subs)" "a < key" "key < b \<or> (\<forall>s \<in> set subs. \<not> covers s key)"
    "\<And>k s. a < k \<Longrightarrow> k < b \<Longrightarrow> s \<in> set subs \<Longrightarrow> \<not> covers s k" "osd_changed f = told"
  shows "decided subs key (Some (show_gap a b f)) told"
  using assms covering_none [of subs key] by (auto simp: decided_def show_gap_def finder_ok_def)

lemma decided_gap_at:
  assumes "in_order subs" "0 \<le> current_sub f" "current_sub f < int (length subs)" "0 \<le> i" "i + 1 < int (length subs)"
    "sub_end (subs ! nat i) < key" "key < sub_start (subs ! nat (i + 1))" "osd_changed f = told"
  shows "decided subs key (Some (show_gap_at subs i f)) told"
  unfolding show_gap_at_def by (rule decided_gap) (use assms gap_uncovered [OF assms(1,4,5)] in auto)

lemma decided_found:
  assumes "in_order subs" "0 \<le> c" "c < int (length subs)" "covers (subs ! nat c) key" "finder_ok subs f"
  shows "decided subs key (Some (f\<lparr>current_sub := c, vo_sub := Some c\<rparr>)) (osd_changed f)"
  using assms covering_at [OF assms(1-4)] by (auto simp: decided_def finder_ok_def)

definition at_sub :: "int \<Rightarrow> sub_finder \<Rightarrow> sub_finder" where
  "at_sub c f = f\<lparr>current_sub := c, vo_sub := Some c\<rparr>"

lemma at_sub_twice [simp]: "at_sub c (at_sub d f) = at_sub c f"
  by (simp add: at_sub_def)

definition search_post :: "subtitle list \<Rightarrow> nat \<Rightarrow> int \<Rightarrow> int \<Rightarrow> sub_finder \<Rightarrow> bool \<Rightarrow> sub_finder \<Rightarrow> bool" where
  "search_post subs key i j f found f' \<longleftrightarrow>
     (if found then \<exists>c. 0 \<le> c \<and> c < int (length subs) \<and> covers (subs ! nat c) key \<and> f' = at_sub c f
      else (j < i \<and> f' = f \<and> between subs i key) \<or>
        (\<exists>c. 0 \<le> c \<and> c < int (length subs) \<and> (between subs c key \<or> between subs (c + 1) key) \<and> f' = at_sub c f))"

lemma search_post_left:
  "search_post subs key i (c - 1) (at_sub c f) found f' \<Longrightarrow> i \<le> c \<Longrightarrow> 0 \<le> c \<Longrightarrow> c < int (length subs) \<Longrightarrow> search_post subs key i j f found f'"
  by (cases found; cases "c = i") (auto simp: search_post_def)

lemma search_post_right:
  "search_post subs key (c + 1) j (at_sub c f) found f' \<Longrightarrow> c \<le> j \<Longrightarrow> 0 \<le> c \<Longrightarrow> c < int (length subs) \<Longrightarrow> search_post subs key i j f found f'"
  by (cases found; cases "c = j") (auto simp: search_post_def)

lemma binary_search_ok:
  assumes "in_order subs" "0 \<le> i" "j < int (length subs)" "i \<le> j + 1"
    "\<And>m. int m < i \<Longrightarrow> sub_end (subs ! m) < key" "\<And>m. j < int m \<Longrightarrow> m < length subs \<Longrightarrow> key < sub_start (subs ! m)"
  shows "\<exists>found f'. binary_search subs key i j f = Some (found, f') \<and> search_post subs key i j f found f'"
  using assms
proof (induction subs key i j f rule: binary_search.induct)
  case (1 subs key i j f)
  show ?case
  proof (cases "j < i")
    case True
    then have "between subs i key" using 1(7,8) 1(5,6) by (auto simp: between_def)
    then show ?thesis using True by (subst binary_search.simps) (auto simp: search_post_def)
  next
    case False
    define c where "c = (i + j + 1) div 2"
    have c: "0 \<le> c" "i \<le> c" "c \<le> j" "c < int (length subs)" "nat c < length subs" using False 1(4,5) by (auto simp: c_def)
    have at: "sub_at subs c = Some (subs ! nat c)" using c by (simp add: sub_at_def)
    consider (left) "key < sub_start (subs ! nat c)" | (right) "\<not> key < sub_start (subs ! nat c)" "sub_end (subs ! nat c) < key"
      | (here) "covers (subs ! nat c) key" by (force simp: covers_def)
    then show ?thesis
    proof cases
      case left
      have e: "binary_search subs key i j f = binary_search subs key i (c - 1) (at_sub c f)"
        using False left at by (subst binary_search.simps) (simp add: c_def at_sub_def Let_def)
      have "key < sub_start (subs ! m)" if "c - 1 < int m" "m < length subs" for m
        by (rule not_begun_after [OF 1(3) that(2) left]) (use that(1) in simp)
      note IH = 1(1) [OF False c_def at_sub_def at left 1(3,4) _ _ 1(7) this]
      show ?thesis using IH search_post_left c unfolding e by fastforce
    next
      case right
      have e: "binary_search subs key i j f = binary_search subs key (c + 1) j (at_sub c f)"
        using False right at by (subst binary_search.simps) (simp add: c_def at_sub_def Let_def)
      have "sub_end (subs ! m) < key" if "int m < c + 1" for m
        by (rule ended_before [OF 1(3) c(5) right(2)]) (use that in simp)
      note IH = 1(2) [OF False c_def at_sub_def at right(1,2) 1(3) _ 1(5) _ this 1(8)]
      show ?thesis using IH search_post_right c unfolding e by fastforce
    next
      case here
      then have "binary_search subs key i j f = Some (True, at_sub c f)"
        using False at by (subst binary_search.simps) (auto simp: c_def at_sub_def Let_def covers_def)
      then show ?thesis using c here by (auto simp: search_post_def)
    qed
  qed
qed

lemma in_gap_at:
  assumes "0 \<le> i" "i + 1 < int (length subs)"
  shows "in_gap subs i key = Some (sub_end (subs ! nat i) < key \<and> key < sub_start (subs ! nat (i + 1)))"
  using assms by (simp add: in_gap_def sub_at_def)

lemma where_are_we_ok:
  assumes "in_order subs" "0 < key" "0 \<le> c" "c < int (length subs)" "between subs c key \<or> between subs (c + 1) key"
  shows "decided subs key (where_are_we subs key (at_sub c f)) (osd_changed f)"
proof -
  have n: "\<not> covers s key" if "s \<in> set subs" for s using between_uncovered assms(5) that by blast
  have at: "sub_at subs c = Some (subs ! nat c)" using assms(3,4) by (simp add: sub_at_def)
  have nc: "\<not> covers (subs ! nat c) key" by (rule n) (use assms(3,4) in simp)
  have se: "sub_start (subs ! nat c) \<le> sub_end (subs ! nat c)" using in_orderD(1) [OF assms(1), of "nat c"] assms(3,4) by simp
  consider (first) "key < sub_start (subs ! nat c)" "c = 0" | (before) "key < sub_start (subs ! nat c)" "0 < c"
    | (last) "\<not> key < sub_start (subs ! nat c)" "int (length subs) \<le> c + 1"
    | (after) "\<not> key < sub_start (subs ! nat c)" "c + 1 < int (length subs)" using assms(3) by linarith
  then show ?thesis
  proof cases
    case first
    have u: "\<not> covers s k" if k: "key - 1 < k" "k < sub_start (subs ! nat c)" and s: "s \<in> set subs" for k s
    proof -
      obtain m where m: "m < length subs" "s = subs ! m" using s by (auto simp: in_set_conv_nth)
      have "k < sub_start (subs ! m)" by (rule not_begun_after [OF assms(1) m(1) k(2)]) (use first(2) in simp)
      then show ?thesis by (simp add: covers_def m(2))
    qed
    have "decided subs key (Some (show_gap (key - 1) (sub_start (subs ! nat c)) (at_sub c f))) (osd_changed f)"
      by (rule decided_gap) (use assms(2-4) first u in \<open>auto simp: at_sub_def\<close>)
    then show ?thesis using first at by (simp add: where_are_we_def at_sub_def)
  next
    case before
    have "\<not> between subs (c + 1) key" using before(1) se assms(3,4) by (auto simp: between_def intro!: exI [of _ "nat c"])
    then have "between subs c key" using assms(5) by blast
    moreover have "nat (c - 1) < length subs" "int (nat (c - 1)) < c" using assms(4) before(2) by simp_all
    ultimately have e: "sub_end (subs ! nat (c - 1)) < key" unfolding between_def by blast
    have "decided subs key (Some (show_gap_at subs (c - 1) ((at_sub c f)\<lparr>current_sub := c - 1\<rparr>))) (osd_changed f)"
      by (rule decided_gap_at [OF assms(1)]) (use assms(4) before e in \<open>auto simp: at_sub_def\<close>)
    then show ?thesis using before at e assms(4) by (simp add: where_are_we_def at_sub_def in_gap_at)
  next
    case last
    have e: "sub_end (subs ! nat c) < key" using last(1) nc by (simp add: covers_def)
    have u: "\<not> covers s k" if k: "sub_end (subs ! nat c) < k" and s: "s \<in> set subs" for k s
    proof -
      obtain m where m: "m < length subs" "s = subs ! m" using s by (auto simp: in_set_conv_nth)
      have "sub_end (subs ! m) < k" by (rule ended_before [OF assms(1) _ k]) (use last(2) m assms(3,4) in auto)
      then show ?thesis by (simp add: covers_def m(2))
    qed
    have "decided subs key (Some (show_gap (sub_end (subs ! nat c)) 0x7FFFFFFF (at_sub c f))) (osd_changed f)"
      by (rule decided_gap) (use assms(3,4) e u in \<open>auto simp: at_sub_def\<close>)
    then show ?thesis using last at e by (simp add: where_are_we_def at_sub_def)
  next
    case after
    have e: "sub_end (subs ! nat c) < key" using after(1) nc by (simp add: covers_def)
    have "\<not> between subs c key"
    proof
      assume "between subs c key"
      moreover have "nat c < length subs" "c \<le> int (nat c)" using assms(3,4) by simp_all
      ultimately show False using after(1) unfolding between_def by blast
    qed
    then have "between subs (c + 1) key" using assms(5) by blast
    moreover have "nat (c + 1) < length subs" "c + 1 \<le> int (nat (c + 1))" using assms(3) after(2) by simp_all
    ultimately have g: "key < sub_start (subs ! nat (c + 1))" unfolding between_def by blast
    have "decided subs key (Some (show_gap_at subs c (at_sub c f))) (osd_changed f)"
      by (rule decided_gap_at [OF assms(1)]) (use assms(3,4) after(2) e g in \<open>auto simp: at_sub_def\<close>)
    then show ?thesis using after at e g assms(3) by (simp add: where_are_we_def at_sub_def in_gap_at)
  qed
qed

lemma search_sub_ok:
  assumes "in_order subs" "0 < key" "finder_ok subs f"
  shows "decided subs key (search_sub subs key f) (osd_changed f)"
proof -
  have "0 < length subs" using assms(3) by (auto simp: finder_ok_def)
  then obtain found f' where b: "binary_search subs key 0 (int (length subs) - 1) f = Some (found, f')"
    "search_post subs key 0 (int (length subs) - 1) f found f'"
    using binary_search_ok [OF assms(1), of 0 "int (length subs) - 1" key f] by auto
  show ?thesis
  proof (cases found)
    case True
    then obtain c where "0 \<le> c" "c < int (length subs)" "covers (subs ! nat c) key" "f' = at_sub c f"
      using b(2) by (auto simp: search_post_def)
    then show ?thesis using decided_found [OF assms(1) _ _ _ assms(3)] True b(1) by (simp add: search_sub_def at_sub_def)
  next
    case False
    then obtain c where "0 \<le> c" "c < int (length subs)" "between subs c key \<or> between subs (c + 1) key" "f' = at_sub c f"
      using b(2) \<open>0 < length subs\<close> by (auto simp: search_post_def)
    then show ?thesis using where_are_we_ok [OF assms(1,2)] False b(1) by (simp add: search_sub_def)
  qed
qed

lemma next_sub_ok:
  assumes "in_order subs" "finder_ok subs f"
  obtains "decided subs key (map_option snd (next_sub subs key f)) (osd_changed f)" "map_option fst (next_sub subs key f) = Some True"
  | f' where "next_sub subs key f = Some (False, f')" "finder_ok subs f'" "osd_changed f' = osd_changed f"
proof -
  let ?c = "current_sub f"
  have k: "0 \<le> ?c" "?c < int (length subs)" using assms(2) by (auto simp: finder_ok_def)
  show ?thesis
  proof (cases "?c + 1 < int (length subs)")
    case False
    then show ?thesis using assms(2) by (intro that(2) [of f]) (simp_all add: next_sub_def)
  next
    case True
    note g = in_gap_at [OF k(1) True, of key]
    show ?thesis
    proof (cases "sub_end (subs ! nat ?c) < key \<and> key < sub_start (subs ! nat (?c + 1))")
      case gap: True
      have "decided subs key (Some (show_gap_at subs ?c f)) (osd_changed f)"
        by (rule decided_gap_at [OF assms(1)]) (use k True gap in auto)
      then show ?thesis using k True gap g by (intro that(1)) (simp_all add: next_sub_def)
    next
      case False
      have e: "next_sub subs key f = Some (covers (subs ! nat (?c + 1)) key, f\<lparr>current_sub := ?c + 1, vo_sub := Some (?c + 1)\<rparr>)"
        using k True False g by (auto simp: next_sub_def sub_at_def Let_def)
      have o: "finder_ok subs (f\<lparr>current_sub := ?c + 1, vo_sub := Some (?c + 1)\<rparr>)" using assms(2) k True by (auto simp: finder_ok_def)
      show ?thesis
      proof (cases "covers (subs ! nat (?c + 1)) key")
        case True
        then show ?thesis using decided_found [OF assms(1) _ \<open>?c + 1 < _\<close> True assms(2)] k e by (intro that(1)) simp_all
      next
        case False
        then show ?thesis using e by (intro that(2) [OF _ o]) simp_all
      qed
    qed
  qed
qed

lemma find_sub_ok:
  assumes "in_order subs" "0 < key" "finder_ok subs f"
  shows "\<exists>f'. find_sub (Some subs) key f = Some f' \<and> finder_ok subs f' \<and> vo_sub f' = covering subs key \<and>
    (osd_changed f' \<longleftrightarrow> osd_changed f \<or> still_right subs key f = Some False) \<and> (still_right subs key f = Some False \<or> f' = f)"
proof -
  obtain b where b: "still_right subs key f = Some b" using assms(3)
    by (cases "vo_sub f") (auto simp: still_right_def finder_ok_def sub_at_def)
  show ?thesis
  proof (cases b)
    case True
    have "vo_sub f = covering subs key"
    proof (cases "vo_sub f")
      case None
      then have "nosub_range_start f < key \<and> key < nosub_range_end f" using b True by (simp add: still_right_def)
      then show ?thesis using None covering_none [of subs key] assms(3) by (auto simp: finder_ok_def)
    next
      case (Some i)
      then have "0 \<le> i" "i < int (length subs)" using assms(3) by (auto simp: finder_ok_def)
      then show ?thesis using Some covering_at [OF assms(1)] b True by (simp add: still_right_def sub_at_def)
    qed
    then show ?thesis using b True assms(3) by (simp add: find_sub_def)
  next
    case False
    let ?f = "f\<lparr>osd_changed := True\<rparr>"
    have f: "finder_ok subs ?f" using assms(3) by (simp add: finder_ok_def)
    have e: "find_sub (Some subs) key f = (case next_sub subs key ?f of None \<Rightarrow> None | Some (True, g) \<Rightarrow> Some g | Some (False, g) \<Rightarrow> search_sub subs key g)"
      using b False assms(2) by (simp add: find_sub_def Let_def)
    have "decided subs key (find_sub (Some subs) key f) True"
      by (rule next_sub_ok [OF assms(1) f, of key])
        (use e search_sub_ok [OF assms(1,2)] in \<open>fastforce split: option.splits bool.splits\<close>)+
    then show ?thesis using b False by (auto simp: decided_def)
  qed
qed

section \<open>Properties\<close>

text \<open>The subtitle is looked up for one time after the other; before each the output has drawn what it was told of.\<close>

definition osd_drawn :: "sub_finder \<Rightarrow> sub_finder" where
  "osd_drawn f = f\<lparr>osd_changed := False\<rparr>"

lemma finder_ok_drawn [simp]: "finder_ok subs (osd_drawn f) = finder_ok subs f" "osd_changed (osd_drawn f) \<longleftrightarrow> False"
  by (simp_all add: finder_ok_def osd_drawn_def)

fun find_subs :: "subtitle list \<Rightarrow> nat list \<Rightarrow> sub_finder \<Rightarrow> sub_finder option" where
  "find_subs subs [] f = Some f"
| "find_subs subs (key # keys) f = (case find_sub (Some subs) key f of None \<Rightarrow> None | Some f \<Rightarrow> find_subs subs keys (osd_drawn f))"

lemma find_subs_ok:
  assumes "in_order subs" "finder_ok subs f" "\<forall>k \<in> set keys. 0 < k"
    and "\<not> osd_changed f"
  obtains f' where "find_subs subs keys f = Some f'" "finder_ok subs f'" "\<not> osd_changed f'"
proof -
  have "\<exists>f'. find_subs subs keys f = Some f' \<and> finder_ok subs f' \<and> \<not> osd_changed f'" using assms(2-4)
  proof (induction keys arbitrary: f)
    case (Cons k keys)
    obtain f1 where "find_sub (Some subs) k f = Some f1" "finder_ok subs f1"
      using find_sub_ok [OF assms(1) _ Cons.prems(1), of k] Cons.prems(2) by auto
    then show ?case using Cons by simp
  qed simp
  then show ?thesis using that by blast
qed

lemma sub_finder_init_ok: "subs \<noteq> [] \<Longrightarrow> finder_ok subs sub_finder_init" "\<not> osd_changed sub_finder_init"
  by (auto simp: finder_ok_def sub_finder_init_def)

text \<open>C20: for subtitles in order, each ending before the next one starts and not before it starts itself, and times that are not zero: whatever
  times have been asked for before, find_sub
  shows the subtitle that a search through all of them finds, and none when there is none: neither the
  remembered gap, nor the step to the next subtitle, nor the binary search can go wrong. This lookup tells the
  output whenever what it shows changes. (For subtitles that overlap this is not so: find_sub_misses_overlapping.)\<close>

theorem find_sub_is_linear_search:
  assumes "in_order subs" "subs \<noteq> []" "\<forall>k \<in> set keys. 0 < k" "0 < key"
  shows "\<exists>f f'. find_subs subs keys sub_finder_init = Some f \<and> find_sub (Some subs) key f = Some f' \<and>
    vo_sub f' = covering subs key \<and> \<not> osd_changed f \<and> (vo_sub f' \<noteq> vo_sub f \<longrightarrow> osd_changed f')"
proof -
  obtain f where f: "find_subs subs keys sub_finder_init = Some f" "finder_ok subs f" "\<not> osd_changed f"
    by (rule find_subs_ok [OF assms(1) sub_finder_init_ok(1) [OF assms(2)] assms(3) sub_finder_init_ok(2)])
  then show ?thesis using find_sub_ok [OF assms(1,4) f(2)] by auto
qed

lemma find_sub_is_linear_search_witness:
  "\<exists>f f'. find_subs [\<lparr>sub_start = 1, sub_end = 4\<rparr>, \<lparr>sub_start = 5, sub_end = 9\<rparr>] [12, 3] sub_finder_init = Some f \<and>
    find_sub (Some [\<lparr>sub_start = 1, sub_end = 4\<rparr>, \<lparr>sub_start = 5, sub_end = 9\<rparr>]) 7 f = Some f' \<and> vo_sub f' = Some 1"
proof -
  have "in_order [\<lparr>sub_start = 1, sub_end = 4\<rparr>, \<lparr>sub_start = 5, sub_end = 9\<rparr>]" by (simp add: in_order_def)
  moreover have "covering [\<lparr>sub_start = 1, sub_end = 4\<rparr>, \<lparr>sub_start = 5, sub_end = 9\<rparr>] 7 = Some 1" by code_simp
  ultimately show ?thesis
    using find_sub_is_linear_search [of "[\<lparr>sub_start = 1, sub_end = 4\<rparr>, \<lparr>sub_start = 5, sub_end = 9\<rparr>]" "[12, 3]" 7] by auto
qed

text \<open>Subtitles that overlap: the long one is on at time 60, and is not shown.\<close>

lemma find_sub_misses_overlapping:
  "covering [\<lparr>sub_start = 1, sub_end = 100\<rparr>, \<lparr>sub_start = 10, sub_end = 20\<rparr>, \<lparr>sub_start = 30, sub_end = 40\<rparr>] 60 = Some 0"
  "map_option vo_sub (find_sub (Some [\<lparr>sub_start = 1, sub_end = 100\<rparr>, \<lparr>sub_start = 10, sub_end = 20\<rparr>, \<lparr>sub_start = 30, sub_end = 40\<rparr>]) 60 sub_finder_init) = Some None"
proof -
  show "covering [\<lparr>sub_start = 1, sub_end = 100\<rparr>, \<lparr>sub_start = 10, sub_end = 20\<rparr>, \<lparr>sub_start = 30, sub_end = 40\<rparr>] 60 = Some 0" by code_simp
qed (simp add: find_sub_def sub_finder_init_def still_right_def ULONG_MAX_def next_sub_def in_gap_def sub_at_def Let_def
  covers_def search_sub_def binary_search.simps where_are_we_def show_gap_def)

end
