(* ===== verification/RtpCache.thy ===== *)
theory RtpCache
  imports Bytes "HOL-Library.Monad_Syntax"
begin

text \<open>
  Putting RTP packets back in order (mplayerxp/libmpstream2/rtp_cache.cpp): packets that come early are
  kept in a ring of 32 slots until it is their turn. The network is the list of what the socket
  will return.
\<close>

section \<open>Packets\<close>

record rtpheader =
  rh_v :: nat
  rh_p :: nat
  rh_x :: nat
  rh_cc :: nat
  rh_m :: nat
  rh_pt :: nat
  rh_sequence :: u16
  rh_timestamp :: u32

type_synonym network = "u8 list option list" \<comment> \<open>None: the read fails\<close>

definition tcp_read :: "nat \<Rightarrow> network \<Rightarrow> u8 list option \<times> network" where
  "tcp_read n net = (case net of [] \<Rightarrow> (None, []) | p # net \<Rightarrow> (map_option (take n) p, net))"

definition header_of :: "u8 list \<Rightarrow> rtpheader" where
  "header_of b =
     \<lparr>rh_v = unat (drop_bit 6 (b ! 0) AND 3), rh_p = unat (drop_bit 5 (b ! 0) AND 1), rh_x = unat (drop_bit 4 (b ! 0) AND 1),
      rh_cc = unat (b ! 0 AND 15), rh_m = unat (drop_bit 7 (b ! 1) AND 1), rh_pt = unat (b ! 1 AND 127),
      rh_sequence = be_word (take 2 (drop 2 b)), rh_timestamp = be_word (take 4 (drop 4 b))\<rparr>"

text \<open>The header, the payload, and its length, which is negative when the header says it is longer than the packet.\<close>

definition getrtp2 :: "network \<Rightarrow> (rtpheader \<times> u8 list \<times> int) option \<times> network" where
  "getrtp2 net = (case tcp_read 1590 net of (p, net) \<Rightarrow>
     ((case p of None \<Rightarrow> None
       | Some b \<Rightarrow> if length b < 12 then None
           else let rh = header_of b; headerSize = 12 + 4 * rh_cc rh in Some (rh, drop headerSize b, int (length b) - int headerSize)), net))"

section \<open>The cache\<close>

definition MAXRTPPACKETSIN :: nat where "MAXRTPPACKETSIN = 32"
definition STREAM_BUFFER_SIZE :: nat where "STREAM_BUFFER_SIZE = 4096"

text \<open>\<open>rtp_is_first\<close> is the static variable of Rtp_Cache::cache.\<close>

record Rtp_Cache =
  rtp_data :: "u8 list list"
  rtp_seq :: "u16 list"
  rtp_len :: "nat list"
  rtp_first :: nat
  rtp_is_first :: bool

definition Rtp_Cache_new :: Rtp_Cache where
  "Rtp_Cache_new = \<lparr>rtp_data = replicate MAXRTPPACKETSIN (replicate STREAM_BUFFER_SIZE 0), rtp_seq = replicate MAXRTPPACKETSIN 0,
     rtp_len = replicate MAXRTPPACKETSIN 0, rtp_first = 0, rtp_is_first = True\<rparr>"

definition cache_reset :: "u16 \<Rightarrow> Rtp_Cache \<Rightarrow> Rtp_Cache" where
  "cache_reset seq c = c\<lparr>rtp_first := 0, rtp_seq := (rtp_seq c)[0 := seq + 1], rtp_len := map (\<lambda>_. 0) (rtp_len c)\<rparr>"

text \<open>What is done with a packet.\<close>

datatype rtp_action = Feed | Drop | Store nat

definition sort_packet :: "u16 \<Rightarrow> Rtp_Cache \<Rightarrow> rtp_action \<times> Rtp_Cache" where
  "sort_packet seq c =
     (let newseq = uint seq - uint (rtp_seq c ! rtp_first c); n = int MAXRTPPACKETSIN in
      if newseq = 0 \<or> rtp_is_first c then
        let f = (1 + rtp_first c) mod MAXRTPPACKETSIN
        in (Feed, c\<lparr>rtp_is_first := False, rtp_first := f, rtp_seq := (rtp_seq c)[f := seq + 1]\<rparr>)
      else if n < newseq then (Feed, cache_reset seq c)
      else if newseq < 0 then
        if seq \<in> set (rtp_seq c) then (Drop, c)
        else if - (3 * n) < newseq then (Drop, c)
        else (Feed, cache_reset seq c)
      else (Store (nat ((newseq + int (rtp_first c)) mod n)), c))"

definition store_packet :: "nat \<Rightarrow> u16 \<Rightarrow> u8 list \<Rightarrow> Rtp_Cache \<Rightarrow> Rtp_Cache" where
  "store_packet i seq data c = c\<lparr>rtp_data := (rtp_data c)[i := data @ drop (length data) (rtp_data c ! i)],
     rtp_len := (rtp_len c)[i := length data], rtp_seq := (rtp_seq c)[i := seq]\<rparr>"

text \<open>Rtp_Cache::cache: the bytes for the reader, if it is their turn. None: a negative length is copied.\<close>

definition cache :: "network \<Rightarrow> Rtp_Cache \<Rightarrow> (u8 list \<times> network \<times> Rtp_Cache) option" where
  "cache net c = (case getrtp2 net of
       (None, net) \<Rightarrow> Some ([], net, c)
     | (Some (rh, data, len), net) \<Rightarrow>
         if len = 0 then Some ([], net, c)
         else (case sort_packet (rh_sequence rh) c of
             (Drop, c) \<Rightarrow> Some ([], net, c)
           | (Feed, c) \<Rightarrow> if len < 0 then None else Some (data, net, c)
           | (Store i, c) \<Rightarrow> if len < 0 then None else Some ([], net, store_packet i (rh_sequence rh) data c)))"

text \<open>The first loop of get_next.\<close>

fun fill_cache :: "nat \<Rightarrow> network \<Rightarrow> Rtp_Cache \<Rightarrow> (u8 list \<times> network \<times> Rtp_Cache) option" where
  "fill_cache 0 net c = Some ([], net, c)"
| "fill_cache (Suc k) net c =
     (if rtp_len c ! rtp_first c \<noteq> 0 then Some ([], net, c)
      else case cache net c of None \<Rightarrow> None
        | Some (bs, net, c) \<Rightarrow> if bs \<noteq> [] then Some (bs, net, c) else fill_cache k net c)"

text \<open>The second one; it ends when it has gone round.\<close>

fun next_full :: "nat \<Rightarrow> nat \<Rightarrow> Rtp_Cache \<Rightarrow> nat" where
  "next_full 0 i c = i"
| "next_full (Suc k) i c =
     (if rtp_len c ! i = 0 then let i = (1 + i) mod MAXRTPPACKETSIN in if rtp_first c = i then i else next_full k i c else i)"

definition take_slot :: "nat \<Rightarrow> Rtp_Cache \<Rightarrow> u8 list \<times> Rtp_Cache" where
  "take_slot i c = (let f = (1 + i) mod MAXRTPPACKETSIN
     in (take (rtp_len c ! i) (rtp_data c ! i),
         c\<lparr>rtp_len := (rtp_len c)[i := 0], rtp_first := f, rtp_seq := (rtp_seq c)[f := rtp_seq c ! i + 1]\<rparr>))"

definition get_next :: "network \<Rightarrow> Rtp_Cache \<Rightarrow> (u8 list \<times> network \<times> Rtp_Cache) option" where
  "get_next net c = (case fill_cache (MAXRTPPACKETSIN - 3) net c of None \<Rightarrow> None
     | Some (bs, net, c) \<Rightarrow>
         if bs \<noteq> [] then Some (bs, net, c)
         else let (bs, c) = take_slot (next_full MAXRTPPACKETSIN (rtp_first c) c) c in Some (bs, net, c))"

partial_function (option) read_nonempty :: "network \<Rightarrow> Rtp_Cache \<Rightarrow> (u8 list \<times> network \<times> Rtp_Cache) option option" where
  "read_nonempty net c = (case get_next net c of None \<Rightarrow> Some None
     | Some (bs, net, c) \<Rightarrow> if bs = [] then read_nonempty net c else Some (Some (bs, net, c)))"

text \<open>The outer None: it does not return.\<close>

definition read_from_server :: "nat \<Rightarrow> network \<Rightarrow> Rtp_Cache \<Rightarrow> (u8 list \<times> network \<times> Rtp_Cache) option option" where
  "read_from_server len net c = (if len < STREAM_BUFFER_SIZE then Some (Some ([], net, c)) else read_nonempty net c)"

declare read_nonempty.simps [code]

section \<open>What the cache holds\<close>

text \<open>
  \<open>e\<close> is the number of the packet whose turn it is, \<open>pay n\<close> what was sent as number \<open>n\<close>. A slot is
  empty or holds the packet for its distance from the first.
\<close>

definition slot :: "Rtp_Cache \<Rightarrow> nat \<Rightarrow> nat" where
  "slot c j = (rtp_first c + j) mod MAXRTPPACKETSIN"

definition slot_ok :: "(nat \<Rightarrow> u8 list) \<Rightarrow> Rtp_Cache \<Rightarrow> nat \<Rightarrow> nat \<Rightarrow> bool" where
  "slot_ok pay c i n \<longleftrightarrow> rtp_len c ! i = 0 \<or>
     rtp_len c ! i = length (pay n) \<and> take (length (pay n)) (rtp_data c ! i) = pay n \<and> rtp_seq c ! i = of_nat n"

definition rtp_ok :: "(nat \<Rightarrow> u8 list) \<Rightarrow> nat \<Rightarrow> Rtp_Cache \<Rightarrow> bool" where
  "rtp_ok pay e c \<longleftrightarrow> length (rtp_data c) = 32 \<and> length (rtp_seq c) = 32 \<and> length (rtp_len c) = 32 \<and> rtp_first c < 32 \<and>
     \<not> rtp_is_first c \<and> rtp_seq c ! rtp_first c = of_nat e \<and> (\<forall>j < 32. slot_ok pay c (slot c j) (e + j))"

text \<open>A datagram with packet number \<open>n\<close>.\<close>

definition carries :: "(nat \<Rightarrow> u8 list) \<Rightarrow> nat \<Rightarrow> u8 list option \<Rightarrow> bool" where
  "carries pay n p \<longleftrightarrow> n < 2 ^ 16 \<and> pay n \<noteq> [] \<and> (\<forall>net. \<exists>rh. getrtp2 (p # net) = (Some (rh, pay n, int (length (pay n))), net) \<and> rh_sequence rh = of_nat n)"

lemma slot_lt [simp]: "slot c j < 32"
  by (simp add: slot_def MAXRTPPACKETSIN_def)

lemma slot_eq: "j < 32 \<Longrightarrow> k < 32 \<Longrightarrow> slot c j = slot c k \<longleftrightarrow> j = k"
proof -
  assume a: "j < 32" "k < 32"
  have "slot c j = slot c k \<Longrightarrow> j \<le> k \<Longrightarrow> j = k" if "j < 32" "k < 32" for j k
    using mod_eq_close [of "rtp_first c + j" 32 "rtp_first c + k"] that by (simp add: slot_def MAXRTPPACKETSIN_def)
  then show ?thesis using a by (metis nat_le_linear)
qed

lemma slot_0 [simp]: "rtp_first c < 32 \<Longrightarrow> slot c 0 = rtp_first c"
  by (simp add: slot_def MAXRTPPACKETSIN_def)

lemma slot_Suc: "rtp_first c' = (1 + rtp_first c) mod MAXRTPPACKETSIN \<Longrightarrow> slot c' j = slot c (Suc j)"
  by (simp add: slot_def MAXRTPPACKETSIN_def mod_simps)

lemma slot_32: "rtp_first c < 32 \<Longrightarrow> slot c 32 = rtp_first c"
  by (simp add: slot_def MAXRTPPACKETSIN_def)

text \<open>The next slot becomes the first; the old one is empty.\<close>

lemma rtp_ok_advance:
  assumes ok: "rtp_ok pay e c" "rtp_len c ! rtp_first c = 0" and f: "f = (1 + rtp_first c) mod MAXRTPPACKETSIN"
  shows "rtp_ok pay (e + 1) (c\<lparr>rtp_first := f, rtp_seq := (rtp_seq c)[f := of_nat e + 1]\<rparr>)"
proof -
  let ?c = "c\<lparr>rtp_first := f, rtp_seq := (rtp_seq c)[f := of_nat e + 1]\<rparr>"
  have l: "length (rtp_seq c) = 32" "rtp_first c < 32" "f < 32" using ok f by (auto simp: rtp_ok_def MAXRTPPACKETSIN_def)
  have "slot_ok pay ?c (slot ?c j) (e + 1 + j)" if j: "j < 32" for j
  proof (cases "j = 31")
    case True
    then have "slot ?c j = rtp_first c" using slot_Suc [of ?c c j] slot_32 [OF l(2)] f by simp
    then show ?thesis using ok(2) by (simp add: slot_ok_def)
  next
    case False
    then have "Suc j < 32" using j by simp
    then have "slot_ok pay c (slot c (Suc j)) (e + Suc j)" using ok(1) unfolding rtp_ok_def by blast
    moreover have e: "slot ?c j = slot c (Suc j)" using slot_Suc [of ?c c j] f by simp
    moreover have "slot c (Suc j) = f \<Longrightarrow> j = 0"
      using slot_eq [of "Suc j" 1 c] j False f by (simp add: slot_def)
    ultimately show ?thesis using l by (auto simp: slot_ok_def nth_list_update)
  qed
  then show ?thesis using ok l by (auto simp: rtp_ok_def)
qed

lemma rtp_ok_store:
  assumes ok: "rtp_ok pay e c" and j: "0 < j" "j < 32" and d: "data = pay (e + j)"
  shows "rtp_ok pay e (store_packet (slot c j) (of_nat (e + j)) data c)"
proof -
  let ?c = "store_packet (slot c j) (of_nat (e + j)) data c"
  have l: "length (rtp_data c) = 32" "length (rtp_seq c) = 32" "length (rtp_len c) = 32" "rtp_first c < 32" using ok by (auto simp: rtp_ok_def)
  have s: "slot ?c k = slot c k" for k by (simp add: slot_def store_packet_def)
  have "slot c j \<noteq> rtp_first c" using slot_eq [of j 0 c] j l(4) by simp
  then have "rtp_seq ?c ! rtp_first c = of_nat e" using ok by (simp add: rtp_ok_def store_packet_def)
  moreover have "slot_ok pay ?c (slot c k) (e + k)" if k: "k < 32" for k
  proof (cases "k = j")
    case True
    then show ?thesis using l d by (simp add: slot_ok_def store_packet_def)
  next
    case False
    then have "slot c k \<noteq> slot c j" using slot_eq k j by simp
    moreover have "slot_ok pay c (slot c k) (e + k)" using ok k by (simp add: rtp_ok_def)
    ultimately show ?thesis by (simp add: slot_ok_def store_packet_def)
  qed
  ultimately show ?thesis using ok l unfolding rtp_ok_def s by (auto simp: store_packet_def)
qed

definition in_window :: "nat \<Rightarrow> nat \<Rightarrow> bool" where
  "in_window e n \<longleftrightarrow> e < 2 ^ 16 \<and> e < n + 96 \<and> n < e + 32"

lemma cache_ok:
  assumes ok: "rtp_ok pay e c" "rtp_len c ! rtp_first c = 0" and p: "carries pay n p" "in_window e n"
  shows "\<exists>c'. cache (p # net) c = Some (if n = e then pay e else [], net, c') \<and> rtp_ok pay (if n = e then e + 1 else e) c' \<and>
    (e < n \<longrightarrow> rtp_len c' ! slot c' (n - e) \<noteq> 0) \<and> (\<forall>i. rtp_len c ! i \<noteq> 0 \<longrightarrow> rtp_len c' ! i \<noteq> 0) \<and> (n \<noteq> e \<longrightarrow> rtp_first c' = rtp_first c)"
proof -
  obtain rh where g: "getrtp2 (p # net) = (Some (rh, pay n, int (length (pay n))), net)" "rh_sequence rh = of_nat n" "n < 2 ^ 16" "pay n \<noteq> []"
    using p(1) unfolding carries_def by blast
  have l: "length (rtp_data c) = 32" "length (rtp_seq c) = 32" "length (rtp_len c) = 32" "rtp_first c < 32" "\<not> rtp_is_first c"
    "rtp_seq c ! rtp_first c = of_nat e" using ok by (auto simp: rtp_ok_def)
  have d: "uint (of_nat n :: u16) - uint (rtp_seq c ! rtp_first c) = int n - int e"
    using g(3) p(2) l(6) by (simp add: in_window_def unsigned_of_nat take_bit_nat_eq_self)
  consider (now) "n = e" | (late) "n < e" | (early) "e < n" by linarith
  then show ?thesis
  proof cases
    case now
    let ?f = "(1 + rtp_first c) mod MAXRTPPACKETSIN"
    have "sort_packet (of_nat n) c = (Feed, c\<lparr>rtp_first := ?f, rtp_seq := (rtp_seq c)[?f := of_nat e + 1]\<rparr>)"
      using d now l(5) by (simp add: sort_packet_def Let_def)
    then show ?thesis using g now rtp_ok_advance [OF ok refl] by (simp add: cache_def)
  next
    case late
    then have "fst (sort_packet (of_nat n) c) = Drop" "snd (sort_packet (of_nat n) c) = c"
      using d l(5) p(2) by (auto simp: sort_packet_def Let_def in_window_def MAXRTPPACKETSIN_def)
    then show ?thesis using g late ok by (cases "sort_packet (of_nat n) c") (simp add: cache_def)
  next
    case early
    have "nat ((int n - int e + int (rtp_first c)) mod int MAXRTPPACKETSIN) = slot c (n - e)"
      using early by (simp add: slot_def nat_mod_as_int of_nat_diff algebra_simps)
    then have "sort_packet (of_nat n) c = (Store (slot c (n - e)), c)"
      using early d l(5) p(2) by (simp add: sort_packet_def Let_def in_window_def MAXRTPPACKETSIN_def)
    moreover have "rtp_ok pay e (store_packet (slot c (n - e)) (of_nat n) (pay n) c)"
      using rtp_ok_store [OF ok(1), of "n - e" "pay n"] early p(2) by (fastforce simp: in_window_def)
    ultimately show ?thesis using g early l by (auto simp: cache_def store_packet_def slot_def MAXRTPPACKETSIN_def nth_list_update)
  qed
qed

text \<open>The slots from the first on are empty up to the one of distance \<open>m\<close>.\<close>

definition empty_upto :: "nat \<Rightarrow> Rtp_Cache \<Rightarrow> bool" where
  "empty_upto m c \<longleftrightarrow> (\<forall>j < m. rtp_len c ! slot c j = 0)"

lemma next_full_ok:
  assumes "rtp_first c < 32" "m < 32" "k = 32 - m" "empty_upto m c"
  shows "(\<exists>m'. m' < 32 \<and> empty_upto m' c \<and> rtp_len c ! slot c m' \<noteq> 0 \<and> next_full k (slot c m) c = slot c m') \<or>
    empty_upto 32 c \<and> next_full k (slot c m) c = rtp_first c"
  using assms
proof (induction k arbitrary: m)
  case (Suc k)
  have step: "(1 + slot c m) mod MAXRTPPACKETSIN = slot c (Suc m)" by (simp add: slot_def MAXRTPPACKETSIN_def mod_simps)
  show ?case
  proof (cases "rtp_len c ! slot c m = 0")
    case True
    then have e: "empty_upto (Suc m) c" using Suc.prems(4) by (auto simp: empty_upto_def less_Suc_eq)
    show ?thesis
    proof (cases "Suc m = 32")
      case True
      then have "slot c (Suc m) = rtp_first c" using slot_32 [OF Suc.prems(1)] by simp
      then show ?thesis using \<open>_ = 0\<close> e True step by (simp add: Let_def)
    next
      case False
      then have "Suc m < 32" using Suc.prems(2) by simp
      moreover have "rtp_first c \<noteq> slot c (Suc m)" using slot_eq [of 0 "Suc m" c] calculation Suc.prems(1) by simp
      moreover have "next_full (Suc k) (slot c m) c = next_full k (slot c (Suc m)) c"
        using \<open>_ = 0\<close> step calculation(2) by (simp add: Let_def)
      moreover have "k = 32 - Suc m" using Suc.prems(3) by simp
      ultimately show ?thesis using Suc.IH [OF Suc.prems(1) _ _ e] by simp
    qed
  next
    case False
    then have "next_full (Suc k) (slot c m) c = slot c m" by simp
    then show ?thesis using False Suc.prems(2,4) by blast
  qed
qed simp

lemma rtp_ok_take:
  assumes ok: "rtp_ok pay e c" and m: "m < 32" "empty_upto m c" "rtp_len c ! slot c m \<noteq> 0"
  shows "fst (take_slot (slot c m) c) = pay (e + m)" "rtp_ok pay (e + m + 1) (snd (take_slot (slot c m) c))"
proof -
  have s: "slot_ok pay c (slot c m) (e + m)" using ok m(1) unfolding rtp_ok_def by blast
  then show "fst (take_slot (slot c m) c) = pay (e + m)" using m(3) by (simp add: take_slot_def slot_ok_def Let_def)
  have l: "length (rtp_data c) = 32" "length (rtp_seq c) = 32" "length (rtp_len c) = 32" "rtp_first c < 32" "\<not> rtp_is_first c"
    using ok by (auto simp: rtp_ok_def)
  define f where "f = slot c (Suc m)"
  define c' where "c' = snd (take_slot (slot c m) c)"
  have f: "(1 + slot c m) mod MAXRTPPACKETSIN = f" by (simp add: f_def slot_def MAXRTPPACKETSIN_def mod_simps)
  have c': "c' = c\<lparr>rtp_len := (rtp_len c)[slot c m := 0], rtp_first := f, rtp_seq := (rtp_seq c)[f := of_nat (e + m) + 1]\<rparr>"
    using f s m(3) by (simp add: c'_def take_slot_def slot_ok_def Let_def)
  have sl: "slot c' j = slot c (Suc m + j)" for j by (simp add: slot_def c' f_def MAXRTPPACKETSIN_def mod_simps add.assoc)
  have "slot_ok pay c' (slot c' j) (e + m + 1 + j)" if j: "j < 32" for j
  proof (cases "Suc m + j < 32")
    case True
    then have "slot_ok pay c (slot c (Suc m + j)) (e + (Suc m + j))" using ok unfolding rtp_ok_def by blast
    then have o: "slot_ok pay c (slot c (Suc m + j)) (e + m + 1 + j)" by (simp add: ac_simps)
    have n: "slot c (Suc m + j) \<noteq> slot c m" using slot_eq [of "Suc m + j" m c] True m(1) by simp
    show ?thesis
    proof (cases "j = 0")
      case True
      then show ?thesis using o n l unfolding sl by (auto simp: slot_ok_def c' f_def)
    next
      case False
      then have "slot c (Suc m + j) \<noteq> f" using slot_eq [of "Suc m + j" "Suc m" c] True unfolding f_def by simp
      then show ?thesis using o n unfolding sl by (simp add: slot_ok_def c')
    qed
  next
    case False
    then have "slot c (Suc m + j) = slot c (Suc m + j - 32)" by (simp add: slot_def MAXRTPPACKETSIN_def mod_if)
    moreover have "Suc m + j - 32 \<le> m" using j by simp
    ultimately have "rtp_len c' ! slot c' j = 0" using m(2) l(3) unfolding sl
      by (cases "Suc m + j - 32 = m") (auto simp: c' empty_upto_def nth_list_update)
    then show ?thesis by (simp add: slot_ok_def)
  qed
  then show "rtp_ok pay (e + m + 1) c'" using l unfolding rtp_ok_def by (simp add: c' f_def)
qed

lemma rtp_ok_empty:
  assumes ok: "rtp_ok pay e c" and m: "empty_upto 32 c"
  shows "fst (take_slot (rtp_first c) c) = []" "rtp_ok pay (e + 1) (snd (take_slot (rtp_first c) c))"
proof -
  have l: "rtp_first c < 32" "length (rtp_len c) = 32" "rtp_seq c ! rtp_first c = of_nat e" using ok by (auto simp: rtp_ok_def)
  have z: "rtp_len c ! rtp_first c = 0" using m slot_0 [OF l(1)] by (metis empty_upto_def zero_less_numeral)
  then show "fst (take_slot (rtp_first c) c) = []" by (simp add: take_slot_def Let_def)
  have "(rtp_len c)[rtp_first c := 0] = rtp_len c" using z by (metis list_update_id)
  then show "rtp_ok pay (e + 1) (snd (take_slot (rtp_first c) c))"
    using rtp_ok_advance [OF ok z refl] l(3) by (simp add: take_slot_def Let_def)
qed

text \<open>The datagrams one call of get_next may read.\<close>

definition arrivals_ok :: "(nat \<Rightarrow> u8 list) \<Rightarrow> nat \<Rightarrow> network \<Rightarrow> bool" where
  "arrivals_ok pay e ps \<longleftrightarrow> (\<forall>p \<in> set ps. \<exists>n. carries pay n p \<and> in_window e n)"

lemma fill_cache_ok:
  assumes "rtp_ok pay e c" "arrivals_ok pay e (take k net)"
  shows "\<exists>bs net' c'. fill_cache k net c = Some (bs, net', c') \<and>
    (bs = pay e \<and> bs \<noteq> [] \<and> rtp_ok pay (e + 1) c' \<or>
     bs = [] \<and> rtp_ok pay e c' \<and> (rtp_len c' ! rtp_first c' \<noteq> 0 \<or> (\<forall>p \<in> set (take k net). \<not> carries pay e p)))"
  using assms
proof (induction k arbitrary: net c)
  case (Suc k)
  show ?case
  proof (cases "rtp_len c ! rtp_first c = 0")
    case False
    then show ?thesis using Suc.prems(1) by auto
  next
    case True
    show ?thesis
    proof (cases net)
      case Nil
      have "cache [] c = Some ([], [], c)" by (simp add: cache_def getrtp2_def tcp_read_def)
      moreover have "arrivals_ok pay e (take k [])" by (simp add: arrivals_ok_def)
      ultimately show ?thesis using Suc.IH [OF Suc.prems(1), of "[]"] Nil True by auto
    next
      case (Cons p ps)
      obtain n where n: "carries pay n p" "in_window e n" using Suc.prems(2) Cons by (auto simp: arrivals_ok_def)
      from cache_ok [OF Suc.prems(1) True n, of ps] obtain c1
        where c1: "cache (p # ps) c = Some (if n = e then pay e else [], ps, c1)" "rtp_ok pay (if n = e then e + 1 else e) c1" by blast
      have pe: "pay n \<noteq> []" "n < 2 ^ 16" using n(1) by (auto simp: carries_def)
      show ?thesis
      proof (cases "n = e")
        case True
        then show ?thesis using c1 Cons pe \<open>rtp_len c ! rtp_first c = 0\<close> by auto
      next
        case False
        have "\<not> carries pay e p"
        proof
          assume "carries pay e p"
          then have "\<exists>rh. getrtp2 [p] = (Some (rh, pay e, int (length (pay e))), []) \<and> rh_sequence rh = of_nat e" "e < 2 ^ 16"
            unfolding carries_def by blast+
          moreover have "\<exists>rh. getrtp2 [p] = (Some (rh, pay n, int (length (pay n))), []) \<and> rh_sequence rh = of_nat n"
            using n(1) unfolding carries_def by blast
          ultimately have "(of_nat n :: u16) = of_nat e" by auto
          then have "unat (of_nat n :: u16) = unat (of_nat e :: u16)" by simp
          then show False using False pe(2) \<open>e < 2 ^ 16\<close> by (simp add: unsigned_of_nat take_bit_nat_eq_self)
        qed
        moreover have "arrivals_ok pay e (take k ps)" using Suc.prems(2) Cons by (simp add: arrivals_ok_def)
        ultimately show ?thesis using Suc.IH [of c1 ps] c1 False Cons True by fastforce
      qed
    qed
  qed
qed auto

lemma get_next_ok:
  assumes "rtp_ok pay e c" "arrivals_ok pay e (take 29 net)"
  shows "\<exists>bs net' c' n. get_next net c = Some (bs, net', c') \<and> e \<le> n \<and> n < e + 32 \<and> rtp_ok pay (n + 1) c' \<and> (bs = pay n \<or> bs = [] \<and> n = e) \<and>
    ((\<exists>p \<in> set (take 29 net). carries pay e p) \<longrightarrow> bs = pay e \<and> n = e)"
proof -
  obtain bs net' c1 where f: "fill_cache 29 net c = Some (bs, net', c1)"
    "bs = pay e \<and> bs \<noteq> [] \<and> rtp_ok pay (e + 1) c1 \<or>
     bs = [] \<and> rtp_ok pay e c1 \<and> (rtp_len c1 ! rtp_first c1 \<noteq> 0 \<or> (\<forall>p \<in> set (take 29 net). \<not> carries pay e p))"
    using fill_cache_ok [OF assms] by blast
  have g: "get_next net c = (if bs \<noteq> [] then Some (bs, net', c1)
      else let (bs, c) = take_slot (next_full 32 (rtp_first c1) c1) c1 in Some (bs, net', c))"
    using f(1) by (simp add: get_next_def MAXRTPPACKETSIN_def)
  show ?thesis
  proof (cases "bs = []")
    case False
    then have b: "bs = pay e \<and> rtp_ok pay (e + 1) c1" using f(2) by blast
    have "get_next net c = Some (bs, net', c1)" using g False by simp
    then show ?thesis using b by (intro exI [of _ bs] exI [of _ net'] exI [of _ c1] exI [of _ e]) simp
  next
    case True
    then have ok: "rtp_ok pay e c1" "rtp_len c1 ! rtp_first c1 \<noteq> 0 \<or> (\<forall>p \<in> set (take 29 net). \<not> carries pay e p)"
      using f(2) by blast+
    have l: "rtp_first c1 < 32" using ok(1) by (simp add: rtp_ok_def)
    define t where "t = take_slot (next_full 32 (rtp_first c1) c1) c1"
    have gt: "get_next net c = Some (fst t, net', snd t)" using g True by (simp add: t_def split_beta)
    have "empty_upto 0 c1" by (simp add: empty_upto_def)
    from next_full_ok [OF l _ _ this, of 32] consider (full) m where "m < 32" "empty_upto m c1" "rtp_len c1 ! slot c1 m \<noteq> 0" "next_full 32 (rtp_first c1) c1 = slot c1 m"
      | (none) "empty_upto 32 c1" "next_full 32 (rtp_first c1) c1 = rtp_first c1" using slot_0 [OF l] by auto
    then show ?thesis
    proof cases
      case full
      have t: "fst t = pay (e + m)" "rtp_ok pay (e + m + 1) (snd t)" using rtp_ok_take [OF ok(1) full(1-3)] full(4) by (simp_all add: t_def)
      have "m = 0" if "rtp_len c1 ! rtp_first c1 \<noteq> 0" using that full(2) slot_0 [OF l] by (metis empty_upto_def gr0I)
      then have "(\<exists>p \<in> set (take 29 net). carries pay e p) \<longrightarrow> m = 0" using ok(2) by blast
      then show ?thesis using gt t by (intro exI [of _ "fst t"] exI [of _ net'] exI [of _ "snd t"] exI [of _ "e + m"]) (use full(1) in auto)
    next
      case none
      have t: "fst t = []" "rtp_ok pay (e + 1) (snd t)" using rtp_ok_empty [OF ok(1) none(1)] none(2) by (simp_all add: t_def)
      have "rtp_len c1 ! rtp_first c1 = 0" using none(1) slot_0 [OF l] by (metis empty_upto_def zero_less_numeral)
      then have "\<not> (\<exists>p \<in> set (take 29 net). carries pay e p)" using ok(2) by blast
      then show ?thesis using gt t by (intro exI [of _ "[]"] exI [of _ net'] exI [of _ "snd t"] exI [of _ e]) simp
    qed
  qed
qed

section \<open>Properties\<close>

definition expected :: "Rtp_Cache \<Rightarrow> nat" where
  "expected c = unat (rtp_seq c ! rtp_first c)"

text \<open>
  A reader on a network: \<open>got\<close> is what its calls returned. Each call finds on the network only packets
  from the window around the expected number, in any order, late and repeated ones as well.
\<close>

inductive rtp_reads :: "(nat \<Rightarrow> u8 list) \<Rightarrow> network \<Rightarrow> u8 list list \<Rightarrow> network \<Rightarrow> Rtp_Cache \<Rightarrow> bool" for pay net0 where
  start: "net0 = p # rest \<Longrightarrow> carries pay n p \<Longrightarrow> n + 1 < 2 ^ 16 \<Longrightarrow> get_next net0 Rtp_Cache_new = Some (bs, net, c) \<Longrightarrow>
    rtp_reads pay net0 [bs] net c"
| more: "rtp_reads pay net0 got net c \<Longrightarrow> expected c + 32 < 2 ^ 16 \<Longrightarrow> arrivals_ok pay (expected c) (take 29 net) \<Longrightarrow>
    get_next net c = Some (bs, net', c') \<Longrightarrow> rtp_reads pay net0 (got @ [bs]) net' c'"

lemma rtp_ok_expected: "rtp_ok pay e c \<Longrightarrow> e < 2 ^ 16 \<Longrightarrow> expected c = e"
  by (simp add: expected_def rtp_ok_def unsigned_of_nat take_bit_nat_eq_self)

lemma first_packet:
  assumes "carries pay n p"
  shows "\<exists>c. get_next (p # net) Rtp_Cache_new = Some (pay n, net, c) \<and> rtp_ok pay (n + 1) c"
proof -
  obtain rh where g: "getrtp2 (p # net) = (Some (rh, pay n, int (length (pay n))), net)" "rh_sequence rh = of_nat n" "pay n \<noteq> []"
    using assms unfolding carries_def by blast
  define c where "c = Rtp_Cache_new\<lparr>rtp_is_first := False, rtp_first := 1, rtp_seq := (rtp_seq Rtp_Cache_new)[1 := of_nat n + 1]\<rparr>"
  have "sort_packet (of_nat n) Rtp_Cache_new = (Feed, c)"
    by (simp add: sort_packet_def Rtp_Cache_new_def c_def Let_def MAXRTPPACKETSIN_def)
  then have "cache (p # net) Rtp_Cache_new = Some (pay n, net, c)" using g by (simp add: cache_def)
  moreover have "rtp_len Rtp_Cache_new ! rtp_first Rtp_Cache_new = 0" by (simp add: Rtp_Cache_new_def MAXRTPPACKETSIN_def)
  ultimately have "fill_cache (Suc 28) (p # net) Rtp_Cache_new = Some (pay n, net, c)" using g(3) by (simp only: fill_cache.simps) simp
  then have "get_next (p # net) Rtp_Cache_new = Some (pay n, net, c)"
    using g(3) by (simp add: get_next_def MAXRTPPACKETSIN_def del: fill_cache.simps)
  moreover have "rtp_ok pay (n + 1) c"
    by (auto simp: rtp_ok_def c_def Rtp_Cache_new_def MAXRTPPACKETSIN_def slot_ok_def slot_def)
  ultimately show ?thesis by blast
qed

lemma rtp_reads_inv:
  assumes "rtp_reads pay net0 got net c"
  shows "expected c < 2 ^ 16 \<and> rtp_ok pay (expected c) c \<and>
    (\<exists>ns. sorted_wrt (<) ns \<and> (\<forall>n \<in> set ns. n < expected c) \<and> filter (\<lambda>bs. bs \<noteq> []) got = map pay ns)"
  using assms
proof (induction rule: rtp_reads.induct)
  case (start p rest n bs net c)
  obtain c1 where "get_next net0 Rtp_Cache_new = Some (pay n, rest, c1)" "rtp_ok pay (n + 1) c1"
    using first_packet [OF start(2), of rest] start(1) by blast
  then have "bs = pay n" "rtp_ok pay (n + 1) c" using start(4) by simp_all
  then show ?case using rtp_ok_expected start(2,3) by (auto intro!: exI [of _ "[n]"] simp: carries_def)
next
  case (more got net c bs net' c')
  define e where "e = expected c"
  obtain ns where ns: "sorted_wrt (<) ns" "\<forall>n \<in> set ns. n < e" "filter (\<lambda>bs. bs \<noteq> []) got = map pay ns" "rtp_ok pay e c"
    using more.IH by (auto simp: e_def)
  obtain n where n: "e \<le> n" "rtp_ok pay (n + 1) c'" "bs = pay n \<or> bs = [] \<and> n = e" "n < e + 32"
    using get_next_ok [OF ns(4) more(3) [folded e_def]] more(4) by auto
  have "n + 1 < 2 ^ 16" using n(4) more(2) by (simp add: e_def)
  then have x: "expected c' = n + 1" by (rule rtp_ok_expected [OF n(2)])
  have "\<exists>ns. sorted_wrt (<) ns \<and> (\<forall>k \<in> set ns. k < n + 1) \<and> filter (\<lambda>bs. bs \<noteq> []) (got @ [bs]) = map pay ns"
  proof (cases "bs = []")
    case True
    then show ?thesis using ns(1-3) n(1) by (intro exI [of _ ns]) auto
  next
    case False
    then have "bs = pay n" using n(3) by blast
    then show ?thesis using ns(1-3) n(1) False by (intro exI [of _ "ns @ [n]"]) (auto simp: sorted_wrt_append)
  qed
  then show ?case using n(2) \<open>n + 1 < _\<close> x by simp
qed

text \<open>C21: as long as the packets on the network belong to the window around the expected number and the numbers do not
  wrap, the reader gets the payloads that were sent, none twice and in increasing order, however late, early or
  often their datagrams arrive within that window; each call returns, and when the expected packet is among the next 29 datagrams
  it is the one that is returned, so nothing is skipped.\<close>

theorem rtp_packets_in_order:
  assumes "rtp_reads pay net0 got net c"
  shows "(\<exists>ns. sorted_wrt (<) ns \<and> (\<forall>n \<in> set ns. n < expected c) \<and> filter (\<lambda>bs. bs \<noteq> []) got = map pay ns) \<and>
    (arrivals_ok pay (expected c) (take 29 net) \<longrightarrow>
      (\<exists>bs net' c'. get_next net c = Some (bs, net', c') \<and>
        ((\<exists>p \<in> set (take 29 net). carries pay (expected c) p) \<longrightarrow> bs = pay (expected c))))"
  using rtp_reads_inv [OF assms] get_next_ok [of pay "expected c" c net] by fastforce

text \<open>Datagrams for the examples: version 2, payload type 33, and the number as the payload.\<close>

definition datagram :: "nat \<Rightarrow> u8 list option" where
  "datagram n = Some ([128, 33, of_nat (n div 256), of_nat (n mod 256)] @ [0, 0, 0, 0, 0, 0, 0, 0] @ [of_nat n])"

lemma datagram_carries:
  assumes "n < 256"
  shows "carries (\<lambda>n. [of_nat n]) n (datagram n)"
proof -
  have b: "datagram n = Some [128, 33, 0, of_nat n, 0, 0, 0, 0, 0, 0, 0, 0, of_nat n]" using assms by (simp add: datagram_def)
  have "(be_word [0, of_nat n :: u8] :: u16) = of_nat n"
    using assms by (simp add: be_word_def unsigned_of_nat take_bit_nat_eq_self)
  then have "getrtp2 (datagram n # net) =
      (Some (header_of [128, 33, 0, of_nat n, 0, 0, 0, 0, 0, 0, 0, 0, of_nat n], [of_nat n], 1), net)"
    "rh_sequence (header_of [128, 33, 0, of_nat n, 0, 0, 0, 0, 0, 0, 0, 0, of_nat n]) = of_nat n" for net
    by (simp_all add: b getrtp2_def tcp_read_def header_of_def)
  then show ?thesis using assms by (simp add: carries_def)
qed

lemma rtp_packets_in_order_witness:
  "\<exists>net c ns. rtp_reads (\<lambda>n. [of_nat n]) [datagram 5, datagram 7, datagram 6] [[5], [6]] net c \<and>
    sorted_wrt (<) ns \<and> [[5], [6]] = map (\<lambda>n. [of_nat n :: u8]) ns"
proof -
  let ?pay = "\<lambda>n. [of_nat n :: u8]"
  let ?net = "[datagram 7, datagram 6]"
  have d: "carries ?pay 5 (datagram 5)" "carries ?pay 6 (datagram 6)" "carries ?pay 7 (datagram 7)" by (rule datagram_carries, simp)+
  obtain c where c: "get_next (datagram 5 # ?net) Rtp_Cache_new = Some ([5], ?net, c)" "rtp_ok ?pay 6 c"
    using first_packet [OF d(1), of ?net] by auto
  have a: "arrivals_ok ?pay 6 (take 29 ?net)" using d by (auto simp: arrivals_ok_def in_window_def)
  obtain net' c' where n: "get_next ?net c = Some ([6], net', c')" using get_next_ok [OF c(2) a] d(2) by auto
  have e: "expected c = 6" by (rule rtp_ok_expected [OF c(2)]) simp
  have "rtp_reads ?pay (datagram 5 # ?net) [[5]] ?net c" by (rule rtp_reads.start [OF refl d(1) _ c(1)]) simp
  from rtp_reads.more [OF this _ _ n] a e have "rtp_reads ?pay (datagram 5 # ?net) [[5], [6]] net' c'" by simp
  from rtp_packets_in_order [OF this] this show ?thesis by auto
qed

text \<open>With nothing cached and a network that gives nothing any more, no packet is ever found.\<close>

lemmas read_nonempty_induct = read_nonempty.raw_induct [rotated, consumes 1, case_names step]

lemma read_nonempty_spins:
  assumes "\<forall>i < 32. rtp_len c ! i = 0" "length (rtp_len c) = 32" "rtp_first c < 32"
  shows "read_nonempty [] c = None"
proof (rule ccontr)
  assume "read_nonempty [] c \<noteq> None"
  then obtain r where "read_nonempty [] c = Some r" by auto
  moreover have "read_nonempty net c = Some r \<Longrightarrow>
      \<not> (net = [] \<and> (\<forall>i < 32. rtp_len c ! i = 0) \<and> length (rtp_len c) = 32 \<and> rtp_first c < 32)" for net c r
  proof (induction rule: read_nonempty_induct)
    case (step rec net c r)
    show ?case
    proof
      assume a: "net = [] \<and> (\<forall>i < 32. rtp_len c ! i = 0) \<and> length (rtp_len c) = 32 \<and> rtp_first c < 32"
      have "cache [] c = Some ([], [], c)" by (simp add: cache_def getrtp2_def tcp_read_def)
      then have "fill_cache k [] c = Some ([], [], c)" for k by (induction k) auto
      moreover have "next_full k i c < 32" if "i < 32" for k i using that a
        by (induction k arbitrary: i) (auto simp: MAXRTPPACKETSIN_def Let_def)
      ultimately have "\<exists>c'. get_next [] c = Some ([], [], c') \<and> (\<forall>i < 32. rtp_len c' ! i = 0) \<and> length (rtp_len c') = 32 \<and> rtp_first c' < 32"
        using a by (auto simp: get_next_def take_slot_def Let_def MAXRTPPACKETSIN_def nth_list_update)
      then obtain c' where "get_next [] c = Some ([], [], c')" "(\<forall>i < 32. rtp_len c' ! i = 0) \<and> length (rtp_len c') = 32 \<and> rtp_first c' < 32" by blast
      then show False using step(1) [of "[]" c' r] step(2) a by simp
    qed
  qed
  ultimately show False using assms by blast
qed

definition example_cache :: "u16 \<Rightarrow> Rtp_Cache" where
  "example_cache e = \<lparr>rtp_data = replicate 32 [], rtp_seq = (replicate 32 0)[0 := e], rtp_len = replicate 32 0, rtp_first = 0, rtp_is_first = False\<rparr>"

definition example_gets :: "network \<Rightarrow> Rtp_Cache \<Rightarrow> u8 list list" where
  "example_gets net c = (case get_next net c of None \<Rightarrow> [] | Some (a, net, c) \<Rightarrow> (case get_next net c of None \<Rightarrow> [a] | Some (b, _) \<Rightarrow> [a, b]))"

text \<open>What goes wrong. The packet 32 places ahead is stored in the slot of the expected one and returned in its
  place, after which the 32 packets before it are dropped as late. A packet that comes early across the wrap
  of the numbers is taken for a restart and returned out of order. A header that is longer than the packet
  makes a copy of negative length. And when the connection is closed the reader never returns.\<close>

theorem rtp_cache_faults:
  "example_gets [datagram 42, datagram 10] (example_cache 10) = [[42], []] \<and>
   example_gets [datagram 1, Some ([128, 33, 255, 255] @ [0, 0, 0, 0, 0, 0, 0, 0] @ [9])] (example_cache 65535) = [[1], [9]] \<and>
   cache [Some ([143, 33, 0, 10] @ [0, 0, 0, 0, 0, 0, 0, 0])] (example_cache 10) = None \<and>
   read_from_server 4096 [] (example_cache e) = None"
proof (intro conjI)
  show "read_from_server 4096 [] (example_cache e) = None"
    using read_nonempty_spins [of "example_cache e"] by (simp add: read_from_server_def STREAM_BUFFER_SIZE_def example_cache_def)
qed code_simp+

end
