(* ===== verification/PlayTree.thy ===== *)
theory PlayTree
  imports Prelude
begin

text \<open>
  The tree of things to play (mplayerxp/libplaytree2/playtree.cpp, playtree.h): nodes on a heap, linked to
  their parent, their first child and both neighbours; linking, unlinking, freeing, cleaning up, flags, files and
  parameters. The iterator is in PlayIter.

  A call gives a \<open>run\<close>: None when it does not return, Some None when it follows a null or a dangling pointer.
\<close>

section \<open>Nodes\<close>

datatype entry_type = NODE | DVD | VCD | TV | FILE

record play_tree_param =
  pp_name :: string
  pp_value :: string

record PlayTree =
  pt_parent :: "nat option"
  pt_child :: "nat option"
  pt_next :: "nat option"
  pt_prev :: "nat option"
  pt_params :: "play_tree_param list"
  pt_loop :: int
  pt_files :: "string list"
  pt_type :: entry_type
  pt_flags :: u32

definition PLAY_TREE_RND :: u32 where "PLAY_TREE_RND = 1"
definition PLAY_TREE_RND_PLAYED :: u32 where "PLAY_TREE_RND_PLAYED = 256"

definition PlayTree_new :: PlayTree where
  "PlayTree_new = \<lparr>pt_parent = None, pt_child = None, pt_next = None, pt_prev = None, pt_params = [], pt_loop = 0,
     pt_files = [], pt_type = NODE, pt_flags = 0\<rparr>"

type_synonym tree_heap = "nat \<Rightarrow> PlayTree option"

definition deref :: "tree_heap \<Rightarrow> nat option \<Rightarrow> PlayTree run" where
  "deref h p = (case p of None \<Rightarrow> Some None | Some a \<Rightarrow> Some (h a))"

text \<open>A node is changed through a pointer.\<close>

definition modify :: "nat option \<Rightarrow> (PlayTree \<Rightarrow> PlayTree) \<Rightarrow> tree_heap \<Rightarrow> tree_heap run" where
  "modify p f h = andthen (deref h p) (\<lambda>n. Some (Some (h(the p \<mapsto> f n))))"

text \<open>The ends of the list a node is in.\<close>

partial_function (option) last_entry :: "tree_heap \<Rightarrow> nat \<Rightarrow> nat run" where
  "last_entry h p = (case h p of None \<Rightarrow> Some None
     | Some n \<Rightarrow> (case pt_next n of None \<Rightarrow> Some (Some p) | Some q \<Rightarrow> last_entry h q))"

partial_function (option) first_entry :: "tree_heap \<Rightarrow> nat \<Rightarrow> nat run" where
  "first_entry h p = (case h p of None \<Rightarrow> Some None
     | Some n \<Rightarrow> (case pt_prev n of None \<Rightarrow> Some (Some p) | Some q \<Rightarrow> first_entry h q))"

declare last_entry.simps [code] first_entry.simps [code]

section \<open>Linking\<close>

definition append_entry :: "nat \<Rightarrow> nat \<Rightarrow> tree_heap \<Rightarrow> tree_heap run" where
  "append_entry this entry h =
     (if this = entry then Some (Some h)
      else andthen (last_entry h this) (\<lambda>iter.
        andthen (deref h (Some iter)) (\<lambda>n.
        andthen (modify (Some entry) (\<lambda>e. e\<lparr>pt_parent := pt_parent n, pt_prev := Some iter, pt_next := None\<rparr>) h) (\<lambda>h.
        modify (Some iter) (\<lambda>n. n\<lparr>pt_next := Some entry\<rparr>) h))))"

definition prepend_entry :: "nat \<Rightarrow> nat \<Rightarrow> tree_heap \<Rightarrow> tree_heap run" where
  "prepend_entry this entry h =
     andthen (first_entry h this) (\<lambda>iter.
       andthen (modify (Some entry) (\<lambda>e. e\<lparr>pt_prev := None, pt_next := Some iter\<rparr>) h) (\<lambda>h.
       andthen (deref h (Some iter)) (\<lambda>n.
       andthen (modify (Some entry) (\<lambda>e. e\<lparr>pt_parent := pt_parent n\<rparr>) h) (\<lambda>h.
       andthen (modify (Some iter) (\<lambda>n. n\<lparr>pt_prev := Some entry\<rparr>) h) (\<lambda>h.
       andthen (deref h (Some entry)) (\<lambda>e. if pt_parent e = None then Some (Some h)
         else modify (pt_parent e) (\<lambda>p. p\<lparr>pt_child := Some entry\<rparr>) h))))))"

definition insert_entry :: "nat \<Rightarrow> nat \<Rightarrow> tree_heap \<Rightarrow> tree_heap run" where
  "insert_entry this entry h =
     andthen (deref h (Some this)) (\<lambda>t.
       andthen (modify (Some entry) (\<lambda>e. e\<lparr>pt_parent := pt_parent t, pt_prev := Some this\<rparr>) h) (\<lambda>h.
       andthen (deref h (Some this)) (\<lambda>t.
       andthen (case pt_next t of
           Some nx \<Rightarrow> andthen (modify (Some entry) (\<lambda>e. e\<lparr>pt_next := Some nx\<rparr>) h) (modify (Some nx) (\<lambda>n. n\<lparr>pt_prev := Some entry\<rparr>))
         | None \<Rightarrow> modify (Some entry) (\<lambda>e. e\<lparr>pt_next := None\<rparr>) h) (\<lambda>h.
       modify (Some this) (\<lambda>t. t\<lparr>pt_next := Some entry\<rparr>) h))))"

text \<open>remove, up to the freeing.\<close>

definition unlink :: "nat \<Rightarrow> tree_heap \<Rightarrow> tree_heap run" where
  "unlink this h =
     andthen (deref h (Some this)) (\<lambda>t.
       andthen (case (pt_prev t, pt_next t) of
           (Some p, Some n) \<Rightarrow> andthen (modify (Some p) (\<lambda>m. m\<lparr>pt_next := Some n\<rparr>) h) (modify (Some n) (\<lambda>m. m\<lparr>pt_prev := Some p\<rparr>))
         | (Some p, None) \<Rightarrow> modify (Some p) (\<lambda>m. m\<lparr>pt_next := None\<rparr>) h
         | (None, Some n) \<Rightarrow> andthen (modify (Some n) (\<lambda>m. m\<lparr>pt_prev := None\<rparr>) h) (\<lambda>h.
             if pt_parent t = None then Some (Some h) else modify (pt_parent t) (\<lambda>m. m\<lparr>pt_child := Some n\<rparr>) h)
         | (None, None) \<Rightarrow> if pt_parent t = None then Some (Some h) else modify (pt_parent t) (\<lambda>m. m\<lparr>pt_child := None\<rparr>) h) (\<lambda>h.
       modify (Some this) (\<lambda>t. t\<lparr>pt_prev := None, pt_next := None, pt_parent := None\<rparr>) h))"

text \<open>The parent of a node and of every node after it, or before it.\<close>

partial_function (option) parents_after :: "nat option \<Rightarrow> nat option \<Rightarrow> tree_heap \<Rightarrow> tree_heap run" where
  "parents_after par p h = (case p of None \<Rightarrow> Some (Some h)
     | Some a \<Rightarrow> (case h a of None \<Rightarrow> Some None
        | Some n \<Rightarrow> parents_after par (pt_next n) (h(a \<mapsto> n\<lparr>pt_parent := par\<rparr>))))"

partial_function (option) parents_before :: "nat option \<Rightarrow> nat \<Rightarrow> tree_heap \<Rightarrow> (nat \<times> tree_heap) run" where
  "parents_before par a h = (case h a of None \<Rightarrow> Some None
     | Some n \<Rightarrow> (case pt_prev n of None \<Rightarrow> Some (Some (a, h(a \<mapsto> n\<lparr>pt_parent := par\<rparr>)))
        | Some q \<Rightarrow> parents_before par q (h(a \<mapsto> n\<lparr>pt_parent := par\<rparr>))))"

declare parents_after.simps [code] parents_before.simps [code]

definition set_child :: "nat \<Rightarrow> nat option \<Rightarrow> tree_heap \<Rightarrow> tree_heap run" where
  "set_child this c h =
     andthen (parents_after None c h) (\<lambda>h.
       (case c of None \<Rightarrow> Some None
        | Some c \<Rightarrow> andthen (first_entry h c) (\<lambda>iter.
            andthen (modify (Some this) (\<lambda>t. t\<lparr>pt_child := Some iter\<rparr>) h) (parents_after (Some this) (Some iter)))))"

definition set_parent :: "nat \<Rightarrow> nat option \<Rightarrow> tree_heap \<Rightarrow> tree_heap run" where
  "set_parent this par h =
     andthen (if par = None then Some (Some h) else modify par (\<lambda>p. p\<lparr>pt_child := None\<rparr>) h) (\<lambda>h.
       andthen (parents_after par (Some this) h) (\<lambda>h.
       andthen (deref h (Some this)) (\<lambda>t.
         case pt_prev t of
           Some q \<Rightarrow> andthen (parents_before par q h) (\<lambda>(iter, h). modify par (\<lambda>p. p\<lparr>pt_child := Some iter\<rparr>) h)
         | None \<Rightarrow> modify par (\<lambda>p. p\<lparr>pt_child := Some this\<rparr>) h)))"

section \<open>Freeing\<close>

text \<open>
  free, free_list and the destructor call each other. A frame is what is left of one call: free itself, its loop
  over the children, what it does after it, the loop of free_list over the list from its head on, and the two parts of a
  delete, the destructor and the release of the memory.
\<close>

datatype free_frame = Free nat bool | Free_children "nat option" | Childless nat | Orphan nat
  | Free_list nat bool | Free_from "nat option" bool | Delete nat | Release nat

fun free_step :: "free_frame \<Rightarrow> tree_heap \<Rightarrow> (free_frame list \<times> tree_heap) run" where
  "free_step (Free p childs) h = andthen (deref h (Some p)) (\<lambda>n.
     Some (Some ((if childs then [Free_children (pt_child n), Childless p] else []) @ [Orphan p], h)))"
| "free_step (Free_children None) h = Some (Some ([], h))"
| "free_step (Free_children (Some a)) h = andthen (deref h (Some a)) (\<lambda>n.
     Some (Some ([Free a True, Delete a, Free_children (pt_next n)], h)))"
| "free_step (Childless p) h = andthen (modify (Some p) (\<lambda>n. n\<lparr>pt_child := None\<rparr>) h) (\<lambda>h. Some (Some ([], h)))"
| "free_step (Orphan p) h = andthen (unlink p h) (\<lambda>h. andthen (deref h (Some p)) (\<lambda>n.
     andthen (parents_after None (pt_child n) h) (\<lambda>h. Some (Some ([], h)))))"
| "free_step (Free_list p childs) h = andthen (first_entry h p) (\<lambda>a. Some (Some ([Free_from (Some a) childs], h)))"
| "free_step (Free_from None childs) h = Some (Some ([], h))"
| "free_step (Free_from (Some a) childs) h = andthen (deref h (Some a)) (\<lambda>n.
     Some (Some ([Free a childs, Delete a, Free_from (pt_next n) childs], h)))"
| "free_step (Delete p) h = Some (Some ([Free_list p True, Release p], h))"
| "free_step (Release p) h = andthen (deref h (Some p)) (\<lambda>_. Some (Some ([], h(p := None))))"

partial_function (option) run_free :: "free_frame list \<Rightarrow> tree_heap \<Rightarrow> tree_heap run" where
  "run_free fs h = (case fs of [] \<Rightarrow> Some (Some h)
     | f # fs \<Rightarrow> (case free_step f h of None \<Rightarrow> None | Some None \<Rightarrow> Some None
         | Some (Some (new, h)) \<Rightarrow> run_free (new @ fs) h))"

declare run_free.simps [code]

definition remove :: "nat \<Rightarrow> bool \<Rightarrow> bool \<Rightarrow> tree_heap \<Rightarrow> tree_heap run" where
  "remove this free_it with_childs h = andthen (unlink this h) (\<lambda>h.
     if free_it then run_free [Free this with_childs] h else Some (Some h))"

section \<open>Validity and cleaning up\<close>

text \<open>The lists of nodes still to be looked at, from the inner one to the outer.\<close>

partial_function (option) any_valid :: "tree_heap \<Rightarrow> nat option list \<Rightarrow> bool run" where
  "any_valid h ps = (case ps of [] \<Rightarrow> Some (Some False)
     | None # ps \<Rightarrow> any_valid h ps
     | Some a # ps \<Rightarrow> (case h a of None \<Rightarrow> Some None
         | Some n \<Rightarrow> if pt_type n \<noteq> NODE then Some (Some True) else any_valid h (pt_child n # pt_next n # ps)))"

definition is_valid :: "tree_heap \<Rightarrow> nat \<Rightarrow> bool run" where
  "is_valid h p = andthen (deref h (Some p)) (\<lambda>n. if pt_type n \<noteq> NODE then Some (Some True) else any_valid h [pt_child n])"

text \<open>The invalid children go; \<open>first\<close> is the first of the others, which cleanup goes on with.\<close>

partial_function (option) prune :: "nat option \<Rightarrow> nat option \<Rightarrow> tree_heap \<Rightarrow> (nat option \<times> tree_heap) run" where
  "prune first iter h = (case iter of None \<Rightarrow> Some (Some (first, h))
     | Some tmp \<Rightarrow> (case h tmp of None \<Rightarrow> Some None
         | Some n \<Rightarrow> (case is_valid h tmp of None \<Rightarrow> None | Some None \<Rightarrow> Some None
             | Some (Some v) \<Rightarrow>
                 if v then prune first (pt_next n) h
                 else (case remove tmp True True h of None \<Rightarrow> None | Some None \<Rightarrow> Some None
                   | Some (Some h) \<Rightarrow> prune (if first = Some tmp then pt_next n else first) (pt_next n) h))))"

text \<open>cleanup on every node of the lists.\<close>

partial_function (option) cleanup_lists :: "nat option list \<Rightarrow> tree_heap \<Rightarrow> tree_heap run" where
  "cleanup_lists ps h = (case ps of [] \<Rightarrow> Some (Some h)
     | None # ps \<Rightarrow> cleanup_lists ps h
     | Some tmp # ps \<Rightarrow> (case h tmp of None \<Rightarrow> Some None
         | Some n \<Rightarrow> (case is_valid h tmp of None \<Rightarrow> None | Some None \<Rightarrow> Some None
             | Some (Some v) \<Rightarrow>
                 if \<not> v then (case remove tmp True True h of None \<Rightarrow> None | Some None \<Rightarrow> Some None
                   | Some (Some h) \<Rightarrow> cleanup_lists (pt_next n # ps) h)
                 else (case prune (pt_child n) (pt_child n) h of None \<Rightarrow> None | Some None \<Rightarrow> Some None
                   | Some (Some (first, h)) \<Rightarrow> cleanup_lists (first # pt_next n # ps) h))))"

declare any_valid.simps [code] prune.simps [code] cleanup_lists.simps [code]

definition cleanup :: "nat \<Rightarrow> tree_heap \<Rightarrow> (bool \<times> tree_heap) run" where
  "cleanup this h = andthen (is_valid h this) (\<lambda>v.
     if \<not> v then andthen (remove this True True h) (\<lambda>h. Some (Some (False, h)))
     else andthen (deref h (Some this)) (\<lambda>n. andthen (prune (pt_child n) (pt_child n) h) (\<lambda>(first, h).
       andthen (cleanup_lists [first] h) (\<lambda>h. Some (Some (True, h))))))"

section \<open>Flags, files and parameters\<close>

text \<open>The lists of nodes whose flags are still to be changed, with the depth to go.\<close>

partial_function (option) change_flags :: "(u32 \<Rightarrow> u32) \<Rightarrow> (nat option \<times> int) list \<Rightarrow> tree_heap \<Rightarrow> tree_heap run" where
  "change_flags f ps h = (case ps of [] \<Rightarrow> Some (Some h)
     | (None, _) # ps \<Rightarrow> change_flags f ps h
     | (Some a, deep) # ps \<Rightarrow> (case h a of None \<Rightarrow> Some None
         | Some n \<Rightarrow> change_flags f
             ((if deep \<noteq> 0 then [(pt_child n, if 0 < deep then deep - 1 else deep)] else []) @ (pt_next n, deep) # ps)
             (h(a \<mapsto> n\<lparr>pt_flags := f (pt_flags n)\<rparr>))))"

declare change_flags.simps [code]

definition change_flag :: "(u32 \<Rightarrow> u32) \<Rightarrow> nat \<Rightarrow> int \<Rightarrow> tree_heap \<Rightarrow> tree_heap run" where
  "change_flag f this deep h = andthen (modify (Some this) (\<lambda>n. n\<lparr>pt_flags := f (pt_flags n)\<rparr>) h) (\<lambda>h.
     andthen (deref h (Some this)) (\<lambda>n.
       if deep \<noteq> 0 then change_flags f [(pt_child n, if 0 < deep then deep - 1 else deep)] h else Some (Some h)))"

definition set_flag :: "nat \<Rightarrow> u32 \<Rightarrow> int \<Rightarrow> tree_heap \<Rightarrow> tree_heap run" where
  "set_flag this flags deep = change_flag (\<lambda>f. f OR flags) this deep"

definition unset_flag :: "nat \<Rightarrow> u32 \<Rightarrow> int \<Rightarrow> tree_heap \<Rightarrow> tree_heap run" where
  "unset_flag this flags deep = change_flag (\<lambda>f. f AND NOT flags) this deep"

definition lower :: "string \<Rightarrow> string" where
  "lower s = map (\<lambda>c. if 65 \<le> (of_char c :: int) \<and> (of_char c :: int) \<le> 90 then char_of ((of_char c :: int) + 32) else c) s"

definition add_file :: "string \<Rightarrow> PlayTree \<Rightarrow> PlayTree" where
  "add_file file t =
     (if pt_type t \<noteq> NODE \<and> pt_type t \<noteq> FILE then t
      else let (ty, pos) = (if take 6 (lower file) = ''vcd://'' then (VCD, 6)
                 else if take 6 (lower file) = ''dvd://'' then (DVD, 6)
                 else if take 5 (lower file) = ''tv://'' then (TV, 5) else (FILE, 0))
        in t\<lparr>pt_type := ty, pt_files := pt_files t @ [drop pos file]\<rparr>)"

text \<open>The last position of something in a list, in the way the loops look for it; -1 when it is not there.\<close>

definition last_index :: "('a \<Rightarrow> bool) \<Rightarrow> 'a list \<Rightarrow> int" where
  "last_index P xs = fold (\<lambda>n f. if P (xs ! n) then int n else f) [0..<length xs] (- 1)"

definition erase :: "int \<Rightarrow> 'a list \<Rightarrow> 'a list" where
  "erase i xs = take (nat i) xs @ drop (nat i + 1) xs"

definition remove_file :: "string \<Rightarrow> PlayTree \<Rightarrow> bool \<times> PlayTree" where
  "remove_file file t = (let f = last_index (\<lambda>x. x = file) (pt_files t) in
     if f < 0 then (False, t) else (True, t\<lparr>pt_files := erase f (pt_files t)\<rparr>))"

definition set_param :: "string \<Rightarrow> string \<Rightarrow> PlayTree \<Rightarrow> PlayTree" where
  "set_param name val t = (let ni = last_index (\<lambda>q. lower (pp_name q) = lower name) (pt_params t) in
     if 0 < ni then t\<lparr>pt_params := (pt_params t)[nat ni := (pt_params t ! nat ni)\<lparr>pp_value := val\<rparr>]\<rparr>
     else t\<lparr>pt_params := pt_params t @ [\<lparr>pp_name = name, pp_value = val\<rparr>]\<rparr>)"

definition unset_param :: "string \<Rightarrow> PlayTree \<Rightarrow> bool \<times> PlayTree" where
  "unset_param name t = (let ni = last_index (\<lambda>q. lower (pp_name q) = lower name) (pt_params t) in
     if ni < 0 then (False, t)
     else (True, t\<lparr>pt_params := (if 1 < length (pt_params t) then erase ni (pt_params t) else [])\<rparr>))"

definition set_params_from :: "PlayTree \<Rightarrow> PlayTree \<Rightarrow> PlayTree" where
  "set_params_from src t =
     (if pt_params src = [] then t
      else let t = fold (\<lambda>q t. set_param (pp_name q) (pp_value q) t) (pt_params src) t
        in if pt_flags src AND PLAY_TREE_RND \<noteq> 0 then t\<lparr>pt_flags := pt_flags t OR PLAY_TREE_RND\<rparr> else t)"

end
