(* ===== verification/PlayLists.thy ===== *)
theory PlayLists
  imports PlayTree
begin

text \<open>
  The lists of the play tree: the children of a node, linked in both directions, seen as a list of nodes. The
  linking operations are the list operations, and freeing never ends.
\<close>

section \<open>Lists of siblings\<close>

definition first_or :: "nat list \<Rightarrow> nat option \<Rightarrow> nat option" where
  "first_or xs p = (case xs of [] \<Rightarrow> p | x # _ \<Rightarrow> Some x)"

definition last_or :: "nat list \<Rightarrow> nat option \<Rightarrow> nat option" where
  "last_or xs p = (if xs = [] then p else Some (last xs))"

lemma first_or_simps [simp]: "first_or [] p = p" "first_or (x # xs) p = Some x" "first_or (xs @ ys) p = first_or xs (first_or ys p)"
  by (simp_all add: first_or_def split: list.split)

lemma last_or_simps [simp]: "last_or [] p = p" "last_or (x # xs) p = last_or xs (Some x)" "last_or (xs @ [x]) p = Some x"
  by (simp_all add: last_or_def)

text \<open>A part of a list: the nodes, with their parent, the node before and the one after.\<close>

fun linked :: "tree_heap \<Rightarrow> nat option \<Rightarrow> nat option \<Rightarrow> nat list \<Rightarrow> nat option \<Rightarrow> bool" where
  "linked h par prv [] nxt = True"
| "linked h par prv (x # xs) nxt =
     ((\<exists>n. h x = Some n \<and> pt_parent n = par \<and> pt_prev n = prv \<and> pt_next n = first_or xs nxt) \<and> linked h par (Some x) xs nxt)"

text \<open>The children of \<open>par\<close>, or the topmost nodes.\<close>

definition siblings :: "tree_heap \<Rightarrow> nat option \<Rightarrow> nat list \<Rightarrow> bool" where
  "siblings h par xs \<longleftrightarrow> linked h par None xs None \<and> distinct xs \<and>
     (case par of None \<Rightarrow> True | Some p \<Rightarrow> p \<notin> set xs \<and> (\<exists>n. h p = Some n \<and> pt_child n = first_or xs None))"

lemma linked_append [simp]:
  "linked h par prv (xs @ ys) nxt \<longleftrightarrow> linked h par prv xs (first_or ys nxt) \<and> linked h par (last_or xs prv) ys nxt"
  by (induction xs arbitrary: prv) auto

lemma linked_upd [simp]: "a \<notin> set xs \<Longrightarrow> linked (h(a := v)) par prv xs nxt = linked h par prv xs nxt"
  by (induction xs arbitrary: prv) auto

lemma linked_live: "linked h par prv xs nxt \<Longrightarrow> x \<in> set xs \<Longrightarrow> \<exists>n. h x = Some n"
  by (induction xs arbitrary: prv) auto

text \<open>What is not a link is never touched; only the parent's pointer to its first child may change.\<close>

definition contents :: "PlayTree \<Rightarrow> play_tree_param list \<times> int \<times> string list \<times> entry_type \<times> u32" where
  "contents n = (pt_params n, pt_loop n, pt_files n, pt_type n, pt_flags n)"

definition relinks :: "tree_heap \<Rightarrow> nat option \<Rightarrow> nat set \<Rightarrow> tree_heap \<Rightarrow> bool" where
  "relinks h par S h' \<longleftrightarrow> (\<forall>q. q \<notin> S \<longrightarrow> h' q = h q) \<and> (\<forall>q. map_option contents (h' q) = map_option contents (h q)) \<and>
     (\<forall>q. Some q \<noteq> par \<longrightarrow> map_option pt_child (h' q) = map_option pt_child (h q))"

definition near :: "nat option \<Rightarrow> nat list \<Rightarrow> nat set" where
  "near par xs = set_option par \<union> set xs"

lemma relinks_refl [simp]: "relinks h par S h"
  by (simp add: relinks_def)

lemma relinks_upd:
  assumes "relinks h par S h'" "a \<in> S" "h' a = Some n" "contents n' = contents n" "Some a = par \<or> pt_child n' = pt_child n"
  shows "relinks h par S (h'(a \<mapsto> n'))"
proof -
  have "map_option contents (h a) = Some (contents n)" "map_option pt_child (h a) = Some (pt_child n) \<or> Some a = par"
    using assms(1,3) unfolding relinks_def by (metis option.simps(9))+
  then show ?thesis using assms by (auto simp: relinks_def)
qed

lemma contents_upd [simp]:
  "contents (n\<lparr>pt_parent := p\<rparr>) = contents n" "contents (n\<lparr>pt_child := p\<rparr>) = contents n"
  "contents (n\<lparr>pt_next := p\<rparr>) = contents n" "contents (n\<lparr>pt_prev := p\<rparr>) = contents n"
  by (simp_all add: contents_def)

lemma deref_Some [simp]: "deref h (Some a) = Some (h a)" "deref h None = Some None"
  by (simp_all add: deref_def)

lemma modify_live [simp]: "h a = Some n \<Longrightarrow> modify (Some a) f h = Some (Some (h(a \<mapsto> f n)))"
  by (simp add: modify_def)

lemma first_entry_linked:
  "linked h par None (as @ [x]) nxt \<Longrightarrow> first_entry h x = Some (Some (hd (as @ [x])))"
proof (induction as arbitrary: x nxt rule: rev_induct)
  case Nil
  then show ?case by (subst first_entry.simps) auto
next
  case (snoc a as)
  then show ?case by (subst first_entry.simps) (cases as, auto)
qed

lemma last_entry_linked:
  "linked h par prv (x # bs) None \<Longrightarrow> last_entry h x = Some (Some (last (x # bs)))"
proof (induction bs arbitrary: x prv)
  case Nil
  then show ?case by (subst last_entry.simps) auto
next
  case (Cons b bs)
  then show ?case by (subst last_entry.simps) fastforce
qed

lemma siblingsD:
  assumes "siblings h par (as @ x # bs)"
  shows "linked h par None as (Some x)" "linked h par (Some x) bs None" "distinct as" "distinct bs"
    "set as \<inter> set bs = {}" "x \<notin> set as" "x \<notin> set bs"
    "\<exists>n. h x = Some n \<and> pt_parent n = par \<and> pt_prev n = last_or as None \<and> pt_next n = first_or bs None"
  using assms by (auto simp: siblings_def)

section \<open>The linking operations\<close>

lemma append_entry_ok:
  assumes "siblings h par xs" "this \<in> set xs" "h e = Some m" "e \<notin> near par xs"
  shows "\<exists>h'. append_entry this e h = Some (Some h') \<and> siblings h' par (xs @ [e]) \<and> relinks h par (near par (xs @ [e])) h'"
proof -
  obtain as bs where xs: "xs = as @ this # bs" using assms(2) by (auto simp: in_set_conv_decomp)
  obtain ys l where l: "xs = ys @ [l]" using assms(2) by (cases xs rule: rev_cases) auto
  then obtain n where n: "h l = Some n" "pt_parent n = par" "pt_prev n = last_or ys None" "pt_next n = None"
    and ys: "linked h par None ys (Some l)" and d: "distinct xs"
    using assms(1) by (auto simp: siblings_def)
  have last: "last_entry h this = Some (Some l)"
    using last_entry_linked [of h par "last_or as None" this bs] assms(1) l unfolding xs siblings_def
    by (metis last_appendR last_snoc linked_append list.distinct(1))
  have neq: "this \<noteq> e" "e \<noteq> l" using assms(2,4) l by (auto simp: near_def)
  let ?e = "m\<lparr>pt_parent := par, pt_prev := Some l, pt_next := None\<rparr>"
  let ?h = "h(e \<mapsto> ?e, l \<mapsto> n\<lparr>pt_next := Some e\<rparr>)"
  have "append_entry this e h = Some (Some ?h)"
    using last n assms(3) neq by (simp add: append_entry_def)
  moreover have "siblings ?h par (xs @ [e])"
    using assms(1,4) n ys d neq unfolding l siblings_def near_def by (auto split: option.splits)
  moreover have "relinks h par (near par (xs @ [e])) ?h"
    by (rule relinks_upd [OF relinks_upd [OF relinks_refl]]) (use assms(3) n l neq in \<open>auto simp: near_def\<close>)
  ultimately show ?thesis by blast
qed

lemma prepend_entry_ok:
  assumes "siblings h par xs" "this \<in> set xs" "h e = Some m" "e \<notin> near par xs"
  shows "\<exists>h'. prepend_entry this e h = Some (Some h') \<and> siblings h' par (e # xs) \<and> relinks h par (near par (e # xs)) h'"
proof -
  obtain as bs where xs: "xs = as @ this # bs" using assms(2) by (auto simp: in_set_conv_decomp)
  obtain x ys where x: "xs = x # ys" using assms(2) by (cases xs) auto
  then obtain n where n: "h x = Some n" "pt_parent n = par" "pt_prev n = None" "pt_next n = first_or ys None"
    and ys: "linked h par (Some x) ys None" and d: "distinct xs"
    using assms(1) by (auto simp: siblings_def)
  have "linked h par None (as @ [this]) (first_or bs None)" using assms(1) unfolding xs siblings_def by auto
  then have first: "first_entry h this = Some (Some x)" using first_entry_linked x unfolding xs
    by (metis append_is_Nil_conv hd_append2 list.sel(1) append_Nil not_Cons_self2)
  have neq: "e \<noteq> x" using x assms(4) by (auto simp: near_def)
  let ?e = "m\<lparr>pt_prev := None, pt_next := Some x, pt_parent := par\<rparr>"
  let ?h = "h(e \<mapsto> ?e, x \<mapsto> n\<lparr>pt_prev := Some e\<rparr>)"
  have r: "relinks h par (near par (e # xs)) ?h"
    by (rule relinks_upd [OF relinks_upd [OF relinks_refl]]) (use assms(3) n x neq in \<open>auto simp: near_def\<close>)
  show ?thesis
  proof (cases par)
    case None
    have "prepend_entry this e h = Some (Some ?h)" using first n assms(3) neq None by (simp add: prepend_entry_def)
    moreover have "siblings ?h par (e # xs)"
      using None assms(4) n ys d neq x by (auto simp: siblings_def near_def)
    ultimately show ?thesis using r by blast
  next
    case (Some p)
    then obtain q where q: "h p = Some q" "p \<notin> set xs" "e \<noteq> p" using assms(1,4) by (auto simp: siblings_def near_def)
    have px: "p \<noteq> x" using q(2) x by simp
    have "prepend_entry this e h = Some (Some (?h(p \<mapsto> q\<lparr>pt_child := Some e\<rparr>)))"
      using first n assms(3) neq Some q px by (simp add: prepend_entry_def)
    moreover have "siblings (?h(p \<mapsto> q\<lparr>pt_child := Some e\<rparr>)) par (e # xs)"
      using Some assms(4) n ys d neq x q px by (auto simp: siblings_def near_def)
    moreover have "relinks h par (near par (e # xs)) (?h(p \<mapsto> q\<lparr>pt_child := Some e\<rparr>))"
      by (rule relinks_upd [OF r]) (use q px Some in \<open>auto simp: near_def\<close>)
    ultimately show ?thesis by blast
  qed
qed


lemma insert_entry_ok:
  assumes "siblings h par (as @ this # bs)" "h e = Some m" "e \<notin> near par (as @ this # bs)"
  shows "\<exists>h'. insert_entry this e h = Some (Some h') \<and> siblings h' par (as @ this # e # bs) \<and>
    relinks h par (near par (as @ this # e # bs)) h'"
proof -
  note s = siblingsD [OF assms(1)]
  obtain n where n: "h this = Some n" "pt_parent n = par" "pt_prev n = last_or as None" "pt_next n = first_or bs None"
    using s(8) by auto
  have neq: "e \<noteq> this" "this \<noteq> e" "Some e \<noteq> par" using assms(3) by (auto simp: near_def)
  have par: "\<And>p. par = Some p \<Longrightarrow> p \<noteq> this" using assms(1) by (auto simp: siblings_def)
  show ?thesis
  proof (cases bs)
    case Nil
    let ?h = "h(e \<mapsto> m\<lparr>pt_parent := par, pt_prev := Some this, pt_next := None\<rparr>, this \<mapsto> n\<lparr>pt_next := Some e\<rparr>)"
    have "insert_entry this e h = Some (Some ?h)" using n assms(2) neq Nil by (simp add: insert_entry_def)
    moreover have "siblings ?h par (as @ this # e # bs)"
      using assms(1,3) s n neq par Nil by (auto simp: siblings_def near_def split: option.splits)
    moreover have "relinks h par (near par (as @ this # e # bs)) ?h"
      by (rule relinks_upd [OF relinks_upd [OF relinks_refl]]) (use assms(2) n neq in \<open>auto simp: near_def\<close>)
    ultimately show ?thesis by blast
  next
    case (Cons b cs)
    obtain k where k: "h b = Some k" "pt_parent k = par" "pt_prev k = Some this" "pt_next k = first_or cs None"
      "linked h par (Some b) cs None" using s(2) Cons by auto
    have bneq: "b \<noteq> e" "e \<noteq> b" "b \<noteq> this" "this \<noteq> b" using assms(3) s(7) Cons by (auto simp: near_def)
    let ?e = "m\<lparr>pt_parent := par, pt_prev := Some this, pt_next := Some b\<rparr>"
    let ?h = "h(e \<mapsto> ?e, b \<mapsto> k\<lparr>pt_prev := Some e\<rparr>, this \<mapsto> n\<lparr>pt_next := Some e\<rparr>)"
    have "insert_entry this e h = Some (Some ?h)" using n k assms(2) neq bneq Cons by (simp add: insert_entry_def)
    moreover have "siblings ?h par (as @ this # e # bs)"
      using assms(1,3) s n k neq bneq par Cons by (auto simp: siblings_def near_def split: option.splits)
    moreover have "relinks h par (near par (as @ this # e # bs)) ?h"
      by (rule relinks_upd [OF relinks_upd [OF relinks_upd [OF relinks_refl]]])
        (use assms(2) n k neq bneq Cons in \<open>auto simp: near_def\<close>)
    ultimately show ?thesis by blast
  qed
qed

text \<open>A node that is taken out stands alone.\<close>

definition taken_out :: "tree_heap \<Rightarrow> nat option \<Rightarrow> nat list \<Rightarrow> nat \<Rightarrow> nat list \<Rightarrow> tree_heap \<Rightarrow> bool" where
  "taken_out h par as this bs h' \<longleftrightarrow> siblings h' par (as @ bs) \<and> siblings h' None [this] \<and>
     relinks h par (near par (as @ this # bs)) h'"

lemma taken_outI:
  assumes "siblings h1 par (as @ bs)" "relinks h par (near par (as @ this # bs)) h1" "h1 this = Some n"
    "this \<notin> near par (as @ bs)"
  shows "taken_out h par as this bs (h1(this \<mapsto> n\<lparr>pt_prev := None, pt_next := None, pt_parent := None\<rparr>))"
proof -
  have "relinks h par (near par (as @ this # bs)) (h1(this \<mapsto> n\<lparr>pt_prev := None, pt_next := None, pt_parent := None\<rparr>))"
    by (rule relinks_upd [OF assms(2)]) (use assms(3) in \<open>auto simp: near_def\<close>)
  then show ?thesis using assms(1,4) by (auto simp: taken_out_def siblings_def near_def split: option.splits)
qed

lemma unlink_ok:
  assumes "siblings h par (as @ this # bs)"
  shows "\<exists>h'. unlink this h = Some (Some h') \<and> taken_out h par as this bs h'"
proof -
  note s = siblingsD [OF assms]
  obtain n where n: "h this = Some n" "pt_parent n = par" "pt_prev n = last_or as None" "pt_next n = first_or bs None"
    using s(8) by auto
  have par: "this \<notin> near par (as @ bs)" using assms by (auto simp: siblings_def near_def)
  consider (middle) as' a b bs' where "as = as' @ [a]" "bs = b # bs'" | (end_of) as' a where "as = as' @ [a]" "bs = []"
    | (start) b bs' where "as = []" "bs = b # bs'" | (only) "as = []" "bs = []"
    by (metis neq_Nil_conv rev_exhaust)
  then show ?thesis
  proof cases
    case middle
    obtain k where k: "h a = Some k" "pt_parent k = par" "pt_prev k = last_or as' None" using s(1) middle by auto
    obtain j where j: "h b = Some j" "pt_parent j = par" "pt_next j = first_or bs' None" using s(2) middle by auto
    have neq: "a \<noteq> b" "b \<noteq> a" "a \<noteq> this" "this \<noteq> a" "b \<noteq> this" "this \<noteq> b" using s(5-7) middle by auto
    let ?h = "h(a \<mapsto> k\<lparr>pt_next := Some b\<rparr>, b \<mapsto> j\<lparr>pt_prev := Some a\<rparr>)"
    have "unlink this h = Some (Some (?h(this \<mapsto> n\<lparr>pt_prev := None, pt_next := None, pt_parent := None\<rparr>)))"
      using n k j neq middle by (simp add: unlink_def)
    moreover have "siblings ?h par (as @ bs)"
      using assms s k j neq middle by (auto simp: siblings_def split: option.splits)
    moreover have "relinks h par (near par (as @ this # bs)) ?h"
      by (rule relinks_upd [OF relinks_upd [OF relinks_refl]]) (use k j neq middle in \<open>auto simp: near_def\<close>)
    ultimately show ?thesis using taken_outI [of ?h par as bs h this n] n(1) neq par by auto
  next
    case end_of
    obtain k where k: "h a = Some k" "pt_parent k = par" "pt_prev k = last_or as' None" using s(1) end_of by auto
    have neq: "a \<noteq> this" "this \<noteq> a" using s(6) end_of by auto
    let ?h = "h(a \<mapsto> k\<lparr>pt_next := None\<rparr>)"
    have "unlink this h = Some (Some (?h(this \<mapsto> n\<lparr>pt_prev := None, pt_next := None, pt_parent := None\<rparr>)))"
      using n k neq end_of by (simp add: unlink_def)
    moreover have "siblings ?h par (as @ bs)"
      using assms s k neq end_of by (auto simp: siblings_def split: option.splits)
    moreover have "relinks h par (near par (as @ this # bs)) ?h"
      by (rule relinks_upd [OF relinks_refl]) (use k end_of in \<open>auto simp: near_def\<close>)
    ultimately show ?thesis using taken_outI [of ?h par as bs h this n] n(1) neq par by auto
  next
    case start
    obtain j where j: "h b = Some j" "pt_parent j = par" "pt_next j = first_or bs' None" using s(2) start by auto
    have neq: "b \<noteq> this" "this \<noteq> b" using s(7) start by auto
    let ?h = "h(b \<mapsto> j\<lparr>pt_prev := None\<rparr>)"
    have r: "relinks h par (near par (as @ this # bs)) ?h"
      by (rule relinks_upd [OF relinks_refl]) (use j start in \<open>auto simp: near_def\<close>)
    show ?thesis
    proof (cases par)
      case None
      have "unlink this h = Some (Some (?h(this \<mapsto> n\<lparr>pt_prev := None, pt_next := None, pt_parent := None\<rparr>)))"
        using n j neq start None by (simp add: unlink_def)
      moreover have "siblings ?h par (as @ bs)" using assms s j neq start None by (auto simp: siblings_def)
      ultimately show ?thesis using taken_outI [of ?h par as bs h this n] n(1) neq par r by auto
    next
      case (Some p)
      obtain q where q: "h p = Some q" "p \<noteq> b" "b \<noteq> p" "p \<noteq> this" "this \<noteq> p" "p \<notin> set bs'"
        using assms start Some by (auto simp: siblings_def)
      let ?k = "?h(p \<mapsto> q\<lparr>pt_child := Some b\<rparr>)"
      have "unlink this h = Some (Some (?k(this \<mapsto> n\<lparr>pt_prev := None, pt_next := None, pt_parent := None\<rparr>)))"
        using n j neq q start Some by (simp add: unlink_def)
      moreover have "siblings ?k par (as @ bs)" using assms s j neq q start Some by (auto simp: siblings_def)
      moreover have "relinks h par (near par (as @ this # bs)) ?k"
        by (rule relinks_upd [OF r]) (use q Some in \<open>auto simp: near_def\<close>)
      ultimately show ?thesis using taken_outI [of ?k par as bs h this n] n(1) neq q par by auto
    qed
  next
    case only
    show ?thesis
    proof (cases par)
      case None
      have "unlink this h = Some (Some (h(this \<mapsto> n\<lparr>pt_prev := None, pt_next := None, pt_parent := None\<rparr>)))"
        using n only None by (simp add: unlink_def)
      moreover have "siblings h par (as @ bs)" using only None by (auto simp: siblings_def)
      ultimately show ?thesis using taken_outI [of h par as bs h this n] n(1) par by auto
    next
      case (Some p)
      obtain q where q: "h p = Some q" "p \<noteq> this" "this \<noteq> p" using assms only Some by (auto simp: siblings_def)
      let ?k = "h(p \<mapsto> q\<lparr>pt_child := None\<rparr>)"
      have "unlink this h = Some (Some (?k(this \<mapsto> n\<lparr>pt_prev := None, pt_next := None, pt_parent := None\<rparr>)))"
        using n q only Some by (simp add: unlink_def)
      moreover have "siblings ?k par (as @ bs)" using q only Some by (auto simp: siblings_def)
      moreover have "relinks h par (near par (as @ this # bs)) ?k"
        by (rule relinks_upd [OF relinks_refl]) (use q Some in \<open>auto simp: near_def\<close>)
      ultimately show ?thesis using taken_outI [of ?k par as bs h this n] n(1) q par by auto
    qed
  qed
qed


section \<open>Sequences of edits\<close>

datatype link_op = Append nat nat | Prepend nat nat | Insert nat nat | Remove nat

fun link :: "link_op \<Rightarrow> tree_heap \<Rightarrow> tree_heap run" where
  "link (Append t e) h = append_entry t e h"
| "link (Prepend t e) h = prepend_entry t e h"
| "link (Insert t e) h = insert_entry t e h"
| "link (Remove t) h = remove t False False h"

fun links :: "link_op list \<Rightarrow> tree_heap \<Rightarrow> tree_heap run" where
  "links [] h = Some (Some h)"
| "links (a # ops) h = andthen (link a h) (links ops)"

text \<open>What they mean for the list, and when they may be used: on a node of the list, with a new node that is not.\<close>

fun edit :: "link_op \<Rightarrow> nat list \<Rightarrow> nat list" where
  "edit (Append t e) xs = xs @ [e]"
| "edit (Prepend t e) xs = e # xs"
| "edit (Insert t e) xs = takeWhile (\<lambda>x. x \<noteq> t) xs @ t # e # tl (dropWhile (\<lambda>x. x \<noteq> t) xs)"
| "edit (Remove t) xs = remove1 t xs"

fun target :: "link_op \<Rightarrow> nat" where
  "target (Append t e) = t" | "target (Prepend t e) = t" | "target (Insert t e) = t" | "target (Remove t) = t"

fun added :: "link_op \<Rightarrow> nat list" where
  "added (Append t e) = [e]" | "added (Prepend t e) = [e]" | "added (Insert t e) = [e]" | "added (Remove t) = []"

fun fits_edits :: "tree_heap \<Rightarrow> nat option \<Rightarrow> link_op list \<Rightarrow> nat list \<Rightarrow> bool" where
  "fits_edits h par [] xs = True"
| "fits_edits h par (a # ops) xs = (target a \<in> set xs \<and> (\<forall>e \<in> set (added a). h e \<noteq> None \<and> e \<notin> near par xs) \<and> fits_edits h par ops (edit a xs))"

lemma relinks_mono: "relinks h par S h' \<Longrightarrow> S \<subseteq> T \<Longrightarrow> relinks h par T h'"
  by (auto simp: relinks_def)

lemma relinks_trans: "relinks h par S h' \<Longrightarrow> relinks h' par S h'' \<Longrightarrow> relinks h par S h''"
  by (auto simp: relinks_def)

lemma relinks_live: "relinks h par S h' \<Longrightarrow> h' e = None \<longleftrightarrow> h e = None"
  unfolding relinks_def by (metis (no_types) option.map_disc_iff)

lemma fits_relinks: "relinks h q S h' \<Longrightarrow> fits_edits h' par ops xs = fits_edits h par ops xs"
proof (induction ops arbitrary: xs)
  case (Cons a ops)
  have "\<And>e. h' e = None \<longleftrightarrow> h e = None" using relinks_live [OF Cons.prems] .
  then show ?case using Cons by simp
qed simp

lemma set_tl_dropWhile: "set (tl (dropWhile P xs)) \<subseteq> set xs"
  by (induction xs) auto

lemma edit_subset: "target a \<in> set xs \<Longrightarrow> set (edit a xs) \<subseteq> set (xs @ added a)"
proof (cases a)
  case (Insert t e)
  have "set (takeWhile (\<lambda>x. x \<noteq> t) xs) \<subseteq> set xs" by (auto dest: set_takeWhileD)
  then show "target a \<in> set xs \<Longrightarrow> ?thesis" using Insert set_tl_dropWhile [of "\<lambda>x. x \<noteq> t" xs] by auto
next
  case (Remove t)
  then show ?thesis using set_remove1_subset [of t xs] by simp
qed auto

lemma near_subset: "set xs \<subseteq> set ys \<Longrightarrow> near par xs \<subseteq> near par ys"
  by (auto simp: near_def)

lemma link_ok:
  assumes "siblings h par xs" "target a \<in> set xs" "\<forall>e \<in> set (added a). h e \<noteq> None \<and> e \<notin> near par xs"
  shows "\<exists>h'. link a h = Some (Some h') \<and> siblings h' par (edit a xs) \<and> relinks h par (near par (xs @ added a)) h'"
proof (cases a)
  case (Append t e)
  then obtain m where "h e = Some m" using assms(3) by auto
  then show ?thesis using append_entry_ok [OF assms(1), of t e m] assms(2,3) Append by auto
next
  case (Prepend t e)
  then obtain m where "h e = Some m" using assms(3) by auto
  then obtain h' where "prepend_entry t e h = Some (Some h')" "siblings h' par (e # xs)" "relinks h par (near par (e # xs)) h'"
    using prepend_entry_ok [OF assms(1), of t e m] assms(2,3) Prepend by auto
  then show ?thesis using Prepend by (auto intro: relinks_mono simp: near_def)
next
  case (Insert t e)
  then obtain m where m: "h e = Some m" using assms(3) by auto
  obtain as bs where xs: "xs = as @ t # bs" "t \<notin> set as" using assms(2) Insert by (auto dest: split_list_first)
  then have e: "edit a xs = as @ t # e # bs" using Insert by (auto simp: takeWhile_append dropWhile_append)
  obtain h' where "insert_entry t e h = Some (Some h')" "siblings h' par (as @ t # e # bs)" "relinks h par (near par (as @ t # e # bs)) h'"
    using insert_entry_ok [of h par as t bs e m] assms(1,3) xs m Insert by auto
  moreover have "near par (as @ t # e # bs) \<subseteq> near par (xs @ added a)" by (rule near_subset) (use xs Insert in auto)
  ultimately show ?thesis using Insert e by (auto intro: relinks_mono)
next
  case (Remove t)
  obtain as bs where xs: "xs = as @ t # bs" "t \<notin> set as" using assms(2) Remove by (auto dest: split_list_first)
  then have e: "edit a xs = as @ bs" using Remove by (simp add: remove1_append)
  show ?thesis using unlink_ok [of h par as t bs] assms(1) xs Remove e by (auto simp: remove_def taken_out_def)
qed

lemma links_ok:
  assumes "siblings h par xs" "fits_edits h par ops xs"
  shows "\<exists>h'. links ops h = Some (Some h') \<and> siblings h' par (foldl (\<lambda>xs a. edit a xs) xs ops) \<and>
    relinks h par (near par (xs @ concat (map added ops))) h'"
  using assms
proof (induction ops arbitrary: h xs)
  case (Cons a ops)
  obtain h1 where h1: "link a h = Some (Some h1)" "siblings h1 par (edit a xs)" "relinks h par (near par (xs @ added a)) h1"
    using link_ok [OF Cons.prems(1), of a] Cons.prems(2) by auto
  have "fits_edits h1 par ops (edit a xs)" using Cons.prems(2) fits_relinks [OF h1(3)] by simp
  then obtain h2 where h2: "links ops h1 = Some (Some h2)" "siblings h2 par (foldl (\<lambda>xs a. edit a xs) xs (a # ops))"
      "relinks h1 par (near par (edit a xs @ concat (map added ops))) h2"
    using Cons.IH [OF h1(2)] by auto
  have "set (edit a xs) \<subseteq> set (xs @ added a)" using Cons.prems(2) edit_subset by auto
  then have "relinks h par (near par (xs @ concat (map added (a # ops)))) h2"
    by (intro relinks_trans [OF relinks_mono [OF h1(3)] relinks_mono [OF h2(3)]] near_subset) auto
  then show ?case using h1(1) h2(1,2) by auto
qed simp

section \<open>Adopting a list\<close>

lemma parents_after_ok:
  assumes "linked h q prv xs None" "distinct xs"
  shows "\<exists>h'. parents_after par (first_or xs None) h = Some (Some h') \<and> linked h' par prv xs None \<and> relinks h cp (set xs) h'"
  using assms
proof (induction xs arbitrary: h prv)
  case Nil
  then show ?case by (subst parents_after.simps) auto
next
  case (Cons x xs)
  then obtain n where n: "h x = Some n" "pt_prev n = prv" "pt_next n = first_or xs None" by auto
  let ?h = "h(x \<mapsto> n\<lparr>pt_parent := par\<rparr>)"
  obtain h' where h': "parents_after par (first_or xs None) ?h = Some (Some h')" "linked h' par (Some x) xs None"
      "relinks ?h cp (set xs) h'"
    using Cons.IH [of ?h "Some x"] Cons.prems by (metis distinct.simps(2) linked.simps(2) linked_upd)
  have "relinks h cp (set (x # xs)) ?h" by (rule relinks_upd [OF relinks_refl]) (use n in auto)
  then have "relinks h cp (set (x # xs)) h'" by (rule relinks_trans [OF _ relinks_mono [OF h'(3)]]) auto
  moreover have "h' x = Some (n\<lparr>pt_parent := par\<rparr>)" using h'(3) Cons.prems(2) by (simp add: relinks_def)
  ultimately have "linked h' par prv (x # xs) None \<and> relinks h cp (set (x # xs)) h'" using h' n by auto
  moreover have "parents_after par (first_or (x # xs) None) h = Some (Some h')"
    using n h'(1) by (subst parents_after.simps) simp
  ultimately show ?case by blast
qed

lemma set_child_ok:
  assumes "siblings h None xs" "c \<in> set xs" "h p = Some n" "p \<notin> set xs"
  shows "\<exists>h'. set_child p (Some c) h = Some (Some h') \<and> siblings h' (Some p) xs \<and> relinks h (Some p) (insert p (set xs)) h'"
proof -
  obtain as bs where xs: "xs = as @ c # bs" using assms(2) by (auto simp: in_set_conv_decomp)
  have s: "linked h None None as (Some c)" "linked h None (last_or as None) (c # bs) None" "distinct xs"
    using assms(1) xs by (auto simp: siblings_def)
  obtain h1 where h1: "parents_after None (Some c) h = Some (Some h1)" "linked h1 None (last_or as None) (c # bs) None"
      "relinks h (Some p) (set (c # bs)) h1"
    using parents_after_ok [OF s(2), where par = None and cp = "Some p"] s(3) xs by auto
  have "\<And>ys prv nxt. set ys \<inter> set (c # bs) = {} \<Longrightarrow> linked h1 None prv ys nxt = linked h None prv ys nxt"
    subgoal for ys prv nxt using h1(3) by (induction ys arbitrary: prv) (auto simp: relinks_def)
    done
  moreover have "set as \<inter> set (c # bs) = {}" using s(3) xs by auto
  ultimately have "linked h1 None None as (Some c)" using s(1) by simp
  then have l: "linked h1 None None xs None" using h1(2) xs by auto
  obtain a as' where a: "xs = a # as'" using assms(2) by (cases xs) auto
  have "linked h1 None None (as @ [c]) (first_or bs None)" using l xs by auto
  then have f: "first_entry h1 c = Some (Some a)" using first_entry_linked a xs
    by (metis append_is_Nil_conv hd_append2 list.sel(1) append_Nil not_Cons_self2)
  obtain n1 where n1: "h1 p = Some n1" using relinks_live [OF h1(3), of p] assms(3) by auto
  let ?h = "h1(p \<mapsto> n1\<lparr>pt_child := Some a\<rparr>)"
  have "linked ?h None None xs None" using l assms(4) by simp
  then obtain h2 where h2: "parents_after (Some p) (Some a) ?h = Some (Some h2)" "linked h2 (Some p) None xs None"
      "relinks ?h (Some p) (set xs) h2"
    using parents_after_ok [of ?h None None xs, where par = "Some p" and cp = "Some p"] s(3) a by auto
  have "h2 p = Some (n1\<lparr>pt_child := Some a\<rparr>)" using h2(3) assms(4) by (simp add: relinks_def)
  then have "siblings h2 (Some p) xs" using h2(2) s(3) assms(4) a by (simp add: siblings_def)
  moreover have "relinks h (Some p) (insert p (set xs)) h2"
    by (rule relinks_trans [OF relinks_trans [OF relinks_mono [OF h1(3)] relinks_upd [OF relinks_refl]] relinks_mono [OF h2(3)]])
      (use n1 xs in auto)
  moreover have "set_child p (Some c) h = Some (Some h2)" using h1(1) f n1 h2(1) by (simp add: set_child_def)
  ultimately show ?thesis by blast
qed


section \<open>Freeing\<close>

text \<open>A node that stands alone, and the work left that leads to its deletion again.\<close>

definition alone :: "tree_heap \<Rightarrow> nat \<Rightarrow> bool" where
  "alone h p \<longleftrightarrow> (\<exists>n. h p = Some n \<and> pt_prev n = None \<and> pt_next n = None \<and> pt_child n = None \<and> pt_parent n = None)"

definition doomed :: "nat \<Rightarrow> free_frame list \<Rightarrow> bool" where
  "doomed p fs \<longleftrightarrow> (\<exists>rest.
     fs = Delete p # rest \<or> fs = Free_list p True # rest \<or> fs = Free_from (Some p) True # rest \<or>
     fs = Free p True # Delete p # rest \<or> fs = Free_children None # Childless p # Orphan p # Delete p # rest \<or>
     fs = Childless p # Orphan p # Delete p # rest \<or> fs = Orphan p # Delete p # rest)"

lemma alone_first: "alone h p \<Longrightarrow> first_entry h p = Some (Some p)"
  by (subst first_entry.simps) (auto simp: alone_def)

lemma alone_unlink: "alone h p \<Longrightarrow> \<exists>h'. unlink p h = Some (Some h') \<and> alone h' p"
  by (auto simp: alone_def unlink_def)

lemma parents_after_None [simp]: "parents_after par None h = Some (Some h)"
  by (subst parents_after.simps) simp

lemma doomed_step:
  assumes "doomed p fs" "alone h p"
  shows "\<exists>f fs' new h'. fs = f # fs' \<and> free_step f h = Some (Some (new, h')) \<and> doomed p (new @ fs') \<and> alone h' p"
proof -
  obtain n where n: "h p = Some n" "pt_prev n = None" "pt_next n = None" "pt_child n = None" "pt_parent n = None"
    using assms(2) by (auto simp: alone_def)
  obtain h1 where h1: "unlink p h = Some (Some h1)" "alone h1 p" using alone_unlink [OF assms(2)] by auto
  obtain n1 where n1: "h1 p = Some n1" "pt_child n1 = None" using h1(2) by (auto simp: alone_def)
  have c: "alone (h(p \<mapsto> n\<lparr>pt_child := None\<rparr>)) p" using n by (simp add: alone_def)
  show ?thesis using assms(1) n n1 h1 c alone_first [OF assms(2)] assms(2) unfolding doomed_def by fastforce
qed

lemmas run_free_induct = run_free.raw_induct [rotated, consumes 1, case_names step]

lemma doomed_hangs:
  assumes "doomed p fs" "alone h p"
  shows "run_free fs h = None"
proof (rule ccontr)
  assume "run_free fs h \<noteq> None"
  then obtain y where "run_free fs h = Some y" by auto
  then have "doomed p fs \<longrightarrow> \<not> alone h p"
  proof (induction rule: run_free_induct)
    case (step run fs h y)
    show ?case
    proof (intro impI notI)
      assume "doomed p fs" "alone h p"
      then obtain f fs' new h' where "fs = f # fs'" "free_step f h = Some (Some (new, h'))" "doomed p (new @ fs')" "alone h' p"
        using doomed_step by blast
      then show False using step.hyps step.IH [of "new @ fs'" h' y] step.prems by auto
    qed
  qed
  then show False using assms by blast
qed


lemma leaf_doomed:
  assumes "siblings h (Some p) (c # xs)" "h c = Some n" "pt_child n = None"
  shows "run_free (Free p True # fs) h = None"
proof -
  obtain m where m: "h p = Some m" "pt_child m = Some c" "c \<noteq> p" using assms(1) by (auto simp: siblings_def)
  obtain nx where nx: "pt_next n = nx" by simp
  let ?h = "h(c \<mapsto> n\<lparr>pt_child := None\<rparr>)"
  have same: "?h = h" using assms(2,3) by auto
  obtain h1 where h1: "unlink c h = Some (Some h1)" "taken_out h (Some p) [] c xs h1"
    using unlink_ok [of h "Some p" "[]" c xs] assms(1) by auto
  then have r: "siblings h1 None [c]" "map_option pt_child (h1 c) = map_option pt_child (h c)"
    using m(3) by (auto simp: taken_out_def relinks_def)
  then obtain n1 where n1: "h1 c = Some n1" "pt_child n1 = None" "alone h1 c"
    using assms(2,3) by (auto simp: siblings_def alone_def)
  have d: "run_free (Delete c # gs) h1 = None" for gs
    by (rule doomed_hangs [OF _ n1(3)]) (simp add: doomed_def)
  have u: "run_free (f # gs) g = (case free_step f g of None \<Rightarrow> None | Some None \<Rightarrow> Some None | Some (Some (new, g)) \<Rightarrow> run_free (new @ gs) g)" for f gs g
    by (subst run_free.simps) simp
  show ?thesis using m assms(2,3) h1(1) n1 same d by (simp add: u [of "Free p True"] u [of "Free_children (Some c)"] u [of "Free c True"]
    u [of "Free_children None"] u [of "Childless c"] u [of "Orphan c"])
qed

section \<open>Cleaning up\<close>

definition plays :: "tree_heap \<Rightarrow> nat \<Rightarrow> bool" where
  "plays h x \<longleftrightarrow> (case h x of None \<Rightarrow> False | Some n \<Rightarrow> pt_type n \<noteq> NODE)"

definition childless :: "tree_heap \<Rightarrow> nat \<Rightarrow> bool" where
  "childless h x \<longleftrightarrow> map_option pt_child (h x) = Some None"

lemma relinks_plays: "relinks h par S h' \<Longrightarrow> plays h' x = plays h x"
proof -
  assume "relinks h par S h'"
  then have "map_option contents (h' x) = map_option contents (h x)" by (simp add: relinks_def)
  then show ?thesis by (auto simp: plays_def contents_def split: option.splits)
qed

lemma relinks_childless: "relinks h (Some p) S h' \<Longrightarrow> x \<noteq> p \<Longrightarrow> childless h' x = childless h x"
  by (simp add: relinks_def childless_def)

lemma is_valid_childless: "childless h x \<Longrightarrow> is_valid h x = Some (Some (plays h x))"
proof -
  assume "childless h x"
  then obtain n where "h x = Some n" "pt_child n = None" by (auto simp: childless_def)
  moreover have "any_valid h [None] = Some (Some False)" by (simp add: any_valid.simps)
  ultimately show ?thesis by (simp add: is_valid_def plays_def)
qed

lemma remove_childless:
  assumes "siblings h (Some p) (as @ x # bs)" "childless h x"
  shows "\<exists>h'. remove x True True h = Some (Some h') \<and> siblings h' (Some p) (as @ bs) \<and> relinks h (Some p) (near (Some p) (as @ x # bs)) h'"
proof -
  obtain h1 where h1: "unlink x h = Some (Some h1)" "taken_out h (Some p) as x bs h1" using unlink_ok [OF assms(1)] by auto
  then have s: "siblings h1 (Some p) (as @ bs)" "siblings h1 None [x]" "relinks h (Some p) (near (Some p) (as @ x # bs)) h1"
    by (auto simp: taken_out_def)
  have "x \<noteq> p" using assms(1) by (auto simp: siblings_def)
  then have "childless h1 x" using relinks_childless [OF s(3)] assms(2) by simp
  then obtain n where n: "h1 x = Some n" "pt_child n = None" "pt_prev n = None" "pt_next n = None" "pt_parent n = None"
    using s(2) by (auto simp: childless_def siblings_def)
  have same: "h1(x \<mapsto> n\<lparr>pt_child := None\<rparr>) = h1" "h1(x \<mapsto> n\<lparr>pt_prev := None, pt_next := None, pt_parent := None\<rparr>) = h1"
    using n by auto
  have "run_free [Free x True] h1 = Some (Some h1)"
    using n same by (simp add: run_free.simps unlink_def)
  then show ?thesis using h1(1) s by (simp add: remove_def)
qed


lemma prune_end [simp]: "prune first None h = Some (Some (first, h))"
  by (simp add: prune.simps)

lemma prune_ok:
  assumes "siblings h (Some p) (as @ bs)" "\<forall>x \<in> set bs. childless h x"
  shows "\<exists>h'. prune (first_or (as @ bs) None) (first_or bs None) h = Some (Some (first_or (as @ filter (plays h) bs) None, h')) \<and>
    siblings h' (Some p) (as @ filter (plays h) bs) \<and> relinks h (Some p) (near (Some p) (as @ bs)) h'"
  using assms
proof (induction bs arbitrary: as h)
  case Nil
  then show ?case by (simp add: relinks_refl)
next
  case (Cons b bs)
  obtain n where n: "h b = Some n" "pt_next n = first_or bs None" using siblingsD(8) [OF Cons.prems(1)] by auto
  have v: "is_valid h b = Some (Some (plays h b))" using is_valid_childless Cons.prems(2) by simp
  show ?case
  proof (cases "plays h b")
    case True
    have "prune (first_or (as @ b # bs) None) (Some b) h = prune (first_or (as @ b # bs) None) (first_or bs None) h"
      using n v True by (simp add: prune.simps [of _ "Some b"])
    then show ?thesis using Cons.IH [of h "as @ [b]"] Cons.prems True by simp
  next
    case False
    obtain h1 where h1: "remove b True True h = Some (Some h1)" "siblings h1 (Some p) (as @ bs)"
        "relinks h (Some p) (near (Some p) (as @ b # bs)) h1"
      using remove_childless [OF Cons.prems(1)] Cons.prems(2) by auto
    have e: "prune (first_or (as @ b # bs) None) (Some b) h = prune (first_or (as @ bs) None) (first_or bs None) h1"
      using n v False h1(1) siblingsD(6) [OF Cons.prems(1)] by (cases as) (auto simp: prune.simps [of _ "Some b"])
    have "x \<noteq> p" if "x \<in> set bs" for x using Cons.prems(1) that by (auto simp: siblings_def)
    then have c: "\<forall>x \<in> set bs. childless h1 x" "plays h1 = plays h"
      using relinks_childless [OF h1(3)] relinks_plays [OF h1(3)] Cons.prems by auto
    obtain h2 where h2: "prune (first_or (as @ bs) None) (first_or bs None) h1 = Some (Some (first_or (as @ filter (plays h) bs) None, h2))"
        "siblings h2 (Some p) (as @ filter (plays h) bs)" "relinks h1 (Some p) (near (Some p) (as @ bs)) h2"
      using Cons.IH [OF h1(2) c(1)] c(2) by auto
    have "relinks h (Some p) (near (Some p) (as @ b # bs)) h2"
      by (rule relinks_trans [OF h1(3) relinks_mono [OF h2(3) near_subset]]) auto
    then show ?thesis using h2 e False by simp
  qed
qed

lemma cleanup_lists_ok:
  assumes "linked h par prv bs None" "\<forall>x \<in> set bs. childless h x \<and> plays h x"
  shows "cleanup_lists [first_or bs None] h = Some (Some h)"
  using assms
proof (induction bs arbitrary: prv)
  case Nil
  then show ?case by (simp add: cleanup_lists.simps)
next
  case (Cons b bs)
  then obtain n where n: "h b = Some n" "pt_next n = first_or bs None" "pt_child n = None" by (auto simp: childless_def)
  have "is_valid h b = Some (Some True)" using is_valid_childless [of h b] Cons.prems(2) by simp
  then have "cleanup_lists [Some b] h = cleanup_lists [first_or bs None] h"
    using n by (simp add: cleanup_lists.simps [of "[Some b]"] cleanup_lists.simps [of "[None, _]"])
  then show ?case using Cons by auto
qed

lemma any_valid_ok:
  assumes "linked h par prv bs None" "x \<in> set bs" "plays h x" "\<forall>x \<in> set bs. childless h x"
  shows "any_valid h [first_or bs None] = Some (Some True)"
  using assms
proof (induction bs arbitrary: prv)
  case (Cons b bs)
  then obtain n where n: "h b = Some n" "pt_next n = first_or bs None" "pt_child n = None" by (auto simp: childless_def)
  show ?case
  proof (cases "plays h b")
    case True
    then show ?thesis using n by (simp add: any_valid.simps [of h "[Some b]"] plays_def)
  next
    case False
    then have "any_valid h [Some b] = any_valid h [first_or bs None]"
      using n by (simp add: any_valid.simps [of h "[Some b]"] any_valid.simps [of h "[None, _]"] plays_def)
    then show ?thesis using Cons False by auto
  qed
qed simp

section \<open>Properties\<close>

text \<open>C17: the lists of the play tree stay what they are meant to be. However nodes are appended, put in front, inserted
  and taken out, the links in both directions, the pointers to the parent and the parent's pointer to its
  first child stay right, the list is the one the edits describe, nothing else of a node changes and no node outside
  the list is touched. A list without a parent can then be given to a node as its children.\<close>

theorem play_lists_stay_linked:
  assumes "siblings h par xs" "fits_edits h par ops xs"
  defines "ys \<equiv> foldl (\<lambda>xs a. edit a xs) xs ops"
  shows "\<exists>h'. links ops h = Some (Some h') \<and> siblings h' par ys \<and>
    (\<forall>q. map_option contents (h' q) = map_option contents (h q)) \<and>
    (\<forall>q. q \<notin> near par (xs @ concat (map added ops)) \<longrightarrow> h' q = h q) \<and>
    (\<forall>p c. par = None \<and> c \<in> set ys \<and> p \<notin> set ys \<and> h p \<noteq> None \<longrightarrow>
       (\<exists>h''. set_child p (Some c) h' = Some (Some h'') \<and> siblings h'' (Some p) ys))"
proof -
  obtain h' where h': "links ops h = Some (Some h')" "siblings h' par ys" "relinks h par (near par (xs @ concat (map added ops))) h'"
    using links_ok [OF assms(1,2)] unfolding ys_def by auto
  have "\<exists>h''. set_child p (Some c) h' = Some (Some h'') \<and> siblings h'' (Some p) ys"
    if "par = None" "c \<in> set ys" "p \<notin> set ys" "h p \<noteq> None" for p c
    using set_child_ok [of h' ys c p] h'(2) relinks_live [OF h'(3), of p] that by auto
  then show ?thesis using h' unfolding relinks_def by blast
qed

definition example_nodes :: tree_heap where
  "example_nodes = (\<lambda>a. if a = 0 then Some (PlayTree_new\<lparr>pt_child := Some 1\<rparr>)
     else if a = 1 then Some (PlayTree_new\<lparr>pt_parent := Some 0, pt_next := Some 2\<rparr>)
     else if a = 2 then Some (PlayTree_new\<lparr>pt_parent := Some 0, pt_prev := Some 1, pt_type := FILE\<rparr>)
     else if a < 6 then Some PlayTree_new else None)"

lemma example_siblings: "siblings example_nodes (Some 0) [1, 2]"
  by (simp add: siblings_def example_nodes_def PlayTree_new_def)

lemma play_lists_stay_linked_witness:
  "\<exists>h'. links [Append 1 3, Insert 1 4, Prepend 2 5, Remove 1] example_nodes = Some (Some h') \<and> siblings h' (Some 0) [5, 4, 2, 3]"
proof -
  have "fits_edits example_nodes (Some 0) [Append 1 3, Insert 1 4, Prepend 2 5, Remove 1] [1, 2]"
    by (simp add: near_def example_nodes_def PlayTree_new_def)
  then show ?thesis using play_lists_stay_linked [OF example_siblings, of "[Append 1 3, Insert 1 4, Prepend 2 5, Remove 1]"] by auto
qed

text \<open>C33: cleaning up a list of files in which there are empty groups takes out exactly the empty groups, keeps the
  order of the files, and says that there is something to play.\<close>

theorem cleanup_keeps_what_plays:
  assumes "siblings h (Some p) xs" "\<forall>x \<in> set xs. childless h x" "\<exists>x \<in> set xs. plays h x"
    and "h p = Some n" "pt_type n = NODE"
  shows "\<exists>h'. cleanup p h = Some (Some (True, h')) \<and> siblings h' (Some p) (filter (plays h) xs) \<and>
    (\<forall>q. map_option contents (h' q) = map_option contents (h q)) \<and> (\<forall>q. q \<notin> near (Some p) xs \<longrightarrow> h' q = h q)"
proof -
  have c: "pt_child n = first_or xs None" "linked h (Some p) None xs None" using assms(1,4) by (auto simp: siblings_def)
  have "any_valid h [pt_child n] = Some (Some True)" using any_valid_ok [OF c(2)] assms(2,3) c(1) by auto
  then have v: "is_valid h p = Some (Some True)" using assms(4,5) by (simp add: is_valid_def)
  obtain h' where h': "prune (pt_child n) (pt_child n) h = Some (Some (first_or (filter (plays h) xs) None, h'))"
      "siblings h' (Some p) (filter (plays h) xs)" "relinks h (Some p) (near (Some p) xs) h'"
    using prune_ok [of h p "[]" xs] assms(1,2) c(1) by auto
  have "x \<noteq> p" if "x \<in> set xs" for x using assms(1) that by (auto simp: siblings_def)
  then have "\<forall>x \<in> set (filter (plays h) xs). childless h' x \<and> plays h' x"
    using relinks_childless [OF h'(3)] relinks_plays [OF h'(3)] assms(2) by simp
  then have "cleanup_lists [first_or (filter (plays h) xs) None] h' = Some (Some h')"
    using cleanup_lists_ok h'(2) unfolding siblings_def by blast
  then have "cleanup p h = Some (Some (True, h'))" using v h'(1) assms(4) by (simp add: cleanup_def)
  then show ?thesis using h' unfolding relinks_def by blast
qed

lemma cleanup_keeps_what_plays_witness:
  "\<exists>h'. cleanup 0 example_nodes = Some (Some (True, h')) \<and> siblings h' (Some 0) [2]"
proof -
  have "\<forall>x \<in> set [1, 2]. childless example_nodes x" "\<exists>x \<in> set [1, 2]. plays example_nodes x"
      "filter (plays example_nodes) [1, 2] = [2]"
    by (simp_all add: example_nodes_def PlayTree_new_def childless_def plays_def)
  then show ?thesis using cleanup_keeps_what_plays [OF example_siblings, of "PlayTree_new\<lparr>pt_child := Some 1\<rparr>"]
    by (auto simp: example_nodes_def PlayTree_new_def)
qed

text \<open>No run that comes to a delete, to the list of another node or to a child comes to its end.\<close>

fun harmless :: "free_frame \<Rightarrow> bool" where
  "harmless (Delete p) = False"
| "harmless (Free_list p childs) = False"
| "harmless (Free_from p childs) = (p = None)"
| "harmless (Free_children p) = (p = None)"
| "harmless f = True"

lemma harmless_step: "free_step f h = Some (Some (new, h')) \<Longrightarrow> \<forall>g \<in> set new. harmless g \<Longrightarrow> harmless f"
  by (cases "(f, h)" rule: free_step.cases) (auto simp: andthen_def split: option.splits)

lemma finished_harmless: "run_free fs h = Some r \<Longrightarrow> r \<noteq> None \<Longrightarrow> \<forall>f \<in> set fs. harmless f"
proof (induction rule: run_free_induct)
  case (step run fs h r)
  show ?case
  proof (cases fs)
    case (Cons f fs')
    obtain new h' where n: "free_step f h = Some (Some (new, h'))"
      using step(2,3) Cons by (auto split: option.splits)
    then have "run (new @ fs') h' = Some r" using step(2) Cons by simp
    then have "\<forall>g \<in> set (new @ fs'). harmless g" using step(1,3) by blast
    then show ?thesis using harmless_step [OF n] Cons by simp
  qed simp
qed

lemma unlink_keeps_child:
  assumes "unlink p h = Some (Some h1)" "h p = Some n" "pt_parent n \<noteq> Some p"
  shows "map_option pt_child (h1 p) = Some (pt_child n)"
  using assms by (auto simp: unlink_def modify_def deref_def andthen_def split: option.splits if_splits)

text \<open>C36: memory is never given back. Deleting a node, whatever it is and whatever is linked to it, never comes to its end: the destructor frees the list the
  node is in, which deletes the node. So freeing a node that has children together with them does not come to its end either, nor does removing it with them.
  For a node that stands alone this means that the delete goes on for ever, not that a bad pointer is met. Making a node the
  top one by giving it no parent does not come to its end either: it follows the null pointer.\<close>

theorem play_tree_never_freed:
  assumes "h p = Some n" "pt_child n \<noteq> None" "pt_parent n \<noteq> Some p"
  shows "(\<forall>g q g'. run_free [Delete q] g \<noteq> Some (Some g')) \<and> (\<forall>g q. alone g q \<longrightarrow> run_free [Delete q] g = None) \<and>
    run_free [Free p True] h \<noteq> Some (Some h') \<and> remove p True True h \<noteq> Some (Some h') \<and>
    (\<forall>g q g'. set_parent q None g \<noteq> Some (Some g'))"
proof (intro conjI allI impI notI)
  show False if "run_free [Delete q] g = Some (Some g')" for g q g'
    using finished_harmless [OF that] by simp
  show "run_free [Delete q] g = None" if "alone g q" for g q
    by (rule doomed_hangs [OF _ that]) (simp add: doomed_def)
  have f: False if r: "run_free [Free p True] g = Some (Some h')" and c: "map_option pt_child (g p) = Some (pt_child n)" for g
  proof -
    obtain m where m: "g p = Some m" "pt_child m = pt_child n" using c by auto
    have "run_free [Free p True] g = run_free [Free_children (pt_child n), Childless p, Orphan p] g"
      using m by (subst run_free.simps) simp
    then show False using r finished_harmless [of "[Free_children (pt_child n), Childless p, Orphan p]" g "Some h'"] assms(2) by simp
  qed
  show False if "run_free [Free p True] h = Some (Some h')"
    using f [OF that] assms(1) by simp
  show False if r: "remove p True True h = Some (Some h')"
  proof -
    obtain h1 where h1: "unlink p h = Some (Some h1)" "run_free [Free p True] h1 = Some (Some h')"
      using r by (auto simp: remove_def andthen_def split: option.splits)
    show False using f [OF h1(2) unlink_keeps_child [OF h1(1) assms(1,3)]] .
  qed
  show False if "set_parent q None g = Some (Some g')" for g q g'
    using that by (auto simp: set_parent_def modify_def andthen_def deref_def split: option.splits)
qed

lemma play_tree_never_freed_witness:
  "\<exists>n. example_nodes 0 = Some n \<and> pt_child n \<noteq> None \<and> (\<forall>h'. remove 0 True True example_nodes \<noteq> Some (Some h')) \<and> run_free [Delete 5] example_nodes = None"
proof -
  have "alone example_nodes 5" by (simp add: alone_def example_nodes_def PlayTree_new_def)
  moreover have "example_nodes 0 = Some (PlayTree_new\<lparr>pt_child := Some 1\<rparr>)" by (simp add: example_nodes_def PlayTree_new_def)
  ultimately show ?thesis using play_tree_never_freed [of example_nodes 0 "PlayTree_new\<lparr>pt_child := Some 1\<rparr>"] by (simp add: PlayTree_new_def)
qed

end
