(* ===== verification/PlayIter.thy ===== *)
theory PlayIter
  imports PlayLists "HOL-Library.Multiset"
begin

text \<open>
  The iterator over the play tree (mplayerxp/libplaytree2/playtree.cpp): what is played after what, in order and
  shuffled, with loops. step, up_step and down_step end in a call of one another; \<open>iter_step\<close> is one
  of their bodies and \<open>iter_run\<close> the whole call.
\<close>

section \<open>The iterator\<close>

datatype iter_rc = ITER_ERROR | ITER_ENTRY | ITER_NODE | ITER_END

text \<open>\<open>it_config\<close>: the options set so far, the last one in front. \<open>it_rnd\<close>: the mode.\<close>

record PlayTree_Iter =
  it_root :: nat
  it_tree :: "nat option"
  it_config :: "(string \<times> string) list"
  it_loop :: int
  it_file :: int
  it_num_files :: int
  it_rnd :: bool
  status_stack :: "int list"

text \<open>The iterator with the tree it changes, and the number of times chance has been asked.\<close>

record play_state =
  ps_heap :: tree_heap
  ps_iter :: PlayTree_Iter
  ps_draws :: nat

text \<open>\<open>junk\<close>: a root without parent leaves the loop as it is in memory.\<close>

definition PlayTree_Iter_new :: "int \<Rightarrow> nat \<Rightarrow> tree_heap \<Rightarrow> PlayTree_Iter run" where
  "PlayTree_Iter_new junk pt h = andthen (deref h (Some pt)) (\<lambda>n.
     andthen (if pt_parent n = None then Some (Some junk) else andthen (deref h (pt_parent n)) (\<lambda>m. Some (Some (pt_loop m)))) (\<lambda>l.
       Some (Some \<lparr>it_root = pt, it_tree = None, it_config = [], it_loop = l, it_file = 0, it_num_files = 0, it_rnd = False, status_stack = []\<rparr>)))"

text \<open>The copy constructor: all but the stack.\<close>

definition PlayTree_Iter_copy :: "PlayTree_Iter \<Rightarrow> PlayTree_Iter" where
  "PlayTree_Iter_copy old = old\<lparr>status_stack := []\<rparr>"

section \<open>Chance\<close>

text \<open>What rand and time give, the first time, the second time and so on.\<close>

type_synonym chance = "nat \<Rightarrow> int \<times> int"

definition RAND_MAX :: int where "RAND_MAX = 2147483647"

definition unplayed :: "tree_heap \<Rightarrow> nat \<Rightarrow> bool" where
  "unplayed h a \<longleftrightarrow> (case h a of None \<Rightarrow> False | Some n \<Rightarrow> pt_flags n AND PLAY_TREE_RND_PLAYED = 0)"

text \<open>The nodes from the head of the list to one, and from one to the end.\<close>

partial_function (option) walk_back :: "tree_heap \<Rightarrow> nat \<Rightarrow> nat list \<Rightarrow> nat list run" where
  "walk_back h p acc = (case h p of None \<Rightarrow> Some None
     | Some n \<Rightarrow> (case pt_prev n of None \<Rightarrow> Some (Some (p # acc)) | Some q \<Rightarrow> walk_back h q (p # acc)))"

partial_function (option) walk_on :: "tree_heap \<Rightarrow> nat option \<Rightarrow> nat list \<Rightarrow> nat list run" where
  "walk_on h p acc = (case p of None \<Rightarrow> Some (Some (rev acc))
     | Some a \<Rightarrow> (case h a of None \<Rightarrow> Some None | Some n \<Rightarrow> walk_on h (pt_next n) (a # acc)))"

declare walk_back.simps [code] walk_on.simps [code]

text \<open>The first node at which the count has gone below zero.\<close>

fun count_down :: "(nat \<Rightarrow> bool) \<Rightarrow> int \<Rightarrow> nat list \<Rightarrow> nat option" where
  "count_down P r [] = None"
| "count_down P r (a # as) = (let r = (if P a then r - 1 else r) in if r < 0 then Some a else count_down P r as)"

definition pick :: "(nat \<Rightarrow> bool) \<Rightarrow> nat \<Rightarrow> int \<times> int \<Rightarrow> nat list \<Rightarrow> nat option" where
  "pick P choices c as =
     (let r = (int choices * fst c) div (RAND_MAX + 1); r = (if r \<noteq> 0 then int choices - snd c mod r else 0)
      in case count_down P r as of Some a \<Rightarrow> Some a | None \<Rightarrow> find P as)"

definition play_tree_rnd_step :: "chance \<Rightarrow> nat \<Rightarrow> tree_heap \<Rightarrow> nat \<Rightarrow> (nat option \<times> nat) run" where
  "play_tree_rnd_step chance pt h k =
     andthen (walk_back h pt []) (\<lambda>as. andthen (deref h (Some pt)) (\<lambda>n. andthen (walk_on h (pt_next n) []) (\<lambda>bs.
       let choices = length (filter (unplayed h) (as @ bs)) in
       if choices = 0 then Some (Some (None, k))
       else andthen (walk_on h (Some (hd as)) []) (\<lambda>all. Some (Some (pick (unplayed h) choices (chance k) all, Suc k))))))"

section \<open>One body\<close>

datatype iter_call = Step int | Up int | Down int

text \<open>So many nodes on; what is left of the number when the list ends.\<close>

fun go :: "(PlayTree \<Rightarrow> nat option) \<Rightarrow> tree_heap \<Rightarrow> nat \<Rightarrow> nat option \<Rightarrow> (nat \<times> nat option) run" where
  "go f h 0 p = Some (Some (0, p))"
| "go f h (Suc k) None = Some (Some (Suc k, None))"
| "go f h (Suc k) (Some a) = andthen (deref h (Some a)) (\<lambda>n. go f h k (f n))"

definition set_iter :: "PlayTree_Iter \<Rightarrow> play_state \<Rightarrow> play_state" where
  "set_iter it s = s\<lparr>ps_iter := it\<rparr>"

definition set_heap :: "tree_heap \<Rightarrow> play_state \<Rightarrow> play_state" where
  "set_heap h s = s\<lparr>ps_heap := h\<rparr>"

text \<open>The node to go to, with the direction that is left and the draws made.\<close>

definition next_node :: "chance \<Rightarrow> bool \<Rightarrow> int \<Rightarrow> nat \<Rightarrow> play_state \<Rightarrow> (nat option \<times> int \<times> nat) run" where
  "next_node chance rnd d t s = (let h = ps_heap s; k = ps_draws s in
     if rnd then andthen (play_tree_rnd_step chance t h k) (\<lambda>(pt, k). Some (Some (pt, d, k)))
     else if 0 < d then andthen (go pt_next h (nat d) (Some t)) (\<lambda>(i, pt). Some (Some (pt, if i \<noteq> 0 then int i else 1, k)))
     else if d < 0 then andthen (go pt_prev h (nat (- d)) (Some t)) (\<lambda>(i, pt). Some (Some (pt, if i \<noteq> 0 then - int i else - 1, k)))
     else Some (Some (Some t, d, k)))"

type_synonym iter_result = "(iter_call \<times> play_state) + (iter_rc \<times> play_state)"

text \<open>There is no next one: go round again, or up.\<close>

definition step_end :: "int \<Rightarrow> PlayTree \<Rightarrow> nat \<Rightarrow> play_state \<Rightarrow> iter_result run" where
  "step_end d n t s = (let it = ps_iter s; h = ps_heap s in
     if it_rnd it then
       andthen (deref h (Some (it_root it))) (\<lambda>r.
         if pt_loop r = 0 then Some (Some (Inr (ITER_END, s)))
         else andthen (unset_flag (it_root it) PLAY_TREE_RND_PLAYED (- 1) h) (\<lambda>h.
           andthen (modify (Some (it_root it)) (\<lambda>r. if 0 < pt_loop r then r\<lparr>pt_loop := pt_loop r - 1\<rparr> else r) h) (\<lambda>h.
             Some (Some (Inl (Step 0, set_heap h s))))))
     else andthen (if pt_parent n = None then Some (Some 0) else andthen (deref h (pt_parent n)) (\<lambda>p. Some (Some (pt_loop p)))) (\<lambda>pl.
       if pl \<noteq> 0 \<and> (0 < d \<and> it_loop it \<noteq> 0 \<or> d < 0 \<and> (it_loop it < 0 \<or> it_loop it < pl))
       then andthen (if 0 < d then first_entry h t else last_entry h t) (\<lambda>a.
         let l = it_loop it; l = (if 0 < d then if 0 < l then l - 1 else l else if 0 \<le> l \<and> l < pl then l + 1 else l)
         in Some (Some (Inl (Step 0, set_iter (it\<lparr>it_loop := l, it_tree := Some a\<rparr>) s))))
       else Some (Some (Inl (Up d, s)))))"

text \<open>There is one: enter it, pass it over, or stop at it.\<close>

definition step_to :: "bool \<Rightarrow> int \<Rightarrow> nat \<Rightarrow> play_state \<Rightarrow> iter_result run" where
  "step_to with_nodes d pt s = (let it = ps_iter s; h = ps_heap s in
     andthen (deref h (Some pt)) (\<lambda>m.
     andthen (case pt_child m of None \<Rightarrow> Some (Some False) | Some c \<Rightarrow> is_valid h c) (\<lambda>v.
       if v then let s = set_iter (it\<lparr>it_tree := Some pt\<rparr>) s
         in Some (Some (if with_nodes then Inr (ITER_NODE, s) else Inl (Down d, s)))
       else andthen (is_valid h pt) (\<lambda>v.
         if \<not> v then Some (Some (if d = 0 \<and> \<not> it_rnd it then Inr (ITER_ERROR, s) else Inl (Step d, s)))
         else let s = set_iter (it\<lparr>it_tree := Some pt, it_num_files := int (length (pt_files m))\<rparr>) s
           in Some (Some (Inr (ITER_ENTRY, if it_rnd it then set_heap (h(pt \<mapsto> m\<lparr>pt_flags := pt_flags m OR PLAY_TREE_RND_PLAYED\<rparr>)) s else s)))))))"

definition shuffled :: "tree_heap \<Rightarrow> nat option \<Rightarrow> bool run" where
  "shuffled h par = (if par = None then Some (Some False)
     else andthen (deref h par) (\<lambda>p. Some (Some (pt_flags p AND PLAY_TREE_RND \<noteq> 0))))"

definition step_body :: "chance \<Rightarrow> bool \<Rightarrow> int \<Rightarrow> play_state \<Rightarrow> iter_result run" where
  "step_body chance with_nodes d s = (let it = ps_iter s; h = ps_heap s in
     case it_tree it of
       None \<Rightarrow> Some (Some (Inl (Step 0, set_iter (it\<lparr>it_tree := Some (it_root it)\<rparr>) s)))
     | Some t \<Rightarrow> andthen (deref h (Some t)) (\<lambda>n.
         andthen (shuffled h (pt_parent n)) (\<lambda>rnd.
         andthen (next_node chance rnd d t s) (\<lambda>(pt, d, k).
           let s = set_iter (it\<lparr>it_rnd := rnd, it_file := - 1\<rparr>) s\<lparr>ps_draws := k\<rparr>
           in case pt of None \<Rightarrow> step_end d n t s | Some pt \<Rightarrow> step_to with_nodes d pt s))))"

definition up_body :: "int \<Rightarrow> play_state \<Rightarrow> iter_result run" where
  "up_body d s = (let it = (ps_iter s)\<lparr>it_file := - 1\<rparr>; h = ps_heap s; s = set_iter it s in
     andthen (deref h (it_tree it)) (\<lambda>n. andthen (deref h (Some (it_root it))) (\<lambda>r.
       if pt_parent n = pt_parent r then Some (Some (Inr (ITER_END, s)))
       else case status_stack it of [] \<Rightarrow> Some None
         | l # st \<Rightarrow> let s = set_iter (it\<lparr>it_loop := l, status_stack := st, it_tree := pt_parent n\<rparr>) s
             in andthen (if it_rnd it then modify (pt_parent n) (\<lambda>p. p\<lparr>pt_flags := pt_flags p OR PLAY_TREE_RND_PLAYED\<rparr>) h else Some (Some h))
               (\<lambda>h. Some (Some (Inl (Step d, set_heap h s)))))))"

definition push_params :: "PlayTree \<Rightarrow> PlayTree_Iter \<Rightarrow> PlayTree_Iter" where
  "push_params n it = it\<lparr>it_config := rev (map (\<lambda>q. (pp_name q, pp_value q)) (pt_params n)) @ it_config it\<rparr>"

definition down_body :: "int \<Rightarrow> play_state \<Rightarrow> iter_result run" where
  "down_body d s = (let it = (ps_iter s)\<lparr>it_file := - 1\<rparr>; h = ps_heap s in
     andthen (deref h (it_tree it)) (\<lambda>n.
       let it = push_params n it; it = it\<lparr>status_stack := it_loop it # status_stack it, it_loop := pt_loop n - 1\<rparr> in
       andthen (if 0 \<le> d then Some (Some (pt_child n))
         else (case pt_child n of None \<Rightarrow> Some None | Some c \<Rightarrow> andthen (last_entry h c) (\<lambda>a. Some (Some (Some a))))) (\<lambda>t.
         Some (Some (Inl (Step 0, set_iter (it\<lparr>it_tree := t\<rparr>) s))))))"

fun iter_step :: "chance \<Rightarrow> bool \<Rightarrow> iter_call \<Rightarrow> play_state \<Rightarrow> iter_result run" where
  "iter_step chance with_nodes (Step d) s = step_body chance with_nodes d s"
| "iter_step chance with_nodes (Up d) s = up_body d s"
| "iter_step chance with_nodes (Down d) s = down_body d s"

partial_function (option) iter_run :: "chance \<Rightarrow> bool \<Rightarrow> iter_call \<Rightarrow> play_state \<Rightarrow> (iter_rc \<times> play_state) run" where
  "iter_run chance with_nodes c s = (case iter_step chance with_nodes c s of None \<Rightarrow> None | Some None \<Rightarrow> Some None
     | Some (Some r) \<Rightarrow> (case r of Inl (c, s) \<Rightarrow> iter_run chance with_nodes c s | Inr r \<Rightarrow> Some (Some r)))"

declare iter_run.simps [code]

section \<open>What to open\<close>

definition source_text :: "entry_type \<Rightarrow> string \<Rightarrow> (string \<times> string) list \<times> string" where
  "source_text ty entry = (case ty of
       DVD \<Rightarrow> let e = (if entry = [] then ''1'' else entry) in ([(''dvd'', e)], ''DVD title '' @ e)
     | VCD \<Rightarrow> let e = (if entry = [] then ''1'' else entry) in ([(''vcd'', e)], ''vcd://'' @ e)
     | TV \<Rightarrow> if entry = [] then ([(''tv'', ''on'')], ''TV'')
         else let rest = takeWhile (\<lambda>c. c \<noteq> CHR '':'') entry
           in ([(''tv'', ''on:channel='' @ entry)], ''TV channel '' @ (if rest = entry then take 244 entry else take 255 rest))
     | _ \<Rightarrow> ([], entry))"

definition get_playable_source_name :: "int \<Rightarrow> play_state \<Rightarrow> (string \<times> play_state) run" where
  "get_playable_source_name d s = (let it = ps_iter s in
     andthen (deref (ps_heap s) (it_tree it)) (\<lambda>n.
       if pt_files n = [] then Some (Some ([], s))
       else if it_num_files it - 1 \<le> it_file it \<or> it_file it < - 1 then Some (Some ([], s))
       else let f = (if 0 < d then if it_num_files it - 1 \<le> it_file it then 0 else it_file it + 1
                     else if d < 0 then if it_file it \<le> 0 then it_num_files it - 1 else it_file it - 1 else it_file it);
                it = it\<lparr>it_file := f\<rparr>
         in if f < 0 \<or> int (length (pt_files n)) \<le> f then Some None
            else let (opts, name) = source_text (pt_type n) (pt_files n ! nat f)
              in Some (Some (name, set_iter (it\<lparr>it_config := opts @ it_config it\<rparr>) s))))"


section \<open>Playing in order\<close>

text \<open>What is to be played: an entry, or a group with its number of loops.\<close>

datatype play = Entry nat | Group nat nat "play list"

fun node_of :: "play \<Rightarrow> nat" where
  "node_of (Entry a) = a"
| "node_of (Group a k ts) = a"

fun plays_of :: "play \<Rightarrow> nat list" where
  "plays_of (Entry a) = [a]"
| "plays_of (Group a k ts) = concat (replicate (max 1 k) (concat (map plays_of ts)))"

text \<open>The list of nodes, with what is below them, that is on the heap. Nothing is shuffled, and no group is empty.\<close>

definition quiet :: "PlayTree \<Rightarrow> bool" where
  "quiet n \<longleftrightarrow> pt_flags n AND PLAY_TREE_RND = 0"

fun forest :: "tree_heap \<Rightarrow> nat option \<Rightarrow> nat option \<Rightarrow> play list \<Rightarrow> bool" where
  "forest h par prv [] = True"
| "forest h par prv (Entry a # ts) =
     ((\<exists>n. h a = Some n \<and> pt_parent n = par \<and> pt_prev n = prv \<and> pt_next n = first_or (map node_of ts) None \<and> pt_type n \<noteq> NODE \<and> pt_child n = None) \<and>
      forest h par (Some a) ts)"
| "forest h par prv (Group a k us # ts) =
     ((\<exists>n. h a = Some n \<and> pt_parent n = par \<and> pt_prev n = prv \<and> pt_next n = first_or (map node_of ts) None \<and> pt_type n = NODE \<and>
        pt_child n = first_or (map node_of us) None \<and> us \<noteq> [] \<and> pt_loop n = int k \<and> quiet n) \<and>
      forest h (Some a) None us \<and> forest h par (Some a) ts)"

definition quiet_parent :: "tree_heap \<Rightarrow> nat option \<Rightarrow> bool" where
  "quiet_parent h par \<longleftrightarrow> (case par of None \<Rightarrow> True | Some p \<Rightarrow> (\<exists>n. h p = Some n \<and> quiet n))"

text \<open>Calls that end with an entry are followed by a step to the next, as the player does.\<close>

inductive emits :: "chance \<Rightarrow> iter_call \<times> play_state \<Rightarrow> nat list \<Rightarrow> iter_call \<times> play_state \<Rightarrow> bool" for chance where
  emits_done: "emits chance z [] z"
| emits_move: "iter_step chance False c s = Some (Some (Inl (c', s'))) \<Longrightarrow> emits chance (c', s') xs z \<Longrightarrow> emits chance (c, s) xs z"
| emits_entry: "iter_step chance False c s = Some (Some (Inr (ITER_ENTRY, s'))) \<Longrightarrow> it_tree (ps_iter s') = Some x \<Longrightarrow>
    emits chance (Step 1, s') xs z \<Longrightarrow> emits chance (c, s) (x # xs) z"

lemma emits_trans: "emits chance a xs b \<Longrightarrow> emits chance b ys c \<Longrightarrow> emits chance a (xs @ ys) c"
  by (induction rule: emits.induct) (auto intro: emits.intros)

fun hears :: "chance \<Rightarrow> iter_call \<Rightarrow> play_state \<Rightarrow> nat list \<Rightarrow> bool" where
  "hears chance c s [] = (\<exists>s'. iter_run chance False c s = Some (Some (ITER_END, s')))"
| "hears chance c s (x # xs) = (\<exists>s'. iter_run chance False c s = Some (Some (ITER_ENTRY, s')) \<and> it_tree (ps_iter s') = Some x \<and>
     hears chance (Step 1) s' xs)"

lemma iter_run_move: "iter_step chance w c s = Some (Some (Inl (c', s'))) \<Longrightarrow> iter_run chance w c s = iter_run chance w c' s'"
  by (subst iter_run.simps) simp

lemma iter_run_return: "iter_step chance w c s = Some (Some (Inr r)) \<Longrightarrow> iter_run chance w c s = Some (Some r)"
  by (subst iter_run.simps) simp

lemma hears_move: "iter_step chance False c s = Some (Some (Inl (c', s'))) \<Longrightarrow> hears chance c s xs = hears chance c' s' xs"
  by (cases xs) (simp_all add: iter_run_move)

lemma emits_hears: "emits chance (c, s) xs (c', s') \<Longrightarrow> hears chance c' s' ys \<Longrightarrow> hears chance c s (xs @ ys)"
proof (induction "(c, s)" xs "(c', s')" arbitrary: c s rule: emits.induct)
  case emits_done
  then show ?case by simp
next
  case (emits_move c s c1 s1 xs)
  then show ?case using hears_move by blast
next
  case (emits_entry c s s1 x xs)
  then show ?case using iter_run_return by fastforce
qed


text \<open>What is heard at first, with no end in view.\<close>

fun begins :: "chance \<Rightarrow> iter_call \<Rightarrow> play_state \<Rightarrow> nat list \<Rightarrow> bool" where
  "begins chance c s [] = True"
| "begins chance c s (x # xs) = (\<exists>s'. iter_run chance False c s = Some (Some (ITER_ENTRY, s')) \<and> it_tree (ps_iter s') = Some x \<and>
     begins chance (Step 1) s' xs)"

lemma begins_move: "iter_step chance False c s = Some (Some (Inl (c', s'))) \<Longrightarrow> begins chance c s xs = begins chance c' s' xs"
  by (cases xs) (simp_all add: iter_run_move)

lemma emits_begins: "emits chance (c, s) xs (c', s') \<Longrightarrow> begins chance c' s' ys \<Longrightarrow> begins chance c s (xs @ ys)"
proof (induction "(c, s)" xs "(c', s')" arbitrary: c s rule: emits.induct)
  case emits_done
  then show ?case by simp
next
  case (emits_move c s c1 s1 xs)
  then show ?case using begins_move by blast
next
  case (emits_entry c s s1 x xs)
  then show ?case using iter_run_return by fastforce
qed

text \<open>Where the iterator stands: the tree unchanged, the root, the node, the loop and the stack.\<close>

definition keeps :: "tree_heap \<Rightarrow> nat \<Rightarrow> int \<Rightarrow> int list \<Rightarrow> play_state \<Rightarrow> bool" where
  "keeps h r l st s \<longleftrightarrow> ps_heap s = h \<and> it_root (ps_iter s) = r \<and> it_loop (ps_iter s) = l \<and> status_stack (ps_iter s) = st"

definition stands :: "tree_heap \<Rightarrow> nat \<Rightarrow> int \<Rightarrow> int list \<Rightarrow> nat \<Rightarrow> play_state \<Rightarrow> bool" where
  "stands h r l st t s \<longleftrightarrow> keeps h r l st s \<and> it_tree (ps_iter s) = Some t"

lemma forest_node:
  "forest h par prv (t # ts) \<Longrightarrow> \<exists>n. h (node_of t) = Some n \<and> pt_parent n = par \<and> pt_prev n = prv \<and> pt_next n = first_or (map node_of ts) None"
  by (cases t) auto

lemma forest_tail: "forest h par prv (t # ts) \<Longrightarrow> forest h par (Some (node_of t)) ts"
  by (cases t) auto

lemma forest_append: "forest h par prv (as @ bs) \<Longrightarrow> forest h par (last_or (map node_of as) prv) bs"
  by (induction as arbitrary: prv) (auto dest: forest_tail)

lemma forest_linked: "forest h par prv ts \<Longrightarrow> linked h par prv (map node_of ts) None"
proof (induction ts arbitrary: prv)
  case (Cons t ts)
  then show ?case using forest_node [OF Cons.prems] forest_tail [OF Cons.prems] by auto
qed simp

lemma any_valid_forest: "forest h par prv ts \<Longrightarrow> ts \<noteq> [] \<Longrightarrow> any_valid h (first_or (map node_of ts) None # ps) = Some (Some True)"
proof (induction h par prv ts arbitrary: ps rule: forest.induct)
  case (2 h par prv a ts)
  then show ?case by (auto simp: any_valid.simps [of _ "Some _ # _"])
next
  case (3 h par prv a k us ts)
  then show ?case by (auto simp: any_valid.simps [of _ "Some _ # _"])
qed simp

lemma is_valid_forest:
  assumes "forest h par prv (t # ts)"
  shows "is_valid h (node_of t) = Some (Some True)"
proof (cases t)
  case (Group a k us)
  then show ?thesis using assms any_valid_forest [of h "Some a" None us "[]"] by (auto simp: is_valid_def)
qed (use assms in \<open>auto simp: is_valid_def\<close>)

text \<open>On the way to a node: standing on it, or on the one before with a step to the next.\<close>

definition arrives :: "tree_heap \<Rightarrow> nat \<Rightarrow> int \<Rightarrow> int list \<Rightarrow> nat option \<Rightarrow> nat \<Rightarrow> iter_call \<Rightarrow> play_state \<Rightarrow> bool" where
  "arrives h r l st par t c s \<longleftrightarrow> c = Step 0 \<and> stands h r l st t s \<or>
     c = Step 1 \<and> (\<exists>q n. stands h r l st q s \<and> h q = Some n \<and> pt_next n = Some t \<and> pt_parent n = par)"

lemma quiet_parent_step:
  assumes "quiet_parent h par"
  shows "shuffled h par = Some (Some False)"
  using assms by (cases par) (auto simp: quiet_parent_def quiet_def shuffled_def)

lemma arrive_step:
  assumes "forest h par prv (t # ts)" "quiet_parent h par" "arrives h r l st par (node_of t) c s"
  obtains d s' where "d = 0 \<or> d = 1" "iter_step chance False c s = step_to False d (node_of t) s'" "keeps h r l st s'" "\<not> it_rnd (ps_iter s')"
proof -
  obtain n where n: "h (node_of t) = Some n" "pt_parent n = par" using forest_node [OF assms(1)] by auto
  consider (zero) "c = Step 0" "stands h r l st (node_of t) s"
    | (one) q m where "c = Step 1" "stands h r l st q s" "h q = Some m" "pt_next m = Some (node_of t)" "pt_parent m = par"
    using assms(3) by (auto simp: arrives_def)
  then show ?thesis
  proof cases
    case zero
    let ?s = "set_iter (ps_iter s\<lparr>it_rnd := False, it_file := - 1\<rparr>) s\<lparr>ps_draws := ps_draws s\<rparr>"
    have "iter_step chance False c s = step_to False 0 (node_of t) ?s"
      using zero n quiet_parent_step [OF assms(2)] by (simp add: step_body_def stands_def keeps_def next_node_def Let_def)
    then show ?thesis using that [of 0 ?s] zero by (simp add: stands_def keeps_def set_iter_def)
  next
    case one
    let ?s = "set_iter (ps_iter s\<lparr>it_rnd := False, it_file := - 1\<rparr>) s\<lparr>ps_draws := ps_draws s\<rparr>"
    have "iter_step chance False c s = step_to False 1 (node_of t) ?s"
      using one quiet_parent_step [OF assms(2)] by (simp add: step_body_def stands_def keeps_def next_node_def Let_def)
    then show ?thesis using that [of 1 ?s] one by (simp add: stands_def keeps_def set_iter_def)
  qed
qed

lemma step_to_entry:
  assumes "forest h par prv (Entry a # ts)" "keeps h r l st s" "\<not> it_rnd (ps_iter s)"
  shows "\<exists>s'. step_to False d a s = Some (Some (Inr (ITER_ENTRY, s'))) \<and> stands h r l st a s'"
  using assms is_valid_forest [OF assms(1)] by (auto simp: step_to_def Let_def keeps_def stands_def set_iter_def)

lemma step_to_group:
  assumes "forest h par prv (Group a k (u # us) # ts)" "keeps h r l st s"
  shows "\<exists>s'. step_to False d a s = Some (Some (Inl (Down d, s'))) \<and> stands h r l st a s'"
  using assms is_valid_forest [of h "Some a" None u us] by (auto simp: step_to_def Let_def keeps_def stands_def set_iter_def)

lemma down_group:
  assumes "forest h par prv (Group a k (u # us) # ts)" "stands h r l st a s" "d = 0 \<or> d = 1"
  shows "\<exists>s'. iter_step chance False (Down d) s = Some (Some (Inl (Step 0, s'))) \<and> stands h r (int k - 1) (l # st) (node_of u) s'"
  using assms by (auto simp: down_body_def Let_def keeps_def stands_def set_iter_def push_params_def)

text \<open>At the end of a list: round again, or up.\<close>

lemma round_again:
  assumes "forest h (Some a) None (us @ [u])" "h a = Some n" "pt_loop n = int k" "quiet n"
    and "stands h r (int m) st (node_of u) s" "0 < m" "0 < k"
  shows "\<exists>s'. iter_step chance False (Step 1) s = Some (Some (Inl (Step 0, s'))) \<and> stands h r (int m - 1) st (hd (map node_of (us @ [u]))) s'"
proof -
  have l: "linked h (Some a) None (map node_of us @ [node_of u]) None" using forest_linked [OF assms(1)] by simp
  have "first_entry h (node_of u) = Some (Some (hd (map node_of (us @ [u]))))" using first_entry_linked [OF l] by simp
  moreover obtain e where "h (node_of u) = Some e" "pt_parent e = Some a" "pt_next e = None" using l by auto
  ultimately show ?thesis using assms(2-7)
    by (auto simp: step_body_def stands_def keeps_def next_node_def step_end_def quiet_def shuffled_def set_iter_def Let_def)
qed

lemma round_for_ever:
  assumes "forest h (Some a) None (us @ [u])" "h a = Some n" "pt_loop n < 0" "quiet n"
    and "stands h r m st (node_of u) s" "m < 0"
  shows "\<exists>s'. iter_step chance False (Step 1) s = Some (Some (Inl (Step 0, s'))) \<and> stands h r m st (hd (map node_of (us @ [u]))) s'"
proof -
  have l: "linked h (Some a) None (map node_of us @ [node_of u]) None" using forest_linked [OF assms(1)] by simp
  have "first_entry h (node_of u) = Some (Some (hd (map node_of (us @ [u]))))" using first_entry_linked [OF l] by simp
  moreover obtain e where "h (node_of u) = Some e" "pt_parent e = Some a" "pt_next e = None" using l by auto
  ultimately show ?thesis using assms(2-6)
    by (auto simp: step_body_def stands_def keeps_def next_node_def step_end_def quiet_def shuffled_def set_iter_def Let_def)
qed

lemma round_over:
  assumes "forest h (Some a) None (us @ [u])" "h a = Some n" "pt_loop n = int k" "quiet n" "0 < k \<longrightarrow> m = 0"
    and "h r = Some root" "pt_parent root = None"
    and "stands h r m (l # st) (node_of u) s"
  shows "\<exists>s1 s2. iter_step chance False (Step 1) s = Some (Some (Inl (Up 1, s1))) \<and> iter_step chance False (Up 1) s1 = Some (Some (Inl (Step 1, s2))) \<and>
    stands h r l st a s2"
proof -
  have l: "linked h (Some a) None (map node_of us @ [node_of u]) None" using forest_linked [OF assms(1)] by simp
  then obtain e where e: "h (node_of u) = Some e" "pt_parent e = Some a" "pt_next e = None" by auto
  let ?s = "set_iter (ps_iter s\<lparr>it_rnd := False, it_file := - 1\<rparr>) s\<lparr>ps_draws := ps_draws s\<rparr>"
  have "iter_step chance False (Step 1) s = Some (Some (Inl (Up 1, ?s)))"
    using assms(2-5,8) e by (auto simp: step_body_def stands_def keeps_def next_node_def step_end_def quiet_def shuffled_def set_iter_def Let_def)
  moreover have "\<exists>s2. iter_step chance False (Up 1) ?s = Some (Some (Inl (Step 1, s2))) \<and> stands h r l st a s2"
    using assms(2-8) e by (auto simp: up_body_def stands_def keeps_def set_iter_def set_heap_def Let_def)
  ultimately show ?thesis by blast
qed


text \<open>A node is played as a whole: whoever arrives at it hears what it plays and then steps on from it.\<close>

definition tours :: "chance \<Rightarrow> tree_heap \<Rightarrow> nat \<Rightarrow> nat option \<Rightarrow> play \<Rightarrow> bool" where
  "tours chance h r par t \<longleftrightarrow> (\<forall>c s l st. arrives h r l st par (node_of t) c s \<longrightarrow>
     (\<exists>s'. emits chance (c, s) (plays_of t) (Step 1, s') \<and> stands h r l st (node_of t) s'))"

lemma toursD:
  assumes "tours chance h r par t" "arrives h r l st par (node_of t) c s"
  obtains s' where "emits chance (c, s) (plays_of t) (Step 1, s')" "stands h r l st (node_of t) s'"
  using assms unfolding tours_def by blast

lemma tour_list:
  assumes "forest h par prv (t # ts)" "\<forall>t \<in> set (t # ts). tours chance h r par t" "arrives h r l st par (node_of t) c s"
  shows "\<exists>s'. emits chance (c, s) (concat (map plays_of (t # ts))) (Step 1, s') \<and> stands h r l st (node_of (last (t # ts))) s'"
  using assms
proof (induction ts arbitrary: t prv c s)
  case Nil
  then show ?case by (auto elim: toursD)
next
  case (Cons u ts)
  have "tours chance h r par t" using Cons.prems(2) by simp
  then obtain s1 where s1: "emits chance (c, s) (plays_of t) (Step 1, s1)" "stands h r l st (node_of t) s1"
    by (rule toursD) (rule Cons.prems(3))
  then have "arrives h r l st par (node_of u) (Step 1) s1" using forest_node [OF Cons.prems(1)] by (auto simp: arrives_def)
  then obtain s2 where s2: "emits chance (Step 1, s1) (concat (map plays_of (u # ts))) (Step 1, s2)" "stands h r l st (node_of (last (u # ts))) s2"
    using Cons.IH [OF forest_tail [OF Cons.prems(1)]] Cons.prems(2) by (metis list.set_intros(2))
  have "emits chance (c, s) (plays_of t @ concat (map plays_of (u # ts))) (Step 1, s2)" by (rule emits_trans [OF s1(1) s2(1)])
  then show ?case using s2(2) by (intro exI [of _ s2]) simp
qed

lemma tour_rounds:
  assumes "forest h (Some a) None (u # us)" "\<forall>t \<in> set (u # us). tours chance h r (Some a) t"
    and "h a = Some n" "pt_loop n = int k" "quiet n" "0 < k" "stands h r (int m) st (node_of u) s"
  shows "\<exists>s'. emits chance (Step 0, s) (concat (replicate (Suc m) (concat (map plays_of (u # us))))) (Step 1, s') \<and>
    stands h r 0 st (node_of (last (u # us))) s'"
  using assms(7)
proof (induction m arbitrary: s)
  case 0
  then show ?case using tour_list [OF assms(1,2), of 0 st "Step 0" s] by (simp add: arrives_def)
next
  case (Suc m)
  then obtain s1 where s1: "emits chance (Step 0, s) (concat (map plays_of (u # us))) (Step 1, s1)"
      "stands h r (int (Suc m)) st (node_of (last (u # us))) s1"
    using tour_list [OF assms(1,2), of "int (Suc m)" st "Step 0" s] by (auto simp: arrives_def)
  obtain vs v where e: "u # us = vs @ [v]" by (metis list.distinct(1) rev_exhaust)
  then have v: "last (u # us) = v" "hd (map node_of (vs @ [v])) = node_of u" by (metis last_snoc, metis list.map_sel(1) list.sel(1) list.distinct(1))
  obtain s2 where s2: "iter_step chance False (Step 1) s1 = Some (Some (Inl (Step 0, s2)))" "stands h r (int m) st (node_of u) s2"
    using round_again [OF assms(1) [unfolded e] assms(3-5) s1(2) [unfolded v] _ assms(6), of chance] v by auto
  obtain s3 where s3: "emits chance (Step 0, s2) (concat (replicate (Suc m) (concat (map plays_of (u # us))))) (Step 1, s3)"
      "stands h r 0 st (node_of (last (u # us))) s3"
    using Suc.IH [OF s2(2)] by blast
  have "emits chance (Step 0, s) (concat (map plays_of (u # us)) @ concat (replicate (Suc m) (concat (map plays_of (u # us))))) (Step 1, s3)"
    by (rule emits_trans [OF s1(1) emits_move [OF s2(1) s3(1)]])
  then show ?case using s3(2) by (intro exI [of _ s3]) simp
qed

lemma tour_group:
  assumes "forest h par prv (Group a k (u # us) # ts)" "quiet_parent h par" "\<forall>t \<in> set (u # us). tours chance h r (Some a) t"
    and "h r = Some root" "pt_parent root = None"
  shows "tours chance h r par (Group a k (u # us))"
  unfolding tours_def
proof (intro allI impI)
  fix c s l st
  assume a: "arrives h r l st par (node_of (Group a k (u # us))) c s"
  obtain n where n: "h a = Some n" "pt_loop n = int k" "quiet n" and f: "forest h (Some a) None (u # us)" using assms(1) by auto
  obtain d s0 where s0: "d = 0 \<or> d = 1" "iter_step chance False c s = step_to False d a s0" "keeps h r l st s0"
    by (rule arrive_step [OF assms(1,2) a]) simp
  obtain s1 where s1: "step_to False d a s0 = Some (Some (Inl (Down d, s1)))" "stands h r l st a s1"
    using step_to_group [OF assms(1) s0(3)] by blast
  obtain s2 where s2: "iter_step chance False (Down d) s1 = Some (Some (Inl (Step 0, s2)))" "stands h r (int k - 1) (l # st) (node_of u) s2"
    using down_group [OF assms(1) s1(2) s0(1)] by blast
  have "\<exists>s3 m. emits chance (Step 0, s2) (plays_of (Group a k (u # us))) (Step 1, s3) \<and> (0 < k \<longrightarrow> m = 0) \<and>
      stands h r m (l # st) (node_of (last (u # us))) s3"
  proof (cases "0 < k")
    case True
    then have "stands h r (int (k - 1)) (l # st) (node_of u) s2" using s2(2) by (simp add: of_nat_diff)
    then obtain s3 where "emits chance (Step 0, s2) (concat (replicate (Suc (k - 1)) (concat (map plays_of (u # us))))) (Step 1, s3)"
        "stands h r 0 (l # st) (node_of (last (u # us))) s3"
      using tour_rounds [OF f assms(3) n True] by blast
    moreover have "Suc (k - 1) = max 1 k" using True by simp
    ultimately show ?thesis unfolding plays_of.simps by metis
  next
    case False
    then have "arrives h r (int k - 1) (l # st) (Some a) (node_of u) (Step 0) s2" using s2(2) by (simp add: arrives_def)
    then obtain s3 where "emits chance (Step 0, s2) (concat (map plays_of (u # us))) (Step 1, s3)"
        "stands h r (int k - 1) (l # st) (node_of (last (u # us))) s3" using tour_list [OF f assms(3)] by blast
    then show ?thesis using False by (intro exI [of _ s3] exI [of _ "int k - 1"]) simp
  qed
  then obtain s3 m where s3: "emits chance (Step 0, s2) (plays_of (Group a k (u # us))) (Step 1, s3)" "0 < k \<longrightarrow> m = 0"
      "stands h r m (l # st) (node_of (last (u # us))) s3" by blast
  obtain vs v where e: "u # us = vs @ [v]" by (metis list.distinct(1) rev_exhaust)
  then have v: "last (u # us) = v" "hd (map node_of (vs @ [v])) = node_of u" by (metis last_snoc, metis list.map_sel(1) list.sel(1) list.distinct(1))
  obtain s4 s5 where s5: "iter_step chance False (Step 1) s3 = Some (Some (Inl (Up 1, s4)))"
      "iter_step chance False (Up 1) s4 = Some (Some (Inl (Step 1, s5)))" "stands h r l st a s5"
    using round_over [OF f [unfolded e] n s3(2) assms(4,5) s3(3) [unfolded v], of chance] by blast
  have "emits chance (Step 1, s3) [] (Step 1, s5)" by (rule emits_move [OF s5(1) emits_move [OF s5(2) emits_done]])
  from emits_trans [OF s3(1) this] have "emits chance (Step 0, s2) (plays_of (Group a k (u # us))) (Step 1, s5)"
    by (simp only: append_Nil2)
  then have "emits chance (c, s) (plays_of (Group a k (u # us))) (Step 1, s5)"
    by (rule emits_move [OF s0(2) [unfolded s1(1)] emits_move [OF s2(1)]])
  then show "\<exists>s'. emits chance (c, s) (plays_of (Group a k (u # us))) (Step 1, s') \<and> stands h r l st (node_of (Group a k (u # us))) s'"
    using s5(3) by (intro exI [of _ s5]) (simp only: node_of.simps simp_thms)
qed

lemma tour_entry:
  assumes "forest h par prv (Entry a # ts)" "quiet_parent h par"
  shows "tours chance h r par (Entry a)"
  unfolding tours_def
proof (intro allI impI)
  fix c s l st
  assume a: "arrives h r l st par (node_of (Entry a)) c s"
  obtain d s0 where s0: "iter_step chance False c s = step_to False d a s0" "keeps h r l st s0" "\<not> it_rnd (ps_iter s0)"
    by (rule arrive_step [OF assms(1,2) a]) simp
  obtain s1 where s1: "step_to False d a s0 = Some (Some (Inr (ITER_ENTRY, s1)))" "stands h r l st a s1"
    using step_to_entry [OF assms(1) s0(2,3)] by blast
  have "emits chance (c, s) [a] (Step 1, s1)"
    by (rule emits_entry [OF _ _ emits_done]) (use s0 s1 in \<open>simp_all add: stands_def\<close>)
  then show "\<exists>s'. emits chance (c, s) (plays_of (Entry a)) (Step 1, s') \<and> stands h r l st (node_of (Entry a)) s'" using s1(2) by auto
qed

lemma tour_forest:
  assumes "h r = Some root" "pt_parent root = None"
  shows "forest h par prv ts \<Longrightarrow> quiet_parent h par \<Longrightarrow> t \<in> set ts \<Longrightarrow> tours chance h r par t"
  using assms
proof (induction h par prv ts arbitrary: t rule: forest.induct)
  case (2 h par prv a ts)
  then show ?case using tour_entry [OF 2(2,3)] by auto
next
  case (3 h par prv a k us ts)
  have q: "quiet_parent h (Some a)" using "3.prems"(1) by (auto simp: quiet_parent_def)
  show ?case
  proof (cases "t = Group a k us")
    case True
    obtain u us' where us: "us = u # us'" using "3.prems"(1) by (cases us) auto
    have "\<forall>t \<in> set us. tours chance h r (Some a) t" using "3.IH"(1) "3.prems"(1,4,5) q by simp
    then show ?thesis using tour_group [OF "3.prems"(1) [unfolded us]] True us "3.prems"(2,4,5) by blast
  next
    case False
    then show ?thesis using "3.IH"(2) "3.prems" by simp
  qed
qed simp


text \<open>A list that loops for ever: from its first node, so many rounds.\<close>

lemma tour_for_ever:
  assumes "forest h (Some a) None (u # us)" "\<forall>t \<in> set (u # us). tours chance h r (Some a) t"
    and "h a = Some n" "pt_loop n < 0" "quiet n" "l < 0"
  shows "stands h r l st (node_of u) s \<Longrightarrow> begins chance (Step 0) s (concat (replicate m (concat (map plays_of (u # us)))))"
proof (induction m arbitrary: s)
  case (Suc m)
  obtain s1 where s1: "emits chance (Step 0, s) (concat (map plays_of (u # us))) (Step 1, s1)" "stands h r l st (node_of (last (u # us))) s1"
    using tour_list [OF assms(1,2), of l st "Step 0" s] Suc.prems by (auto simp: arrives_def)
  obtain vs v where e: "u # us = vs @ [v]" by (metis list.distinct(1) rev_exhaust)
  then have v: "last (u # us) = v" "hd (map node_of (vs @ [v])) = node_of u" by (metis last_snoc, metis list.map_sel(1) list.sel(1) list.distinct(1))
  obtain s2 where s2: "iter_step chance False (Step 1) s1 = Some (Some (Inl (Step 0, s2)))" "stands h r l st (node_of u) s2"
    using round_for_ever [OF assms(1) [unfolded e] assms(3-5) s1(2) [unfolded v] assms(6), of chance] v by auto
  have "begins chance (Step 1) s1 (concat (replicate m (concat (map plays_of (u # us)))))"
    using Suc.IH [OF s2(2)] begins_move [OF s2(1)] by blast
  from emits_begins [OF s1(1) this] show ?case by simp
qed simp

definition start :: "int \<Rightarrow> nat \<Rightarrow> nat \<Rightarrow> tree_heap \<Rightarrow> play_state run" where
  "start junk k pt h = andthen (PlayTree_Iter_new junk pt h) (\<lambda>it. Some (Some \<lparr>ps_heap = h, ps_iter = it, ps_draws = k\<rparr>))"

lemma start_stands:
  assumes "h r = Some root" "pt_parent root = None"
  shows "\<exists>s s1. start junk k r h = Some (Some s) \<and> iter_step chance False (Step 0) s = Some (Some (Inl (Step 0, s1))) \<and>
    stands h r junk [] r s1 \<and> ps_draws s1 = k"
  using assms by (auto simp: start_def PlayTree_Iter_new_def step_body_def Let_def stands_def keeps_def set_iter_def)

lemma top_end:
  assumes "h r = Some root" "pt_parent root = None" "pt_next root = None" "stands h r l st r s"
  shows "hears chance (Step 1) s []"
proof -
  let ?s = "set_iter (ps_iter s\<lparr>it_rnd := False, it_file := - 1\<rparr>) s\<lparr>ps_draws := ps_draws s\<rparr>"
  have "iter_step chance False (Step 1) s = Some (Some (Inl (Up 1, ?s)))"
    using assms by (auto simp: step_body_def stands_def keeps_def next_node_def step_end_def shuffled_def set_iter_def Let_def)
  moreover have "\<exists>s2. iter_step chance False (Up 1) ?s = Some (Some (Inr (ITER_END, s2)))"
    using assms by (auto simp: up_body_def stands_def keeps_def set_iter_def Let_def)
  ultimately show ?thesis using iter_run_move iter_run_return by fastforce
qed

section \<open>Playing shuffled\<close>

text \<open>rand and time keep within their bounds.\<close>

definition rand_ok :: "chance \<Rightarrow> bool" where
  "rand_ok chance \<longleftrightarrow> (\<forall>k. 0 \<le> fst (chance k) \<and> fst (chance k) \<le> RAND_MAX \<and> 0 \<le> snd (chance k))"

lemma count_down_sound: "0 \<le> r \<Longrightarrow> count_down P r as = Some a \<Longrightarrow> a \<in> set as \<and> P a"
proof (induction as arbitrary: r)
  case (Cons x as)
  show ?case
  proof (cases "P x")
    case True
    then show ?thesis using Cons.IH [of "r - 1"] Cons.prems by (cases "r < 1") (auto simp: Let_def)
  next
    case False
    then have "count_down P r as = Some a" using Cons.prems by (simp add: Let_def)
    then show ?thesis using Cons.IH [OF Cons.prems(1)] by simp
  qed
qed simp

lemma pick_sound:
  assumes "choices = length (filter P as)" "choices \<noteq> 0" "0 \<le> fst c \<and> fst c \<le> RAND_MAX \<and> 0 \<le> snd c"
  shows "\<exists>a. pick P choices c as = Some a \<and> a \<in> set as \<and> P a"
proof -
  let ?q = "(int choices * fst c) div (RAND_MAX + 1)"
  have "int choices * fst c \<le> int choices * (RAND_MAX + 1)" using assms(3) by (intro mult_left_mono) auto
  then have "?q \<le> int choices * (RAND_MAX + 1) div (RAND_MAX + 1)" by (intro zdiv_mono1) (auto simp: RAND_MAX_def)
  also have "\<dots> = int choices" by (simp add: RAND_MAX_def)
  finally have "?q \<le> int choices" .
  moreover have "0 \<le> ?q" using assms(3) by (intro pos_imp_zdiv_nonneg_iff [THEN iffD2] mult_nonneg_nonneg) (auto simp: RAND_MAX_def)
  ultimately have "?q \<noteq> 0 \<Longrightarrow> snd c mod ?q \<le> int choices"
    using pos_mod_bound [of ?q "snd c"] by (metis less_le_not_le linorder_le_cases order_le_less_trans order_less_le)
  then have r: "0 \<le> (if ?q \<noteq> 0 then int choices - snd c mod ?q else 0)" by simp
  obtain x where "x \<in> set as" "P x" using assms(1,2) by (metis filter_empty_conv length_0_conv)
  then obtain y where "find P as = Some y" by (metis find_None_iff option.exhaust)
  then have "y \<in> set as \<and> P y" by (metis find_Some_iff nth_mem)
  moreover have "pick P choices c as = (case count_down P (if ?q \<noteq> 0 then int choices - snd c mod ?q else 0) as of
      Some a \<Rightarrow> Some a | None \<Rightarrow> find P as)" by (simp only: pick_def Let_def)
  ultimately show ?thesis using count_down_sound [OF r, of P as] \<open>find P as = Some y\<close> by (fastforce split: option.split)
qed

lemma walk_on_ok: "linked h par prv xs None \<Longrightarrow> walk_on h (first_or xs None) acc = Some (Some (rev acc @ xs))"
  by (induction xs arbitrary: prv acc) (auto simp: walk_on.simps [of _ "Some _"] walk_on.simps [of _ None])

lemma walk_back_ok: "linked h par None (as @ [x]) nxt \<Longrightarrow> walk_back h x acc = Some (Some (as @ x # acc))"
proof (induction as arbitrary: x nxt acc rule: rev_induct)
  case Nil
  then show ?case by (subst walk_back.simps) auto
next
  case (snoc a as)
  then show ?case by (subst walk_back.simps) auto
qed

text \<open>The children of a shuffled node with so many loops left, of which \<open>P\<close> have been played.\<close>

definition deck :: "nat \<Rightarrow> tree_heap \<Rightarrow> nat \<Rightarrow> nat list \<Rightarrow> nat set \<Rightarrow> bool" where
  "deck m h r es P \<longleftrightarrow> (\<exists>root. h r = Some root \<and> pt_parent root = None \<and> pt_child root = first_or es None \<and> pt_loop root = int m \<and>
       pt_flags root AND PLAY_TREE_RND \<noteq> 0) \<and>
     linked h (Some r) None es None \<and> distinct es \<and> r \<notin> set es \<and>
     (\<forall>x \<in> set es. childless h x \<and> plays h x \<and> (unplayed h x \<longleftrightarrow> x \<notin> P))"

lemma rnd_step_ok:
  assumes "deck m h r es P" "x \<in> set es" "rand_ok chance"
  shows "\<exists>pt k'. play_tree_rnd_step chance x h k = Some (Some (pt, k')) \<and>
    (if set es \<subseteq> P then pt = None else (\<exists>y \<in> set es - P. pt = Some y))"
proof -
  obtain as bs where es: "es = as @ x # bs" using assms(2) by (auto simp: in_set_conv_decomp)
  have l: "linked h (Some r) None es None" and u: "\<forall>x \<in> set es. unplayed h x \<longleftrightarrow> x \<notin> P" using assms(1) by (auto simp: deck_def)
  have b: "walk_back h x [] = Some (Some (as @ [x]))" using walk_back_ok [of h "Some r" as x "first_or bs None" "[]"] l es by auto
  obtain n where n: "h x = Some n" "pt_next n = first_or bs None" using l es by auto
  have o: "walk_on h (pt_next n) [] = Some (Some bs)" using walk_on_ok [of h "Some r" "Some x" bs "[]"] l es n by auto
  have "Some (hd (as @ [x])) = first_or es None" using es by (cases as) auto
  then have w: "walk_on h (Some (hd (as @ [x]))) [] = Some (Some es)" using walk_on_ok [OF l, of "[]"] by simp
  show ?thesis
  proof (cases "set es \<subseteq> P")
    case True
    then have "filter (unplayed h) es = []" using u by (auto simp: filter_empty_conv)
    then have "length (filter (unplayed h) ((as @ [x]) @ bs)) = 0" using es by (simp del: filter.simps)
    then show ?thesis using b n o True by (simp add: play_tree_rnd_step_def Let_def del: filter_append length_0_conv)
  next
    case False
    then have c: "length (filter (unplayed h) es) \<noteq> 0" using u by (auto simp: filter_empty_conv)
    obtain y where y: "pick (unplayed h) (length (filter (unplayed h) es)) (chance k) es = Some y" "y \<in> set es" "unplayed h y"
      using pick_sound [OF refl c, of "chance k"] assms(3) by (auto simp: rand_ok_def)
    have "length (filter (unplayed h) ((as @ [x]) @ bs)) = length (filter (unplayed h) es)" using es by simp
    then have "play_tree_rnd_step chance x h k = Some (Some (Some y, Suc k))"
      using b n o w c y(1) by (simp add: play_tree_rnd_step_def Let_def del: filter_append length_0_conv)
    then show ?thesis using False y u by auto
  qed
qed


text \<open>The iterator is among the children of the shuffled node.\<close>

definition among :: "nat \<Rightarrow> nat \<Rightarrow> nat list \<Rightarrow> nat set \<Rightarrow> play_state \<Rightarrow> bool" where
  "among m r es P s \<longleftrightarrow> deck m (ps_heap s) r es P \<and> it_root (ps_iter s) = r \<and> (\<exists>x \<in> set es. it_tree (ps_iter s) = Some x)"

lemma deck_node:
  assumes "deck m h r es P" "x \<in> set es"
  obtains n root where "h x = Some n" "pt_parent n = Some r" "pt_child n = None" "pt_type n \<noteq> NODE" "h r = Some root" "pt_parent root = None"
    "pt_loop root = int m" "pt_flags root AND PLAY_TREE_RND \<noteq> 0" "x \<noteq> r"
proof -
  obtain as bs where "es = as @ x # bs" using assms(2) by (auto simp: in_set_conv_decomp)
  then obtain n where n: "h x = Some n" "pt_parent n = Some r" using assms(1) by (auto simp: deck_def)
  then have "pt_child n = None" "pt_type n \<noteq> NODE" using assms by (auto simp: deck_def childless_def plays_def)
  then show ?thesis using that n assms by (auto simp: deck_def)
qed

lemma linked_same_links:
  assumes "linked h par prv xs nxt" "h a = Some n" "pt_parent n' = pt_parent n" "pt_prev n' = pt_prev n" "pt_next n' = pt_next n"
  shows "linked (h(a \<mapsto> n')) par prv xs nxt"
  using assms by (induction xs arbitrary: prv) auto

lemma played_nonzero [simp]: "PLAY_TREE_RND_PLAYED \<noteq> 0"
  by (simp add: PLAY_TREE_RND_PLAYED_def)

lemma deck_play:
  assumes "deck m h r es P" "y \<in> set es" "h y = Some n"
  shows "deck m (h(y \<mapsto> n\<lparr>pt_flags := pt_flags n OR PLAY_TREE_RND_PLAYED\<rparr>)) r es (insert y P)"
proof -
  let ?h = "h(y \<mapsto> n\<lparr>pt_flags := pt_flags n OR PLAY_TREE_RND_PLAYED\<rparr>)"
  have "linked ?h (Some r) None es None" using linked_same_links [of h _ _ _ _ y n] assms by (simp add: deck_def)
  moreover have "childless ?h x \<and> plays ?h x \<and> (unplayed ?h x \<longleftrightarrow> x \<notin> insert y P)" if "x \<in> set es" for x
    using assms that by (cases "x = y") (auto simp: deck_def childless_def plays_def unplayed_def)
  ultimately show ?thesis using assms(1,2) unfolding deck_def by (metis fun_upd_apply)
qed

text \<open>At the end of a round the marks are taken off, and one loop less is left.\<close>

definition links_of :: "PlayTree \<Rightarrow> nat option \<times> nat option \<times> nat option" where
  "links_of n = (pt_parent n, pt_prev n, pt_next n)"

lemma linked_links:
  "linked h par prv xs nxt \<Longrightarrow> \<forall>x \<in> set xs. map_option links_of (h' x) = map_option links_of (h x) \<Longrightarrow> linked h' par prv xs nxt"
  by (induction xs arbitrary: prv) (auto simp: links_of_def)

lemma change_flags_flat:
  "linked h par prv xs None \<Longrightarrow> \<forall>x \<in> set xs. childless h x \<Longrightarrow> distinct xs \<Longrightarrow>
   change_flags f [(first_or xs None, deep)] h =
     Some (Some (\<lambda>a. if a \<in> set xs then map_option (\<lambda>n. n\<lparr>pt_flags := f (pt_flags n)\<rparr>) (h a) else h a))"
proof (induction xs arbitrary: h prv)
  case Nil
  then show ?case by (simp add: change_flags.simps)
next
  case (Cons x xs)
  obtain n where n: "h x = Some n" "pt_child n = None" "pt_next n = first_or xs None"
    using Cons.prems(1,2) by (auto simp: childless_def)
  let ?h = "h(x \<mapsto> n\<lparr>pt_flags := f (pt_flags n)\<rparr>)"
  have "linked h par (Some x) xs None" using Cons.prems(1) by simp
  then have l: "linked ?h par (Some x) xs None" by (rule linked_links) (use n in \<open>auto simp: links_of_def\<close>)
  have c: "\<forall>y \<in> set xs. childless ?h y" using Cons.prems(2,3) by (auto simp: childless_def)
  have "change_flags f [(Some x, deep)] h = change_flags f [(first_or xs None, deep)] ?h"
    using n by (simp add: change_flags.simps [of _ "[(Some x, deep)]"] change_flags.simps [of _ "(None, _) # _"])
  also have "\<dots> = Some (Some (\<lambda>a. if a \<in> set xs then map_option (\<lambda>n. n\<lparr>pt_flags := f (pt_flags n)\<rparr>) (?h a) else ?h a))"
    by (rule Cons.IH [OF l c]) (use Cons.prems(3) in simp)
  also have "(\<lambda>a. if a \<in> set xs then map_option (\<lambda>n. n\<lparr>pt_flags := f (pt_flags n)\<rparr>) (?h a) else ?h a) =
      (\<lambda>a. if a \<in> set (x # xs) then map_option (\<lambda>n. n\<lparr>pt_flags := f (pt_flags n)\<rparr>) (h a) else h a)"
    using n(1) Cons.prems(3) by (auto simp: fun_eq_iff)
  finally show ?case by simp
qed

lemma unplayed_again [simp]:
  "(f AND NOT PLAY_TREE_RND_PLAYED) AND PLAY_TREE_RND_PLAYED = (0 :: u32)"
  "(f AND NOT PLAY_TREE_RND_PLAYED) AND PLAY_TREE_RND = f AND (PLAY_TREE_RND :: u32)"
proof -
  show "(f AND NOT PLAY_TREE_RND_PLAYED) AND PLAY_TREE_RND_PLAYED = (0 :: u32)"
    by (simp add: bit_eq_iff bit_and_iff bit_not_iff)
  have "NOT PLAY_TREE_RND_PLAYED AND PLAY_TREE_RND = (PLAY_TREE_RND :: u32)" by (simp add: PLAY_TREE_RND_PLAYED_def PLAY_TREE_RND_def)
  then show "(f AND NOT PLAY_TREE_RND_PLAYED) AND PLAY_TREE_RND = f AND (PLAY_TREE_RND :: u32)" by (simp add: and.assoc)
qed

lemma deck_again:
  assumes "deck (Suc m) h r es P"
  shows "\<exists>h1 h2. unset_flag r PLAY_TREE_RND_PLAYED (- 1) h = Some (Some h1) \<and>
    modify (Some r) (\<lambda>r. if 0 < pt_loop r then r\<lparr>pt_loop := pt_loop r - 1\<rparr> else r) h1 = Some (Some h2) \<and> deck m h2 r es {}"
proof -
  obtain root where root: "h r = Some root" "pt_parent root = None" "pt_child root = first_or es None" "pt_loop root = int (Suc m)"
      "pt_flags root AND PLAY_TREE_RND \<noteq> 0"
    and l: "linked h (Some r) None es None" and d: "distinct es" "r \<notin> set es" and c: "\<forall>x \<in> set es. childless h x \<and> plays h x"
    using assms by (auto simp: deck_def)
  let ?f = "\<lambda>f :: u32. f AND NOT PLAY_TREE_RND_PLAYED"
  let ?h0 = "h(r \<mapsto> root\<lparr>pt_flags := ?f (pt_flags root)\<rparr>)"
  let ?h1 = "\<lambda>a. if a \<in> set es then map_option (\<lambda>n. n\<lparr>pt_flags := ?f (pt_flags n)\<rparr>) (?h0 a) else ?h0 a"
  let ?h2 = "?h1(r \<mapsto> root\<lparr>pt_flags := ?f (pt_flags root), pt_loop := int m\<rparr>)"
  have l0: "linked ?h0 (Some r) None es None" by (rule linked_same_links [OF l root(1)]) simp_all
  have c0: "\<forall>x \<in> set es. childless ?h0 x" using c d by (auto simp: childless_def)
  have "unset_flag r PLAY_TREE_RND_PLAYED (- 1) h = Some (Some ?h1)"
    using root(1,3) change_flags_flat [OF l0 c0 d(1), of ?f] by (simp add: unset_flag_def change_flag_def modify_def)
  moreover have "modify (Some r) (\<lambda>r. if 0 < pt_loop r then r\<lparr>pt_loop := pt_loop r - 1\<rparr> else r) ?h1 = Some (Some ?h2)"
    using d(2) root(4) by (simp add: modify_def)
  moreover have "deck m ?h2 r es {}"
  proof -
    have "linked ?h2 (Some r) None es None"
      by (rule linked_links [OF l]) (use d(2) in \<open>auto simp: links_of_def [abs_def] option.map_comp comp_def\<close>)
    moreover have "childless ?h2 x \<and> plays ?h2 x \<and> unplayed ?h2 x" if "x \<in> set es" for x
      using c d that by (cases "h x") (auto simp: childless_def plays_def unplayed_def)
    ultimately show ?thesis using root d unfolding deck_def by auto
  qed
  ultimately show ?thesis by blast
qed

lemma shuffle_step:
  assumes "among m r es P s" "rand_ok chance"
  shows "if \<not> set es \<subseteq> P then \<exists>y s'. y \<in> set es - P \<and> iter_step chance False (Step d) s = Some (Some (Inr (ITER_ENTRY, s'))) \<and>
      it_tree (ps_iter s') = Some y \<and> among m r es (insert y P) s'
    else if m = 0 then \<exists>s'. iter_step chance False (Step d) s = Some (Some (Inr (ITER_END, s')))
    else \<exists>s'. iter_step chance False (Step d) s = Some (Some (Inl (Step 0, s'))) \<and> among (m - 1) r es {} s'"
proof -
  let ?h = "ps_heap s"
  obtain x where x: "x \<in> set es" "it_tree (ps_iter s) = Some x" and d: "deck m ?h r es P" and r: "it_root (ps_iter s) = r"
    using assms(1) by (auto simp: among_def)
  obtain n root where n: "?h x = Some n" "pt_parent n = Some r" "?h r = Some root" "pt_loop root = int m" "pt_flags root AND PLAY_TREE_RND \<noteq> 0"
    by (rule deck_node [OF d x(1)]) simp
  obtain pt k where p: "play_tree_rnd_step chance x ?h (ps_draws s) = Some (Some (pt, k))"
      "if set es \<subseteq> P then pt = None else (\<exists>y \<in> set es - P. pt = Some y)"
    using rnd_step_ok [OF d x(1) assms(2)] by blast
  let ?s = "set_iter (ps_iter s\<lparr>it_rnd := True, it_file := - 1\<rparr>) s\<lparr>ps_draws := k\<rparr>"
  have b: "iter_step chance False (Step d) s = (case pt of None \<Rightarrow> step_end d n x ?s | Some pt \<Rightarrow> step_to False d pt ?s)"
    using x(2) n p(1) by (simp add: step_body_def shuffled_def next_node_def Let_def)
  show ?thesis
  proof (cases "set es \<subseteq> P")
    case True
    show ?thesis
    proof (cases m)
      case 0
      then show ?thesis using True b p(2) n(3,4) r by (auto simp: step_end_def Let_def set_iter_def)
    next
      case (Suc m')
      obtain h1 h2 where h: "unset_flag r PLAY_TREE_RND_PLAYED (- 1) ?h = Some (Some h1)"
          "modify (Some r) (\<lambda>r. if 0 < pt_loop r then r\<lparr>pt_loop := pt_loop r - 1\<rparr> else r) h1 = Some (Some h2)" "deck m' h2 r es {}"
        using deck_again [OF d [unfolded Suc]] by blast
      have "iter_step chance False (Step d) s = Some (Some (Inl (Step 0, set_heap h2 ?s)))"
        using True b p(2) n(3,4) r h(1,2) Suc by (simp add: step_end_def Let_def set_iter_def)
      then show ?thesis using True Suc h(3) x r by (simp add: among_def set_heap_def set_iter_def)
    qed
  next
    case False
    then obtain y where y: "y \<in> set es" "y \<notin> P" "pt = Some y" using p(2) by auto
    obtain q where q: "?h y = Some q" "pt_child q = None" "pt_type q \<noteq> NODE" by (rule deck_node [OF d y(1)]) simp
    have "is_valid ?h y = Some (Some True)" using q by (simp add: is_valid_def)
    then have "\<exists>s'. step_to False d y ?s = Some (Some (Inr (ITER_ENTRY, s'))) \<and> it_tree (ps_iter s') = Some y \<and> it_root (ps_iter s') = r \<and>
        ps_heap s' = ?h(y \<mapsto> q\<lparr>pt_flags := pt_flags q OR PLAY_TREE_RND_PLAYED\<rparr>)"
      using q r by (auto simp: step_to_def Let_def set_iter_def set_heap_def)
    then obtain s' where s': "iter_step chance False (Step d) s = Some (Some (Inr (ITER_ENTRY, s')))" "it_tree (ps_iter s') = Some y"
        "it_root (ps_iter s') = r" "ps_heap s' = ?h(y \<mapsto> q\<lparr>pt_flags := pt_flags q OR PLAY_TREE_RND_PLAYED\<rparr>)"
      using b y(3) by auto
    have "among m r es (insert y P) s'" using s' y(1) deck_play [OF d y(1) q(1)] by (simp add: among_def)
    then show ?thesis using s' y(1,2) False by auto
  qed
qed

text \<open>The rest of a round, and then the rounds that follow.\<close>

lemma shuffle_hears_round:
  assumes "among m r es P s" "rand_ok chance" "P \<subseteq> set es"
    and rest: "\<And>d s'. among m r es (set es) s' \<Longrightarrow> \<exists>zs. hears chance (Step d) s' zs \<and> Q zs"
  shows "\<exists>ys zs. hears chance (Step d) s (ys @ zs) \<and> mset ys = mset (filter (\<lambda>x. x \<notin> P) es) \<and> Q zs"
  using assms(1-3)
proof (induction "card (set es - P)" arbitrary: P s d)
  case 0
  then have p: "P = set es" by auto
  then obtain zs where "hears chance (Step d) s zs" "Q zs" using rest 0 by blast
  then show ?case using p by (intro exI [of _ "[]"] exI [of _ zs]) (simp add: filter_empty_conv)
next
  case (Suc k)
  then have "\<not> set es \<subseteq> P" by (metis Diff_eq_empty_iff card.empty nat.distinct(1))
  then obtain y s' where y: "y \<in> set es" "y \<notin> P" "iter_step chance False (Step d) s = Some (Some (Inr (ITER_ENTRY, s')))"
      "it_tree (ps_iter s') = Some y" "among m r es (insert y P) s'"
    using shuffle_step [OF Suc.prems(1,2), of d] by auto
  have "k = card (set es - insert y P)" using Suc.hyps(2) y(1,2) by (simp add: card_Diff_insert)
  then obtain ys zs where ys: "hears chance (Step 1) s' (ys @ zs)" "mset ys = mset (filter (\<lambda>x. x \<notin> insert y P) es)" "Q zs"
    using Suc.hyps(1) y Suc.prems by blast
  have "distinct es" using Suc.prems(1) by (simp add: among_def deck_def)
  then have "mset (filter (\<lambda>x. x \<notin> P) es) = add_mset y (mset (filter (\<lambda>x. x \<notin> insert y P) es))"
    using y(1,2) by (induction es) (auto intro!: filter_mset_cong)
  then have "hears chance (Step d) s ((y # ys) @ zs) \<and> mset (y # ys) = mset (filter (\<lambda>x. x \<notin> P) es)"
    using y ys iter_run_return by fastforce
  then show ?case using ys(3) by blast
qed

definition rounds :: "nat \<Rightarrow> nat list \<Rightarrow> nat list \<Rightarrow> bool" where
  "rounds k es zs \<longleftrightarrow> (\<exists>rs. length rs = k \<and> zs = concat rs \<and> (\<forall>ys \<in> set rs. mset ys = mset es))"

lemma rounds_next: "mset ys = mset es \<Longrightarrow> rounds k es zs \<Longrightarrow> rounds (Suc k) es (ys @ zs)"
  unfolding rounds_def by (metis concat.simps(2) length_Cons set_ConsD)

lemma shuffle_hears:
  assumes "rand_ok chance"
  shows "among m r es {} s \<Longrightarrow> \<exists>zs. hears chance (Step d) s zs \<and> rounds (Suc m) es zs"
proof (induction m arbitrary: s d)
  case 0
  have "\<exists>zs. hears chance (Step d) s' zs \<and> rounds 0 es zs" if "among 0 r es (set es) s'" for d s'
    using shuffle_step [OF that assms, of d] iter_run_return by (fastforce simp: rounds_def)
  then obtain ys zs where "hears chance (Step d) s (ys @ zs)" "mset ys = mset (filter (\<lambda>x. x \<notin> {}) es)" "rounds 0 es zs"
    using shuffle_hears_round [OF 0 assms, of "rounds 0 es" d] by auto
  then show ?case using rounds_next [of ys es 0 zs] by auto
next
  case (Suc m)
  have "\<exists>zs. hears chance (Step d) s' zs \<and> rounds (Suc m) es zs" if a: "among (Suc m) r es (set es) s'" for d s'
  proof -
    obtain s1 where "iter_step chance False (Step d) s' = Some (Some (Inl (Step 0, s1)))" "among m r es {} s1"
      using shuffle_step [OF a assms, of d] by auto
    then show ?thesis using Suc.IH hears_move by blast
  qed
  then obtain ys zs where "hears chance (Step d) s (ys @ zs)" "mset ys = mset (filter (\<lambda>x. x \<notin> {}) es)" "rounds (Suc m) es zs"
    using shuffle_hears_round [OF Suc.prems assms, of "rounds (Suc m) es" d] by auto
  then show ?case using rounds_next [of ys es "Suc m" zs] by auto
qed


section \<open>Properties\<close>

text \<open>C7: a playlist without empty groups, shuffled groups and endless (negative) loops, such as the player builds from a list of files
  with numbers of loops, is played in order. The step from the start, and then one step after the other, stops at the entries
  of the tree from left to right, at those of a group as often as the group has loops, at least once, nested groups
  within; after the last one there is an end, and every step returns.\<close>

theorem playlist_in_order:
  assumes "forest h None None [t]"
  shows "\<exists>s. start junk k (node_of t) h = Some (Some s) \<and> hears chance (Step 0) s (plays_of t)"
proof -
  obtain root where root: "h (node_of t) = Some root" "pt_parent root = None" "pt_next root = None"
    using forest_node [OF assms] by auto
  obtain s s1 where s: "start junk k (node_of t) h = Some (Some s)" "iter_step chance False (Step 0) s = Some (Some (Inl (Step 0, s1)))"
      "stands h (node_of t) junk [] (node_of t) s1"
    using start_stands [of h "node_of t", OF root(1,2)] by blast
  have a: "arrives h (node_of t) junk [] None (node_of t) (Step 0) s1" using s(3) by (simp add: arrives_def)
  have to: "tours chance h (node_of t) None t"
    using tour_forest [OF root(1,2) assms, of t chance] by (simp add: quiet_parent_def)
  obtain s2 where s2: "emits chance (Step 0, s1) (plays_of t) (Step 1, s2)" "stands h (node_of t) junk [] (node_of t) s2"
    by (rule toursD [OF to a])
  have "hears chance (Step 0) s1 (plays_of t @ [])" by (rule emits_hears [OF s2(1) top_end [OF root s2(2)]])
  then show ?thesis using s(1) hears_move [OF s(2)] by simp
qed

text \<open>C28: a list that loops for ever, with a negative number of loops at the root, never comes to an end: however many rounds are asked for, the
  steps from the start stop at the entries of the list in order, round after round, and every step returns. The list itself has no empty,
  shuffled or endless groups.\<close>

theorem endless_playlist_goes_round:
  assumes "h a = Some n" "pt_parent n = None" "pt_prev n = None" "pt_type n = NODE" "pt_child n = first_or (map node_of ts) None" "ts \<noteq> []"
    and "pt_loop n < 0" "quiet n" "forest h (Some a) None ts"
  shows "\<exists>s. start junk k a h = Some (Some s) \<and> (\<forall>m. begins chance (Step 0) s (concat (replicate m (concat (map plays_of ts)))))"
proof -
  obtain u us where ts: "ts = u # us" using assms(6) by (cases ts) auto
  obtain s s1 where s: "start junk k a h = Some (Some s)" "iter_step chance False (Step 0) s = Some (Some (Inl (Step 0, s1)))" "stands h a junk [] a s1"
    using start_stands [of h a, OF assms(1,2)] by blast
  have v: "is_valid h (node_of u) = Some (Some True)" using is_valid_forest assms(9) ts by blast
  then have "\<exists>s2. iter_step chance False (Step 0) s1 = Some (Some (Inl (Down 0, s2))) \<and> stands h a junk [] a s2"
    using s(3) assms(1,2,5) ts by (auto simp: step_body_def shuffled_def next_node_def step_to_def stands_def keeps_def set_iter_def Let_def)
  then obtain s2 where s2: "iter_step chance False (Step 0) s1 = Some (Some (Inl (Down 0, s2)))" "stands h a junk [] a s2" by blast
  have "\<exists>s3. iter_step chance False (Down 0) s2 = Some (Some (Inl (Step 0, s3))) \<and> stands h a (pt_loop n - 1) [junk] (node_of u) s3"
    using s2(2) assms(1,5) ts by (auto simp: down_body_def stands_def keeps_def set_iter_def push_params_def Let_def)
  then obtain s3 where s3: "iter_step chance False (Down 0) s2 = Some (Some (Inl (Step 0, s3)))" "stands h a (pt_loop n - 1) [junk] (node_of u) s3" by blast
  have to: "\<forall>t \<in> set (u # us). tours chance h a (Some a) t"
    using tour_forest [OF assms(1,2,9)] assms(1,8) ts by (auto simp: quiet_parent_def)
  have "begins chance (Step 0) s3 (concat (replicate m (concat (map plays_of ts))))" for m
    using tour_for_ever [OF assms(9) [unfolded ts] to assms(1,7,8) _ s3(2), of m] assms(7) ts by simp
  then show ?thesis using s(1) begins_move [OF s(2)] begins_move [OF s2(1)] begins_move [OF s3(1)] by blast
qed

text \<open>C13: a shuffled list of entries, with a number \<open>m\<close> of loops that is not negative, is played in \<open>m + 1\<close> rounds, after which there is an end:
  in each round every entry is played once and no entry twice, in some order that chance decides. (In order, a list with
  \<open>m\<close> loops is played \<open>max 1 m\<close> times.) What is relied on is that rand and time stay within their bounds, and that nothing of the
  list has been played before.\<close>

theorem shuffle_plays_each_once:
  assumes "deck m h r es {}" "es \<noteq> []" "rand_ok chance"
  shows "\<exists>s ys. start junk k r h = Some (Some s) \<and> hears chance (Step 0) s ys \<and> rounds (Suc m) es ys"
proof -
  obtain e es' where es: "es = e # es'" using assms(2) by (cases es) auto
  obtain n root where n: "h e = Some n" "pt_type n \<noteq> NODE" "h r = Some root" "pt_parent root = None"
    by (rule deck_node [OF assms(1), of e]) (use es in auto)
  have c: "pt_child root = Some e" using assms(1) es n(3) by (simp add: deck_def)
  have v: "is_valid h e = Some (Some True)" using n by (simp add: is_valid_def)
  obtain s s1 where s: "start junk k r h = Some (Some s)" "iter_step chance False (Step 0) s = Some (Some (Inl (Step 0, s1)))" "stands h r junk [] r s1"
    using start_stands [of h r, OF n(3,4)] by blast
  have "\<exists>s2. iter_step chance False (Step 0) s1 = Some (Some (Inl (Down 0, s2))) \<and> stands h r junk [] r s2"
    using s(3) n(3,4) c v by (auto simp: step_body_def shuffled_def next_node_def step_to_def stands_def keeps_def set_iter_def Let_def)
  then obtain s2 where s2: "iter_step chance False (Step 0) s1 = Some (Some (Inl (Down 0, s2)))" "stands h r junk [] r s2" by blast
  have "\<exists>s3. iter_step chance False (Down 0) s2 = Some (Some (Inl (Step 0, s3))) \<and> among m r es {} s3"
    using s2(2) n(3) c assms(1) es by (auto simp: down_body_def stands_def keeps_def set_iter_def push_params_def among_def Let_def)
  then obtain s3 where s3: "iter_step chance False (Down 0) s2 = Some (Some (Inl (Step 0, s3)))" "among m r es {} s3" by blast
  obtain ys where "hears chance (Step 0) s3 ys" "rounds (Suc m) es ys" using shuffle_hears [OF assms(3) s3(2), of 0] by auto
  then show ?thesis using s(1) hears_move [OF s(2)] hears_move [OF s2(1)] hears_move [OF s3(1)] by blast
qed

section \<open>Examples\<close>

definition heap_of :: "PlayTree list \<Rightarrow> tree_heap" where
  "heap_of ns = (\<lambda>a. if a < length ns then Some (ns ! a) else None)"

text \<open>A group, with a number of loops and flags, of two files.\<close>

definition two_files :: "int \<Rightarrow> u32 \<Rightarrow> tree_heap" where
  "two_files k f = heap_of
     [PlayTree_new\<lparr>pt_child := Some 1, pt_loop := k, pt_flags := f\<rparr>,
      PlayTree_new\<lparr>pt_parent := Some 0, pt_next := Some 2, pt_type := FILE\<rparr>,
      PlayTree_new\<lparr>pt_parent := Some 0, pt_prev := Some 1, pt_type := FILE\<rparr>]"

lemma playlist_in_order_witness:
  "\<exists>s. start 0 0 0 (two_files 2 0) = Some (Some s) \<and> hears (\<lambda>_. (0, 0)) (Step 0) s [1, 2, 1, 2]"
proof -
  have "forest (two_files 2 0) None None [Group 0 2 [Entry 1, Entry 2]]"
    by (simp add: two_files_def heap_of_def PlayTree_new_def quiet_def)
  from playlist_in_order [OF this, of 0 0] show ?thesis by (simp add: eval_nat_numeral)
qed

lemma endless_playlist_goes_round_witness:
  "\<exists>s. start 0 0 0 (two_files (- 1) 0) = Some (Some s) \<and> begins (\<lambda>_. (0, 0)) (Step 0) s [1, 2, 1, 2, 1, 2]"
proof -
  have f: "forest (two_files (- 1) 0) (Some 0) None [Entry 1, Entry 2]" by (simp add: two_files_def heap_of_def PlayTree_new_def)
  have n: "two_files (- 1) 0 0 = Some (PlayTree_new\<lparr>pt_child := Some 1, pt_loop := - 1\<rparr>)"
    by (simp add: two_files_def heap_of_def PlayTree_new_def)
  obtain s where s: "start 0 0 0 (two_files (- 1) 0) = Some (Some s)"
      "\<forall>m. begins (\<lambda>_. (0, 0)) (Step 0) s (concat (replicate m (concat (map plays_of [Entry 1, Entry 2]))))"
    using endless_playlist_goes_round [OF n _ _ _ _ _ _ _ f, of 0 0 "\<lambda>_. (0, 0)"] by (auto simp: PlayTree_new_def quiet_def)
  then show ?thesis using s(2) [THEN spec, of 3] by (simp add: eval_nat_numeral)
qed

lemma shuffle_plays_each_once_witness:
  "\<exists>s ys zs. start 0 0 0 (two_files 1 PLAY_TREE_RND) = Some (Some s) \<and> hears (\<lambda>_. (0, 0)) (Step 0) s (ys @ zs) \<and>
    mset ys = mset [1, 2] \<and> mset zs = mset [1, 2]"
proof -
  have "deck 1 (two_files 1 PLAY_TREE_RND) 0 [1, 2] {}"
    by (simp add: deck_def two_files_def heap_of_def PlayTree_new_def PLAY_TREE_RND_def childless_def plays_def unplayed_def)
  from shuffle_plays_each_once [OF this, of "\<lambda>_. (0, 0)" 0 0]
  obtain s xs where s: "start 0 0 0 (two_files 1 PLAY_TREE_RND) = Some (Some s)" "hears (\<lambda>_. (0, 0)) (Step 0) s xs" "rounds (Suc 1) [1, 2] xs"
    by (auto simp: rand_ok_def RAND_MAX_def)
  from s(3) obtain ys zs where "xs = ys @ zs" "mset ys = mset [1, 2]" "mset zs = mset [1, 2]"
    by (auto simp: rounds_def length_Suc_conv)
  then show ?thesis using s(1,2) by blast
qed

section \<open>Where it breaks\<close>

lemmas iter_run_induct = iter_run.raw_induct [rotated, consumes 1, case_names step]

text \<open>A call that goes on for ever: each body ends in a call from a state of the same kind.\<close>

lemma iter_run_hangs:
  assumes "Q c s" and "\<And>c s. Q c s \<Longrightarrow> \<exists>c' s'. iter_step chance w c s = Some (Some (Inl (c', s'))) \<and> Q c' s'"
  shows "iter_run chance w c s = None"
proof (rule ccontr)
  assume "iter_run chance w c s \<noteq> None"
  then obtain y where y: "iter_run chance w c s = Some y" by auto
  have "iter_run chance w c s = Some y \<Longrightarrow> (\<And>c s. Q c s \<Longrightarrow> \<exists>c' s'. iter_step chance w c s = Some (Some (Inl (c', s'))) \<and> Q c' s') \<Longrightarrow> \<not> Q c s"
  proof (induction rule: iter_run_induct)
    case (step run chance w c s y)
    show ?case
    proof
      assume "Q c s"
      then obtain c' s' where "iter_step chance w c s = Some (Some (Inl (c', s')))" "Q c' s'" using step(3) by blast
      then show False using step(1) [of chance w c' s' y] step(2,3) by simp
    qed
  qed
  then show False using y assms by blast
qed

text \<open>C37: a group without entries stops the player for ever. In a list that is not shuffled, the step from a node to the next one does not
  return if that one is a group with nothing to play in it: it does not move, and is made again. (Such groups are not taken out before the
  playlist is played: the call of play_tree_cleanup in main.cpp is commented out.)\<close>

theorem step_to_empty_group_hangs:
  assumes "it_tree (ps_iter s) = Some t" "ps_heap s t = Some n" "quiet_parent (ps_heap s) (pt_parent n)" "pt_next n = Some g" "ps_heap s g = Some m"
    and "is_valid (ps_heap s) g = Some (Some False)" "pt_child m = None \<or> (\<exists>c. pt_child m = Some c \<and> is_valid (ps_heap s) c = Some (Some False))"
  shows "iter_run chance with_nodes (Step 1) s = None"
proof (rule iter_run_hangs [where Q = "\<lambda>c s'. c = Step 1 \<and> it_tree (ps_iter s') = Some t \<and> ps_heap s' = ps_heap s"])
  let ?Q = "\<lambda>c (s' :: play_state). c = Step 1 \<and> it_tree (ps_iter s') = Some t \<and> ps_heap s' = ps_heap s"
  show "?Q (Step 1) s" using assms(1) by simp
  fix c and s' :: play_state
  assume q: "?Q c s'"
  let ?s = "set_iter (ps_iter s'\<lparr>it_rnd := False, it_file := - 1\<rparr>) s'\<lparr>ps_draws := ps_draws s'\<rparr>"
  have "iter_step chance with_nodes c s' = step_to with_nodes 1 g ?s"
    using q assms(2,4) quiet_parent_step [OF assms(3)] by (simp add: step_body_def next_node_def Let_def)
  also have "\<dots> = Some (Some (Inl (Step 1, ?s)))"
    using q assms(5-7) by (auto simp: step_to_def Let_def set_iter_def)
  finally show "\<exists>c' s''. iter_step chance with_nodes c s' = Some (Some (Inl (c', s''))) \<and> ?Q c' s''"
    using q by (intro exI [of _ "Step 1"] exI [of _ ?s]) (simp add: set_iter_def)
qed

text \<open>A list with an empty group behind its first file.\<close>

definition empty_group :: tree_heap where
  "empty_group = heap_of
     [PlayTree_new\<lparr>pt_child := Some 1\<rparr>,
      PlayTree_new\<lparr>pt_parent := Some 0, pt_next := Some 2, pt_type := FILE\<rparr>,
      PlayTree_new\<lparr>pt_parent := Some 0, pt_prev := Some 1\<rparr>]"

lemma step_to_empty_group_hangs_witness:
  "iter_run (\<lambda>_. (0, 0)) False (Step 1) \<lparr>ps_heap = empty_group, ps_iter = \<lparr>it_root = 0, it_tree = Some 1, it_config = [], it_loop = -1,
     it_file = -1, it_num_files = 0, it_rnd = False, status_stack = [0]\<rparr>, ps_draws = 0\<rparr> = None"
  by (rule step_to_empty_group_hangs [where t = 1 and g = 2 and n = "PlayTree_new\<lparr>pt_parent := Some 0, pt_next := Some 2, pt_type := FILE\<rparr>"
        and m = "PlayTree_new\<lparr>pt_parent := Some 0, pt_prev := Some 1\<rparr>"])
    (simp_all add: empty_group_def heap_of_def PlayTree_new_def quiet_parent_def quiet_def is_valid_def any_valid.simps)

text \<open>The copy of an iterator cannot be used at the end of a group: the copy constructor does not copy the stack. At the last node of a
  list that is not played again, below the list of the root, a step of the iterator itself goes on above, with the loop on top of its stack; the same step of
  the copy reads from an empty stack.\<close>

theorem copy_reads_empty_stack:
  assumes "it_tree (ps_iter s) = Some t" "ps_heap s t = Some n" "quiet_parent (ps_heap s) (pt_parent n)" "pt_next n = None"
    and "pt_parent n = Some p" "ps_heap s p = Some q" "pt_loop q = 0 \<or> it_loop (ps_iter s) = 0"
    and "ps_heap s (it_root (ps_iter s)) = Some root" "pt_parent root \<noteq> Some p" "status_stack (ps_iter s) = l # st"
  shows "iter_run chance with_nodes (Step 1) (s\<lparr>ps_iter := PlayTree_Iter_copy (ps_iter s)\<rparr>) = Some None \<and>
    (\<exists>s'. iter_run chance with_nodes (Step 1) s = iter_run chance with_nodes (Step 1) s' \<and>
       it_tree (ps_iter s') = Some p \<and> it_loop (ps_iter s') = l \<and> status_stack (ps_iter s') = st)"
proof -
  have up: "\<exists>s2. iter_step chance with_nodes (Step 1) s1 = Some (Some (Inl (Up 1, s2))) \<and> ps_heap s2 = ps_heap s \<and>
      it_tree (ps_iter s2) = Some t \<and> it_root (ps_iter s2) = it_root (ps_iter s) \<and> status_stack (ps_iter s2) = status_stack (ps_iter s1) \<and> \<not> it_rnd (ps_iter s2)"
    if "ps_heap s1 = ps_heap s" "it_tree (ps_iter s1) = Some t" "it_root (ps_iter s1) = it_root (ps_iter s)" "it_loop (ps_iter s1) = it_loop (ps_iter s)" for s1
    using that assms(2-7) quiet_parent_step [OF assms(3)]
    by (auto simp: step_body_def next_node_def step_end_def Let_def set_iter_def)
  obtain s2 where s2: "iter_step chance with_nodes (Step 1) s = Some (Some (Inl (Up 1, s2)))" "ps_heap s2 = ps_heap s" "it_tree (ps_iter s2) = Some t"
      "it_root (ps_iter s2) = it_root (ps_iter s)" "status_stack (ps_iter s2) = l # st" "\<not> it_rnd (ps_iter s2)"
    using up [of s] assms(1,10) by auto
  have "\<exists>s3. iter_step chance with_nodes (Up 1) s2 = Some (Some (Inl (Step 1, s3))) \<and> it_tree (ps_iter s3) = Some p \<and> it_loop (ps_iter s3) = l \<and> status_stack (ps_iter s3) = st"
    using s2(2-6) assms(2,5,8,9) by (auto simp: up_body_def Let_def set_iter_def set_heap_def)
  then obtain s3 where s3: "iter_step chance with_nodes (Up 1) s2 = Some (Some (Inl (Step 1, s3)))" "it_tree (ps_iter s3) = Some p" "it_loop (ps_iter s3) = l" "status_stack (ps_iter s3) = st"
    by blast
  let ?c = "s\<lparr>ps_iter := PlayTree_Iter_copy (ps_iter s)\<rparr>"
  obtain c2 where c2: "iter_step chance with_nodes (Step 1) ?c = Some (Some (Inl (Up 1, c2)))" "ps_heap c2 = ps_heap s" "it_tree (ps_iter c2) = Some t"
      "it_root (ps_iter c2) = it_root (ps_iter s)" "status_stack (ps_iter c2) = []"
    using up [of ?c] assms(1) by (auto simp: PlayTree_Iter_copy_def)
  have "iter_step chance with_nodes (Up 1) c2 = Some None"
    using c2(2-5) assms(2,5,8,9) by (auto simp: up_body_def Let_def set_iter_def)
  then have "iter_run chance with_nodes (Up 1) c2 = Some None" by (subst iter_run.simps) simp
  then show ?thesis using iter_run_move [OF c2(1)] iter_run_move [OF s2(1)] iter_run_move [OF s3(1)] s3(2-4) by metis
qed

lemma copy_reads_empty_stack_witness:
  "iter_run (\<lambda>_. (0, 0)) False (Step 1) \<lparr>ps_heap = two_files 0 0, ps_iter = \<lparr>it_root = 0, it_tree = Some 2, it_config = [], it_loop = -1,
     it_file = -1, it_num_files = 0, it_rnd = False, status_stack = []\<rparr>, ps_draws = 0\<rparr> = Some None"
proof -
  let ?s = "\<lparr>ps_heap = two_files 0 0, ps_iter = \<lparr>it_root = 0, it_tree = Some 2, it_config = [], it_loop = -1,
     it_file = -1, it_num_files = 0, it_rnd = False, status_stack = [0]\<rparr>, ps_draws = 0\<rparr>"
  have "iter_run (\<lambda>_. (0, 0)) False (Step 1) (?s\<lparr>ps_iter := PlayTree_Iter_copy (ps_iter ?s)\<rparr>) = Some None"
    by (rule copy_reads_empty_stack [where t = 2 and p = 0 and l = 0 and st = "[]" and root = "PlayTree_new\<lparr>pt_child := Some 1\<rparr>"
        and n = "PlayTree_new\<lparr>pt_parent := Some 0, pt_prev := Some 1, pt_type := FILE\<rparr>" and q = "PlayTree_new\<lparr>pt_child := Some 1\<rparr>", THEN conjunct1])
      (simp_all add: two_files_def heap_of_def PlayTree_new_def quiet_parent_def quiet_def)
  then show ?thesis by (simp add: PlayTree_Iter_copy_def)
qed

end
