(* ===== verification/InputCmd.thy ===== *)
theory InputCmd
  imports Url Complex_Main
begin

text \<open>
  Commands and key bindings (mplayerxp/input2/input.cpp): the table of commands, mp_input_parse_cmd, the names of keys and
  what is bound to them. A C string is the list of its characters; a pointer into one is the rest of the string.
\<close>

section \<open>Commands\<close>

text \<open>The constants of input.h. A type ends the arguments of a command when it is -1.\<close>

abbreviation (input) ARG_INT :: int where "ARG_INT \<equiv> 0"
abbreviation (input) ARG_FLOAT :: int where "ARG_FLOAT \<equiv> 1"
abbreviation (input) ARG_STRING :: int where "ARG_STRING \<equiv> 2"
abbreviation (input) ARG_VOID :: int where "ARG_VOID \<equiv> 3"

definition MP_CMD_MAX_ARGS :: nat where
  "MP_CMD_MAX_ARGS = 10"

text \<open>A float is a rational number here; a string may be the null pointer.\<close>

datatype arg_value = Int_value int | Float_value rat | String_value "string option" | Void_value

text \<open>
  An argument with no value has not been written: a command is allocated without clearing it. For the same
  reason the arguments are a list that may be shorter than the array, the rest is unwritten.
\<close>

type_synonym mp_cmd_arg_t = "int \<times> arg_value option"

record mp_cmd_t =
  cmd_id :: int
  cmd_name :: string
  cmd_nargs :: nat
  cmd_args :: "mp_cmd_arg_t list"

text \<open>What the initialiser of an array of ten arguments leaves out is zero.\<close>

definition cmd_def :: "int \<Rightarrow> string \<Rightarrow> nat \<Rightarrow> mp_cmd_arg_t list \<Rightarrow> mp_cmd_t" where
  "cmd_def i n k args = \<lparr>cmd_id = i, cmd_name = n, cmd_nargs = k,
     cmd_args = args @ (-1, Some (Int_value 0)) # replicate (9 - length args) (0, Some (Int_value 0))\<rparr>"

definition mp_cmds :: "mp_cmd_t list" where
  "mp_cmds =
    [cmd_def 0 ''seek'' 1 [(ARG_INT, Some (Int_value 0)), (ARG_INT, Some (Int_value 0))],
     cmd_def 44 ''speed_incr'' 1 [(ARG_FLOAT, Some (Float_value 0))],
     cmd_def 45 ''speed_mult'' 1 [(ARG_FLOAT, Some (Float_value 0))],
     cmd_def 46 ''speed_set'' 1 [(ARG_FLOAT, Some (Float_value 0))],
     cmd_def 47 ''cycle_audio'' 0 [],
     cmd_def 48 ''cycle_video'' 0 [],
     cmd_def 49 ''cycle_subtitles'' 0 [],
     cmd_def 2 ''quit'' 0 [],
     cmd_def 4 ''soft_quit'' 0 [],
     cmd_def 3 ''pause'' 0 [],
     cmd_def 56 ''frame_step'' 0 [],
     cmd_def 5 ''pt_step'' 1 [(ARG_INT, Some (Int_value 0)), (ARG_INT, Some (Int_value 0))],
     cmd_def 6 ''pt_up_step'' 1 [(ARG_INT, Some (Int_value 0)), (ARG_INT, Some (Int_value 0))],
     cmd_def 7 ''alt_src_step'' 1 [(ARG_INT, Some (Int_value 0))],
     cmd_def 9 ''osd'' 0 [(ARG_INT, Some (Int_value (-1)))],
     cmd_def 10 ''volume'' 1 [(ARG_INT, Some (Int_value 0))],
     cmd_def 25 ''mute'' 0 [],
     cmd_def 12 ''contrast'' 1 [(ARG_INT, Some (Int_value 0)), (ARG_INT, Some (Int_value 0))],
     cmd_def 13 ''brightness'' 1 [(ARG_INT, Some (Int_value 0)), (ARG_INT, Some (Int_value 0))],
     cmd_def 14 ''hue'' 1 [(ARG_INT, Some (Int_value 0)), (ARG_INT, Some (Int_value 0))],
     cmd_def 15 ''saturation'' 1 [(ARG_INT, Some (Int_value 0)), (ARG_INT, Some (Int_value 0))],
     cmd_def 16 ''frame_drop'' 0 [(ARG_INT, Some (Int_value (-1)))],
     cmd_def 21 ''sub_pos'' 1 [(ARG_INT, Some (Int_value 0)), (ARG_INT, Some (Int_value 0))],
     cmd_def 17 ''tv_step_channel'' 1 [(ARG_INT, Some (Int_value 0))],
     cmd_def 18 ''tv_step_norm'' 0 [],
     cmd_def 19 ''tv_step_chanlist'' 0 [],
     cmd_def 20 ''vo_fullscreen'' 0 [],
     cmd_def 23 ''vo_screenshot'' 0 [],
     cmd_def 24 ''panscan'' 1 [(ARG_FLOAT, Some (Float_value 0)), (ARG_INT, Some (Int_value 0))],
     cmd_def 22 ''dvdnav'' 1 [(ARG_INT, Some (Int_value 0))],
     cmd_def 6000 ''dvdnav_event'' 1 [(ARG_VOID, Some Void_value)],
     cmd_def 32 ''menu'' 1 [(ARG_STRING, Some (String_value None))],
     cmd_def 33 ''set_menu'' 1 [(ARG_STRING, Some (String_value None)), (ARG_STRING, Some (String_value None))],
     cmd_def 7000 ''help'' 0 [],
     cmd_def 7001 ''exit'' 0 [],
     cmd_def 7002 ''hide'' 0 [(ARG_INT, Some (Int_value 3000))]]"

section \<open>Reading numbers\<close>

definition blank :: "char \<Rightarrow> bool" where
  "blank c \<longleftrightarrow> c = CHR '' '' \<or> code c = 9"

definition decimal_digit :: "char \<Rightarrow> bool" where
  "decimal_digit c \<longleftrightarrow> 48 \<le> code c \<and> code c \<le> 57"

text \<open>
  The library's atoi is strtol in 64 bits, cut down to 32; errno is set where 64 bits do not hold the number.
\<close>

definition to_int32 :: "int \<Rightarrow> int" where
  "to_int32 v = (v + 2147483648) mod 4294967296 - 2147483648"

fun decimal :: "int \<Rightarrow> string \<Rightarrow> int" where
  "decimal n [] = n"
| "decimal n (c # s) = (if decimal_digit c then decimal (10 * n + (code c - 48)) s else n)"

definition skip_space :: "string \<Rightarrow> string" where
  "skip_space = dropWhile (\<lambda>c. code c = 32 \<or> 9 \<le> code c \<and> code c \<le> 13)"

definition sign :: "string \<Rightarrow> bool \<times> string" where
  "sign s = (case s of c # r \<Rightarrow> if c = CHR ''-'' then (True, r) else if c = CHR ''+'' then (False, r) else (False, s) | [] \<Rightarrow> (False, []))"

definition strtol10 :: "string \<Rightarrow> int" where
  "strtol10 s = (case sign (skip_space s) of (neg, ds) \<Rightarrow> if neg then - decimal 0 ds else decimal 0 ds)"

definition atoi_errno :: "string \<Rightarrow> int \<times> bool" where
  "atoi_errno s = (let v = strtol10 s in
     if v < - 9223372036854775808 then (to_int32 (- 9223372036854775808), True)
     else if 9223372036854775807 < v then (to_int32 9223372036854775807, True)
     else (to_int32 v, False))"

text \<open>
  The library's atof on decimal notation. Rounding, hexadecimal notation, infinity and the range errors of a
  double are not modelled.
\<close>

definition exponent :: "string \<Rightarrow> int" where
  "exponent s = (case s of [] \<Rightarrow> 0
     | c # r \<Rightarrow> if tolower c \<noteq> CHR ''e'' then 0
         else (case sign r of (neg, ds) \<Rightarrow> (if neg then - 1 else 1) * decimal 0 ds))"

definition scale10 :: "rat \<Rightarrow> int \<Rightarrow> rat" where
  "scale10 q e = (if 0 \<le> e then q * 10 ^ nat e else q / 10 ^ nat (- e))"

definition atof :: "string \<Rightarrow> rat" where
  "atof s = (case sign (skip_space s) of (neg, t) \<Rightarrow>
     let ip = takeWhile decimal_digit t; r = dropWhile decimal_digit t;
         (fp, r) = (case r of c # u \<Rightarrow> if c = CHR ''.'' then (takeWhile decimal_digit u, dropWhile decimal_digit u) else ([], r) | [] \<Rightarrow> ([], r));
         v = (if ip @ fp = [] then 0 else scale10 (of_int (decimal 0 (ip @ fp))) (exponent r - int (length fp)))
     in if neg then - v else v)"

section \<open>The parser\<close>

text \<open>
  The length of a string argument: up to the terminating character, unless a backslash stands before it. The flag
  says that the character before is a backslash and not the one the search started behind.
\<close>

fun arg_length :: "char \<Rightarrow> bool \<Rightarrow> string \<Rightarrow> nat option" where
  "arg_length term esc [] = None"
| "arg_length term esc (c # s) =
     (if c = term then (if esc then map_option Suc (arg_length term False s) else Some 0)
      else map_option Suc (arg_length term (c = CHR 0x5C) s))"

text \<open>Removing backslashes in place. The code does so in the command line, behind the copy it has made of the argument.\<close>

fun unescape :: "string \<Rightarrow> string" where
  "unescape [] = []"
| "unescape (c # s) = (if c = CHR 0x5C then (case s of [] \<Rightarrow> [] | d # t \<Rightarrow> d # unescape t) else c # unescape s)"

text \<open>
  One argument of a type, at the rest \<open>p\<close> of the line: its value, if one is written, and the pointer the loop goes
  on with, the rest of the line as it is now; None is the null pointer.
\<close>

definition parse_arg :: "int \<Rightarrow> string \<Rightarrow> arg_value option \<times> string option" where
  "parse_arg t p =
     (if t = ARG_INT then (case atoi_errno p of (v, err) \<Rightarrow> (Some (Int_value v), if err then None else Some p))
      else if t = ARG_FLOAT then (Some (Float_value (atof p)), Some p)
      else if t = ARG_STRING then
        (let quoted = (p \<noteq> [] \<and> (hd p = CHR 0x27 \<or> hd p = CHR 0x22));
             term = (if quoted then hd p else CHR '' ''); start = (if quoted then tl p else p);
             p' = (if quoted then [hd p] else []) @ unescape start
         in (case arg_length term False start of
               None \<Rightarrow> if quoted then (None, None) else (Some (String_value (Some start)), Some p')
             | Some n \<Rightarrow> (Some (String_value (Some (take n start))), Some p')))
      else if t = - 1 then (None, None)
      else (None, Some p))"

function parse_args :: "mp_cmd_arg_t list \<Rightarrow> nat \<Rightarrow> string \<Rightarrow> mp_cmd_arg_t list" where
  "parse_args defs i ptr =
     (if i < MP_CMD_MAX_ARGS then
        (case dropWhile blank (dropWhile (\<lambda>c. c \<noteq> CHR '' '') ptr) of
           [] \<Rightarrow> []
         | c # cs \<Rightarrow> let t = fst (defs ! i) in
             (case parse_arg t (c # cs) of
                (v, None) \<Rightarrow> [(t, v)]
              | (v, Some p) \<Rightarrow> (t, v) # parse_args defs (i + 1) p))
      else [])"
  by pat_completeness auto
termination
  by (relation "measure (\<lambda>(defs, i, ptr). MP_CMD_MAX_ARGS - i)") auto

declare parse_args.simps [simp del]

text \<open>mp_cmd_free walks the types up to the -1: False where it would use memory that has not been written.\<close>

fun args_walk :: "nat \<Rightarrow> mp_cmd_arg_t list \<Rightarrow> bool" where
  "args_walk i as =
     (if i < MP_CMD_MAX_ARGS then
        (case as of [] \<Rightarrow> False
         | (t, v) # r \<Rightarrow> t = - 1 \<or> (t = ARG_STRING \<longrightarrow> v \<noteq> None) \<and> args_walk (i + 1) r)
      else True)"

declare args_walk.simps [simp del]

definition mp_cmd_free :: "mp_cmd_t \<Rightarrow> unit option" where
  "mp_cmd_free c = (if args_walk 0 (cmd_args c) then Some () else None)"

text \<open>A copy, with copies of the strings.\<close>

definition mp_cmd_clone :: "mp_cmd_t \<Rightarrow> mp_cmd_t option" where
  "mp_cmd_clone c = (if args_walk 0 (cmd_args c) then Some c else None)"

definition find_cmd :: "string \<Rightarrow> mp_cmd_t option" where
  "find_cmd w = find (\<lambda>d. length w \<le> length (cmd_name d) \<and> List.map tolower (take (length w) (cmd_name d)) = List.map tolower w) mp_cmds"

text \<open>The arguments that were not given, up to the -1 or the end of the array.\<close>

definition default_args :: "mp_cmd_t \<Rightarrow> nat \<Rightarrow> mp_cmd_arg_t list" where
  "default_args d i = takeWhile (\<lambda>a. fst a \<noteq> - 1) (drop i (cmd_args d))"

text \<open>None: memory is used that has not been written. Some None: the null pointer.\<close>

definition mp_input_parse_cmd :: "string \<Rightarrow> mp_cmd_t option option" where
  "mp_input_parse_cmd str =
     (let s = cstr str; w = takeWhile (\<lambda>c. \<not> blank c) s in
      if w = [] then Some None
      else (case find_cmd w of
          None \<Rightarrow> Some None
        | Some d \<Rightarrow>
            let as = parse_args (cmd_args d) 0 s; n = length as; c = \<lparr>cmd_id = cmd_id d, cmd_name = cmd_name d, cmd_nargs = n, cmd_args = as\<rparr> in
            if n < cmd_nargs d then (case mp_cmd_free c of None \<Rightarrow> None | Some u \<Rightarrow> Some None)
            else let as = as @ default_args d n in
                 Some (Some (c\<lparr>cmd_args := as @ (if length as < MP_CMD_MAX_ARGS then [(- 1, None)] else [])\<rparr>))))"

section \<open>Keys\<close>

definition key_names :: "(int \<times> string) list" where
  "key_names =
    [(32, ''SPACE''), (13, ''ENTER''), (9, ''TAB''), (256, ''CTRL''), (256, ''BS''), (257, ''DEL''), (258, ''INS''),
     (259, ''HOME''), (260, ''END''), (261, ''PGUP''), (262, ''PGDWN''), (263, ''ESC''), (272, ''RIGHT''),
     (273, ''LEFT''), (274, ''DOWN''), (275, ''UP''), (321, ''F1''), (322, ''F2''), (323, ''F3''), (324, ''F4''),
     (325, ''F5''), (326, ''F6''), (327, ''F7''), (328, ''F8''), (329, ''F9''), (330, ''F10''), (288, ''KP0''),
     (289, ''KP1''), (290, ''KP2''), (291, ''KP3''), (292, ''KP4''), (293, ''KP5''), (294, ''KP6''), (295, ''KP7''),
     (296, ''KP8''), (297, ''KP9''), (300, ''KP_DEL''), (298, ''KP_DEL''), (299, ''KP0''), (301, ''KP_ENTER''),
     (268435968, ''MOUSE_BTN0''), (268435969, ''MOUSE_BTN1''), (268435970, ''MOUSE_BTN2''),
     (268435971, ''MOUSE_BTN3''), (268435972, ''MOUSE_BTN4''), (268435973, ''MOUSE_BTN5''),
     (268435974, ''MOUSE_BTN6''), (268435975, ''MOUSE_BTN7''), (268435976, ''MOUSE_BTN8''),
     (268435977, ''MOUSE_BTN9''), (268436224, ''MOUSE_BTN0_DBL''), (268436225, ''MOUSE_BTN1_DBL''),
     (268436226, ''MOUSE_BTN2_DBL''), (268436227, ''MOUSE_BTN3_DBL''), (268436228, ''MOUSE_BTN4_DBL''),
     (268436229, ''MOUSE_BTN5_DBL''), (268436230, ''MOUSE_BTN6_DBL''), (268436231, ''MOUSE_BTN7_DBL''),
     (268436232, ''MOUSE_BTN8_DBL''), (268436233, ''MOUSE_BTN9_DBL''), (387, ''JOY_UP''), (386, ''JOY_DOWN''),
     (385, ''JOY_LEFT''), (384, ''JOY_RIGHT''), (384, ''JOY_AXIS0_PLUS''), (385, ''JOY_AXIS0_MINUS''),
     (386, ''JOY_AXIS1_PLUS''), (387, ''JOY_AXIS1_MINUS''), (388, ''JOY_AXIS2_PLUS''), (389, ''JOY_AXIS2_MINUS''),
     (390, ''JOY_AXIS3_PLUS''), (391, ''JOY_AXIS3_MINUS''), (392, ''JOY_AXIS4_PLUS''), (393, ''JOY_AXIS4_MINUS''),
     (394, ''JOY_AXIS5_PLUS''), (395, ''JOY_AXIS5_MINUS''), (396, ''JOY_AXIS6_PLUS''), (397, ''JOY_AXIS6_MINUS''),
     (398, ''JOY_AXIS7_PLUS''), (399, ''JOY_AXIS7_MINUS''), (400, ''JOY_AXIS8_PLUS''), (401, ''JOY_AXIS8_MINUS''),
     (402, ''JOY_AXIS9_PLUS''), (403, ''JOY_AXIS9_MINUS''), (268435860, ''JOY_BTN0''), (268435861, ''JOY_BTN1''),
     (268435862, ''JOY_BTN2''), (268435863, ''JOY_BTN3''), (268435864, ''JOY_BTN4''), (268435865, ''JOY_BTN5''),
     (268435866, ''JOY_BTN6''), (268435867, ''JOY_BTN7''), (268435868, ''JOY_BTN8''), (268435869, ''JOY_BTN9''),
     (654, ''XF86_STANDBY''), (640, ''XF86_POWER''), (641, ''XF86_PAUSE''), (642, ''XF86_STOP''), (643, ''XF86_PREV''),
     (644, ''XF86_NEXT''), (645, ''XF86_VOLUME_UP''), (646, ''XF86_VOLUME_DN''), (647, ''XF86_MUTE''),
     (648, ''XF86_EJECT''), (649, ''XF86_MENU''), (650, ''XF86_PLAY''), (652, ''XF86_FORWARD''),
     (653, ''XF86_REWIND''), (655, ''XF86_BRIGHTNESS''), (656, ''XF86_CONTRAST''), (657, ''XF86_SATURATION''),
     (658, ''XF86_SCREENSAVE''), (659, ''XF86_REFRESH'')]"

definition def_cmd_binds :: "(int list \<times> string) list" where
  "def_cmd_binds =
    [([268435971], ''seek 10''), ([268435972], ''seek -10''), ([268435973], ''volume 1''),
     ([268435974], ''volume -1''), ([296], ''dvdnav 1''), ([290], ''dvdnav 2''), ([292], ''dvdnav 3''),
     ([294], ''dvdnav 4''), ([293], ''dvdnav 5''), ([288], ''dvdnav 6''), ([299], ''dvdnav 6''),
     ([323], ''menu menu''), ([649], ''menu menu''), ([322], ''set_menu''), ([321], ''menu help''),
     ([330], ''menu exit''), ([328], ''menu hide''), ([272], ''seek 10''), ([273], ''seek -10''), ([275], ''seek 60''),
     ([274], ''seek -60''), ([261], ''seek 600''), ([262], ''seek -600''), ([91], ''speed_mult 0.9091''),
     ([93], ''speed_mult 1.1''), ([123], ''speed_mult 0.5''), ([125], ''speed_mult 2.0''), ([256], ''speed_set 1.0''),
     ([113], ''soft_quit''), ([263], ''quit''), ([112], ''pause''), ([32], ''pause''), ([46], ''frame_step''),
     ([259], ''pt_up_step 1''), ([260], ''pt_up_step -1''), ([62], ''pt_step 1''), ([13], ''pt_step 1 1''),
     ([60], ''pt_step -1''), ([258], ''alt_src_step 1''), ([257], ''alt_src_step -1''), ([111], ''osd''),
     ([57], ''volume -1''), ([47], ''volume -1''), ([48], ''volume 1''), ([42], ''volume 1''), ([109], ''mute''),
     ([49], ''contrast -1''), ([50], ''contrast 1''), ([51], ''brightness -1''), ([52], ''brightness 1''),
     ([53], ''hue -1''), ([54], ''hue 1''), ([55], ''saturation -1''), ([56], ''saturation 1''),
     ([100], ''frame_drop''), ([114], ''sub_pos -1''), ([116], ''sub_pos +1''), ([104], ''tv_step_channel 1''),
     ([107], ''tv_step_channel -1''), ([110], ''tv_step_norm''), ([117], ''tv_step_chanlist''), ([384], ''seek 10''),
     ([385], ''seek -10''), ([387], ''seek 60''), ([386], ''seek -60''), ([268435860], ''pause''),
     ([268435861], ''osd''), ([268435862], ''volume 1''), ([268435863], ''volume -1''), ([102], ''vo_fullscreen''),
     ([115], ''vo_screenshot''), ([119], ''panscan -0.1''), ([101], ''panscan +0.1''), ([97], ''cycle_audio''),
     ([118], ''cycle_video''), ([99], ''cycle_subtitles''), ([650], ''pause''), ([641], ''pause''), ([654], ''pause''),
     ([642], ''soft_quit''), ([640], ''quit''), ([648], ''quit''), ([643], ''pt_step -1''), ([644], ''pt_step 1''),
     ([653], ''seek -60''), ([652], ''seek 60''), ([645], ''volume 1''), ([646], ''volume -1''), ([647], ''mute''),
     ([658], ''vo_screenshot''), ([655], ''brightness 1''), ([656], ''contrast 1''), ([657], ''saturation 1''),
     ([659], ''pause'')]"

definition MP_MAX_KEY_DOWN :: nat where
  "MP_MAX_KEY_DOWN = 32"

fun strcasecmp_eq :: "string \<Rightarrow> string \<Rightarrow> bool" where
  "strcasecmp_eq [] t = (t = [])"
| "strcasecmp_eq (c # s) t = (case t of [] \<Rightarrow> False | d # t' \<Rightarrow> if tolower c = tolower d then strcasecmp_eq s t' else False)"

text \<open>strtol in base 16, of a string that starts with 0x, as an int.\<close>

fun hex_value :: "int \<Rightarrow> string \<Rightarrow> int" where
  "hex_value n [] = n"
| "hex_value n (c # s) = (case hex_val c of Some d \<Rightarrow> hex_value (16 * n + d) s | None \<Rightarrow> n)"

definition strtol16 :: "string \<Rightarrow> int" where
  "strtol16 s = to_int32 (min 9223372036854775807 (hex_value 0 (drop 2 s)))"

definition mp_input_get_key_from_name :: "string \<Rightarrow> int" where
  "mp_input_get_key_from_name name =
     (if length name = 1 then code (hd name)
      else if 2 < length name \<and> strcasecmp_eq (take 2 name) ''0x'' then strtol16 name
      else (case find (\<lambda>(k, n). strcasecmp_eq n name) key_names of Some (k, n) \<Rightarrow> k | None \<Rightarrow> - 1))"

text \<open>The hexadecimal form of other keys, which is only printed in messages, is left out.\<close>

definition mp_input_get_key_name :: "int \<Rightarrow> string option" where
  "mp_input_get_key_name k = (case find (\<lambda>(k', n). k' = k) key_names of
       Some (k', n) \<Rightarrow> Some n
     | None \<Rightarrow> if 0 \<le> k \<and> k < 128 then Some [char_of k] else None)"

text \<open>
  A combination of keys, their names joined by dashes. The array has room for the zero after 32 keys; None: a
  name is unknown.
\<close>

function input_names :: "nat \<Rightarrow> string \<Rightarrow> int list option" where
  "input_names n ptr =
     (let name = takeWhile (\<lambda>c. c \<noteq> CHR ''-'') ptr; rest = dropWhile (\<lambda>c. c \<noteq> CHR ''-'') ptr;
          (name, rest) = (case rest of
               c # d # r \<Rightarrow> if d = CHR ''-'' then (name @ [c], d # r) else (name, rest)
             | _ \<Rightarrow> (ptr, rest));
          k = mp_input_get_key_from_name name
      in if k < 0 then None
         else (case rest of c # d # r \<Rightarrow> if n + 1 < MP_MAX_KEY_DOWN then map_option ((#) k) (input_names (n + 1) (d # r)) else Some [k]
               | _ \<Rightarrow> Some [k]))"
  by pat_completeness auto
termination
  by (relation "measure (\<lambda>(n, ptr). MP_MAX_KEY_DOWN - n)") auto

declare input_names.simps [simp del]

definition mp_input_get_input_from_name :: "string \<Rightarrow> int list option" where
  "mp_input_get_input_from_name name = input_names 0 name"

section \<open>Bindings\<close>

text \<open>
  A binding has an array of 33 keys, the list of those before the zero, and a command. The keys of a list of bindings are
  compared with the \<open>n\<close> keys that are down: a binding matches when they are equal up to its zero, which stands at \<open>n\<close>.
\<close>

type_synonym mp_cmd_bind_t = "int list \<times> string"

fun bind_matches :: "int list \<Rightarrow> int list \<Rightarrow> bool" where
  "bind_matches [] keys = (keys = [])"
| "bind_matches (i # input) [] = False"
| "bind_matches (i # input) (k # keys) = (i = k \<and> bind_matches input keys)"

definition mp_input_find_bind_for_key :: "mp_cmd_bind_t list \<Rightarrow> int list \<Rightarrow> string option" where
  "mp_input_find_bind_for_key binds keys =
     map_option snd (find (\<lambda>(input, cmd). keys \<noteq> [] \<and> bind_matches input keys) binds)"

definition mp_input_get_cmd_from_keys :: "mp_cmd_bind_t list \<Rightarrow> int list \<Rightarrow> mp_cmd_t option option" where
  "mp_input_get_cmd_from_keys binds keys =
     (case mp_input_find_bind_for_key binds keys of
        Some cmd \<Rightarrow> mp_input_parse_cmd cmd
      | None \<Rightarrow> (case mp_input_find_bind_for_key def_cmd_binds keys of Some cmd \<Rightarrow> mp_input_parse_cmd cmd | None \<Rightarrow> Some None))"

text \<open>A new binding takes the place of one for the same keys, or goes to the end.\<close>

fun mp_input_bind_keys :: "mp_cmd_bind_t list \<Rightarrow> int list \<Rightarrow> string \<Rightarrow> mp_cmd_bind_t list" where
  "mp_input_bind_keys [] keys cmd = [(keys, cmd)]"
| "mp_input_bind_keys ((input, c) # binds) keys cmd =
     (if input = keys then (keys, cmd) # binds else (input, c) # mp_input_bind_keys binds keys cmd)"

section \<open>Writing a command and reading it back\<close>

definition show_int :: "int \<Rightarrow> string" where
  "show_int v = (if v < 0 then CHR ''-'' # dec (nat (- v)) else dec (nat v))"

text \<open>
  An argument as it is written: an int, a number in decimal notation (its sign, the digits before the point as a number, and those behind it), a
  text, and a text in quotes of one kind or the other.
\<close>

datatype written = Int_text int | Decimal_text bool nat "nat list" | Plain_text string | Quoted_text char string

definition digit_chars :: "nat list \<Rightarrow> string" where
  "digit_chars ds = List.map (\<lambda>d. char_of (48 + int d)) ds"

fun show_arg :: "written \<Rightarrow> string" where
  "show_arg (Int_text v) = show_int v"
| "show_arg (Decimal_text neg n ds) = (if neg then ''-'' else []) @ dec n @ (if ds = [] then [] else CHR ''.'' # digit_chars ds)"
| "show_arg (Plain_text s) = s"
| "show_arg (Quoted_text q s) = q # s @ [q]"

fun fraction :: "nat list \<Rightarrow> rat" where
  "fraction [] = 0"
| "fraction (d # ds) = (of_nat d + fraction ds) / 10"

fun value_of :: "written \<Rightarrow> arg_value" where
  "value_of (Int_text v) = Int_value v"
| "value_of (Decimal_text neg n ds) = Float_value (if neg then - (of_nat n + fraction ds) else of_nat n + fraction ds)"
| "value_of (Plain_text s) = String_value (Some s)"
| "value_of (Quoted_text q s) = String_value (Some s)"

definition show_cmd :: "mp_cmd_t \<Rightarrow> written list \<Rightarrow> string" where
  "show_cmd d ws = cmd_name d @ concat (List.map (\<lambda>w. CHR '' '' # show_arg w) ws)"

text \<open>
  What may be written for an argument of a type. Texts are without blanks, tabulators and backslashes, quoted or not: the parser splits a
  quoted text at its blanks too (quoted_blank_splits), and removes backslashes from the wrong place.
\<close>

definition plain_text :: "string \<Rightarrow> bool" where
  "plain_text s \<longleftrightarrow> (\<forall>c \<in> set s. \<not> blank c \<and> c \<noteq> CHR 0x5C \<and> code c \<noteq> 0)"

abbreviation quote :: "char \<Rightarrow> bool" where
  "quote q \<equiv> q = CHR 0x27 \<or> q = CHR 0x22"

fun of_type :: "int \<Rightarrow> written \<Rightarrow> bool" where
  "of_type t (Int_text v) \<longleftrightarrow> t = ARG_INT \<and> - 2147483648 \<le> v \<and> v < 2147483648"
| "of_type t (Decimal_text neg n ds) \<longleftrightarrow> t = ARG_FLOAT \<and> (\<forall>d \<in> set ds. d < 10)"
| "of_type t (Plain_text s) \<longleftrightarrow> t = ARG_STRING \<and> s \<noteq> [] \<and> plain_text s \<and> \<not> quote (hd s)"
| "of_type t (Quoted_text q s) \<longleftrightarrow> t = ARG_STRING \<and> plain_text s \<and> quote q \<and> q \<notin> set s"

text \<open>The arguments a reader of a command sees: those before the -1.\<close>

definition args_of :: "mp_cmd_t \<Rightarrow> mp_cmd_arg_t list" where
  "args_of c = takeWhile (\<lambda>a. fst a \<noteq> - 1) (cmd_args c)"

lemma plain_text_append [simp]: "plain_text (s @ t) \<longleftrightarrow> plain_text s \<and> plain_text t" "plain_text []"
  "plain_text (c # s) \<longleftrightarrow> \<not> blank c \<and> c \<noteq> CHR 0x5C \<and> code c \<noteq> 0 \<and> plain_text s"
  by (auto simp: plain_text_def)

lemma blank_simps [simp]: "blank CHR '' ''" "\<not> blank CHR ''-''"
  by (simp_all add: blank_def code_def)

lemma plain_text_no: "plain_text s \<Longrightarrow> CHR '' '' \<notin> set s \<and> CHR 0x5C \<notin> set s"
  using blank_simps(1) unfolding plain_text_def by blast

lemma to_int32_id [simp]: "- 2147483648 \<le> v \<Longrightarrow> v < 2147483648 \<Longrightarrow> to_int32 v = v"
  by (simp add: to_int32_def)

lemma dec_plain: "plain_text (dec n)" "dec n \<noteq> []"
proof -
  show "plain_text (dec n)" using dec_digits by (fastforce simp: plain_text_def blank_def code_def)
qed (subst dec.simps, simp)

lemma show_int_plain: "plain_text (show_int v)" "show_int v \<noteq> []"
  using dec_plain by (auto simp: show_int_def code_def)

lemma decimal_dec:
  assumes "s = [] \<or> hd s = CHR '' ''"
  shows "decimal 0 (dec n @ s) = int n"
proof -
  have d: "decimal (int a) t = int (digits_value a t)" for a t
  proof (induction t arbitrary: a)
    case (Cons c t)
    show ?case
    proof (cases "decimal_digit c")
      case True
      then have "10 * int a + (code c - 48) = int (10 * a + nat (code c - 48))" by (simp add: decimal_digit_def)
      then have "decimal (int a) (c # t) = int (digits_value (10 * a + nat (code c - 48)) t)"
        using Cons.IH [of "10 * a + nat (code c - 48)"] True by (simp only: decimal.simps if_True)
      then show ?thesis using True by (simp add: decimal_digit_def)
    qed (auto simp: decimal_digit_def)
  qed simp
  have "s = [] \<or> \<not> (48 \<le> code (hd s) \<and> code (hd s) \<le> 57)" using assms by (auto simp: code_def)
  then show ?thesis using d [of 0] digits_value_dec by simp
qed

lemma atoi_show_int:
  assumes "- 2147483648 \<le> v" "v < 2147483648" "s = [] \<or> hd s = CHR '' ''"
  shows "atoi_errno (show_int v @ s) = (v, False)"
proof -
  have first: "skip_space (dec n @ s) = dec n @ s \<and> sign (dec n @ s) = (False, dec n @ s)" for n
  proof -
    obtain c cs where c: "dec n = c # cs" using dec_plain(2) by (cases "dec n") auto
    then have "48 \<le> code c" "code c \<le> 57" using dec_digits [of c n] by auto
    moreover from this have "c \<noteq> CHR ''-''" "c \<noteq> CHR ''+''" by (auto simp: code_def)
    ultimately show ?thesis by (simp add: c skip_space_def sign_def)
  qed
  have "strtol10 (show_int v @ s) = v"
  proof (cases "v < 0")
    case True
    then show ?thesis using decimal_dec [OF assms(3), of "nat (- v)"] by (simp add: show_int_def strtol10_def skip_space_def sign_def code_def)
  qed (use decimal_dec [OF assms(3)] first in \<open>simp add: show_int_def strtol10_def\<close>)
  then show ?thesis using assms(1,2) by (simp add: atoi_errno_def)
qed

lemma unescape_id: "CHR 0x5C \<notin> set s \<Longrightarrow> unescape s = s"
  by (induction s) auto

lemma arg_length_end: "CHR '' '' \<notin> set s \<Longrightarrow> CHR 0x5C \<notin> set s \<Longrightarrow> t = [] \<or> hd t = CHR '' '' \<Longrightarrow>
    arg_length (CHR '' '') False (s @ t) = (if t = [] then None else Some (length s))"
  by (induction s) (cases t; auto)+

lemma digit_char: "d < 10 \<Longrightarrow> decimal_digit (char_of (48 + int d)) \<and> code (char_of (48 + int d)) = 48 + int d"
  by (simp add: decimal_digit_def code_def)

lemma digit_chars_plain: "\<forall>d \<in> set ds. d < 10 \<Longrightarrow> plain_text (digit_chars ds) \<and> (\<forall>c \<in> set (digit_chars ds). decimal_digit c)"
proof -
  assume "\<forall>d \<in> set ds. d < 10"
  then have "\<forall>c \<in> set (digit_chars ds). decimal_digit c" using digit_char by (auto simp: digit_chars_def)
  then show ?thesis by (fastforce simp: plain_text_def decimal_digit_def blank_def code_def)
qed

lemma decimal_digits: "\<forall>d \<in> set ds. d < 10 \<Longrightarrow> of_int (decimal a (digit_chars ds)) / 10 ^ length ds = (of_int a + fraction ds :: rat)"
proof (induction ds arbitrary: a)
  case (Cons d ds)
  have "decimal a (digit_chars (d # ds)) = decimal (10 * a + int d) (digit_chars ds)"
    using digit_char [of d] Cons.prems by (simp add: digit_chars_def)
  then show ?case using Cons.IH [of "10 * a + int d"] Cons.prems by (simp add: field_simps)
qed (simp add: digit_chars_def)

lemma decimal_append: "\<forall>c \<in> set s. decimal_digit c \<Longrightarrow> decimal a (s @ t) = decimal (decimal a s) t"
  by (induction s arbitrary: a) auto

lemma dec_decimal: "\<forall>c \<in> set (dec n). decimal_digit c"
  using dec_digits by (auto simp: decimal_digit_def)

lemma atof_show:
  assumes "\<forall>d \<in> set ds. d < 10" "s = [] \<or> hd s = CHR '' ''"
  shows "atof (show_arg (Decimal_text neg n ds) @ s) = (if neg then - (of_nat n + fraction ds) else of_nat n + fraction ds)"
proof -
  let ?t = "dec n @ (if ds = [] then [] else CHR ''.'' # digit_chars ds) @ s"
  obtain c cs where c: "dec n = c # cs" using dec_plain(2) by (cases "dec n") auto
  then have "48 \<le> code c" "code c \<le> 57" using dec_digits [of c n] by auto
  moreover from this have "c \<noteq> CHR ''-''" "c \<noteq> CHR ''+''" by (auto simp: code_def)
  ultimately have first: "sign (skip_space (show_arg (Decimal_text neg n ds) @ s)) = (neg, ?t)"
    by (auto simp: c skip_space_def sign_def code_def)
  have stop: "r = [] \<or> \<not> decimal_digit (hd r) \<Longrightarrow> takeWhile decimal_digit (p @ r) = p \<and> dropWhile decimal_digit (p @ r) = r"
    if "\<forall>c \<in> set p. decimal_digit c" for p r
    using that by (cases r) (auto simp: takeWhile_append2 dropWhile_append2)
  have s: "s = [] \<or> \<not> decimal_digit (hd s)" "exponent s = 0" "\<not> (s \<noteq> [] \<and> hd s = CHR ''.'')"
    using assms(2) by (auto simp: decimal_digit_def code_def exponent_def tolower_def split: list.splits)
  have ip: "takeWhile decimal_digit ?t = dec n" "dropWhile decimal_digit ?t = (if ds = [] then [] else CHR ''.'' # digit_chars ds) @ s"
    using stop [OF dec_decimal, of "(if ds = [] then [] else CHR ''.'' # digit_chars ds) @ s" n] s(1) by (auto simp: decimal_digit_def code_def)
  have fp: "takeWhile decimal_digit (digit_chars ds @ s) = digit_chars ds" "dropWhile decimal_digit (digit_chars ds @ s) = s"
    using stop [of "digit_chars ds" s] digit_chars_plain [OF assms(1)] s(1) by auto
  have l: "length (digit_chars ds) = length ds" by (simp add: digit_chars_def)
  have d0: "decimal 0 (dec n) = int n" using decimal_dec [of "[]" n] by simp
  have "decimal 0 (dec n @ digit_chars ds) = decimal (int n) (digit_chars ds)" using decimal_append [OF dec_decimal] d0 by simp
  then have v: "scale10 (of_int (decimal 0 (dec n @ digit_chars ds))) (- int (length ds)) = of_nat n + fraction ds"
    using decimal_digits [OF assms(1), of "int n"] by (cases "ds = []") (simp_all add: scale10_def digit_chars_def)
  show ?thesis
  proof (cases "ds = []")
    case True
    then show ?thesis using first ip s(2,3) v dec_plain(2) d0 by (cases s) (simp_all add: atof_def Let_def digit_chars_def del: takeWhile_eq_all_conv dropWhile_eq_Nil_conv)
  next
    case False
    then show ?thesis using first ip fp s(2) v dec_plain(2) l by (simp add: atof_def Let_def)
  qed
qed

lemma arg_length_quoted: "q \<notin> set s \<Longrightarrow> CHR 0x5C \<notin> set s \<Longrightarrow> q \<noteq> CHR 0x5C \<Longrightarrow> arg_length q False (s @ q # t) = Some (length s)"
  by (induction s) auto

text \<open>Each value, written behind blanks and before a blank or the end, is read back.\<close>

lemma parse_arg_value:
  assumes "of_type t w" "s = [] \<or> hd s = CHR '' ''" "CHR 0x5C \<notin> set s"
  shows "parse_arg t (show_arg w @ s) = (Some (value_of w), Some (show_arg w @ s))"
proof (cases w)
  case (Int_text i)
  then show ?thesis using assms atoi_show_int by (simp add: parse_arg_def)
next
  case (Decimal_text neg n ds)
  then show ?thesis using assms atof_show [of ds s neg n] by (simp add: parse_arg_def del: show_arg.simps)
next
  case (Plain_text u)
  then have u: "t = ARG_STRING" "u \<noteq> []" "plain_text u" "\<not> quote (hd u)" using assms(1) by auto
  have n: "CHR '' '' \<notin> set u" "CHR 0x5C \<notin> set u" using plain_text_no [OF u(3)] by blast+
  have e: "unescape (u @ s) = u @ s" using n(2) assms(3) by (simp add: unescape_id)
  have q: "\<not> (u @ s \<noteq> [] \<and> quote (hd (u @ s)))" using u(2,4) by simp
  have "parse_arg t (u @ s) = (Some (String_value (Some u)), Some (u @ s))"
    unfolding parse_arg_def Let_def u(1) if_not_P [OF q] arg_length_end [OF n assms(2)] e by simp
  then show ?thesis using Plain_text by simp
next
  case (Quoted_text q u)
  then have u: "t = ARG_STRING" "plain_text u" "quote q" "q \<notin> set u" using assms(1) by auto
  have n: "CHR 0x5C \<notin> set u" "q \<noteq> CHR 0x5C" using plain_text_no [OF u(2)] u(3) by auto
  have e: "unescape (u @ q # s) = u @ q # s" using n assms(3) by (intro unescape_id) auto
  have "parse_arg t (q # u @ q # s) = (Some (String_value (Some u)), Some (q # u @ q # s))"
    using u(1,3) arg_length_quoted [OF u(4) n] e by (auto simp: parse_arg_def Let_def)
  then show ?thesis using Quoted_text by simp
qed

lemma show_arg_plain: "of_type t w \<Longrightarrow> plain_text (show_arg w) \<and> show_arg w \<noteq> []"
  using show_int_plain dec_plain digit_chars_plain by (cases w) (auto simp: blank_def code_def)

lemma args_text: "list_all2 of_type ts vs \<Longrightarrow> CHR 0x5C \<notin> set (concat (List.map (\<lambda>v. CHR '' '' # show_arg v) vs))"
  by (induction ts vs rule: list_all2_induct) (auto dest!: show_arg_plain plain_text_no)

lemma parse_args_show:
  assumes "list_all2 of_type (List.map fst (take (length vs) (drop i defs))) vs" "i + length vs \<le> MP_CMD_MAX_ARGS" "plain_text w"
  shows "parse_args defs i (w @ concat (List.map (\<lambda>v. CHR '' '' # show_arg v) vs))
    = zip (List.map fst (take (length vs) (drop i defs))) (List.map (\<lambda>v. Some (value_of v)) vs)"
  using assms
proof (induction vs arbitrary: i w rule: list.induct)
  case Nil
  have "dropWhile (\<lambda>c. c \<noteq> CHR '' '') w = []" using plain_text_no [of w] Nil.prems by (auto simp: dropWhile_eq_Nil_conv)
  then show ?case by (subst parse_args.simps) (simp del: dropWhile_eq_Nil_conv)
next
  case (Cons v vs)
  let ?r = "concat (List.map (\<lambda>v. CHR '' '' # show_arg v) vs)"
  obtain d ds where d: "drop i defs = d # ds" using Cons.prems(1) by (cases "drop i defs") auto
  have di: "defs ! i = d" "drop (i + 1) defs = ds"
    using d by (metis nth_via_drop) (metis d drop_drop drop_Suc_Cons drop0 add.commute plus_1_eq_Suc)
  have v: "of_type (fst d) v" "list_all2 of_type (List.map fst (take (length vs) (drop (i + 1) defs))) vs"
    using Cons.prems(1) d di by auto
  have sv: "plain_text (show_arg v)" "show_arg v \<noteq> []" using show_arg_plain [OF v(1)] by auto
  have "dropWhile (\<lambda>c. c \<noteq> CHR '' '') (w @ CHR '' '' # show_arg v @ ?r) = CHR '' '' # show_arg v @ ?r"
    using plain_text_no [OF Cons.prems(3)] by (subst dropWhile_append2) auto
  moreover have "dropWhile blank (CHR '' '' # show_arg v @ ?r) = show_arg v @ ?r"
    using sv by (cases "show_arg v") auto
  moreover have "parse_arg (fst d) (show_arg v @ ?r) = (Some (value_of v), Some (show_arg v @ ?r))"
    by (rule parse_arg_value [OF v(1) _ args_text [OF v(2)]]) (cases vs; simp)
  moreover obtain c cs where "show_arg v @ ?r = c # cs" using sv by (cases "show_arg v @ ?r") auto
  moreover note Cons.IH [OF v(2) _ sv(1)]
  ultimately show ?case using Cons.prems(2) d di by (subst parse_args.simps) simp
qed

text \<open>What the proofs need of the table, which is checked by evaluation.\<close>

lemma table_checked: "list_all (\<lambda>d. find_cmd (cmd_name d) = Some d \<and> cmd_name d \<noteq> [] \<and> plain_text (cmd_name d) \<and>
    length (cmd_args d) = MP_CMD_MAX_ARGS \<and> length (args_of d) < MP_CMD_MAX_ARGS) mp_cmds"
  unfolding plain_text_def by code_simp

lemma table_entry:
  assumes "d \<in> set mp_cmds"
  shows "find_cmd (cmd_name d) = Some d" "cmd_name d \<noteq> []" "plain_text (cmd_name d)" "length (args_of d) < MP_CMD_MAX_ARGS"
  using table_checked assms by (auto simp: list_all_iff)

lemma args_of_split: "n \<le> length (args_of d) \<Longrightarrow> take n (cmd_args d) = take n (args_of d) \<and> default_args d n = drop n (args_of d)"
proof -
  assume n: "n \<le> length (args_of d)"
  have "take n (cmd_args d) = take n (args_of d)" unfolding args_of_def
    using n by (metis args_of_def append_take_drop_id takeWhile_dropWhile_id take_append diff_is_0_eq' take0 append_Nil2)
  moreover from n have "takeWhile P (drop n xs) = drop n (takeWhile P xs)" if "n \<le> length (takeWhile P xs)" for P and xs :: "mp_cmd_arg_t list"
    using that by (induction xs arbitrary: n) (auto simp: drop_Cons split: nat.splits if_splits)
  ultimately show ?thesis using n by (simp add: args_of_def default_args_def)
qed

lemma first_word:
  assumes "plain_text w" "t = [] \<or> blank (hd t)"
  shows "takeWhile (\<lambda>c. \<not> blank c) (w @ t) = w"
  using assms by (cases t) (auto simp: plain_text_def takeWhile_tail)

lemma show_cmd_chars: "list_all2 of_type ts vs \<Longrightarrow> c \<in> set (concat (List.map (\<lambda>v. CHR '' '' # show_arg v) vs)) \<Longrightarrow> code c \<noteq> 0"
  by (induction ts vs rule: list_all2_induct) (auto dest!: show_arg_plain simp: plain_text_def code_def)

text \<open>C18: A command written with its name and arguments of the right types, at least as many as it needs and at most as many as it has, is read back as that
  command with their values, and the defaults of the table for the rest: ints of 32 bits, numbers in decimal notation (read as the rational number,
  the rounding to a float is not modelled), texts, and texts in quotes, these without blanks, backslashes and the quote itself. There is no such text for the
  argument of dvdnav_event, which has no type that can be written.\<close>

theorem parse_cmd_roundtrip:
  assumes "d \<in> set mp_cmds" "cmd_nargs d \<le> length vs" "list_all2 of_type (List.map fst (take (length vs) (args_of d))) vs"
  shows "\<exists>c. mp_input_parse_cmd (show_cmd d vs) = Some (Some c) \<and> cmd_id c = cmd_id d \<and> cmd_name c = cmd_name d \<and>
    cmd_nargs c = length vs \<and> args_of c = zip (List.map fst (args_of d)) (List.map (\<lambda>v. Some (value_of v)) vs) @ drop (length vs) (args_of d)"
proof -
  note t = table_entry [OF assms(1)]
  let ?n = "length vs" and ?r = "concat (List.map (\<lambda>v. CHR '' '' # show_arg v) vs)"
  have n: "?n \<le> length (args_of d)" using assms(3) by (auto dest!: list_all2_lengthD)
  note sp = args_of_split [OF n]
  have c: "cstr (show_cmd d vs) = cmd_name d @ ?r"
    unfolding show_cmd_def
  proof (rule cstr_id, rule ballI)
    fix c
    assume "c \<in> set (cmd_name d @ ?r)"
    then consider "c \<in> set (cmd_name d)" | "c \<in> set ?r" unfolding set_append by blast
    then show "code c \<noteq> 0" using t(3) show_cmd_chars [OF assms(3)] unfolding plain_text_def by cases blast+
  qed
  have w: "takeWhile (\<lambda>c. \<not> blank c) (cmd_name d @ ?r) = cmd_name d"
    by (rule first_word [OF t(3)]) (cases vs; simp)
  define as where "as = zip (List.map fst (args_of d)) (List.map (\<lambda>v. Some (value_of v)) vs)"
  have "parse_args (cmd_args d) 0 (cmd_name d @ ?r) = zip (List.map fst (take ?n (args_of d))) (List.map (\<lambda>v. Some (value_of v)) vs)"
    using parse_args_show [of vs 0 "cmd_args d"] assms(3) n t(3,4) sp by simp
  then have pa: "parse_args (cmd_args d) 0 (cmd_name d @ ?r) = as" using take_zip [of ?n "List.map fst (args_of d)" "List.map (\<lambda>v. Some (value_of v)) vs"] by (simp add: as_def take_map)
  have la: "length as = ?n" using n by (simp add: as_def)
  have no: "\<forall>a \<in> set (args_of d). fst a \<noteq> - 1" using set_takeWhileD by (fastforce simp: args_of_def)
  then have "\<forall>a \<in> set (as @ drop ?n (args_of d)). fst a \<noteq> - 1" by (fastforce simp: as_def dest!: set_zip_leftD in_set_dropD)
  then have "takeWhile (\<lambda>a. fst a \<noteq> - 1) ((as @ drop ?n (args_of d)) @ [(- 1, None)]) = as @ drop ?n (args_of d)"
    by (subst takeWhile_append2) auto
  then show ?thesis using assms(2) t(1,2,4) sp la n
    by (simp add: mp_input_parse_cmd_def Let_def c w pa args_of_def [of "mp_cmd_t_ext _ _ _ _ _"] as_def [symmetric])
qed

lemma parse_cmd_roundtrip_witness:
  "\<exists>c. mp_input_parse_cmd ''panscan -0.25 -12'' = Some (Some c) \<and> cmd_id c = 24 \<and> cmd_name c = ''panscan'' \<and> cmd_nargs c = 2 \<and>
    args_of c = [(ARG_FLOAT, Some (Float_value (- 1 / 4))), (ARG_INT, Some (Int_value (- 12)))]"
proof -
  let ?d = "cmd_def 24 ''panscan'' 1 [(ARG_FLOAT, Some (Float_value 0)), (ARG_INT, Some (Int_value 0))]"
    and ?ws = "[Decimal_text True 0 [2, 5], Int_text (- 12)]"
  have a: "args_of ?d = [(ARG_FLOAT, Some (Float_value 0)), (ARG_INT, Some (Int_value 0))]" by code_simp
  have s: "show_cmd ?d ?ws = ''panscan -0.25 -12''" by code_simp
  have "?d \<in> set mp_cmds" by (simp add: mp_cmds_def)
  from parse_cmd_roundtrip [OF this, of ?ws, unfolded a s] show ?thesis by (simp add: cmd_def_def numeral_2_eq_2)
qed

section \<open>What the keys do\<close>

lemma bind_matches_iff: "bind_matches input keys \<longleftrightarrow> input = keys"
  by (induction input keys rule: bind_matches.induct) auto

lemma find_bind_map_of: "keys \<noteq> [] \<Longrightarrow> mp_input_find_bind_for_key bs keys = map_of bs keys"
  by (induction bs) (auto simp: mp_input_find_bind_for_key_def bind_matches_iff)

lemma default_keys_distinct: "distinct (List.map fst def_cmd_binds)" "[] \<notin> set (List.map fst def_cmd_binds)"
  by (simp_all add: def_cmd_binds_def)

lemma default_commands_checked:
  "list_all (\<lambda>cmd. if cmd = ''set_menu'' then mp_input_parse_cmd cmd = None
      else (case mp_input_parse_cmd cmd of Some (Some c) \<Rightarrow> args_walk 0 (cmd_args c) | _ \<Rightarrow> False)) (remdups (List.map snd def_cmd_binds))"
  by code_simp

text \<open>Each of the default bindings is reached by its key, and its command is one the parser takes. The exception is
  set_menu on F2: it is written without the menu it needs, and to refuse it the parser frees arguments it has not written.\<close>

theorem default_bindings_work:
  "list_all (\<lambda>(keys, cmd). mp_input_get_cmd_from_keys [] keys = mp_input_parse_cmd cmd \<and>
     (if cmd = ''set_menu'' then mp_input_parse_cmd cmd = None
      else (case mp_input_parse_cmd cmd of Some (Some c) \<Rightarrow> args_walk 0 (cmd_args c) | _ \<Rightarrow> False))) def_cmd_binds"
  unfolding list_all_iff
proof (rule ballI, unfold split_paired_all prod.case, rule conjI)
  fix keys cmd
  assume m: "(keys, cmd) \<in> set def_cmd_binds"
  then have "map_of def_cmd_binds keys = Some cmd" "keys \<noteq> []" using default_keys_distinct by (force simp: rev_image_eqI)+
  then show "mp_input_get_cmd_from_keys [] keys = mp_input_parse_cmd cmd"
    by (simp add: mp_input_get_cmd_from_keys_def find_bind_map_of)
  show "if cmd = ''set_menu'' then mp_input_parse_cmd cmd = None
      else (case mp_input_parse_cmd cmd of Some (Some c) \<Rightarrow> args_walk 0 (cmd_args c) | _ \<Rightarrow> False)"
    using default_commands_checked m unfolding list_all_iff set_remdups set_map by (metis (no_types, lifting) image_eqI snd_conv)
qed

lemma find_bind_bind:
  assumes "keys \<noteq> []"
  shows "mp_input_find_bind_for_key (mp_input_bind_keys binds keys' cmd) keys =
    (if keys = keys' then Some cmd else mp_input_find_bind_for_key binds keys)"
  using assms by (induction binds keys' cmd rule: mp_input_bind_keys.induct)
    (auto simp: mp_input_find_bind_for_key_def bind_matches_iff)

lemma find_bind_fold:
  assumes "keys \<noteq> []"
  shows "mp_input_find_bind_for_key (foldl (\<lambda>bs (k, c). mp_input_bind_keys bs k c) binds settings) keys =
    (case map_of (rev settings) keys of Some cmd \<Rightarrow> Some cmd | None \<Rightarrow> mp_input_find_bind_for_key binds keys)"
  using find_bind_bind [OF assms]
  by (induction settings arbitrary: binds) (auto simp: map_of_append map_add_def split: option.splits)

text \<open>C25: A configuration is a map from combinations of keys to commands: whatever bindings are made, in whatever order
  and however often, a combination has the command it was bound to last, and one that was not bound has its default.\<close>

theorem user_bindings_override:
  assumes "keys \<noteq> []"
  shows "mp_input_get_cmd_from_keys (foldl (\<lambda>bs (k, c). mp_input_bind_keys bs k c) [] settings) keys =
    (case map_of (rev settings) keys of
       Some cmd \<Rightarrow> mp_input_parse_cmd cmd
     | None \<Rightarrow> (case map_of def_cmd_binds keys of Some cmd \<Rightarrow> mp_input_parse_cmd cmd | None \<Rightarrow> Some None))"
  using find_bind_fold [OF assms, of "[]" settings] find_bind_map_of [OF assms]
  by (auto simp: mp_input_get_cmd_from_keys_def split: option.splits)

lemma user_bindings_override_witness:
  "mp_input_get_cmd_from_keys (foldl (\<lambda>bs (k, c). mp_input_bind_keys bs k c) []
     [([113], ''pause''), ([256, 97], ''mute''), ([113], ''quit'')]) [113] = mp_input_parse_cmd ''quit''"
  using user_bindings_override [of "[113]" "[([113], ''pause''), ([256, 97], ''mute''), ([113], ''quit'')]"] by simp

section \<open>Names of keys\<close>

text \<open>A combination of up to 32 keys, written with their names and dashes between, is read as these keys in this order.\<close>

theorem key_names_join:
  assumes "ns \<noteq> []" "length ns \<le> MP_MAX_KEY_DOWN" "\<forall>n \<in> set ns. CHR ''-'' \<notin> set n \<and> 0 \<le> mp_input_get_key_from_name n"
  shows "mp_input_get_input_from_name (hd ns @ concat (List.map ((#) CHR ''-'') (tl ns))) = Some (List.map mp_input_get_key_from_name ns)"
proof -
  have ne: "n \<noteq> []" if "0 \<le> mp_input_get_key_from_name n" for n
  proof
    assume "n = []"
    moreover have "mp_input_get_key_from_name [] = - 1" by code_simp
    ultimately show False using that by simp
  qed
  have "input_names i (n @ concat (List.map ((#) CHR ''-'') ms)) = Some (List.map mp_input_get_key_from_name (n # ms))"
    if "i + length (n # ms) \<le> MP_MAX_KEY_DOWN" "\<forall>m \<in> set (n # ms). CHR ''-'' \<notin> set m \<and> 0 \<le> mp_input_get_key_from_name m" for i n ms
    using that
  proof (induction ms arbitrary: i n)
    case Nil
    then have "takeWhile (\<lambda>c. c \<noteq> CHR ''-'') n = n" "dropWhile (\<lambda>c. c \<noteq> CHR ''-'') n = []"
      by (auto simp: takeWhile_eq_all_conv)
    then show ?case using Nil by (subst input_names.simps) (simp del: takeWhile_eq_all_conv dropWhile_eq_Nil_conv)
  next
    case (Cons m ms)
    let ?r = "concat (List.map ((#) CHR ''-'') ms)"
    have m: "m \<noteq> []" "CHR ''-'' \<notin> set m" using Cons.prems ne by auto
    then obtain c cs where c: "m = c # cs" "c \<noteq> CHR ''-''" by (cases m) auto
    have n: "\<forall>x \<in> set n. x \<noteq> CHR ''-''" using Cons.prems by auto
    have "takeWhile (\<lambda>c. c \<noteq> CHR ''-'') (n @ CHR ''-'' # m @ ?r) = n"
      "dropWhile (\<lambda>c. c \<noteq> CHR ''-'') (n @ CHR ''-'' # m @ ?r) = CHR ''-'' # m @ ?r"
      using n by (simp_all add: takeWhile_tail dropWhile_append)
    moreover note Cons.IH [of "i + 1" m] Cons.prems c
    ultimately show ?case by (subst input_names.simps) simp
  qed
  from this [of 0 "hd ns" "tl ns"] show ?thesis using assms by (simp add: mp_input_get_input_from_name_def)
qed

lemma key_names_join_witness: "mp_input_get_input_from_name ''ctrl-F1-x'' = Some [256, 321, 120]"
proof -
  have k: "mp_input_get_key_from_name ''ctrl'' = 256" "mp_input_get_key_from_name ''F1'' = 321" "mp_input_get_key_from_name ''x'' = 120"
    by code_simp+
  show ?thesis using key_names_join [of "[''ctrl'', ''F1'', ''x'']"] k by (simp add: MP_MAX_KEY_DOWN_def)
qed

section \<open>What goes wrong\<close>

text \<open>Examples of commands the parser does not take as they are meant. A quoted argument with a blank is split again from
  inside: set_menu gets its rest as a second argument. Its backslashes are removed from the line and not from the argument. An
  argument without its closing quote is left unwritten but counted, and the next who frees or copies the command uses it.
  Too few arguments are refused by freeing memory that has not been written. A name too short to be one command is the
  first that starts with it. Two keys of the keypad cannot be named, since their names stand twice in the table, and no key
  but the first of a combination can be the dash.\<close>

lemma input_cmd_faults:
  "map_option (map_option args_of) (mp_input_parse_cmd ''set_menu \"a b\"'') =
     Some (Some [(ARG_STRING, Some (String_value (Some ''a b''))), (ARG_STRING, Some (String_value (Some [CHR ''b'', CHR 0x22])))]) \<and>
   map_option (map_option args_of) (mp_input_parse_cmd [CHR ''m'', CHR ''e'', CHR ''n'', CHR ''u'', CHR '' '', CHR 0x22, CHR ''a'', CHR 0x5C, CHR 0x22, CHR 0x22]) =
     Some (Some [(ARG_STRING, Some (String_value (Some [CHR ''a'', CHR 0x5C, CHR 0x22])))]) \<and>
   (\<exists>c. mp_input_parse_cmd ''menu \"a'' = Some (Some c) \<and> cmd_nargs c = 1 \<and> mp_cmd_free c = None \<and> mp_cmd_clone c = None) \<and>
   mp_input_parse_cmd ''seek'' = None \<and>
   mp_input_parse_cmd ''s 5'' = mp_input_parse_cmd ''seek 5'' \<and>
   (298, ''KP_DEL'') \<in> set key_names \<and>
   mp_input_get_key_from_name ''KP_DEL'' = 300 \<and>
   (299, ''KP0'') \<in> set key_names \<and>
   mp_input_get_key_from_name ''KP0'' = 288 \<and>
   mp_input_get_input_from_name ''--a'' = Some [45, 97] \<and>
   mp_input_get_input_from_name ''a--'' = None"
proof (intro conjI)
  show "\<exists>c. mp_input_parse_cmd ''menu \"a'' = Some (Some c) \<and> cmd_nargs c = 1 \<and> mp_cmd_free c = None \<and> mp_cmd_clone c = None"
    by (rule exI [where x = "\<lparr>cmd_id = 32, cmd_name = ''menu'', cmd_nargs = 1, cmd_args = [(ARG_STRING, None), (- 1, None)]\<rparr>"]) code_simp
qed code_simp+

text \<open>A quoted text with a blank is split again. Whatever the two parts are, the first argument of set_menu is the text as it was meant, but the search
  for the second one starts at the blank in it: the rest of the text, with its closing quote, becomes the second argument.\<close>

theorem quoted_blank_splits:
  assumes "plain_text u" "plain_text v" "v \<noteq> []" "\<not> quote (hd v)" "quote q" "q \<notin> set u \<union> set v"
  shows "\<exists>c. mp_input_parse_cmd (''set_menu '' @ q # u @ CHR '' '' # v @ [q]) = Some (Some c) \<and> cmd_name c = ''set_menu'' \<and>
    args_of c = [(ARG_STRING, Some (String_value (Some (u @ CHR '' '' # v)))), (ARG_STRING, Some (String_value (Some (v @ [q]))))]"
proof -
  let ?d = "cmd_def 33 ''set_menu'' 1 [(ARG_STRING, Some (String_value None)), (ARG_STRING, Some (String_value None))]"
    and ?s = "''set_menu '' @ q # u @ CHR '' '' # v @ [q]"
  have n: "CHR '' '' \<notin> set u" "CHR 0x5C \<notin> set u" "CHR '' '' \<notin> set v" "CHR 0x5C \<notin> set v" using plain_text_no assms(1,2) by blast+
  have q: "q \<noteq> CHR 0x5C" "\<not> blank q" "code q \<noteq> 0" "q \<noteq> CHR '' ''" "plain_text [q]" using assms(5) by (auto simp: blank_def code_def)
  have c: "cstr ?s = ?s" using assms(1,2) q(3) by (intro cstr_id) (auto simp: plain_text_def code_def)
  have w: "takeWhile (\<lambda>c. \<not> blank c) ?s = ''set_menu''" by (simp add: blank_def code_def)
  have f: "find_cmd ''set_menu'' = Some ?d" by code_simp
  have e: "unescape (u @ CHR '' '' # v @ [q]) = u @ CHR '' '' # v @ [q]" "unescape (v @ [q]) = v @ [q]" using n q(1) by (auto intro!: unescape_id)
  have a1: "parse_arg ARG_STRING (q # u @ CHR '' '' # v @ [q]) = (Some (String_value (Some (u @ CHR '' '' # v))), Some (q # u @ CHR '' '' # v @ [q]))"
    using arg_length_quoted [of q "u @ CHR '' '' # v" "[]"] assms(5,6) n q e(1) by (auto simp: parse_arg_def Let_def)
  have v: "hd (v @ [q]) = hd v" using assms(3) by simp
  have a2: "parse_arg ARG_STRING (v @ [q]) = (Some (String_value (Some (v @ [q]))), Some (v @ [q]))"
    using arg_length_end [of "v @ [q]" "[]"] n q e(2) assms(4) unfolding parse_arg_def Let_def v by simp
  have "\<forall>c \<in> set (q # u). c \<noteq> CHR '' ''" using n(1) q(4) by auto
  then have skip: "dropWhile (\<lambda>c. c \<noteq> CHR '' '') (q # u @ CHR '' '' # v @ [q]) = CHR '' '' # v @ [q]"
    using dropWhile_append2 [of "q # u" "\<lambda>c. c \<noteq> CHR '' ''" "CHR '' '' # v @ [q]"] by simp
  have b: "dropWhile blank (CHR '' '' # v @ [q]) = v @ [q]" using assms(2,3) by (cases v) auto
  obtain d ds where d: "v @ [q] = d # ds" by (cases "v @ [q]") auto
  have "dropWhile (\<lambda>c. c \<noteq> CHR '' '') (v @ [q]) = []" using n(3) q(4) by (auto simp: dropWhile_eq_Nil_conv)
  then have p3: "parse_args (cmd_args ?d) 2 (v @ [q]) = []" by (subst parse_args.simps) simp
  have p2: "parse_args (cmd_args ?d) 1 (q # u @ CHR '' '' # v @ [q]) = [(ARG_STRING, Some (String_value (Some (v @ [q]))))]"
    using p3 a2 by (subst parse_args.simps, unfold skip, unfold b, unfold d) (simp add: cmd_def_def MP_CMD_MAX_ARGS_def numeral_2_eq_2)
  have p1: "parse_args (cmd_args ?d) 0 ?s = [(ARG_STRING, Some (String_value (Some (u @ CHR '' '' # v)))), (ARG_STRING, Some (String_value (Some (v @ [q]))))]"
    using p2 a1 q(2) by (subst parse_args.simps) (simp add: cmd_def_def MP_CMD_MAX_ARGS_def)
  show ?thesis unfolding mp_input_parse_cmd_def Let_def c w f using p1
    by (simp add: cmd_def_def default_args_def args_of_def MP_CMD_MAX_ARGS_def)
qed

lemma quoted_blank_splits_witness:
  "\<exists>c. mp_input_parse_cmd ''set_menu \"a b\"'' = Some (Some c) \<and>
     args_of c = [(ARG_STRING, Some (String_value (Some ''a b''))), (ARG_STRING, Some (String_value (Some [CHR ''b'', CHR 0x22])))]"
  using quoted_blank_splits [of "''a''" "''b''" "CHR 0x22"] by (auto simp: blank_def code_def)

text \<open>A text without its closing quote. Whatever it is, the command menu is returned with one argument that has not been written, and
  the next who frees or copies the command uses it as a pointer.\<close>

theorem unterminated_quote_unwritten:
  assumes "quote q" "q \<notin> set s" "\<forall>c \<in> set s. code c \<noteq> 0"
  shows "\<exists>c. mp_input_parse_cmd (''menu '' @ q # s) = Some (Some c) \<and> cmd_nargs c = 1 \<and> mp_cmd_free c = None \<and> mp_cmd_clone c = None"
proof -
  let ?d = "cmd_def 32 ''menu'' 1 [(ARG_STRING, Some (String_value None))]" and ?s = "''menu '' @ q # s"
  have q: "\<not> blank q" "code q \<noteq> 0" using assms(1) by (auto simp: blank_def code_def)
  have c: "cstr ?s = ?s" using assms(3) q(2) by (intro cstr_id) (auto simp: code_def)
  have w: "takeWhile (\<lambda>c. \<not> blank c) ?s = ''menu''" by (simp add: blank_def code_def)
  have f: "find_cmd ''menu'' = Some ?d" by code_simp
  have "arg_length q e s = None" for e using assms(2) by (induction s arbitrary: e) auto
  then have a: "parse_arg ARG_STRING (q # s) = (None, None)" using assms(1) by (auto simp: parse_arg_def Let_def)
  have p: "parse_args (cmd_args ?d) 0 ?s = [(ARG_STRING, None)]"
    using a q(1) by (subst parse_args.simps) (simp add: cmd_def_def MP_CMD_MAX_ARGS_def)
  show ?thesis unfolding mp_input_parse_cmd_def Let_def c w f using p
    by (simp add: cmd_def_def default_args_def MP_CMD_MAX_ARGS_def mp_cmd_free_def mp_cmd_clone_def args_walk.simps)
qed

lemma unterminated_quote_unwritten_witness:
  "\<exists>c. mp_input_parse_cmd ''menu \"a b'' = Some (Some c) \<and> cmd_nargs c = 1 \<and> mp_cmd_free c = None \<and> mp_cmd_clone c = None"
  using unterminated_quote_unwritten [of "CHR 0x22" "''a b''"] by (simp add: code_def)

end
