(* ===== verification/InputState.thy ===== *)
theory InputState
  imports InputCmd
begin

text \<open>
  The state of the input system (mplayerxp/input2/input.cpp, libinput_t): its drivers of keys and of commands and the queue
  of commands the player puts back. The queue is shown to be a queue of up to a hundred commands.
\<close>

section \<open>Drivers\<close>

text \<open>
  What a driver is going to answer is part of its state: a list of key codes, or of texts and errors. A driver with
  no answer left says that there is nothing.
\<close>

definition MP_INPUT_ERROR :: int where "MP_INPUT_ERROR = - 1"
definition MP_INPUT_DEAD :: int where "MP_INPUT_DEAD = - 2"
definition MP_INPUT_NOTHING :: int where "MP_INPUT_NOTHING = - 3"

lemmas input_codes = MP_INPUT_ERROR_def MP_INPUT_DEAD_def MP_INPUT_NOTHING_def

record key_fd =
  kf_opaque :: nat
  kf_dead :: bool
  kf_answers :: "int list"

text \<open>An answer of no text is the end of the file. The buffer has 256 characters; it holds those read.\<close>

datatype cmd_answer = Data string | Failed int

record cmd_fd =
  cf_opaque :: nat
  cf_eof :: bool
  cf_drop :: bool
  cf_dead :: bool
  cf_got_cmd :: bool
  cf_buffer :: string
  cf_answers :: "cmd_answer list"

text \<open>
  A filter is called with a command, whether the player is paused and its context; it has a state of its own (vf_menu.cpp waits with a pause, for
  instance). The context is an address, and the state of all filters is what they find in memory, there and elsewhere.
\<close>

type_synonym filter_memory = "nat \<Rightarrow> int"
type_synonym mp_input_cmd_filter = "mp_cmd_t \<Rightarrow> bool \<Rightarrow> nat \<Rightarrow> filter_memory \<Rightarrow> bool \<times> filter_memory"

record mp_cmd_filter_t =
  cf_filter :: mp_input_cmd_filter
  cf_ctx :: nat

text \<open>The filters in turn, up to one that takes the command.\<close>

fun run_filters :: "mp_cmd_filter_t list \<Rightarrow> mp_cmd_t \<Rightarrow> bool \<Rightarrow> filter_memory \<Rightarrow> bool \<times> filter_memory" where
  "run_filters [] c paused mem = (False, mem)"
| "run_filters (cf # cfs) c paused mem = (case cf_filter cf c paused (cf_ctx cf) mem of
       (taken, mem) \<Rightarrow> if taken then (True, mem) else run_filters cfs c paused mem)"

record libinput_t =
  cmd_binds :: "mp_cmd_bind_t list"
  cmd_filters :: "mp_cmd_filter_t list"
  filter_mem :: filter_memory
  key_fds :: "key_fd list"
  cmd_fds :: "cmd_fd list"
  cmd_queue :: "mp_cmd_t option list"
  cmd_queue_length :: nat
  cmd_queue_start :: nat
  cmd_queue_end :: nat
  key_down :: "int list"
  last_key_down :: u32
  ar_state :: int
  ar_cmd :: "mp_cmd_t option"
  last_ar :: u32
  ticks :: nat

text \<open>The field \<open>filter_mem\<close> is the memory the filters work on. The field \<open>ticks\<close> is not in the code: it counts the readings of the clock, so that time can be a function of it.\<close>

definition MP_MAX_KEY_FD :: nat where "MP_MAX_KEY_FD = 10"
definition MP_MAX_CMD_FD :: nat where "MP_MAX_CMD_FD = 10"
definition CMD_QUEUE_SIZE :: nat where "CMD_QUEUE_SIZE = 100"

text \<open>The state as mp_input_open makes it, before the drivers are added.\<close>

definition mp_input_open :: libinput_t where
  "mp_input_open = \<lparr>cmd_binds = [], cmd_filters = [], filter_mem = (\<lambda>a. 0), key_fds = [], cmd_fds = [], cmd_queue = replicate CMD_QUEUE_SIZE None,
     cmd_queue_length = 0, cmd_queue_start = 0, cmd_queue_end = 0, key_down = [], last_key_down = 0, ar_state = - 1,
     ar_cmd = None, last_ar = 0, ticks = 0\<rparr>"

definition mp_input_add_key_fd :: "libinput_t \<Rightarrow> nat \<Rightarrow> int list \<Rightarrow> libinput_t option" where
  "mp_input_add_key_fd priv opaque answers =
     (if length (key_fds priv) = MP_MAX_KEY_FD then None
      else Some (priv\<lparr>key_fds := key_fds priv @ [\<lparr>kf_opaque = opaque, kf_dead = False, kf_answers = answers\<rparr>]\<rparr>))"

definition mp_input_add_cmd_fd :: "libinput_t \<Rightarrow> nat \<Rightarrow> cmd_answer list \<Rightarrow> libinput_t option" where
  "mp_input_add_cmd_fd priv opaque answers =
     (if length (cmd_fds priv) = MP_MAX_CMD_FD then None
      else Some (priv\<lparr>cmd_fds := cmd_fds priv @ [\<lparr>cf_opaque = opaque, cf_eof = False, cf_drop = False, cf_dead = False,
        cf_got_cmd = False, cf_buffer = [], cf_answers = answers\<rparr>]\<rparr>))"

text \<open>The first driver with this handle is removed, the others move up.\<close>

fun mp_input_rm_key_fd :: "key_fd list \<Rightarrow> nat \<Rightarrow> key_fd list" where
  "mp_input_rm_key_fd [] opaque = []"
| "mp_input_rm_key_fd (f # fs) opaque = (if kf_opaque f = opaque then fs else f # mp_input_rm_key_fd fs opaque)"

fun mp_input_rm_cmd_fd :: "cmd_fd list \<Rightarrow> nat \<Rightarrow> cmd_fd list" where
  "mp_input_rm_cmd_fd [] opaque = []"
| "mp_input_rm_cmd_fd (f # fs) opaque = (if cf_opaque f = opaque then fs else f # mp_input_rm_cmd_fd fs opaque)"

lemma length_rm_key_fd: "f \<in> set fs \<Longrightarrow> length fs = Suc (length (mp_input_rm_key_fd fs (kf_opaque f)))"
  by (induction fs) auto

lemma length_rm_cmd_fd: "f \<in> set fs \<Longrightarrow> length fs = Suc (length (mp_input_rm_cmd_fd fs (cf_opaque f)))"
  by (induction fs) auto

text \<open>A filter is put in front of the others.\<close>

definition mp_input_add_cmd_filter :: "libinput_t \<Rightarrow> mp_input_cmd_filter \<Rightarrow> nat \<Rightarrow> libinput_t" where
  "mp_input_add_cmd_filter priv func ctx = priv\<lparr>cmd_filters := \<lparr>cf_filter = func, cf_ctx = ctx\<rparr> # cmd_filters priv\<rparr>"

section \<open>The queue\<close>

definition mp_input_queue_cmd :: "libinput_t \<Rightarrow> mp_cmd_t \<Rightarrow> bool \<times> libinput_t" where
  "mp_input_queue_cmd priv cmd =
     (if CMD_QUEUE_SIZE \<le> cmd_queue_length priv then (False, priv)
      else (True, priv\<lparr>cmd_queue := (cmd_queue priv)[cmd_queue_end priv := Some cmd],
        cmd_queue_end := (cmd_queue_end priv + 1) mod CMD_QUEUE_SIZE,
        cmd_queue_length := cmd_queue_length priv + 1\<rparr>))"

definition mp_input_get_queued_cmd :: "libinput_t \<Rightarrow> bool \<Rightarrow> mp_cmd_t option \<times> libinput_t" where
  "mp_input_get_queued_cmd priv peek_only =
     (if cmd_queue_length priv = 0 then (None, priv)
      else (cmd_queue priv ! cmd_queue_start priv,
        if peek_only then priv
        else priv\<lparr>cmd_queue_length := cmd_queue_length priv - 1, cmd_queue_start := (cmd_queue_start priv + 1) mod CMD_QUEUE_SIZE\<rparr>))"

text \<open>The commands in the queue, and what holds between calls.\<close>

definition queued_cmds :: "libinput_t \<Rightarrow> mp_cmd_t list" where
  "queued_cmds priv = List.map (\<lambda>i. the (cmd_queue priv ! ((cmd_queue_start priv + i) mod CMD_QUEUE_SIZE))) [0..<cmd_queue_length priv]"

definition cmd_queue_ok :: "libinput_t \<Rightarrow> bool" where
  "cmd_queue_ok priv \<longleftrightarrow> length (cmd_queue priv) = CMD_QUEUE_SIZE \<and> cmd_queue_length priv \<le> CMD_QUEUE_SIZE \<and>
     cmd_queue_start priv < CMD_QUEUE_SIZE \<and> cmd_queue_end priv = (cmd_queue_start priv + cmd_queue_length priv) mod CMD_QUEUE_SIZE \<and>
     (\<forall>i < cmd_queue_length priv. cmd_queue priv ! ((cmd_queue_start priv + i) mod CMD_QUEUE_SIZE) \<noteq> None)"

lemma cmd_queue_ok_open [simp]: "cmd_queue_ok mp_input_open" "queued_cmds mp_input_open = []"
  by (simp_all add: cmd_queue_ok_def queued_cmds_def mp_input_open_def CMD_QUEUE_SIZE_def)

lemma length_queued [simp]: "length (queued_cmds priv) = cmd_queue_length priv"
  by (simp add: queued_cmds_def)

lemma queue_cmd_law:
  assumes "cmd_queue_ok priv" "mp_input_queue_cmd priv cmd = (True, priv')"
  shows "cmd_queue_ok priv' \<and> queued_cmds priv' = queued_cmds priv @ [cmd]"
proof -
  let ?n = CMD_QUEUE_SIZE and ?l = "cmd_queue_length priv" and ?s = "cmd_queue_start priv"
  have p: "?l < ?n" "priv' = priv\<lparr>cmd_queue := (cmd_queue priv)[cmd_queue_end priv := Some cmd],
        cmd_queue_end := (cmd_queue_end priv + 1) mod ?n, cmd_queue_length := ?l + 1\<rparr>"
    using assms(2) by (auto simp: mp_input_queue_cmd_def split: if_splits)
  have e: "cmd_queue_end priv = (?s + ?l) mod ?n" "?s < ?n" "length (cmd_queue priv) = ?n" using assms(1) by (auto simp: cmd_queue_ok_def)
  have other: "(?s + i) mod ?n \<noteq> (?s + ?l) mod ?n" if "i < ?l" for i
    using mod_eq_close [of "?s + i" ?n "?s + ?l"] that p(1) by auto
  have at: "(cmd_queue priv)[cmd_queue_end priv := Some cmd] ! ((?s + i) mod ?n) =
      (if i < ?l then cmd_queue priv ! ((?s + i) mod ?n) else Some cmd)" if "i < ?l + 1" for i
    using that other [of i] e by (cases "i = ?l") (auto simp: nth_list_update)
  have "queued_cmds priv' = queued_cmds priv @ [cmd]" using at by (auto simp: p(2) queued_cmds_def)
  moreover have "(cmd_queue_end priv + 1) mod ?n = (?s + (?l + 1)) mod ?n" by (simp add: e mod_Suc_eq)
  ultimately show ?thesis using assms(1) p at by (auto simp: cmd_queue_ok_def)
qed

lemma get_queued_law:
  assumes "cmd_queue_ok priv"
  shows "case mp_input_get_queued_cmd priv False of
      (None, priv') \<Rightarrow> priv' = priv \<and> queued_cmds priv = []
    | (Some c, priv') \<Rightarrow> cmd_queue_ok priv' \<and> queued_cmds priv = c # queued_cmds priv'"
proof (cases "cmd_queue_length priv = 0")
  case True
  then show ?thesis by (simp add: mp_input_get_queued_cmd_def queued_cmds_def)
next
  case False
  let ?n = CMD_QUEUE_SIZE and ?l = "cmd_queue_length priv" and ?s = "cmd_queue_start priv"
  have l: "[0..<?l] = 0 # List.map Suc [0..<?l - 1]" using False by (simp add: map_Suc_upt upt_conv_Cons)
  have s: "?s < ?n" "0 < ?n" using assms by (auto simp: cmd_queue_ok_def)
  obtain c where c: "cmd_queue priv ! ?s = Some c" using assms False s by (fastforce simp: cmd_queue_ok_def)
  have "queued_cmds priv = c # List.map (\<lambda>i. the (cmd_queue priv ! ((?s + Suc i) mod ?n))) [0..<?l - 1]"
    unfolding queued_cmds_def l using c s by simp
  moreover have m: "((?s + 1) mod ?n + i) mod ?n = (?s + Suc i) mod ?n" for i by (simp add: mod_simps)
  ultimately have "queued_cmds priv = c # queued_cmds (priv\<lparr>cmd_queue_length := ?l - 1, cmd_queue_start := (?s + 1) mod ?n\<rparr>)"
    by (simp add: queued_cmds_def)
  moreover have "(?s + ?l) mod ?n = ((?s + 1) mod ?n + (?l - 1)) mod ?n" unfolding m using False by simp
  moreover have "\<forall>i < ?l - 1. cmd_queue priv ! (((?s + 1) mod ?n + i) mod ?n) \<noteq> None"
    unfolding m using assms False unfolding cmd_queue_ok_def by (metis Suc_less_eq Suc_pred neq0_conv One_nat_def)
  moreover have "?l - 1 \<le> ?n" using assms by (auto simp: cmd_queue_ok_def)
  ultimately show ?thesis using assms False s c by (simp add: mp_input_get_queued_cmd_def cmd_queue_ok_def)
qed

text \<open>The interface of the prelude.\<close>

definition queue_put :: "mp_cmd_t list \<Rightarrow> libinput_t \<Rightarrow> libinput_t option" where
  "queue_put cs priv = (case cs of [c] \<Rightarrow> (case mp_input_queue_cmd priv c of (ok, priv') \<Rightarrow> if ok then Some priv' else None) | _ \<Rightarrow> None)"

definition queue_get :: "unit \<Rightarrow> libinput_t \<Rightarrow> (mp_cmd_t list \<times> libinput_t) option" where
  "queue_get u priv = (case mp_input_get_queued_cmd priv False of (None, priv') \<Rightarrow> None | (Some c, priv') \<Rightarrow> Some ([c], priv'))"

interpretation cmd_fifo: fifo_refinement cmd_queue_ok queued_cmds queue_put queue_get
proof
  show "cmd_queue_ok q' \<and> queued_cmds q' = queued_cmds q @ xs" if "cmd_queue_ok q" "queue_put xs q = Some q'" for q xs q'
    using that queue_cmd_law [of q "hd xs" q'] by (auto simp: queue_put_def split: list.splits prod.splits if_splits)
  show "cmd_queue_ok q' \<and> queued_cmds q = ys @ queued_cmds q'" if "cmd_queue_ok q" "queue_get r q = Some (ys, q')" for q r ys q'
    using that get_queued_law [OF that(1)] by (auto simp: queue_get_def split: prod.splits option.splits)
qed

text \<open>Looking at a command does not change the queue.\<close>

lemma peek_queued:
  assumes "cmd_queue_ok priv"
  shows "mp_input_get_queued_cmd priv True = ((case queued_cmds priv of [] \<Rightarrow> None | c # cs \<Rightarrow> Some c), priv)"
  using get_queued_law [OF assms] by (auto simp: mp_input_get_queued_cmd_def split: if_splits list.splits option.splits)

end
