(* ===== verification/InputKeys.thy ===== *)
theory InputKeys
  imports InputState "HOL-Library.Multiset"
begin

text \<open>
  From keys to commands (mp_input_read_keys in mplayerxp/input2/input.cpp): the keys that are down, the command of
  a combination when one of them is released, and the repetition of a command while its keys are held.
\<close>

section \<open>Reading key codes\<close>

definition read_key_fd :: "key_fd \<Rightarrow> int \<times> key_fd" where
  "read_key_fd f = (case kf_answers f of [] \<Rightarrow> (MP_INPUT_NOTHING, f) | c # cs \<Rightarrow> (c, f\<lparr>kf_answers := cs\<rparr>))"

text \<open>The drivers marked as dead are removed; the index stays where one was.\<close>

function remove_dead :: "nat \<Rightarrow> key_fd list \<Rightarrow> key_fd list" where
  "remove_dead i fds = (if i < length fds then
     (if kf_dead (fds ! i) then remove_dead i (mp_input_rm_key_fd fds (kf_opaque (fds ! i))) else remove_dead (i + 1) fds) else fds)"
  by pat_completeness auto
termination
proof (relation "measure (\<lambda>(i, fds). length fds - i)")
  show "((i, mp_input_rm_key_fd fds (kf_opaque (fds ! i))), i, fds) \<in> measure (\<lambda>(i, fds). length fds - i)"
    if "i < length fds" for i and fds :: "key_fd list"
    using that length_rm_key_fd [of "fds ! i" fds] by simp
qed auto

text \<open>The first driver that has a key; one that says it is dead is removed, and the next one is then left out.\<close>

function poll_keys :: "nat \<Rightarrow> key_fd list \<Rightarrow> int \<times> key_fd list" where
  "poll_keys i fds =
     (if i < length fds then
        (case read_key_fd (fds ! i) of (key, f) \<Rightarrow>
           if 0 \<le> key then (key, fds[i := f])
           else if key = MP_INPUT_DEAD then poll_keys (i + 1) (mp_input_rm_key_fd (fds[i := f]) (kf_opaque f))
           else poll_keys (i + 1) (fds[i := f]))
      else (MP_INPUT_NOTHING, fds))"
  by pat_completeness auto
termination
proof (relation "measure (\<lambda>(i, fds). length fds - i)")
  show "((i + 1, mp_input_rm_key_fd (fds[i := f]) (kf_opaque f)), i, fds) \<in> measure (\<lambda>(i, fds). length fds - i)"
    if "i < length fds" for i f and fds :: "key_fd list"
    using that length_rm_key_fd [of f "fds[i := f]"] by (simp add: set_update_memI)
qed auto

declare remove_dead.simps [simp del] poll_keys.simps [simp del]

definition mp_input_read_key_code :: "key_fd list \<Rightarrow> int \<times> key_fd list" where
  "mp_input_read_key_code fds = (if fds = [] then (MP_INPUT_NOTHING, fds) else poll_keys 0 (remove_dead 0 fds))"

text \<open>What is left to read decreases with each key.\<close>

definition keys_left :: "key_fd list \<Rightarrow> nat" where
  "keys_left fds = sum_list (List.map (\<lambda>f. length (kf_answers f)) fds)"

lemma keys_left_rm: "keys_left (mp_input_rm_key_fd fds op) \<le> keys_left fds"
  by (induction fds) (auto simp: keys_left_def)

lemma keys_left_update: "i < length fds \<Longrightarrow> read_key_fd (fds ! i) = (c, f) \<Longrightarrow>
    keys_left (fds[i := f]) \<le> keys_left fds \<and> (0 \<le> c \<longrightarrow> keys_left (fds[i := f]) < keys_left fds)"
  by (induction fds arbitrary: i) (auto simp: keys_left_def read_key_fd_def input_codes nth_Cons split: nat.splits list.splits)

lemma keys_left_dead: "keys_left (remove_dead i fds) \<le> keys_left fds"
proof (induction i fds rule: remove_dead.induct)
  case (1 i fds)
  then show ?case using keys_left_rm [of fds "kf_opaque (fds ! i)"] by (subst remove_dead.simps) (auto intro: order_trans)
qed

lemma keys_left_poll: "poll_keys i fds = (c, fds') \<Longrightarrow> keys_left fds' \<le> keys_left fds \<and> (0 \<le> c \<longrightarrow> keys_left fds' < keys_left fds)"
proof (induction i fds rule: poll_keys.induct)
  case (1 i fds)
  show ?case
  proof (cases "i < length fds")
    case True
    obtain d f where d: "read_key_fd (fds ! i) = (d, f)" by (cases "read_key_fd (fds ! i)")
    note u = keys_left_update [OF True d] keys_left_rm [of "fds[i := f]" "kf_opaque f"]
    have "(if 0 \<le> d then (d, fds[i := f])
           else if d = MP_INPUT_DEAD then poll_keys (i + 1) (mp_input_rm_key_fd (fds[i := f]) (kf_opaque f))
           else poll_keys (i + 1) (fds[i := f])) = (c, fds')"
      using 1(3) True d by (subst (asm) poll_keys.simps) simp
    then show ?thesis using 1(1) [OF True d [symmetric]] 1(2) [OF True d [symmetric]] True d u
      by (auto split: if_splits)
  next
    case False
    then show ?thesis using 1(3) by (subst (asm) poll_keys.simps) (auto simp: input_codes)
  qed
qed

lemma keys_left_read:
  assumes "mp_input_read_key_code fds = (c, fds')"
  shows "keys_left fds' \<le> keys_left fds" "0 \<le> c \<Longrightarrow> keys_left fds' < keys_left fds"
proof -
  show "keys_left fds' \<le> keys_left fds" "0 \<le> c \<Longrightarrow> keys_left fds' < keys_left fds"
    using assms keys_left_poll [of 0 "remove_dead 0 fds" c fds'] keys_left_dead [of 0 fds]
    by (auto simp: mp_input_read_key_code_def input_codes split: if_splits)
qed

section \<open>Keys going down and up\<close>

text \<open>Bit 29 of a code (MP_KEY_DOWN) says that the key goes down; bit 28 (MP_NO_REPEAT_KEY) that it does not repeat.\<close>

text \<open>
  None: a key is written behind the end of the array. The guard of the code refuses keys when more than 32 are down, one too late.
\<close>

definition key_pressed :: "(nat \<Rightarrow> u32) \<Rightarrow> int \<Rightarrow> libinput_t \<Rightarrow> libinput_t option" where
  "key_pressed clock key priv =
     (if MP_MAX_KEY_DOWN < length (key_down priv) then Some priv
      else let key = unset_bit 29 key in
        if key \<in> set (key_down priv) then Some priv
        else if length (key_down priv) = MP_MAX_KEY_DOWN then None
        else Some (priv\<lparr>key_down := key_down priv @ [key], last_key_down := clock (ticks priv), ticks := ticks priv + 1, ar_state := 0\<rparr>))"

text \<open>
  A key that is released without having gone down goes down first. The combination gives its command only to the first key
  released after one went down.
\<close>

definition key_released :: "int \<Rightarrow> libinput_t \<Rightarrow> (mp_cmd_t option \<times> libinput_t) option" where
  "key_released key priv =
     (let j = length (takeWhile (\<lambda>k. k \<noteq> key) (key_down priv)); absent = (j = length (key_down priv)) in
      if absent \<and> MP_MAX_KEY_DOWN < j then Some (None, priv)
      else if absent \<and> j = MP_MAX_KEY_DOWN then None
      else
        let priv = (if absent then priv\<lparr>key_down := key_down priv @ [key], last_key_down := 1\<rparr> else priv) in
        (case if last_key_down priv \<noteq> 0 then mp_input_get_cmd_from_keys (cmd_binds priv) (key_down priv) else Some None of
           None \<Rightarrow> None
         | Some ret \<Rightarrow>
            let priv = priv\<lparr>key_down := take j (key_down priv) @ drop (j + 1) (key_down priv), last_key_down := 0, ar_state := - 1\<rparr> in
            (case ar_cmd priv of
               None \<Rightarrow> Some (ret, priv)
             | Some c \<Rightarrow> (case mp_cmd_free c of None \<Rightarrow> None | Some u \<Rightarrow> Some (ret, priv\<lparr>ar_cmd := None\<rparr>)))))"

lemma pressed_fds: "key_pressed clock key priv = Some priv' \<Longrightarrow> key_fds priv' = key_fds priv"
  by (auto simp: key_pressed_def Let_def split: if_splits)

lemma released_fds: "key_released key priv = Some (r, priv') \<Longrightarrow> key_fds priv' = key_fds priv"
  by (auto simp: key_released_def Let_def split: if_splits option.splits)

definition next_key :: "libinput_t \<Rightarrow> int \<times> libinput_t" where
  "next_key priv = (case mp_input_read_key_code (key_fds priv) of (c, fds) \<Rightarrow> (c, priv\<lparr>key_fds := fds\<rparr>))"

lemma next_key_left: "next_key priv = (c, priv') \<Longrightarrow>
    keys_left (key_fds priv') + (if 0 \<le> c then 1 else 0) \<le> keys_left (key_fds priv)"
  using keys_left_read [of "key_fds priv"] by (fastforce simp: next_key_def split: prod.splits)

text \<open>The loop of mp_input_read_keys, which ends with a command or when there is no key any more.\<close>

function key_loop :: "(nat \<Rightarrow> u32) \<Rightarrow> int \<Rightarrow> libinput_t \<Rightarrow> (mp_cmd_t option \<times> libinput_t) option" where
  "key_loop clock key priv =
     (if key < 0 then Some (None, priv)
      else
        (case if bit key 29 then map_option (Pair None) (key_pressed clock key priv) else key_released key priv of
           None \<Rightarrow> None
         | Some (Some c, priv) \<Rightarrow> Some (Some c, priv)
         | Some (None, priv) \<Rightarrow> (case next_key priv of (key, priv) \<Rightarrow> key_loop clock key priv)))"
  by pat_completeness auto
termination
proof (relation "measure (\<lambda>(clock, key, priv). keys_left (key_fds priv) + (if 0 \<le> key then 1 else 0))")
  fix clock :: "nat \<Rightarrow> u32" and key priv p r q c s
  assume *: "\<not> key < 0" "(if bit key 29 then map_option (Pair None) (key_pressed clock key priv) else key_released key priv) = Some p"
    "(r, q) = p" "r = None" "(c, s) = next_key q"
  then have "key_fds q = key_fds priv" using pressed_fds released_fds by (fastforce split: if_splits)
  then show "((clock, c, s), clock, key, priv) \<in> measure (\<lambda>(clock, key, priv). keys_left (key_fds priv) + (if 0 \<le> key then 1 else 0))"
    using next_key_left [OF *(5) [symmetric]] *(1) by simp
qed auto

declare key_loop.simps [simp del]

text \<open>With a callback set, the keys go to it, and there are no commands; \<open>grab_loop\<close> gives the codes it is called with.\<close>

function grab_loop :: "int \<Rightarrow> libinput_t \<Rightarrow> int list \<times> libinput_t" where
  "grab_loop key priv =
     (if key < 0 then ([], priv)
      else (case next_key priv of (key', priv) \<Rightarrow>
        (case grab_loop key' priv of (ks, priv) \<Rightarrow>
           (if bit key 29 then ks else unset_bit 28 (unset_bit 29 key) # ks, priv))))"
  by pat_completeness auto
termination
proof (relation "measure (\<lambda>(key, priv). keys_left (key_fds priv) + (if 0 \<le> key then 1 else 0))")
  show "((c, q), key, priv) \<in> measure (\<lambda>(key, priv). keys_left (key_fds priv) + (if 0 \<le> key then 1 else 0))"
    if "\<not> key < 0" "(c, q) = next_key priv" for key priv c q
    using next_key_left [OF that(2) [symmetric]] that(1) by simp
qed auto

section \<open>Repetition\<close>

record input_conf_t =
  ar_delay :: u32
  ar_rate :: u32

definition input_conf_default :: input_conf_t where
  "input_conf_default = \<lparr>ar_delay = 100, ar_rate = 8\<rparr>"

text \<open>Time is an unsigned count of microseconds that wraps.\<close>

definition autorepeat :: "input_conf_t \<Rightarrow> (nat \<Rightarrow> u32) \<Rightarrow> libinput_t \<Rightarrow> (mp_cmd_t option \<times> libinput_t) option" where
  "autorepeat conf clock priv =
     (if ar_rate conf > 0 \<and> 0 \<le> ar_state priv \<and> key_down priv \<noteq> [] \<and> \<not> bit (last (key_down priv)) 28 then
        let t = clock (ticks priv); priv = priv\<lparr>ticks := ticks priv + 1\<rparr> in
        if ar_state priv = 0 \<and> t - last_key_down priv \<ge> ar_delay conf * 1000 then
          (case mp_input_get_cmd_from_keys (cmd_binds priv) (key_down priv) of
             None \<Rightarrow> None
           | Some None \<Rightarrow> Some (None, priv\<lparr>ar_cmd := None, ar_state := - 1\<rparr>)
           | Some (Some c) \<Rightarrow> (case mp_cmd_clone c of None \<Rightarrow> None
               | Some c' \<Rightarrow> Some (Some c', priv\<lparr>ar_cmd := Some c, ar_state := 1, last_ar := t\<rparr>)))
        else if ar_state priv = 1 \<and> t - last_ar priv \<ge> 1000000 div ar_rate conf then
          (case ar_cmd priv of None \<Rightarrow> None
           | Some c \<Rightarrow> (case mp_cmd_clone c of None \<Rightarrow> None | Some c' \<Rightarrow> Some (Some c', priv\<lparr>last_ar := t\<rparr>)))
        else Some (None, priv)
      else Some (None, priv))"

definition mp_input_read_keys :: "input_conf_t \<Rightarrow> (nat \<Rightarrow> u32) \<Rightarrow> libinput_t \<Rightarrow> (mp_cmd_t option \<times> libinput_t) option" where
  "mp_input_read_keys conf clock priv =
     (case next_key priv of (key, priv) \<Rightarrow>
        (case key_loop clock key priv of
           None \<Rightarrow> None
         | Some (Some c, priv) \<Rightarrow> Some (Some c, priv)
         | Some (None, priv) \<Rightarrow> autorepeat conf clock priv))"

definition mp_input_grab_keys :: "libinput_t \<Rightarrow> int list \<times> libinput_t" where
  "mp_input_grab_keys priv = (case next_key priv of (key, priv) \<Rightarrow> grab_loop key priv)"

section \<open>One driver\<close>

text \<open>
  The state with a single live driver that is going to give these answers: codes, and MP_INPUT_NOTHING where it has no key when it is
  asked, which ends a call. \<open>run_keys\<close> is the loop of a call up to there, before autorepeat is asked.
\<close>

definition with_keys :: "int list \<Rightarrow> libinput_t \<Rightarrow> libinput_t" where
  "with_keys ks priv = priv\<lparr>key_fds := [\<lparr>kf_opaque = 0, kf_dead = False, kf_answers = ks\<rparr>]\<rparr>"

definition run_keys :: "(nat \<Rightarrow> u32) \<Rightarrow> libinput_t \<Rightarrow> (mp_cmd_t option \<times> libinput_t) option" where
  "run_keys clock priv = (case next_key priv of (key, priv) \<Rightarrow> key_loop clock key priv)"

lemma with_keys_simps [simp]: "key_down (with_keys ks p) = key_down p" "last_key_down (with_keys ks p) = last_key_down p"
  "ar_cmd (with_keys ks p) = ar_cmd p" "ar_state (with_keys ks p) = ar_state p" "cmd_binds (with_keys ks p) = cmd_binds p"
  "ticks (with_keys ks p) = ticks p" "with_keys ks (with_keys ls p) = with_keys ks p" "last_ar (with_keys ks p) = last_ar p"
  by (simp_all add: with_keys_def)

lemma next_key_with_keys: "next_key (with_keys [] p) = (MP_INPUT_NOTHING, with_keys [] p)"
  "0 \<le> k \<Longrightarrow> next_key (with_keys (k # ks) p) = (k, with_keys ks p)"
  by (simp_all add: next_key_def with_keys_def mp_input_read_key_code_def remove_dead.simps poll_keys.simps read_key_fd_def input_codes)




lemma run_keys_Nil: "run_keys clock (with_keys [] p) = Some (None, with_keys [] p)"
  by (simp add: run_keys_def next_key_with_keys key_loop.simps input_codes)




lemma read_keys_run: "mp_input_read_keys conf clock p = (case run_keys clock p of
     None \<Rightarrow> None | Some (Some c, p) \<Rightarrow> Some (Some c, p) | Some (None, p) \<Rightarrow> autorepeat conf clock p)"
  by (simp add: mp_input_read_keys_def run_keys_def split: prod.splits)

section \<open>Combinations\<close>


definition key_goes_down :: "int \<Rightarrow> int" where
  "key_goes_down k = set_bit 29 k"





















section \<open>Typing\<close>

text \<open>Calls one after the other, and the commands they return.\<close>

fun read_keys_times :: "nat \<Rightarrow> input_conf_t \<Rightarrow> (nat \<Rightarrow> u32) \<Rightarrow> libinput_t \<Rightarrow> (mp_cmd_t list \<times> libinput_t) option" where
  "read_keys_times 0 conf clock priv = Some ([], priv)"
| "read_keys_times (Suc n) conf clock priv =
     (case mp_input_read_keys conf clock priv of
        None \<Rightarrow> None
      | Some (r, priv) \<Rightarrow> map_option (map_prod (append (case r of Some c \<Rightarrow> [c] | None \<Rightarrow> [])) id) (read_keys_times n conf clock priv))"



declare read_keys_times.simps [simp del]



















declare read_keys_times.simps [simp]

section \<open>Holding a key\<close>

lemma repeat_again:
  assumes "ar_state p = 1" "ar_cmd p = Some c" "mp_cmd_clone c = Some c" "\<forall>i j. i \<le> j \<longrightarrow> clock i \<le> clock j" "last_ar p \<le> clock (ticks p)"
  shows "\<exists>q m. read_keys_times n conf clock (with_keys [] p) = Some (replicate m c, with_keys [] q) \<and>
    unat (last_ar p) + m * unat (1000000 div ar_rate conf) \<le> unat (clock (ticks p + n))"
  using assms(1,2,5)
proof (induction n arbitrary: p)
  case 0
  then show ?case by (intro exI [of _ p] exI [of _ 0]) (simp add: word_le_nat_alt)
next
  case (Suc n)
  let ?P = "1000000 div ar_rate conf" and ?t = "clock (ticks p)"
  have mono: "clock (ticks p) \<le> clock (ticks p + 1)" "?t \<le> clock (ticks p + Suc n)" using assms(4) by simp_all
  define q where "q = p\<lparr>ticks := ticks p + 1\<rparr>"
  have a: "autorepeat conf clock (with_keys [] p) =
      (if ar_rate conf > 0 \<and> key_down p \<noteq> [] \<and> \<not> bit (last (key_down p)) 28 then
         if ?P \<le> ?t - last_ar p then Some (Some c, with_keys [] (q\<lparr>last_ar := ?t\<rparr>)) else Some (None, with_keys [] q)
       else Some (None, with_keys [] p))"
    using Suc.prems assms(3) by (simp add: autorepeat_def Let_def q_def with_keys_def)
  consider (no) "autorepeat conf clock (with_keys [] p) = Some (None, with_keys [] p)"
    | (wait) "autorepeat conf clock (with_keys [] p) = Some (None, with_keys [] q)"
    | (fire) "autorepeat conf clock (with_keys [] p) = Some (Some c, with_keys [] (q\<lparr>last_ar := ?t\<rparr>))" "?P \<le> ?t - last_ar p"
    by (simp only: a) (meson)
  then show ?case
  proof cases
    case no
    obtain r m where "read_keys_times n conf clock (with_keys [] p) = Some (replicate m c, with_keys [] r)"
      "unat (last_ar p) + m * unat ?P \<le> unat (clock (ticks p + n))" using Suc.IH [OF Suc.prems] by blast
    moreover have "unat (clock (ticks p + n)) \<le> unat (clock (ticks p + Suc n))" using assms(4) by (simp add: word_le_nat_alt)
    ultimately show ?thesis using no by (intro exI [of _ r] exI [of _ m]) (simp add: read_keys_run run_keys_Nil map_prod_def)
  next
    case wait
    then show ?thesis using Suc.IH [of q] Suc.prems mono by (auto simp: q_def read_keys_run run_keys_Nil)
  next
    case fire
    let ?q = "q\<lparr>last_ar := ?t\<rparr>"
    obtain r m where r: "read_keys_times n conf clock (with_keys [] ?q) = Some (replicate m c, with_keys [] r)"
      "unat ?t + m * unat ?P \<le> unat (clock (ticks p + 1 + n))" using Suc.IH [of ?q] Suc.prems mono by (auto simp: q_def)
    have "unat (last_ar p) + unat ?P \<le> unat ?t" using fire(2) Suc.prems(3) by (simp add: word_le_nat_alt unat_minus_le)
    then have "unat (last_ar p) + Suc m * unat ?P \<le> unat (clock (ticks p + Suc n))" using r(2) by simp
    then show ?thesis using fire(1) r(1) by (intro exI [of _ r] exI [of _ "Suc m"]) (simp add: read_keys_run run_keys_Nil)
  qed
qed

text \<open>C26: While keys are held, their command is not repeated before the delay has passed, and then not faster than the rate:
  for m commands the delay and m - 1 periods have passed since the last key went down.\<close>

theorem autorepeat_not_too_fast:
  assumes "key_down p \<noteq> []" "ar_state p = 0" "\<forall>i j. i \<le> j \<longrightarrow> clock i \<le> clock j" "last_key_down p \<le> clock (ticks p)"
    "mp_input_get_cmd_from_keys (cmd_binds p) (key_down p) = Some (Some c)" "mp_cmd_clone c = Some c"
  shows "\<exists>q m. read_keys_times n conf clock (with_keys [] p) = Some (replicate m c, with_keys [] q) \<and>
    (m = 0 \<or> unat (last_key_down p) + unat (ar_delay conf * 1000) + (m - 1) * unat (1000000 div ar_rate conf) \<le> unat (clock (ticks p + n)))"
  using assms(1,2,4,5)
proof (induction n arbitrary: p)
  case 0
  then show ?case by (intro exI [of _ p] exI [of _ 0]) simp
next
  case (Suc n)
  let ?D = "ar_delay conf * 1000" and ?P = "1000000 div ar_rate conf" and ?t = "clock (ticks p)"
  have mono: "clock (ticks p) \<le> clock (ticks p + 1)" "?t \<le> clock (ticks p + Suc n)" using assms(3) by simp_all
  define q where "q = p\<lparr>ticks := ticks p + 1\<rparr>"
  have a: "autorepeat conf clock (with_keys [] p) =
      (if ar_rate conf > 0 \<and> \<not> bit (last (key_down p)) 28 then
         if ?D \<le> ?t - last_key_down p then Some (Some c, with_keys [] (q\<lparr>ar_cmd := Some c, ar_state := 1, last_ar := ?t\<rparr>))
         else Some (None, with_keys [] q)
       else Some (None, with_keys [] p))"
    using Suc.prems assms(6) by (simp add: autorepeat_def Let_def q_def with_keys_def)
  consider (no) "autorepeat conf clock (with_keys [] p) = Some (None, with_keys [] p)"
    | (wait) "autorepeat conf clock (with_keys [] p) = Some (None, with_keys [] q)"
    | (fire) "autorepeat conf clock (with_keys [] p) = Some (Some c, with_keys [] (q\<lparr>ar_cmd := Some c, ar_state := 1, last_ar := ?t\<rparr>))"
        "?D \<le> ?t - last_key_down p"
    by (simp only: a) meson
  then show ?case
  proof cases
    case no
    have "unat (clock (ticks p + n)) \<le> unat (clock (ticks p + Suc n))" using assms(3) by (simp add: word_le_nat_alt)
    then show ?thesis using Suc.IH [OF Suc.prems] no by (fastforce simp: read_keys_run run_keys_Nil map_prod_def)
  next
    case wait
    then show ?thesis using Suc.IH [of q] Suc.prems mono by (auto simp: q_def read_keys_run run_keys_Nil)
  next
    case fire
    let ?q = "q\<lparr>ar_cmd := Some c, ar_state := 1, last_ar := ?t\<rparr>"
    obtain r m where r: "read_keys_times n conf clock (with_keys [] ?q) = Some (replicate m c, with_keys [] r)"
      "unat ?t + m * unat ?P \<le> unat (clock (ticks p + 1 + n))"
      using repeat_again [of ?q c clock n conf] assms(3,6) mono by (auto simp: q_def)
    have "unat (last_key_down p) + unat ?D \<le> unat ?t" using fire(2) Suc.prems(3) by (simp add: word_le_nat_alt unat_minus_le)
    then show ?thesis using fire(1) r by (intro exI [of _ r] exI [of _ "Suc m"]) (simp add: read_keys_run run_keys_Nil)
  qed
qed

lemma autorepeat_not_too_fast_witness:
  "\<exists>q m. read_keys_times 3 input_conf_default (\<lambda>i. if i = 0 then 50000 else 250000) (with_keys [] (mp_input_open\<lparr>key_down := [112], ar_state := 0\<rparr>)) =
      Some (replicate m (the (the (mp_input_parse_cmd ''pause''))), with_keys [] q) \<and>
    (m = 0 \<or> 0 + unat (100 * 1000 :: u32) + (m - 1) * unat (1000000 div 8 :: u32) \<le> unat (250000 :: u32))"
proof -
  let ?p = "mp_input_open\<lparr>key_down := [112], ar_state := 0\<rparr>" and ?c = "the (the (mp_input_parse_cmd ''pause''))"
    and ?clock = "\<lambda>i :: nat. if i = 0 then 50000 else 250000 :: u32"
  have p: "key_down ?p = [112]" "ar_state ?p = 0" "last_key_down ?p = 0" "ticks ?p = 0" "cmd_binds ?p = []"
    by (simp_all add: mp_input_open_def)
  have f: "mp_input_find_bind_for_key def_cmd_binds [112] = Some ''pause''" "mp_input_find_bind_for_key [] [112] = None" by code_simp+
  have v: "(case mp_input_parse_cmd ''pause'' of Some (Some c) \<Rightarrow> args_walk 0 (cmd_args c) | _ \<Rightarrow> False)" by code_simp
  have c: "mp_input_get_cmd_from_keys (cmd_binds ?p) (key_down ?p) = Some (Some ?c)" "mp_cmd_clone ?c = Some ?c"
    using v unfolding p by (auto simp: mp_input_get_cmd_from_keys_def f mp_cmd_clone_def split: option.splits)
  have m: "\<forall>i j. i \<le> j \<longrightarrow> ?clock i \<le> ?clock j" by (auto simp: word_le_nat_alt)
  show ?thesis using autorepeat_not_too_fast [OF _ p(2) m _ c, of 3 input_conf_default] unfolding p input_conf_default_def by simp
qed

section \<open>What goes wrong\<close>

text \<open>The 33rd key that is held is written behind the array. When a driver says that it is dead, the next
  one is not asked.\<close>

theorem input_keys_faults:
  "mp_input_read_keys input_conf_default (\<lambda>i. 7) (with_keys (List.map (\<lambda>k. key_goes_down (int k)) [1..<34]) mp_input_open) = None"
  "fst (mp_input_read_key_code [\<lparr>kf_opaque = 1, kf_dead = False, kf_answers = [MP_INPUT_DEAD]\<rparr>, \<lparr>kf_opaque = 2, kf_dead = False, kf_answers = [113]\<rparr>]) = MP_INPUT_NOTHING"
  by code_simp+

end
