(* ===== verification/InputLines.thy ===== *)
theory InputLines
  imports InputKeys
begin

text \<open>
  Commands from files and pipes (mp_input_read_cmd, mp_input_read_cmds in mplayerxp/input2/input.cpp) and the
  calls of the player (mp_input_get_cmd, mp_input_check_interrupt), which bring keys, lines and the queue together.
\<close>

section \<open>Reading lines\<close>

definition MP_CMD_MAX_SIZE :: nat where
  "MP_CMD_MAX_SIZE = 256"

text \<open>A driver gives at most \<open>n\<close> characters at once and keeps the others.\<close>

definition read_cmd_fd :: "nat \<Rightarrow> cmd_answer list \<Rightarrow> cmd_answer \<times> cmd_answer list" where
  "read_cmd_fd n as = (case as of
       [] \<Rightarrow> (Failed MP_INPUT_NOTHING, [])
     | Failed r # as \<Rightarrow> (Failed r, as)
     | Data s # as \<Rightarrow> (Data (take n s), if length s \<le> n then as else Data (drop n s) # as))"

text \<open>
  The lines in the buffer: the first is the command, another one behind it is left for the next call. A buffer that is full and
  has no end of a line is thrown away, with what follows up to the end of the line. The command, if there is one, and the fd.
\<close>

function scan_lines :: "string option \<Rightarrow> cmd_fd \<Rightarrow> string option \<times> cmd_fd" where
  "scan_lines ret fd =
     (let line = takeWhile (\<lambda>c. c \<noteq> CHR 0x0A \<and> code c \<noteq> 0) (cf_buffer fd); rest = drop (length line) (cf_buffer fd) in
      if rest = [] \<or> hd rest \<noteq> CHR 0x0A then
        (ret, if MP_CMD_MAX_SIZE - 1 \<le> length (cf_buffer fd) then fd\<lparr>cf_buffer := [], cf_drop := True\<rparr> else fd)
      else if ret \<noteq> None then (ret, fd\<lparr>cf_got_cmd := True\<rparr>)
      else scan_lines (if cf_drop fd then None else Some line) (fd\<lparr>cf_drop := False, cf_buffer := tl rest\<rparr>))"
  by pat_completeness auto
termination
proof (relation "measure (\<lambda>(ret, fd). length (cf_buffer fd))")
  show "((if cf_drop fd then None else Some line, fd\<lparr>cf_drop := False, cf_buffer := tl rest\<rparr>), ret, fd) \<in> measure (\<lambda>(ret, fd). length (cf_buffer fd))"
    if "rest = drop (length line) (cf_buffer fd)" "\<not> (rest = [] \<or> hd rest \<noteq> CHR 0x0A)" for fd ret line rest
    using that by (cases "cf_buffer fd") auto
qed auto

declare scan_lines.simps [simp del]

text \<open>The result is a line or an error.\<close>

definition mp_input_read_cmd :: "cmd_fd \<Rightarrow> (int + string) \<times> cmd_fd" where
  "mp_input_read_cmd fd =
     (let scan = (\<lambda>fd. case scan_lines None (fd\<lparr>cf_got_cmd := False\<rparr>) of
            (Some line, fd) \<Rightarrow> (Inr line, fd) | (None, fd) \<Rightarrow> (Inl MP_INPUT_NOTHING, fd)) in
      if \<not> cf_got_cmd fd \<and> \<not> cf_eof fd \<and> length (cf_buffer fd) < MP_CMD_MAX_SIZE - 1 then
        (case read_cmd_fd (MP_CMD_MAX_SIZE - 1 - length (cf_buffer fd)) (cf_answers fd) of
           (Failed r, as) \<Rightarrow> (Inl r, fd\<lparr>cf_answers := as\<rparr>)
         | (Data s, as) \<Rightarrow> scan (fd\<lparr>cf_answers := as, cf_eof := (s = []), cf_buffer := cf_buffer fd @ s\<rparr>))
      else scan fd)"

text \<open>The drivers at the end of their files are removed; the index stays where one was.\<close>

function remove_eof :: "nat \<Rightarrow> cmd_fd list \<Rightarrow> cmd_fd list" where
  "remove_eof i fds = (if i < length fds then
     (if cf_eof (fds ! i) then remove_eof i (mp_input_rm_cmd_fd fds (cf_opaque (fds ! i))) else remove_eof (i + 1) fds) else fds)"
  by pat_completeness auto
termination
proof (relation "measure (\<lambda>(i, fds). length fds - i)")
  show "((i, mp_input_rm_cmd_fd fds (cf_opaque (fds ! i))), i, fds) \<in> measure (\<lambda>(i, fds). length fds - i)"
    if "i < length fds" for i and fds :: "cmd_fd list"
    using that length_rm_cmd_fd [of "fds ! i" fds] by simp
qed auto

text \<open>The drivers in turn, up to one whose line is a command. None: the parser uses memory it has not written.\<close>

function poll_cmds :: "nat \<Rightarrow> cmd_fd list \<Rightarrow> (mp_cmd_t option \<times> cmd_fd list) option" where
  "poll_cmds i fds =
     (if i < length fds then
        (case mp_input_read_cmd (fds ! i) of
           (Inl r, fd) \<Rightarrow> poll_cmds (i + 1) (fds[i := if r = MP_INPUT_DEAD then fd\<lparr>cf_dead := True\<rparr> else fd])
         | (Inr line, fd) \<Rightarrow> (case mp_input_parse_cmd line of
               None \<Rightarrow> None
             | Some None \<Rightarrow> poll_cmds (i + 1) (fds[i := fd])
             | Some (Some c) \<Rightarrow> Some (Some c, fds[i := fd])))
      else Some (None, fds))"
  by pat_completeness auto
termination
  by (relation "measure (\<lambda>(i, fds). length fds - i)") auto

declare remove_eof.simps [simp del] poll_cmds.simps [simp del]

definition mp_input_read_cmds :: "libinput_t \<Rightarrow> (mp_cmd_t option \<times> libinput_t) option" where
  "mp_input_read_cmds priv =
     map_option (map_prod id (\<lambda>fds. priv\<lparr>cmd_fds := fds\<rparr>)) (poll_cmds 0 (remove_eof 0 (cmd_fds priv)))"

section \<open>The next command\<close>

text \<open>The queue comes before the keys, and the keys before the lines. A filter may take the command.\<close>

definition mp_input_get_cmd :: "input_conf_t \<Rightarrow> (nat \<Rightarrow> u32) \<Rightarrow> bool \<Rightarrow> bool \<Rightarrow> libinput_t \<Rightarrow> (mp_cmd_t option \<times> libinput_t) option" where
  "mp_input_get_cmd conf clock paused peek_only priv =
     (case mp_input_get_queued_cmd priv peek_only of (ret, priv) \<Rightarrow>
        (case (case ret of
            Some c \<Rightarrow> Some (ret, priv)
          | None \<Rightarrow> (case mp_input_read_keys conf clock priv of
                None \<Rightarrow> None
              | Some (Some c, priv) \<Rightarrow> Some (Some c, priv)
              | Some (None, priv) \<Rightarrow> mp_input_read_cmds priv)) of
           None \<Rightarrow> None
         | Some (None, priv) \<Rightarrow> Some (None, priv)
         | Some (Some c, priv) \<Rightarrow>
             (case run_filters (cmd_filters priv) c paused (filter_mem priv) of (taken, mem) \<Rightarrow>
                let priv = priv\<lparr>filter_mem := mem\<rparr> in
                if taken then Some (None, priv)
                else if ret = None \<and> peek_only then Some (Some c, snd (mp_input_queue_cmd priv c))
                else Some (Some c, priv))))"

text \<open>The commands that end a blocking operation: quit, soft_quit, pt_step, pt_up_step, alt_src_step.\<close>

definition interrupts :: "mp_cmd_t \<Rightarrow> bool" where
  "interrupts c \<longleftrightarrow> cmd_id c \<in> {2, 4, 5, 6, 7}"

definition mp_input_check_interrupt :: "input_conf_t \<Rightarrow> (nat \<Rightarrow> u32) \<Rightarrow> libinput_t \<Rightarrow> (bool \<times> libinput_t) option" where
  "mp_input_check_interrupt conf clock priv =
     (case mp_input_get_cmd conf clock False True priv of
        None \<Rightarrow> None
      | Some (None, priv) \<Rightarrow> Some (False, priv)
      | Some (Some c, priv) \<Rightarrow>
          if interrupts c then Some (True, priv)
          else (case mp_input_get_cmd conf clock False False priv of
              None \<Rightarrow> None
            | Some (None, priv) \<Rightarrow> Some (False, priv)
            | Some (Some c, priv) \<Rightarrow> (case mp_cmd_free c of None \<Rightarrow> None | Some u \<Rightarrow> Some (False, priv))))"

section \<open>The lines of a text\<close>

text \<open>
  What a reader of lines is to give for a text: its complete lines of less than 255 characters. The flag says that the first
  line is the rest of one that is dropped.
\<close>

function short_lines :: "bool \<Rightarrow> string \<Rightarrow> string list" where
  "short_lines dropping s =
     (let line = takeWhile (\<lambda>c. c \<noteq> CHR 0x0A) s; rest = drop (length line) s in
      if rest = [] then []
      else (if dropping \<or> MP_CMD_MAX_SIZE - 1 \<le> length line then [] else [line]) @ short_lines False (tl rest))"
  by pat_completeness auto
termination
proof (relation "measure (\<lambda>(dropping, s). length s)")
  show "((False, tl rest), dropping, s) \<in> measure (\<lambda>(dropping, s). length s)"
    if "rest = drop (length line) s" "rest \<noteq> []" for s line rest :: string and dropping
    using that by (cases s) auto
qed auto

declare short_lines.simps [simp del]

lemma short_lines_line: "CHR 0x0A \<notin> set l \<Longrightarrow>
    short_lines d (l @ CHR 0x0A # s) = (if d \<or> MP_CMD_MAX_SIZE - 1 \<le> length l then [] else [l]) @ short_lines False s"
proof -
  assume "CHR 0x0A \<notin> set l"
  then have "takeWhile (\<lambda>c. c \<noteq> CHR 0x0A) (l @ CHR 0x0A # s) = l" by (subst takeWhile_append2) auto
  then show ?thesis by (subst short_lines.simps) (simp add: Let_def)
qed

lemma short_lines_none: "CHR 0x0A \<notin> set l \<Longrightarrow> short_lines d l = []"
proof -
  assume "CHR 0x0A \<notin> set l"
  then have "takeWhile (\<lambda>c. c \<noteq> CHR 0x0A) l = l" by (auto simp: takeWhile_eq_all_conv)
  then show ?thesis by (subst short_lines.simps) (simp add: Let_def del: takeWhile_eq_all_conv)
qed

text \<open>A text is a line and what follows it, or it has no end of a line.\<close>

lemma line_cases:
  obtains (none) "CHR 0x0A \<notin> set s" | (line) l r where "s = l @ CHR 0x0A # r" "CHR 0x0A \<notin> set l"
  using split_list_first [of "CHR 0x0A" s] by blast

lemma short_lines_drop: "CHR 0x0A \<notin> set b \<Longrightarrow> short_lines True (b @ s) = short_lines True s"
proof (cases s rule: line_cases)
  case none
  assume "CHR 0x0A \<notin> set b"
  with none have "CHR 0x0A \<notin> set (b @ s)" by simp
  then show ?thesis using none short_lines_none by simp
next
  case (line l r)
  assume "CHR 0x0A \<notin> set b"
  with line have "CHR 0x0A \<notin> set (b @ l)" by simp
  from short_lines_line [OF this, of True r] short_lines_line [OF line(2), of True r] line(1) show ?thesis by simp
qed

lemma short_lines_full:
  assumes "CHR 0x0A \<notin> set b" "MP_CMD_MAX_SIZE - 1 \<le> length b"
  shows "short_lines d (b @ s) = short_lines True s"
proof (cases s rule: line_cases)
  case none
  with assms(1) have "CHR 0x0A \<notin> set (b @ s)" by simp
  then show ?thesis using none short_lines_none by simp
next
  case (line l r)
  with assms(1) have "CHR 0x0A \<notin> set (b @ l)" by simp
  from short_lines_line [OF this, of d r] short_lines_line [OF line(2), of True r] line(1) assms(2) show ?thesis by simp
qed

section \<open>Reading gives the lines\<close>

definition no_null :: "string \<Rightarrow> bool" where
  "no_null s \<longleftrightarrow> (\<forall>c \<in> set s. code c \<noteq> 0)"

lemma scan_line:
  assumes "no_null (l @ CHR 0x0A # r)" "CHR 0x0A \<notin> set l" "cf_buffer fd = l @ CHR 0x0A # r"
  shows "scan_lines ret fd = (if ret \<noteq> None then (ret, fd\<lparr>cf_got_cmd := True\<rparr>)
    else scan_lines (if cf_drop fd then None else Some l) (fd\<lparr>cf_drop := False, cf_buffer := r\<rparr>))"
proof -
  have "takeWhile (\<lambda>c. c \<noteq> CHR 0x0A \<and> code c \<noteq> 0) (l @ CHR 0x0A # r) = l"
    using assms(1,2) by (subst takeWhile_append2) (auto simp: no_null_def)
  then show ?thesis by (subst scan_lines.simps) (simp add: assms(3) Let_def)
qed

lemma scan_no_line:
  assumes "no_null (cf_buffer fd)" "CHR 0x0A \<notin> set (cf_buffer fd)"
  shows "scan_lines ret fd = (ret, if MP_CMD_MAX_SIZE - 1 \<le> length (cf_buffer fd) then fd\<lparr>cf_buffer := [], cf_drop := True\<rparr> else fd)"
proof -
  have "takeWhile (\<lambda>c. c \<noteq> CHR 0x0A \<and> code c \<noteq> 0) (cf_buffer fd) = cf_buffer fd"
    using assms by (auto simp: no_null_def takeWhile_eq_all_conv)
  then show ?thesis by (subst scan_lines.simps) (simp add: Let_def del: takeWhile_eq_all_conv)
qed

text \<open>Between calls: a buffer with a complete line is marked, one without has room.\<close>

definition buffer_ok :: "cmd_fd \<Rightarrow> bool" where
  "buffer_ok fd \<longleftrightarrow> no_null (cf_buffer fd) \<and> length (cf_buffer fd) < MP_CMD_MAX_SIZE \<and>
     (if cf_got_cmd fd then CHR 0x0A \<in> set (cf_buffer fd)
      else CHR 0x0A \<notin> set (cf_buffer fd) \<and> length (cf_buffer fd) < MP_CMD_MAX_SIZE - 1)"

text \<open>The text that is left to a driver up to the end of its file.\<close>

fun answers_text :: "cmd_answer list \<Rightarrow> string" where
  "answers_text [] = []"
| "answers_text (Data s # as) = (if s = [] then [] else s @ answers_text as)"
| "answers_text (Failed r # as) = answers_text as"

definition text_left :: "cmd_fd \<Rightarrow> string" where
  "text_left fd = cf_buffer fd @ (if cf_eof fd then [] else answers_text (cf_answers fd))"

lemma scan_lines_spec:
  assumes "no_null (cf_buffer fd)" "length (cf_buffer fd) < MP_CMD_MAX_SIZE" "\<not> cf_got_cmd fd"
  shows "\<exists>r' fd'. scan_lines ret fd = (r', fd') \<and> (ret \<noteq> None \<longrightarrow> r' = ret) \<and> buffer_ok fd' \<and>
    length (cf_buffer fd') \<le> length (cf_buffer fd) \<and> (ret = None \<and> CHR 0x0A \<in> set (cf_buffer fd) \<longrightarrow> length (cf_buffer fd') < length (cf_buffer fd)) \<and>
    cf_eof fd' = cf_eof fd \<and> cf_answers fd' = cf_answers fd \<and> cf_opaque fd' = cf_opaque fd \<and>
    (\<forall>s. short_lines (cf_drop fd) (cf_buffer fd @ s) =
      (case r' of Some l \<Rightarrow> if ret = None then [l] else [] | None \<Rightarrow> []) @ short_lines (cf_drop fd') (cf_buffer fd' @ s))"
  using assms
proof (induction "length (cf_buffer fd)" arbitrary: ret fd rule: less_induct)
  case less
  show ?case
  proof (cases "cf_buffer fd" rule: line_cases)
    case none
    show ?thesis
    proof (cases "MP_CMD_MAX_SIZE - 1 \<le> length (cf_buffer fd)")
      case True
      then show ?thesis using scan_no_line [OF less.prems(1) none, of ret] less.prems none short_lines_full [OF none True]
        by (auto simp: buffer_ok_def no_null_def MP_CMD_MAX_SIZE_def split: option.splits)
    next
      case False
      then show ?thesis using scan_no_line [OF less.prems(1) none, of ret] less.prems none
        by (auto simp: buffer_ok_def split: option.splits)
    qed
  next
    case (line l r)
    have n: "no_null (l @ CHR 0x0A # r)" using less.prems(1) line(1) by simp
    note s = scan_line [OF n line(2,1), of ret]
    show ?thesis
    proof (cases "ret = None")
      case False
      then show ?thesis using s less.prems line by (auto simp: buffer_ok_def)
    next
      case True
      let ?fd = "fd\<lparr>cf_drop := False, cf_buffer := r\<rparr>" and ?ret = "if cf_drop fd then None else Some l"
      have l: "length l < MP_CMD_MAX_SIZE - 1" using less.prems(2) line(1) by simp
      have st: "short_lines (cf_drop fd) (cf_buffer fd @ t) = (if cf_drop fd then [] else [l]) @ short_lines False (r @ t)" for t
        using short_lines_line [OF line(2), of "cf_drop fd" "r @ t"] l line(1) by auto
      have r: "length r < length (cf_buffer fd)" "no_null r" using line(1) n by (auto simp: no_null_def)
      then obtain r' fd' where h: "scan_lines ?ret ?fd = (r', fd')" "?ret \<noteq> None \<longrightarrow> r' = ?ret" "buffer_ok fd'" "length (cf_buffer fd') \<le> length r"
        "cf_eof fd' = cf_eof fd" "cf_answers fd' = cf_answers fd" "cf_opaque fd' = cf_opaque fd"
        "\<forall>s. short_lines False (r @ s) = (case r' of Some l \<Rightarrow> if ?ret = None then [l] else [] | None \<Rightarrow> []) @ short_lines (cf_drop fd') (cf_buffer fd' @ s)"
        using less.hyps [of ?fd ?ret] less.prems(2,3) by auto
      show ?thesis by (rule exI [of _ r'], rule exI [of _ fd']) (use h True s st r in \<open>auto split: option.splits if_splits\<close>)
    qed
  qed
qed

text \<open>A call of the driver: the text it gives is the next of the text that is left.\<close>

definition answers_work :: "cmd_answer list \<Rightarrow> nat" where
  "answers_work as = sum_list (List.map (\<lambda>a. case a of Data s \<Rightarrow> 2 * length s + 1 | Failed r \<Rightarrow> 1) as)"

definition work_left :: "cmd_fd \<Rightarrow> nat" where
  "work_left fd = length (cf_buffer fd) + (if cf_eof fd then 0 else answers_work (cf_answers fd))"

definition read_ok :: "cmd_fd \<Rightarrow> bool" where
  "read_ok fd \<longleftrightarrow> buffer_ok fd \<and> no_null (text_left fd) \<and> (cf_eof fd \<longrightarrow> \<not> cf_got_cmd fd)"

text \<open>Nothing is left: no line in the buffer, and no answer.\<close>

definition read_done :: "cmd_fd \<Rightarrow> bool" where
  "read_done fd \<longleftrightarrow> \<not> cf_got_cmd fd \<and> (cf_eof fd \<or> cf_answers fd = [])"

lemma scan_call:
  assumes "scan_lines None (fd1\<lparr>cf_got_cmd := False\<rparr>) = (r, fd2)" "no_null (text_left fd1)" "length (cf_buffer fd1) < MP_CMD_MAX_SIZE"
    "cf_eof fd1 \<longrightarrow> CHR 0x0A \<notin> set (cf_buffer fd1)"
  shows "read_ok fd2 \<and> cf_opaque fd2 = cf_opaque fd1 \<and> length (cf_buffer fd2) \<le> length (cf_buffer fd1) \<and>
      (CHR 0x0A \<in> set (cf_buffer fd1) \<longrightarrow> length (cf_buffer fd2) < length (cf_buffer fd1)) \<and> cf_eof fd2 = cf_eof fd1 \<and> cf_answers fd2 = cf_answers fd1 \<and>
      short_lines (cf_drop fd1) (text_left fd1) = (case r of Some l \<Rightarrow> [l] | None \<Rightarrow> []) @ short_lines (cf_drop fd2) (text_left fd2) \<and>
      (CHR 0x0A \<notin> set (cf_buffer fd1) \<longrightarrow> \<not> cf_got_cmd fd2)"
proof -
  have n: "no_null (cf_buffer fd1)" using assms(2) by (auto simp: text_left_def no_null_def)
  have "no_null (text_left fd2)" if "cf_eof fd2 = cf_eof fd1" "cf_answers fd2 = cf_answers fd1" "buffer_ok fd2"
    using that assms(2) by (auto simp: text_left_def no_null_def buffer_ok_def)
  moreover have "\<not> cf_got_cmd fd2" if "CHR 0x0A \<notin> set (cf_buffer fd1)"
    using scan_no_line [of "fd1\<lparr>cf_got_cmd := False\<rparr>" None] n that assms(1) by (auto split: if_splits)
  ultimately show ?thesis using scan_lines_spec [of "fd1\<lparr>cf_got_cmd := False\<rparr>" None] assms n
    by (cases r) (auto simp: read_ok_def text_left_def)
qed

text \<open>A call that takes a line out of the buffer, or has nothing more to read.\<close>

lemma read_cmd_buffered:
  assumes "read_ok fd" "mp_input_read_cmd fd = (res, fd')" "cf_got_cmd fd \<or> cf_eof fd"
  shows "read_ok fd' \<and> cf_opaque fd' = cf_opaque fd \<and> (read_done fd \<or> work_left fd' < work_left fd) \<and> (read_done fd \<longrightarrow> read_done fd') \<and>
    short_lines (cf_drop fd) (text_left fd) = (case res of Inr l \<Rightarrow> [l] | Inl r \<Rightarrow> []) @ short_lines (cf_drop fd') (text_left fd')"
proof -
  have b: "length (cf_buffer fd) < MP_CMD_MAX_SIZE" "no_null (text_left fd)" using assms(1) by (auto simp: read_ok_def buffer_ok_def)
  obtain r where r: "scan_lines None (fd\<lparr>cf_got_cmd := False\<rparr>) = (r, fd')" "res = (case r of Some l \<Rightarrow> Inr l | None \<Rightarrow> Inl MP_INPUT_NOTHING)"
    using assms(2,3) by (auto simp: mp_input_read_cmd_def Let_def split: prod.splits option.splits if_splits)
  have "cf_eof fd \<longrightarrow> CHR 0x0A \<notin> set (cf_buffer fd)" using assms(1) by (auto simp: read_ok_def buffer_ok_def)
  note s = scan_call [OF r(1) b(2,1) this]
  have "read_done fd' \<and> read_done fd" if "\<not> cf_got_cmd fd"
    using s that assms(1,3) by (auto simp: read_done_def read_ok_def buffer_ok_def)
  moreover have "work_left fd' < work_left fd" if "cf_got_cmd fd"
    using s that assms(1) by (auto simp: work_left_def answers_work_def read_ok_def buffer_ok_def)
  ultimately show ?thesis using s r(2) by (cases r) (auto simp: read_done_def)
qed

text \<open>A call that reads.\<close>

lemma read_cmd_reads:
  assumes "read_ok fd" "mp_input_read_cmd fd = (res, fd')" "\<not> cf_got_cmd fd" "\<not> cf_eof fd" "cf_answers fd = Data s # as"
  shows "read_ok fd' \<and> cf_opaque fd' = cf_opaque fd \<and> (read_done fd \<or> work_left fd' < work_left fd) \<and> (read_done fd \<longrightarrow> read_done fd') \<and>
    short_lines (cf_drop fd) (text_left fd) = (case res of Inr l \<Rightarrow> [l] | Inl r \<Rightarrow> []) @ short_lines (cf_drop fd') (text_left fd')"
proof -
  let ?n = "MP_CMD_MAX_SIZE - 1 - length (cf_buffer fd)"
  have room: "length (cf_buffer fd) < MP_CMD_MAX_SIZE - 1" using assms(1,3) unfolding read_ok_def buffer_ok_def by meson
  define as' where "as' = (if length s \<le> ?n then as else Data (drop ?n s) # as)"
  define fd1 where "fd1 = fd\<lparr>cf_answers := as', cf_eof := (take ?n s = []), cf_buffer := cf_buffer fd @ take ?n s\<rparr>"
  have st: "take ?n s = [] \<longleftrightarrow> s = []" using room by auto
  obtain r where r: "scan_lines None (fd1\<lparr>cf_got_cmd := False\<rparr>) = (r, fd')" "res = (case r of Some l \<Rightarrow> Inr l | None \<Rightarrow> Inl MP_INPUT_NOTHING)"
  proof -
    have "read_cmd_fd ?n (cf_answers fd) = (Data (take ?n s), as')" by (simp add: read_cmd_fd_def as'_def assms(5))
    then have "mp_input_read_cmd fd = (case scan_lines None (fd1\<lparr>cf_got_cmd := False\<rparr>) of
        (Some line, fd) \<Rightarrow> (Inr line, fd) | (None, fd) \<Rightarrow> (Inl MP_INPUT_NOTHING, fd))"
      unfolding mp_input_read_cmd_def Let_def fd1_def using assms(3,4) room by simp
    then show thesis using that assms(2) by (auto split: prod.splits option.splits)
  qed
  have t: "text_left fd1 = text_left fd" using assms(4,5) st room by (auto simp: text_left_def fd1_def as'_def)
  have w: "work_left fd1 < work_left fd" using assms(4,5) st room by (auto simp: work_left_def answers_work_def fd1_def as'_def)
  have l: "length (cf_buffer fd1) < MP_CMD_MAX_SIZE" using room by (simp add: fd1_def MP_CMD_MAX_SIZE_def)
  have n: "no_null (text_left fd)" using assms(1) by (simp add: read_ok_def)
  have e: "cf_eof fd1 \<longrightarrow> CHR 0x0A \<notin> set (cf_buffer fd1)"
    using assms(1,3) st by (auto simp: fd1_def read_ok_def buffer_ok_def)
  note s = scan_call [OF r(1) _ l e, unfolded t, OF n]
  have "work_left fd' \<le> work_left fd1" using s by (auto simp: work_left_def answers_work_def)
  moreover have "cf_drop fd1 = cf_drop fd" "cf_opaque fd1 = cf_opaque fd" by (simp_all add: fd1_def)
  moreover have "\<not> read_done fd" using assms(3-5) by (simp add: read_done_def)
  ultimately show ?thesis using s w r(2) by (cases r) auto
qed

lemma read_cmd_spec:
  assumes "read_ok fd" "mp_input_read_cmd fd = (res, fd')"
  shows "read_ok fd' \<and> cf_opaque fd' = cf_opaque fd \<and> (read_done fd \<or> work_left fd' < work_left fd) \<and> (read_done fd \<longrightarrow> read_done fd') \<and>
    short_lines (cf_drop fd) (text_left fd) = (case res of Inr l \<Rightarrow> [l] | Inl r \<Rightarrow> []) @ short_lines (cf_drop fd') (text_left fd')"
proof (cases "cf_got_cmd fd \<or> cf_eof fd")
  case False
  then have room: "length (cf_buffer fd) < MP_CMD_MAX_SIZE - 1" using assms(1) unfolding read_ok_def buffer_ok_def by meson
  show ?thesis
  proof (cases "\<exists>s as. cf_answers fd = Data s # as")
    case True
    then show ?thesis using read_cmd_reads [OF assms] False by blast
  next
    case no_data: False
    then consider "cf_answers fd = []" | r as where "cf_answers fd = Failed r # as" by (metis cmd_answer.exhaust list.exhaust)
    then show ?thesis
      using assms False room by cases (auto simp: mp_input_read_cmd_def read_cmd_fd_def read_ok_def buffer_ok_def text_left_def work_left_def answers_work_def read_done_def)
  qed
qed (use read_cmd_buffered [OF assms] in blast)

lemma read_done_lines: "read_ok fd \<Longrightarrow> read_done fd \<Longrightarrow> short_lines (cf_drop fd) (text_left fd) = []"
  by (auto simp: read_ok_def read_done_def buffer_ok_def text_left_def intro!: short_lines_none)

section \<open>From the lines to the player\<close>

text \<open>Calls one after the other, and the commands they return.\<close>

fun get_cmd_times :: "nat \<Rightarrow> input_conf_t \<Rightarrow> (nat \<Rightarrow> u32) \<Rightarrow> libinput_t \<Rightarrow> (mp_cmd_t list \<times> libinput_t) option" where
  "get_cmd_times 0 conf clock priv = Some ([], priv)"
| "get_cmd_times (Suc n) conf clock priv =
     (case mp_input_get_cmd conf clock False False priv of
        None \<Rightarrow> None
      | Some (r, priv) \<Rightarrow> map_option (map_prod (append (case r of Some c \<Rightarrow> [c] | None \<Rightarrow> [])) id) (get_cmd_times n conf clock priv))"

text \<open>No key, no command in the queue, and no filter.\<close>

definition only_lines :: "libinput_t \<Rightarrow> bool" where
  "only_lines p \<longleftrightarrow> key_fds p = [] \<and> key_down p = [] \<and> cmd_queue_length p = 0 \<and> cmd_filters p = []"

lemma get_cmd_only_lines:
  assumes "only_lines p"
  shows "mp_input_get_cmd conf clock False False p = mp_input_read_cmds p"
proof -
  have "mp_input_read_keys conf clock p = Some (None, p)"
    using assms by (simp add: only_lines_def mp_input_read_keys_def next_key_def mp_input_read_key_code_def key_loop.simps autorepeat_def input_codes)
  moreover have "cmd_filters q = []" if "mp_input_read_cmds p = Some (r, q)" for r q
    using that assms by (auto simp: mp_input_read_cmds_def only_lines_def)
  ultimately show ?thesis using assms
    by (auto simp: mp_input_get_cmd_def mp_input_get_queued_cmd_def only_lines_def split: option.splits prod.splits)
qed

lemma poll_one: "poll_cmds 0 [fd] = (case mp_input_read_cmd fd of
    (Inl r, fd) \<Rightarrow> Some (None, [if r = MP_INPUT_DEAD then fd\<lparr>cf_dead := True\<rparr> else fd])
  | (Inr line, fd) \<Rightarrow> map_option (\<lambda>r. (r, [fd])) (mp_input_parse_cmd line))"
  by (simp add: poll_cmds.simps split: prod.splits sum.splits option.splits)

lemma few_fds [simp]: "remove_eof 0 [] = []" "remove_eof 0 [fd] = (if cf_eof fd then [] else [fd])" "poll_cmds 0 [] = Some (None, [])"
  by (simp_all add: remove_eof.simps poll_cmds.simps)

lemma read_cmds_one:
  assumes "cmd_fds p = [fd]" "\<not> cf_eof fd"
  shows "mp_input_read_cmds p = (case mp_input_read_cmd fd of
    (Inl r, fd) \<Rightarrow> Some (None, p\<lparr>cmd_fds := [if r = MP_INPUT_DEAD then fd\<lparr>cf_dead := True\<rparr> else fd]\<rparr>)
  | (Inr line, fd) \<Rightarrow> map_option (\<lambda>r. (r, p\<lparr>cmd_fds := [fd]\<rparr>)) (mp_input_parse_cmd line))"
  using assms by (simp add: mp_input_read_cmds_def poll_one option.map_comp o_def split: prod.splits sum.splits)

lemma done_no_cmds:
  assumes "only_lines p" "cmd_fds p = [] \<or> (\<exists>fd. cmd_fds p = [fd] \<and> read_ok fd \<and> read_done fd)"
  shows "\<exists>p'. get_cmd_times n conf clock p = Some ([], p')"
  using assms
proof (induction n arbitrary: p)
  case (Suc n)
  obtain fds where f: "mp_input_read_cmds p = Some (None, p\<lparr>cmd_fds := fds\<rparr>)"
    "fds = [] \<or> (\<exists>fd. fds = [fd] \<and> read_ok fd \<and> read_done fd)"
  proof (cases "cmd_fds p = [] \<or> cf_eof (hd (cmd_fds p))")
    case True
    then have "mp_input_read_cmds p = Some (None, p\<lparr>cmd_fds := []\<rparr>)"
      using Suc.prems(2) by (auto simp: mp_input_read_cmds_def)
    then show thesis using that by blast
  next
    case False
    then obtain fd where fd: "cmd_fds p = [fd]" "read_ok fd" "read_done fd" "\<not> cf_eof fd" using Suc.prems(2) by auto
    then have "mp_input_read_cmd fd = (Inl MP_INPUT_NOTHING, fd)"
      by (auto simp: mp_input_read_cmd_def read_cmd_fd_def read_done_def read_ok_def buffer_ok_def split: if_splits)
    then have "mp_input_read_cmds p = Some (None, p\<lparr>cmd_fds := [fd]\<rparr>)"
      using read_cmds_one [OF fd(1,4)] by (simp add: input_codes)
    then show thesis using that fd(2,3) by blast
  qed
  have "only_lines (p\<lparr>cmd_fds := fds\<rparr>)" using Suc.prems(1) by (simp add: only_lines_def)
  then obtain p' where "get_cmd_times n conf clock (p\<lparr>cmd_fds := fds\<rparr>) = Some ([], p')" using Suc.IH f(2) by fastforce
  then show ?case using get_cmd_only_lines [OF Suc.prems(1)] f(1) by simp
qed simp

lemma dead_same [simp]: "read_ok (fd\<lparr>cf_dead := b\<rparr>) = read_ok fd" "work_left (fd\<lparr>cf_dead := b\<rparr>) = work_left fd"
  "text_left (fd\<lparr>cf_dead := b\<rparr>) = text_left fd" "read_done (fd\<lparr>cf_dead := b\<rparr>) = read_done fd"
  by (simp_all add: read_ok_def buffer_ok_def work_left_def text_left_def read_done_def)

lemma no_work_left: "read_ok fd \<Longrightarrow> work_left fd = 0 \<Longrightarrow> read_done fd"
  by (cases "cf_answers fd"; cases "hd (cf_answers fd)") (auto simp: read_ok_def work_left_def answers_work_def read_done_def buffer_ok_def split: if_splits)

lemma lines_to_commands:
  assumes "only_lines p" "cmd_fds p = [fd]" "read_ok fd" "\<forall>l \<in> set (short_lines (cf_drop fd) (text_left fd)). mp_input_parse_cmd l \<noteq> None"
    "work_left fd \<le> n"
  shows "\<exists>p'. get_cmd_times n conf clock p = Some (List.map_filter (\<lambda>l. the (mp_input_parse_cmd l)) (short_lines (cf_drop fd) (text_left fd)), p')"
  using assms
proof (induction n arbitrary: p fd)
  case 0
  then show ?case using read_done_lines no_work_left by (simp add: map_filter_simps)
next
  case (Suc n)
  let ?ls = "\<lambda>fd. short_lines (cf_drop fd) (text_left fd)"
  show ?case
  proof (cases "read_done fd")
    case True
    then show ?thesis using done_no_cmds [OF Suc.prems(1)] Suc.prems(2,3) read_done_lines by (simp add: map_filter_simps del: get_cmd_times.simps)
  next
    case False
    then have eof: "\<not> cf_eof fd" using Suc.prems(3) by (auto simp: read_done_def read_ok_def)
    obtain res fd' where r: "mp_input_read_cmd fd = (res, fd')" by (cases "mp_input_read_cmd fd")
    note s = read_cmd_spec [OF Suc.prems(3) r]
    note c = get_cmd_only_lines [OF Suc.prems(1), of conf clock] read_cmds_one [OF Suc.prems(2) eof, unfolded r]
    let ?fd = "if res = Inl MP_INPUT_DEAD then fd'\<lparr>cf_dead := True\<rparr> else fd'"
    have "only_lines (p\<lparr>cmd_fds := [?fd]\<rparr>)" using Suc.prems(1) by (simp add: only_lines_def)
    moreover have "read_ok ?fd" "?ls ?fd = ?ls fd'" "work_left ?fd \<le> n" using s False Suc.prems(5) by auto
    ultimately obtain p' where p': "get_cmd_times n conf clock (p\<lparr>cmd_fds := [?fd]\<rparr>) =
        Some (List.map_filter (\<lambda>l. the (mp_input_parse_cmd l)) (?ls fd'), p')"
      using Suc.IH [of "p\<lparr>cmd_fds := [?fd]\<rparr>" ?fd] Suc.prems(4) s by auto
    show ?thesis
    proof (cases res)
      case (Inl e)
      then show ?thesis using c p' s by (auto split: if_splits)
    next
      case (Inr l)
      then obtain o' where "mp_input_parse_cmd l = Some o'" using Suc.prems(4) s by auto
      then show ?thesis using c p' s Inr by (auto simp: map_filter_simps split: option.splits)
    qed
  qed
qed

text \<open>C15: A file or pipe of commands: in whatever pieces its text comes, the player gets the commands of its lines, each once and
  in order. A line of 255 characters or more is dropped whole, and so is one without an end.\<close>

theorem lines_reach_player:
  assumes "only_lines p" "cmd_fds p = []" "mp_input_add_cmd_fd p opaque answers = Some p'" "no_null (answers_text answers)"
    "\<forall>l \<in> set (short_lines False (answers_text answers)). mp_input_parse_cmd l \<noteq> None" "answers_work answers \<le> n"
  shows "\<exists>q. get_cmd_times n conf clock p' =
    Some (List.map_filter (\<lambda>l. the (mp_input_parse_cmd l)) (short_lines False (answers_text answers)), q)"
proof -
  define fd where "fd = \<lparr>cf_opaque = opaque, cf_eof = False, cf_drop = False, cf_dead = False, cf_got_cmd = False,
    cf_buffer = [], cf_answers = answers\<rparr>"
  have "cmd_fds p' = [fd]" "only_lines p'"
    using assms(1-3) by (auto simp: mp_input_add_cmd_fd_def fd_def only_lines_def split: if_splits)
  moreover have "read_ok fd" "cf_drop fd = False" "text_left fd = answers_text answers" "work_left fd \<le> n"
    using assms(4,6) by (simp_all add: fd_def read_ok_def buffer_ok_def text_left_def no_null_def work_left_def MP_CMD_MAX_SIZE_def)
  ultimately show ?thesis using lines_to_commands [of p' fd n conf clock] assms(5) by simp
qed

text \<open>Reading keys and lines leaves the filters, their memory and the queue alone.\<close>

definition same_cmd_queue :: "libinput_t \<Rightarrow> libinput_t \<Rightarrow> bool" where
  "same_cmd_queue p q \<longleftrightarrow> cmd_filters q = cmd_filters p \<and> cmd_queue q = cmd_queue p \<and> cmd_queue_length q = cmd_queue_length p \<and>
     cmd_queue_start q = cmd_queue_start p \<and> cmd_queue_end q = cmd_queue_end p"

lemma same_cmd_queue_ok: "same_cmd_queue p q \<Longrightarrow> cmd_queue_ok q = cmd_queue_ok p \<and> queued_cmds q = queued_cmds p \<and> cmd_filters q = cmd_filters p"
  by (simp add: same_cmd_queue_def cmd_queue_ok_def queued_cmds_def)

lemma pressed_queue: "key_pressed clock k p = Some q \<Longrightarrow> same_cmd_queue p q"
  by (auto simp: key_pressed_def same_cmd_queue_def Let_def split: if_splits)

lemma released_queue: "key_released k p = Some (r, q) \<Longrightarrow> same_cmd_queue p q"
  by (auto simp: key_released_def same_cmd_queue_def Let_def split: if_splits option.splits)

lemma autorepeat_queue: "autorepeat conf clock p = Some (r, q) \<Longrightarrow> same_cmd_queue p q"
  by (auto simp: autorepeat_def same_cmd_queue_def Let_def split: if_splits option.splits)

lemma next_key_queue: "next_key p = (k, q) \<Longrightarrow> same_cmd_queue p q"
  by (auto simp: next_key_def same_cmd_queue_def split: prod.splits)

lemma same_cmd_queue_trans: "same_cmd_queue p q \<Longrightarrow> same_cmd_queue q r \<Longrightarrow> same_cmd_queue p r"
  by (simp add: same_cmd_queue_def)

lemma key_loop_queue: "key_loop clock k p = Some (r, q) \<Longrightarrow> same_cmd_queue p q"
proof (induction clock k p arbitrary: r q rule: key_loop.induct)
  case (1 clock k p)
  show ?case
  proof (cases "k < 0")
    case True
    then show ?thesis using "1.prems" by (simp add: key_loop.simps same_cmd_queue_def)
  next
    case False
    let ?step = "if bit k 29 then map_option (Pair None) (key_pressed clock k p) else key_released k p"
    obtain r1 q1 where s: "?step = Some (r1, q1)" using "1.prems" False by (subst (asm) key_loop.simps) (auto split: option.splits)
    then have q1: "same_cmd_queue p q1" using pressed_queue released_queue by (auto split: if_splits)
    show ?thesis
    proof (cases r1)
      case None
      obtain k2 q2 where n: "next_key q1 = (k2, q2)" by (cases "next_key q1")
      have "key_loop clock k2 q2 = Some (r, q)" using "1.prems" False s None n by (subst (asm) key_loop.simps) simp
      then have "same_cmd_queue q2 q" using "1.IH" [OF False s refl None n [symmetric]] by simp
      then show ?thesis using same_cmd_queue_trans q1 next_key_queue [OF n] by blast
    next
      case (Some c)
      then show ?thesis using "1.prems" False s q1 by (subst (asm) key_loop.simps) simp
    qed
  qed
qed

lemma read_keys_queue:
  assumes "mp_input_read_keys conf clock p = Some (r, q)"
  shows "same_cmd_queue p q"
proof -
  obtain k p1 where k: "next_key p = (k, p1)" by (cases "next_key p")
  obtain r2 p2 where l: "key_loop clock k p1 = Some (r2, p2)" using assms k by (auto simp: mp_input_read_keys_def split: option.splits)
  have "r2 = r \<and> p2 = q \<or> autorepeat conf clock p2 = Some (r, q)"
    using assms k l by (auto simp: mp_input_read_keys_def split: option.splits)
  then show ?thesis using next_key_queue [OF k] key_loop_queue [OF l] autorepeat_queue same_cmd_queue_trans by blast
qed

lemma read_cmds_queue: "mp_input_read_cmds p = Some (r, q) \<Longrightarrow> same_cmd_queue p q"
  by (auto simp: mp_input_read_cmds_def same_cmd_queue_def)

lemma queue_memory [simp]:
  "cmd_queue_ok (p\<lparr>filter_mem := mem\<rparr>) = cmd_queue_ok p" "queued_cmds (p\<lparr>filter_mem := mem\<rparr>) = queued_cmds p"
  by (simp_all add: cmd_queue_ok_def queued_cmds_def)

text \<open>A command in the queue is given out if the filters let it through; a call that takes has it out of the queue in any case.\<close>

lemma get_cmd_queued:
  assumes "cmd_queue_ok p" "queued_cmds p = c # cs" "run_filters (cmd_filters p) c paused (filter_mem p) = (taken, mem)"
  shows "mp_input_get_cmd conf clock paused True p = Some (if taken then None else Some c, p\<lparr>filter_mem := mem\<rparr>)"
    "\<exists>p'. mp_input_get_cmd conf clock paused False p = Some (if taken then None else Some c, p') \<and> queued_cmds p' = cs \<and> cmd_queue_ok p'"
proof -
  show "mp_input_get_cmd conf clock paused True p = Some (if taken then None else Some c, p\<lparr>filter_mem := mem\<rparr>)"
    using peek_queued [OF assms(1)] assms(2,3) by (simp add: mp_input_get_cmd_def Let_def)
  obtain r p' where g: "mp_input_get_queued_cmd p False = (r, p')" by (cases "mp_input_get_queued_cmd p False")
  then have "r = Some c" "queued_cmds p' = cs" "cmd_queue_ok p'" using get_queued_law [OF assms(1)] assms(2) by (auto split: option.splits)
  moreover have "cmd_filters p' = cmd_filters p" "filter_mem p' = filter_mem p"
    using g by (auto simp: mp_input_get_queued_cmd_def split: if_splits)
  ultimately show "\<exists>p'. mp_input_get_cmd conf clock paused False p = Some (if taken then None else Some c, p') \<and> queued_cmds p' = cs \<and> cmd_queue_ok p'"
    using g assms(3) by (simp add: mp_input_get_cmd_def Let_def)
qed

text \<open>A command that is looked at is in front of the queue afterwards, and the queue is the same otherwise.\<close>

lemma peek_spec:
  assumes "cmd_queue_ok p" "mp_input_get_cmd conf clock paused True p = Some (Some c, p')"
  shows "cmd_queue_ok p' \<and> queued_cmds p' = c # tl (queued_cmds p)"
proof (cases "queued_cmds p")
  case (Cons d ds)
  obtain taken mem where f: "run_filters (cmd_filters p) d paused (filter_mem p) = (taken, mem)" by fastforce
  show ?thesis using get_cmd_queued(1) [OF assms(1) Cons f, of conf clock] assms Cons by (auto split: if_splits)
next
  case Nil
  then have q: "mp_input_get_queued_cmd p True = (None, p)" using peek_queued [OF assms(1)] by simp
  obtain r1 p1 where k: "mp_input_read_keys conf clock p = Some (r1, p1)" using assms(2) q by (auto simp: mp_input_get_cmd_def split: option.splits)
  obtain p2 mem where r: "same_cmd_queue p p2" "p' = snd (mp_input_queue_cmd (p2\<lparr>filter_mem := mem\<rparr>) c)"
  proof (cases r1)
    case None
    then obtain p2 mem where "mp_input_read_cmds p1 = Some (Some c, p2)" "p' = snd (mp_input_queue_cmd (p2\<lparr>filter_mem := mem\<rparr>) c)"
      using assms(2) q k by (auto simp: mp_input_get_cmd_def Let_def split: option.splits if_splits prod.splits)
    then show thesis using that same_cmd_queue_trans [OF read_keys_queue [OF k] read_cmds_queue] by blast
  next
    case (Some d)
    then obtain mem where "d = c" "p' = snd (mp_input_queue_cmd (p1\<lparr>filter_mem := mem\<rparr>) c)"
      using assms(2) q k by (auto simp: mp_input_get_cmd_def Let_def split: if_splits prod.splits)
    then show thesis using that read_keys_queue [OF k] by blast
  qed
  have ok: "cmd_queue_ok (p2\<lparr>filter_mem := mem\<rparr>)" "queued_cmds (p2\<lparr>filter_mem := mem\<rparr>) = []"
    using same_cmd_queue_ok [OF r(1)] assms(1) Nil by auto
  then have "mp_input_queue_cmd (p2\<lparr>filter_mem := mem\<rparr>) c = (True, p')" using r(2) length_queued [of "p2\<lparr>filter_mem := mem\<rparr>"]
    by (auto simp: mp_input_queue_cmd_def CMD_QUEUE_SIZE_def split: if_splits)
  then show ?thesis using queue_cmd_law [OF ok(1)] ok(2) Nil by simp
qed


text \<open>An interrupting command that ends a blocking operation is the next one the main loop gets, if there are no filters.\<close>

lemma interrupt_is_next:
  assumes "cmd_queue_ok p" "mp_input_check_interrupt conf clock p = Some (True, p')" "cmd_filters p' = []"
  shows "\<exists>c q. interrupts c \<and> mp_input_get_cmd conf clock False False p' = Some (Some c, q)"
proof -
  obtain c where c: "mp_input_get_cmd conf clock False True p = Some (Some c, p')" "interrupts c"
    using assms(2) by (auto simp: mp_input_check_interrupt_def split: option.splits if_splits)
  have "run_filters (cmd_filters p') c False (filter_mem p') = (False, filter_mem p')" using assms(3) by simp
  then show ?thesis using peek_spec [OF assms(1) c(1)] get_cmd_queued(2) [where p = p' and cs = "tl (queued_cmds p)" and c = c] c(2) by fastforce
qed

section \<open>What goes wrong\<close>

definition quit_cmd :: mp_cmd_t where
  "quit_cmd = the (the (mp_input_parse_cmd ''quit''))"

definition reading :: "cmd_answer list \<Rightarrow> libinput_t" where
  "reading answers = the (mp_input_add_cmd_fd mp_input_open 0 answers)"

text \<open>A command in the queue that a filter takes when it is only looked at stays in the queue, and the filter gets it again at
  every look. A driver of commands that says it is dead is asked again. The last line of a file is lost when it is
  not ended, and so is a command behind a null character.\<close>

theorem input_get_faults:
  "mp_input_get_cmd conf clock paused True (snd (mp_input_queue_cmd (mp_input_add_cmd_filter mp_input_open (\<lambda>c paused ctx mem. (True, mem)) 0) c)) =
     Some (None, snd (mp_input_queue_cmd (mp_input_add_cmd_filter mp_input_open (\<lambda>c paused ctx mem. (True, mem)) 0) c))"
  "map_option fst (get_cmd_times 2 input_conf_default (\<lambda>i. 7) (reading [Failed MP_INPUT_DEAD, Data (''quit'' @ [CHR 0x0A])])) = Some [quit_cmd]"
  "map_option fst (get_cmd_times 3 input_conf_default (\<lambda>i. 7) (reading [Data ''quit'', Data []])) = Some []"
  "map_option fst (get_cmd_times 3 input_conf_default (\<lambda>i. 7) (reading [Data ([CHR 0x00] @ ''quit'' @ [CHR 0x0A])])) = Some []"
proof -
  show "mp_input_get_cmd conf clock paused True (snd (mp_input_queue_cmd (mp_input_add_cmd_filter mp_input_open (\<lambda>c paused ctx mem. (True, mem)) 0) c)) =
     Some (None, snd (mp_input_queue_cmd (mp_input_add_cmd_filter mp_input_open (\<lambda>c paused ctx mem. (True, mem)) 0) c))"
    by (simp add: mp_input_get_cmd_def mp_input_get_queued_cmd_def mp_input_queue_cmd_def mp_input_add_cmd_filter_def mp_input_open_def CMD_QUEUE_SIZE_def)
qed code_simp+

lemma lines_reach_player_witness:
  "\<exists>q. get_cmd_times 40 input_conf_default (\<lambda>i. 7) (reading [Data ''pau'', Failed MP_INPUT_NOTHING, Data (''se'' @ [CHR 0x0A] @ ''bogus''), Data ([CHR 0x0A] @ ''quit'' @ [CHR 0x0A])]) =
    Some ([the (the (mp_input_parse_cmd ''pause'')), quit_cmd], q)"
proof -
  let ?as = "[Data ''pau'', Failed MP_INPUT_NOTHING, Data (''se'' @ [CHR 0x0A] @ ''bogus''), Data ([CHR 0x0A] @ ''quit'' @ [CHR 0x0A])]"
  have o: "only_lines mp_input_open" "cmd_fds mp_input_open = []" by (simp_all add: only_lines_def mp_input_open_def)
  have r: "mp_input_add_cmd_fd mp_input_open 0 ?as = Some (reading ?as)" by (simp add: reading_def mp_input_add_cmd_fd_def o MP_MAX_CMD_FD_def)
  have l: "short_lines False (answers_text ?as) = [''pause'', ''bogus'', ''quit'']" by code_simp
  have n: "no_null (answers_text ?as)" unfolding no_null_def by code_simp
  have w: "answers_work ?as \<le> 40" by code_simp
  have p: "\<forall>l \<in> set [''pause'', ''bogus'', ''quit'']. mp_input_parse_cmd l \<noteq> None" by code_simp
  have b: "mp_input_parse_cmd ''bogus'' = Some None" by code_simp
  have c: "(case mp_input_parse_cmd ''pause'' of Some (Some c) \<Rightarrow> True | _ \<Rightarrow> False)" "(case mp_input_parse_cmd ''quit'' of Some (Some c) \<Rightarrow> True | _ \<Rightarrow> False)"
    by code_simp+
  have "List.map_filter (\<lambda>l. the (mp_input_parse_cmd l)) [''pause'', ''bogus'', ''quit''] = [the (the (mp_input_parse_cmd ''pause'')), quit_cmd]"
    using b c by (auto simp: map_filter_simps quit_cmd_def split: option.splits)
  then show ?thesis using lines_reach_player [OF o r n _ w, unfolded l] p by simp
qed





end
