(* ===== verification/InputConfig.thy ===== *)
theory InputConfig
  imports InputLines
begin

text \<open>
  The file of key bindings (mp_input_parse_config in mplayerxp/input2/input.cpp): a buffer of 256 characters, filled as far as it goes
  before each step, and steps that take a key, a command or a comment from its front. What \<open>bs\<close> counts changes: up to the end
  of the file it counts the null behind the text, afterwards it does not.
\<close>

section \<open>Steps\<close>

definition BS_MAX :: nat where
  "BS_MAX = 256"

definition SPACE_CHAR :: "char set" where
  "SPACE_CHAR = {CHR '' '', CHR 0x0A, CHR 0x0D, CHR 0x09}"

text \<open>What the calls of read give: characters, none at the end of the file. A call may be interrupted or fail.\<close>

datatype read_answer = Chunk string | Interrupted | Read_error

definition read_file :: "nat \<Rightarrow> read_answer list \<Rightarrow> read_answer \<times> read_answer list" where
  "read_file n as = (case as of
       [] \<Rightarrow> (Chunk [], [])
     | Chunk s # as \<Rightarrow> (Chunk (take n s), if length s \<le> n then as else Chunk (drop n s) # as)
     | a # as \<Rightarrow> (a, as))"

text \<open>The variables of the loop. The keys are those before the zero; an empty list is a zero in the first place.\<close>

record config_state =
  cs_buffer :: string
  cs_bs :: int
  cs_eof :: bool
  cs_comments :: bool
  cs_keys :: "int list"
  cs_binds :: "mp_cmd_bind_t list"
  cs_file :: "read_answer list"

text \<open>The loop goes on, or it returns, or it uses memory outside the buffer.\<close>

datatype config_result = Again config_state | Done bool "mp_cmd_bind_t list" | Outside

definition nul_char :: char where
  "nul_char = CHR 0x00"

text \<open>The place from \<open>i\<close> on where a character is not in a set; the length of the buffer when there is none.\<close>

definition skip_while :: "(char \<Rightarrow> bool) \<Rightarrow> string \<Rightarrow> nat \<Rightarrow> nat" where
  "skip_while P buf i = i + length (takeWhile P (drop i buf))"

definition move_down :: "nat \<Rightarrow> int \<Rightarrow> string \<Rightarrow> string" where
  "move_down i n buf = overwrite buf 0 (take (nat n) (drop i buf))"

definition config_comment :: "config_state \<Rightarrow> config_result" where
  "config_comment st =
     (let buf = cs_buffer st; i = skip_while (\<lambda>c. c \<noteq> nul_char \<and> c \<noteq> CHR 0x0A) buf 0 in
      if BS_MAX \<le> i then Outside
      else if buf ! i = nul_char then Again (st\<lparr>cs_bs := 0\<rparr>)
      else
        let i = i + 1; e = skip_while (\<lambda>c. c \<noteq> nul_char) buf i; r = int e - int i in
        if BS_MAX \<le> e then Outside
        else
          let buf = (if r \<noteq> 0 then move_down i (r + 1) buf else buf) in
          Again (st\<lparr>cs_buffer := buf, cs_bs := r + 1, cs_comments := (buf ! i = CHR ''#'')\<rparr>))"

definition config_key :: "config_state \<Rightarrow> config_result" where
  "config_key st =
     (let buf = cs_buffer st; i = skip_while (\<lambda>c. c \<in> SPACE_CHAR) buf 0 in
      if BS_MAX \<le> i then Outside
      else if buf ! i = nul_char then Again (st\<lparr>cs_bs := 0\<rparr>)
      else if buf ! i = CHR ''#'' then Again (st\<lparr>cs_comments := True\<rparr>)
      else
        let e = skip_while (\<lambda>c. c \<noteq> nul_char \<and> c \<notin> SPACE_CHAR) buf i in
        if BS_MAX \<le> e then Outside
        else if buf ! e = nul_char then
          (if i = 0 then Done False (cs_binds st)
           else Again (st\<lparr>cs_buffer := move_down i (int e - int i) buf, cs_bs := int e - int i\<rparr>))
        else
          (case mp_input_get_input_from_name (take (e - i) (drop i buf)) of
             None \<Rightarrow> Done False (cs_binds st)
           | Some ks \<Rightarrow> Again (st\<lparr>cs_buffer := if int e < cs_bs st then move_down e (cs_bs st - int e) buf else buf,
               cs_bs := cs_bs st - int e, cs_keys := ks\<rparr>)))"

definition config_command :: "config_state \<Rightarrow> config_result" where
  "config_command st =
     (let buf = cs_buffer st; bs = cs_bs st; i = skip_while blank buf 0 in
      if BS_MAX \<le> i then Outside
      else if buf ! i = CHR 0x0A \<or> buf ! i = CHR 0x0D then
        (if 0 < i then (if bs < int i then Outside
           else Again (st\<lparr>cs_keys := [], cs_buffer := move_down i (bs - int i) buf, cs_bs := bs - int i\<rparr>))
         else Again (st\<lparr>cs_keys := []\<rparr>))
      else
        let e = skip_while (\<lambda>c. c \<noteq> CHR 0x0A \<and> c \<noteq> CHR 0x0D \<and> c \<noteq> nul_char) buf i in
        if BS_MAX \<le> e then Outside
        else if buf ! e = nul_char \<and> \<not> (cs_eof st \<and> int e + 1 = bs) then
          (if i = 0 then Done False (cs_binds st)
           else Again (st\<lparr>cs_buffer := move_down i (int e - int i) buf, cs_bs := int e - int i\<rparr>))
        else
          let binds = mp_input_bind_keys (cs_binds st) (cs_keys st) (take (e - i) (drop i buf));
              buf = (if int e + 1 < bs then move_down (e + 1) (bs - (int e + 1)) buf else buf); bs = bs - (int e + 1)
          in if bs - 1 < 0 then Outside
             else Again (st\<lparr>cs_binds := binds, cs_keys := [], cs_buffer := buf[nat (bs - 1) := nul_char], cs_bs := bs\<rparr>))"

definition config_parse :: "config_state \<Rightarrow> config_result" where
  "config_parse st =
     (if cs_bs st \<le> 1 then Done True (cs_binds st)
      else if cs_comments st then config_comment st
      else if cs_keys st = [] \<or> hd (cs_keys st) = 0 then config_key st
      else config_command st)"

definition config_step :: "config_state \<Rightarrow> config_result" where
  "config_step st =
     (if \<not> cs_eof st \<and> cs_bs st < int BS_MAX - 1 then
        let bs = (if 0 < cs_bs st then cs_bs st - 1 else cs_bs st) in
        if bs < 0 then Outside
        else (case read_file (BS_MAX - 1 - nat bs) (cs_file st) of
            (Interrupted, as) \<Rightarrow> Again (st\<lparr>cs_bs := bs, cs_file := as\<rparr>)
          | (Read_error, as) \<Rightarrow> Done False (cs_binds st)
          | (Chunk s, as) \<Rightarrow>
              if s = [] then config_parse (st\<lparr>cs_bs := bs, cs_eof := True, cs_file := as\<rparr>)
              else config_parse (st\<lparr>cs_buffer := overwrite (cs_buffer st) (nat bs) (s @ [nul_char]), cs_bs := bs + int (length s) + 1, cs_file := as\<rparr>))
      else config_parse st)"

partial_function (option) config_loop :: "config_state \<Rightarrow> (bool \<times> mp_cmd_bind_t list) option option" where
  "config_loop st = (case config_step st of Again st \<Rightarrow> config_loop st | Done ok binds \<Rightarrow> Some (Some (ok, binds)) | Outside \<Rightarrow> Some None)"

declare config_loop.simps [code]

text \<open>
  \<open>junk\<close> is what the buffer buffer_holds before anything is read. A file that cannot be opened is None. The bindings made before a mistake stay.
\<close>

definition mp_input_parse_config :: "string \<Rightarrow> read_answer list option \<Rightarrow> mp_cmd_bind_t list \<Rightarrow> (bool \<times> mp_cmd_bind_t list) run" where
  "mp_input_parse_config junk file binds = (case file of
       None \<Rightarrow> Some (Some (False, binds))
     | Some as \<Rightarrow> config_loop \<lparr>cs_buffer = junk, cs_bs = 0, cs_eof = False, cs_comments = False, cs_keys = [], cs_binds = binds, cs_file = as\<rparr>)"

text \<open>The file of the user, and if it is not good the one of the system, with the bindings made so far.\<close>

definition mp_input_init_binds :: "string \<Rightarrow> read_answer list option \<Rightarrow> read_answer list option \<Rightarrow> mp_cmd_bind_t list \<Rightarrow> mp_cmd_bind_t list run" where
  "mp_input_init_binds junk user_file system_file binds =
     andthen (mp_input_parse_config junk user_file binds) (\<lambda>(ok, binds).
       if ok then Some (Some binds)
       else andthen (mp_input_parse_config junk system_file binds) (\<lambda>(ok, binds). Some (Some binds)))"

section \<open>What is in the buffer\<close>

definition buffer_holds :: "config_state \<Rightarrow> string \<Rightarrow> bool" where
  "buffer_holds st W \<longleftrightarrow> length (cs_buffer st) = BS_MAX \<and> cs_bs st = int (length W) \<and> length W \<le> BS_MAX \<and>
     take (length W) (cs_buffer st) = W \<and> \<not> cs_comments st"

text \<open>The rest of a regular file.\<close>

definition file_rest :: "read_answer list \<Rightarrow> string \<Rightarrow> bool" where
  "file_rest as T \<longleftrightarrow> as = [] \<and> T = [] \<or> as = [Chunk T]"

lemma skip_while_to:
  assumes "take (length W) buf = W" "W = a @ xs @ c # Y" "\<forall>x \<in> set xs. P x" "\<not> P c"
  shows "skip_while P buf (length a) = length a + length xs" "buf ! (length a + length xs) = c"
proof -
  have b: "buf = a @ xs @ c # Y @ drop (length W) buf"
    using assms(1,2) append_take_drop_id [of "length W" buf] by simp
  have "drop (length a) buf = xs @ c # Y @ drop (length W) buf" by (subst b) simp
  then show "skip_while P buf (length a) = length a + length xs"
    using assms(3,4) by (simp add: skip_while_def takeWhile_append)
  show "buf ! (length a + length xs) = c" by (subst b) (simp add: nth_append)
qed

lemma move_down_buffer_holds:
  assumes "length buf = BS_MAX" "take (length W) buf = W" "length W \<le> BS_MAX" "i < length W"
  shows "length (move_down i (int (length W) - int i) buf) = BS_MAX"
    "take (length W - i) (move_down i (int (length W) - int i) buf) = drop i W"
proof -
  have n: "nat (int (length W) - int i) = length W - i" by simp
  have l: "length (take (length W - i) (drop i buf)) = length W - i" using assms by simp
  show "length (move_down i (int (length W) - int i) buf) = BS_MAX"
    using assms by (simp add: move_down_def n length_overwrite)
  have "take (length W - i) (drop i buf) = drop i W" using assms(2) by (metis drop_take)
  then show "take (length W - i) (move_down i (int (length W) - int i) buf) = drop i W"
    using l unfolding move_down_def n overwrite_def by simp
qed

text \<open>Filling the buffer.\<close>

lemma butlast_held: "buffer_holds st W \<Longrightarrow> take (length (butlast W)) (cs_buffer st) = butlast W \<and> length (butlast W) \<le> BS_MAX"
proof (cases W rule: rev_cases)
  case (snoc V c)
  assume h: "buffer_holds st W"
  then have "take (length V) (take (length W) (cs_buffer st)) = V" using snoc by (simp add: buffer_holds_def)
  then have "take (length V) (cs_buffer st) = V" using snoc by (simp add: min_absorb1)
  then show ?thesis using h snoc by (simp add: buffer_holds_def)
qed simp

lemma step_reads:
  assumes "buffer_holds st W" "\<not> cs_eof st" "length W < BS_MAX - 1" "file_rest (cs_file st) T" "T \<noteq> []"
  shows "\<exists>st'. config_step st = config_parse st' \<and> buffer_holds st' (butlast W @ take (BS_MAX - 1 - length (butlast W)) T @ [nul_char]) \<and>
    \<not> cs_eof st' \<and> file_rest (cs_file st') (drop (BS_MAX - 1 - length (butlast W)) T) \<and> cs_keys st' = cs_keys st \<and> cs_binds st' = cs_binds st"
proof -
  define V where "V = butlast W"
  define n where "n = BS_MAX - 1 - length V"
  define s where "s = take n T"
  have g: "\<not> cs_eof st \<and> cs_bs st < int BS_MAX - 1" using assms(1-3) by (auto simp: buffer_holds_def)
  have bs: "(if 0 < cs_bs st then cs_bs st - 1 else cs_bs st) = int (length V)" using assms(1) by (cases W) (auto simp: buffer_holds_def V_def)
  have p: "length V < BS_MAX - 1" using assms(3) by (auto simp: V_def)
  have s: "s \<noteq> []" "length s \<le> n" using assms(5) p by (auto simp: s_def n_def)
  obtain as where r: "read_file n (cs_file st) = (Chunk s, as)" "file_rest as (drop n T)"
    using assms(4,5) by (auto simp: file_rest_def read_file_def s_def)
  define st' where "st' = st\<lparr>cs_buffer := overwrite (cs_buffer st) (length V) (s @ [nul_char]), cs_bs := int (length V) + int (length s) + 1, cs_file := as\<rparr>"
  have len: "length V + length (s @ [nul_char]) \<le> BS_MAX" "length (cs_buffer st) = BS_MAX" "\<not> cs_comments st"
    using p s(2) assms(1) by (auto simp: buffer_holds_def n_def)
  have t: "take (length V) (cs_buffer st) = V" using butlast_held [OF assms(1)] by (simp add: V_def)
  then have "take (length (V @ s @ [nul_char])) (cs_buffer st') = V @ s @ [nul_char]" using len by (simp add: st'_def overwrite_def)
  moreover have "length (cs_buffer st') = BS_MAX" using len by (simp add: st'_def)
  ultimately have "buffer_holds st' (V @ s @ [nul_char])" using len by (simp add: buffer_holds_def st'_def)
  moreover have "config_step st = config_parse st'"
    using s(1) r(1) unfolding config_step_def if_P [OF g] Let_def bs by (simp add: st'_def n_def)
  ultimately show ?thesis using r(2) assms(2) by (intro exI [of _ st']) (simp add: st'_def V_def n_def s_def)
qed

lemma step_eof:
  assumes "buffer_holds st W" "\<not> cs_eof st" "length W < BS_MAX - 1" "file_rest (cs_file st) []"
  shows "\<exists>st'. config_step st = config_parse st' \<and> buffer_holds st' (butlast W) \<and> cs_eof st' \<and> cs_keys st' = cs_keys st \<and> cs_binds st' = cs_binds st"
proof -
  have g: "\<not> cs_eof st \<and> cs_bs st < int BS_MAX - 1" using assms(1-3) by (auto simp: buffer_holds_def)
  have bs: "(if 0 < cs_bs st then cs_bs st - 1 else cs_bs st) = int (length (butlast W))" using assms(1) by (cases W) (auto simp: buffer_holds_def)
  obtain as where r: "read_file (BS_MAX - 1 - length (butlast W)) (cs_file st) = (Chunk [], as)"
    using assms(4) by (auto simp: file_rest_def read_file_def)
  define st' where "st' = st\<lparr>cs_bs := int (length (butlast W)), cs_eof := True, cs_file := as\<rparr>"
  have "buffer_holds st' (butlast W)" using butlast_held [OF assms(1)] assms(1) by (simp add: buffer_holds_def st'_def)
  moreover have "config_step st = config_parse st'"
    using r unfolding config_step_def if_P [OF g] Let_def bs by (simp add: st'_def)
  ultimately show ?thesis by (intro exI [of _ st']) (simp add: st'_def)
qed

lemma step_full: "cs_eof st \<or> buffer_holds st W \<and> BS_MAX - 1 \<le> length W \<Longrightarrow> config_step st = config_parse st"
  by (auto simp: config_step_def buffer_holds_def)

section \<open>One binding\<close>

definition key_char :: "char \<Rightarrow> bool" where
  "key_char c \<longleftrightarrow> c \<noteq> nul_char \<and> c \<notin> SPACE_CHAR"

definition command_char :: "char \<Rightarrow> bool" where
  "command_char c \<longleftrightarrow> c \<noteq> CHR 0x0A \<and> c \<noteq> CHR 0x0D \<and> c \<noteq> nul_char"

text \<open>The name of a combination and a command as they can stand on a line.\<close>

definition binding_ok :: "string \<times> string \<Rightarrow> bool" where
  "binding_ok e = (case e of (n, c) \<Rightarrow> n \<noteq> [] \<and> (\<forall>x \<in> set n. key_char x) \<and> hd n \<noteq> CHR ''#'' \<and>
     (case mp_input_get_input_from_name n of None \<Rightarrow> False | Some ks \<Rightarrow> ks \<noteq> [] \<and> hd ks \<noteq> 0) \<and>
     c \<noteq> [] \<and> (\<forall>x \<in> set c. command_char x) \<and> \<not> blank (hd c) \<and> length n + length c \<le> 250)"

definition binding_line :: "string \<times> string \<Rightarrow> string" where
  "binding_line e = fst e @ CHR '' '' # snd e @ [CHR 0x0A]"

lemma parse_key:
  assumes "buffer_holds st (n @ CHR '' '' # Y)" "binding_ok (n, c)" "cs_keys st = []"
  shows "\<exists>st'. config_parse st = Again st' \<and> buffer_holds st' (CHR '' '' # Y) \<and> Some (cs_keys st') = mp_input_get_input_from_name n \<and>
    cs_binds st' = cs_binds st \<and> cs_eof st' = cs_eof st \<and> cs_file st' = cs_file st"
proof -
  let ?W = "n @ CHR '' '' # Y" and ?buf = "cs_buffer st"
  obtain x n' where n: "n = x # n'" using assms(2) by (cases n) (auto simp: binding_ok_def)
  have x: "key_char x" "x \<noteq> CHR ''#''" "\<forall>y \<in> set n. key_char y" using assms(2) n by (auto simp: binding_ok_def)
  obtain ks where ks: "mp_input_get_input_from_name n = Some ks" using assms(2) by (auto simp: binding_ok_def split: option.splits)
  have h: "take (length ?W) ?buf = ?W" "length ?buf = BS_MAX" "length ?W \<le> BS_MAX" "cs_bs st = int (length ?W)" "\<not> cs_comments st"
    using assms(1) by (auto simp: buffer_holds_def)
  have s1: "skip_while (\<lambda>c. c \<in> SPACE_CHAR) ?buf 0 = 0" "?buf ! 0 = x"
    using skip_while_to [OF h(1), of "[]" "[]" x "n' @ CHR '' '' # Y" "\<lambda>c. c \<in> SPACE_CHAR"] n x by (auto simp: key_char_def)
  have s2: "skip_while (\<lambda>c. c \<noteq> nul_char \<and> c \<notin> SPACE_CHAR) ?buf 0 = length n" "?buf ! length n = CHR '' ''"
    using skip_while_to [OF h(1), of "[]" n "CHR '' ''" Y "\<lambda>c. c \<noteq> nul_char \<and> c \<notin> SPACE_CHAR"] x(3) by (auto simp: key_char_def SPACE_CHAR_def)
  have t: "take (length n) ?buf = n" using h(1) by (metis append_eq_conv_conj take_take length_append min.absorb1 le_add1)
  define st' where "st' = st\<lparr>cs_buffer := move_down (length n) (int (length ?W) - int (length n)) ?buf, cs_bs := int (length ?W) - int (length n), cs_keys := ks\<rparr>"
  have "length n < BS_MAX" using h(3) by simp
  moreover have "CHR '' '' \<noteq> nul_char" by (simp add: nul_char_def)
  ultimately have "config_key st = Again st'"
    using s1 s2 x h(3,4) t ks by (simp add: config_key_def Let_def key_char_def st'_def BS_MAX_def)
  moreover have "config_parse st = config_key st" using assms(3) h(4,5) n by (simp add: config_parse_def)
  moreover have "buffer_holds st' (CHR '' '' # Y)"
    using move_down_buffer_holds [OF h(2,1,3), of "length n"] h(3,5) by (simp add: buffer_holds_def st'_def)
  ultimately show ?thesis using ks by (intro exI [of _ st']) (simp add: st'_def)
qed

text \<open>A command up to the end of its line. What is behind it moves to the front, and its last character is overwritten by the null.\<close>

lemma parse_command:
  assumes "buffer_holds st (CHR '' '' # c @ CHR 0x0A # Y)" "c \<noteq> []" "\<forall>x \<in> set c. command_char x" "\<not> blank (hd c)" "cs_keys st \<noteq> []" "hd (cs_keys st) \<noteq> 0"
  shows "if Y = [] then config_parse st = Outside
    else \<exists>st'. config_parse st = Again st' \<and> buffer_holds st' (butlast Y @ [nul_char]) \<and> cs_keys st' = [] \<and>
      cs_binds st' = mp_input_bind_keys (cs_binds st) (cs_keys st) c \<and> cs_eof st' = cs_eof st \<and> cs_file st' = cs_file st"
proof -
  let ?W = "CHR '' '' # c @ CHR 0x0A # Y" and ?buf = "cs_buffer st"
  obtain x c' where c: "c = x # c'" using assms(2) by (cases c) auto
  have x: "\<not> blank x" "command_char x" using assms(3,4) c by auto
  have h: "take (length ?W) ?buf = ?W" "length ?buf = BS_MAX" "length ?W \<le> BS_MAX" "cs_bs st = int (length ?W)" "\<not> cs_comments st"
    using assms(1) by (auto simp: buffer_holds_def)
  have s1: "skip_while blank ?buf 0 = 1" "?buf ! 1 = x"
    using skip_while_to [OF h(1), of "[]" "[CHR '' '']" x "c' @ CHR 0x0A # Y" blank] c x by auto
  have s2: "skip_while (\<lambda>c. c \<noteq> CHR 0x0A \<and> c \<noteq> CHR 0x0D \<and> c \<noteq> nul_char) ?buf 1 = 1 + length c" "?buf ! (1 + length c) = CHR 0x0A"
    using skip_while_to [OF h(1), of "[CHR '' '']" c "CHR 0x0A" Y "\<lambda>c. c \<noteq> CHR 0x0A \<and> c \<noteq> CHR 0x0D \<and> c \<noteq> nul_char"] assms(3)
    by (auto simp: command_char_def)
  have t: "take (length c) (drop 1 ?buf) = c"
  proof -
    have "take (length c) (drop 1 (take (length ?W) ?buf)) = c" unfolding h(1) by simp
    then show ?thesis by (simp add: drop_take)
  qed
  have e: "1 + length c < BS_MAX" "CHR 0x0A \<noteq> nul_char" using h(3) by (auto simp: nul_char_def)
  have parse: "config_parse st = config_command st" using assms(5,6) h(4,5) by (simp add: config_parse_def)
  have bs: "cs_bs st - (int (1 + length c) + 1) = int (length Y)" "int (1 + length c) + 1 < cs_bs st \<longleftrightarrow> Y \<noteq> []"
    using h(4) by auto
  have n: "nat (int (length Y) - 1) = length Y - 1" "int (length Y) - 1 < 0 \<longleftrightarrow> Y = []" by (cases Y; simp)+
  define st' where "st' = st\<lparr>cs_binds := mp_input_bind_keys (cs_binds st) (cs_keys st) c, cs_keys := [],
     cs_buffer := (move_down (1 + length c + 1) (int (length Y)) ?buf)[length Y - 1 := nul_char], cs_bs := int (length Y)\<rparr>"
  have "config_command st = (if Y = [] then Outside else Again st')"
    unfolding config_command_def Let_def s1(1) s2(1) s1(2) s2(2) bs n using e x t
    by (simp add: command_char_def st'_def BS_MAX_def nat_diff_distrib)
  moreover have "buffer_holds st' (butlast Y @ [nul_char])" if "Y \<noteq> []"
  proof -
    let ?m = "move_down (1 + length c + 1) (int (length Y)) ?buf"
    have y: "int (length Y) = int (length ?W) - int (1 + length c + 1)" "drop (1 + length c + 1) ?W = Y" "1 + length c + 1 < length ?W" "length ?W - (1 + length c + 1) = length Y"
      using that by auto
    have m: "length ?m = BS_MAX" "take (length Y) ?m = Y"
      using move_down_buffer_holds [OF h(2,1,3) y(3), folded y(1), unfolded y(2,4)] by auto
    have "take (length Y) (?m[length Y - 1 := nul_char]) = butlast Y @ [nul_char]"
      using m(2) that by (simp add: take_update_swap butlast_conv_take list_update_beyond upd_conv_take_nth_drop)
    then show ?thesis using m(1) that h(3,5) by (simp add: buffer_holds_def st'_def)
  qed
  ultimately show ?thesis using parse by (auto simp: st'_def)
qed

text \<open>A last command that has lost the end of its line is taken, and the null is written in front of the buffer.\<close>

lemma parse_last_command:
  assumes "buffer_holds st (CHR '' '' # c @ [nul_char])" "c \<noteq> []" "\<forall>x \<in> set c. command_char x" "\<not> blank (hd c)" "cs_keys st \<noteq> []" "hd (cs_keys st) \<noteq> 0" "cs_eof st"
  shows "config_parse st = Outside"
proof -
  let ?W = "CHR '' '' # c @ [nul_char]" and ?buf = "cs_buffer st"
  obtain x c' where c: "c = x # c'" using assms(2) by (cases c) auto
  have x: "\<not> blank x" "command_char x" using assms(3,4) c by auto
  have h: "take (length ?W) ?buf = ?W" "length ?buf = BS_MAX" "length ?W \<le> BS_MAX" "cs_bs st = int (length ?W)" "\<not> cs_comments st"
    using assms(1) by (auto simp: buffer_holds_def)
  have s1: "skip_while blank ?buf 0 = 1" "?buf ! 1 = x"
    using skip_while_to [OF h(1), of "[]" "[CHR '' '']" x "c' @ [nul_char]" blank] c x by auto
  have s2: "skip_while (\<lambda>c. c \<noteq> CHR 0x0A \<and> c \<noteq> CHR 0x0D \<and> c \<noteq> nul_char) ?buf 1 = 1 + length c" "?buf ! (1 + length c) = nul_char"
    using skip_while_to [OF h(1), of "[CHR '' '']" c nul_char "[]" "\<lambda>c. c \<noteq> CHR 0x0A \<and> c \<noteq> CHR 0x0D \<and> c \<noteq> nul_char"] assms(3)
    by (auto simp: command_char_def)
  have e: "1 + length c < BS_MAX" using h(3) by simp
  have "config_parse st = config_command st" using assms(5,6) h(4,5) by (simp add: config_parse_def)
  also have "\<dots> = Outside"
    unfolding config_command_def Let_def s1(1) s2(1) s1(2) s2(2) using e x h(4) assms(7) by (simp add: command_char_def BS_MAX_def)
  finally show ?thesis .
qed

section \<open>A file of bindings\<close>

definition config_text :: "bool \<Rightarrow> (string \<times> string) list \<Rightarrow> string" where
  "config_text nl es = concat (List.map binding_line es) @ (if nl then [CHR 0x0A] else [])"

definition bind_entry :: "mp_cmd_bind_t list \<Rightarrow> string \<times> string \<Rightarrow> mp_cmd_bind_t list" where
  "bind_entry binds e = mp_input_bind_keys binds (the (mp_input_get_input_from_name (fst e))) (snd e)"

definition config_outcome :: "bool \<Rightarrow> (string \<times> string) list \<Rightarrow> mp_cmd_bind_t list \<Rightarrow> (bool \<times> mp_cmd_bind_t list) run" where
  "config_outcome nl es binds = (if nl \<or> es = [] then Some (Some (True, foldl bind_entry binds es)) else Some None)"

lemma config_text_simps [simp]:
  "config_text nl [] = (if nl then [CHR 0x0A] else [])"
  "config_text nl (e # es) = binding_line e @ config_text nl es"
  by (simp_all add: config_text_def)

lemma config_text_empty [simp]: "config_text nl es = [] \<longleftrightarrow> \<not> nl \<and> es = []"
  by (cases es) (auto simp: binding_line_def)

lemma config_outcome_simps:
  "config_outcome nl [] binds = Some (Some (True, binds))"
  "config_text nl es \<noteq> [] \<Longrightarrow> config_outcome nl (e # es) binds = config_outcome nl es (bind_entry binds e)"
  "config_text nl es = [] \<Longrightarrow> config_outcome nl (e # es) binds = Some None"
  by (auto simp: config_outcome_def)

lemma binding_keys:
  assumes "binding_ok (n, c)" "Some ks = mp_input_get_input_from_name n"
  shows "ks \<noteq> []" "hd ks \<noteq> 0" "mp_input_bind_keys binds ks c = bind_entry binds (n, c)"
    "c \<noteq> []" "\<forall>x \<in> set c. command_char x" "\<not> blank (hd c)" "n \<noteq> []" "length n + length c \<le> 250"
  using assms by (auto simp: binding_ok_def bind_entry_def split: option.splits)

lemma loop_again: "config_step st = Again st' \<Longrightarrow> config_loop st = config_loop st'"
  by (subst config_loop.simps) simp

lemma loop_done: "config_step st = Done ok binds \<Longrightarrow> config_loop st = Some (Some (ok, binds))"
  "config_step st = Outside \<Longrightarrow> config_loop st = Some None"
  by (subst config_loop.simps, simp)+

lemma parse_short: "buffer_holds st W \<Longrightarrow> length W \<le> 1 \<Longrightarrow> config_parse st = Done True (cs_binds st)"
  by (simp add: config_parse_def buffer_holds_def)

text \<open>At the end of the file, when the last character has become the null.\<close>

lemma loop_null:
  assumes "buffer_holds st (butlast (config_text nl es) @ [nul_char])" "cs_eof st" "cs_keys st = []" "\<forall>e \<in> set es. binding_ok e" "config_text nl es \<noteq> []"
  shows "config_loop st = config_outcome nl es (cs_binds st)"
  using assms
proof (induction es arbitrary: st)
  case Nil
  then show ?case using step_full [of st] parse_short [of st "[nul_char]"] loop_done(1) [of st]
    by (auto simp: config_outcome_simps split: if_splits)
next
  case (Cons e es)
  obtain n c where e: "e = (n, c)" by (cases e)
  let ?S = "config_text nl es"
  show ?case
  proof (cases "?S = []")
    case True
    then have h: "buffer_holds st (n @ CHR '' '' # c @ [nul_char])" using Cons.prems(1) e by (simp add: binding_line_def butlast_append)
    obtain st1 where s1: "config_parse st = Again st1" "buffer_holds st1 (CHR '' '' # c @ [nul_char])" "Some (cs_keys st1) = mp_input_get_input_from_name n"
        "cs_eof st1 = cs_eof st"
      using parse_key [OF h] Cons.prems(3,4) e by auto
    have k: "binding_ok (n, c)" using Cons.prems(4) e by simp
    have "config_parse st1 = Outside"
      using parse_last_command [OF s1(2)] binding_keys [OF k s1(3)] s1(4) Cons.prems(2) by simp
    then have "config_loop st = Some None"
      using loop_again [of st st1] loop_done(2) [of st1] step_full [of st] step_full [of st1] s1(1,4) Cons.prems(2) by simp
    then show ?thesis using True by (simp add: config_outcome_simps)
  next
    case False
    let ?Y = "butlast ?S @ [nul_char]"
    have h: "buffer_holds st (n @ CHR '' '' # c @ CHR 0x0A # ?Y)" using Cons.prems(1) e False by (auto simp: binding_line_def butlast_append)
    obtain st1 where s1: "config_parse st = Again st1" "buffer_holds st1 (CHR '' '' # c @ CHR 0x0A # ?Y)" "Some (cs_keys st1) = mp_input_get_input_from_name n"
        "cs_eof st1 = cs_eof st" "cs_binds st1 = cs_binds st"
      using parse_key [OF h] Cons.prems(3,4) e by auto
    have k: "binding_ok (n, c)" using Cons.prems(4) e by simp
    obtain st2 where s2: "config_parse st1 = Again st2" "buffer_holds st2 ?Y" "cs_keys st2 = []" "cs_binds st2 = bind_entry (cs_binds st) e" "cs_eof st2 = cs_eof st"
      using parse_command [OF s1(2)] binding_keys [OF k s1(3)] s1(4,5) e by auto
    have "config_loop st2 = config_outcome nl es (cs_binds st2)"
      using Cons.IH [OF s2(2)] s2(3,5) Cons.prems(2,4) False by simp
    moreover have "config_loop st = config_loop st2"
      using loop_again [of st st1] loop_again [of st1 st2] step_full [of st] step_full [of st1] s1(1,4) s2(1) Cons.prems(2) by simp
    ultimately show ?thesis using s2(4) False by (simp add: config_outcome_simps)
  qed
qed

text \<open>A command when its line and all of the rest are in the buffer and the end of the file is seen.\<close>

lemma command_at_eof:
  assumes "config_step st = config_parse st'" "buffer_holds st' (CHR '' '' # c @ CHR 0x0A # config_text nl es)" "cs_eof st'"
    "binding_ok (n, c)" "Some (cs_keys st') = mp_input_get_input_from_name n" "\<forall>e \<in> set es. binding_ok e"
  shows "config_loop st = config_outcome nl ((n, c) # es) (cs_binds st')"
proof (cases "config_text nl es = []")
  case True
  then have "config_parse st' = Outside" using parse_command [OF assms(2)] binding_keys [OF assms(4,5)] by simp
  then show ?thesis using assms(1) loop_done(2) [of st] True by (simp add: config_outcome_simps)
next
  case False
  obtain st2 where s2: "config_parse st' = Again st2" "buffer_holds st2 (butlast (config_text nl es) @ [nul_char])" "cs_keys st2 = []"
      "cs_binds st2 = bind_entry (cs_binds st') (n, c)" "cs_eof st2"
    using parse_command [OF assms(2)] binding_keys [OF assms(4,5)] assms(3) False by auto
  then show ?thesis
    using loop_null [OF s2(2)] loop_again [of st st2] assms(1,6) False by (simp add: config_outcome_simps)
qed

lemma loop_eof:
  assumes "config_step st = config_parse st'" "buffer_holds st' (config_text nl es)" "cs_eof st'" "cs_keys st' = []" "\<forall>e \<in> set es. binding_ok e"
  shows "config_loop st = config_outcome nl es (cs_binds st')"
proof (cases es)
  case Nil
  then show ?thesis using parse_short [OF assms(2)] loop_done(1) [of st] assms(1) by (simp add: config_outcome_simps)
next
  case (Cons e es')
  obtain n c where e: "e = (n, c)" by (cases e)
  have k: "binding_ok (n, c)" using assms(5) Cons e by simp
  have h: "buffer_holds st' (n @ CHR '' '' # c @ CHR 0x0A # config_text nl es')" using assms(2) Cons e by (simp add: binding_line_def)
  obtain st1 where s1: "config_parse st' = Again st1" "buffer_holds st1 (CHR '' '' # c @ CHR 0x0A # config_text nl es')"
      "Some (cs_keys st1) = mp_input_get_input_from_name n" "cs_eof st1" "cs_binds st1 = cs_binds st'"
    using parse_key [OF h k assms(4)] assms(3) by auto
  have "config_loop st1 = config_outcome nl es (cs_binds st1)"
    using command_at_eof [OF step_full s1(2,4) k s1(3)] s1(4) assms(5) Cons e by simp
  then show ?thesis using loop_again [of st st1] assms(1) s1(1,5) by simp
qed

text \<open>Filling the buffer: either all of the file is in it and its end was seen, or the buffer is full or nothing is left.\<close>

lemma config_fill:
  assumes "buffer_holds st W" "\<not> cs_eof st" "W = [] \<and> B = [] \<or> W = B @ [nul_char]" "file_rest (cs_file st) T"
  shows "\<exists>st'. config_step st = config_parse st' \<and> cs_keys st' = cs_keys st \<and> cs_binds st' = cs_binds st \<and>
    (cs_eof st' \<and> buffer_holds st' (B @ T) \<or>
     \<not> cs_eof st' \<and> (\<exists>B' T'. buffer_holds st' (B' @ [nul_char]) \<and> B' @ T' = B @ T \<and> file_rest (cs_file st') T' \<and> (254 \<le> length B' \<or> T' = []) \<and> length B \<le> length B' \<and>
       (T = [] \<longrightarrow> BS_MAX - 1 \<le> length W)))"
proof -
  have b: "butlast W = B" using assms(3) by auto
  show ?thesis
  proof (cases "BS_MAX - 1 \<le> length W")
    case True
    then have "W = B @ [nul_char]" "254 \<le> length B" using assms(3) by (auto simp: BS_MAX_def)
    then show ?thesis using step_full [of st W] assms True by blast
  next
    case False
    then have l: "length W < BS_MAX - 1" by simp
    show ?thesis
    proof (cases "T = []")
      case True
      then show ?thesis using step_eof [OF assms(1,2) l] assms(4) b by auto
    next
      case False
      let ?n = "BS_MAX - 1 - length B"
      obtain st' where s: "config_step st = config_parse st'" "buffer_holds st' (B @ take ?n T @ [nul_char])" "\<not> cs_eof st'" "file_rest (cs_file st') (drop ?n T)"
          "cs_keys st' = cs_keys st" "cs_binds st' = cs_binds st"
        using step_reads [OF assms(1,2) l assms(4) False] unfolding b by blast
      have d: "254 \<le> length (B @ take ?n T) \<or> drop ?n T = []" by (auto simp: BS_MAX_def)
      have "buffer_holds st' ((B @ take ?n T) @ [nul_char])" using s(2) by simp
      moreover have "(B @ take ?n T) @ drop ?n T = B @ T" by simp
      ultimately show ?thesis using s d False by (intro exI [of _ st']) (metis le_add1 length_append)
    qed
  qed
qed

text \<open>The file does not say more than an empty line.\<close>

lemma parse_empty_line:
  assumes "buffer_holds st [CHR 0x0A, nul_char]" "cs_keys st = []"
  shows "config_parse st = Again (st\<lparr>cs_bs := 0\<rparr>)"
proof -
  have h: "take (length [CHR 0x0A, nul_char]) (cs_buffer st) = [CHR 0x0A, nul_char]" using assms(1) unfolding buffer_holds_def by blast
  have "skip_while (\<lambda>c. c \<in> SPACE_CHAR) (cs_buffer st) 0 = 1" "cs_buffer st ! 1 = nul_char"
    using skip_while_to [OF h, of "[]" "[CHR 0x0A]" nul_char "[]" "\<lambda>c. c \<in> SPACE_CHAR"] by (auto simp: SPACE_CHAR_def nul_char_def)
  then show ?thesis using assms by (simp add: config_parse_def config_key_def Let_def buffer_holds_def BS_MAX_def)
qed

lemma loop_end:
  assumes "buffer_holds st (B @ [nul_char])" "\<not> cs_eof st" "file_rest (cs_file st) T" "B @ T = config_text nl []" "254 \<le> length B \<or> T = []" "cs_keys st = []"
    "config_step st0 = config_parse st"
  shows "config_loop st0 = Some (Some (True, cs_binds st))"
proof -
  have T: "T = []" using assms(4,5) by (cases B) (auto split: if_splits)
  show ?thesis
  proof (cases "B = []")
    case True
    then show ?thesis using parse_short [OF assms(1)] assms(7) loop_done(1) [of st0] by simp
  next
    case False
    then have B: "B = [CHR 0x0A]" using assms(4) T by (auto split: if_splits)
    define st1 where "st1 = st\<lparr>cs_bs := 0\<rparr>"
    have a: "config_parse st = Again st1" using parse_empty_line [of st] assms(1,6) B by (simp add: st1_def)
    have h: "buffer_holds st1 []" "\<not> cs_eof st1" "file_rest (cs_file st1) []" using assms(1,2,3) T by (simp_all add: st1_def buffer_holds_def)
    obtain st2 where s: "config_step st1 = config_parse st2" "buffer_holds st2 []" "cs_binds st2 = cs_binds st1"
      using step_eof [OF h(1,2) _ h(3)] by (auto simp: BS_MAX_def)
    have "config_loop st1 = Some (Some (True, cs_binds st2))" using parse_short [OF s(2)] s(1) loop_done(1) [of st1] by simp
    then show ?thesis using loop_again [of st0 st1] a assms(7) s(3) by (simp add: st1_def)
  qed
qed

lemma config_front:
  assumes "B @ T = u @ v @ S" "length (u @ v) \<le> length B"
  obtains B2 where "B = u @ v @ B2" "B2 @ T = S"
proof -
  have "take (length (u @ v)) (B @ T) = u @ v" unfolding assms(1) by simp
  then have "take (length (u @ v)) B = u @ v" using assms(2) by simp
  then have "B = u @ v @ drop (length (u @ v)) B" using append_take_drop_id [of "length (u @ v)" B] by simp
  then show thesis using assms(1) that by (metis append_assoc same_append_eq)
qed

text \<open>The command of a line, when its key has been read; the rest of the file is in the hands of the hypothesis.\<close>

lemma command_phase:
  assumes "buffer_holds st (CHR '' '' # c @ CHR 0x0A # B @ [nul_char])" "\<not> cs_eof st" "file_rest (cs_file st) T" "B @ T = config_text nl es"
    "binding_ok (n, c)" "Some (cs_keys st) = mp_input_get_input_from_name n" "\<forall>e \<in> set es. binding_ok e"
    and rest: "\<And>st B T. buffer_holds st (B @ [nul_char]) \<Longrightarrow> \<not> cs_eof st \<Longrightarrow> file_rest (cs_file st) T \<Longrightarrow> B @ T = config_text nl es \<Longrightarrow>
       cs_keys st = [] \<Longrightarrow> config_loop st = config_outcome nl es (cs_binds st)"
  shows "config_loop st = config_outcome nl ((n, c) # es) (cs_binds st)"
proof -
  let ?c = "CHR '' '' # c @ [CHR 0x0A]" and ?S = "config_text nl es"
  have h: "buffer_holds st ((?c @ B) @ [nul_char])" using assms(1) by simp
  obtain st1 where f: "config_step st = config_parse st1" "cs_keys st1 = cs_keys st" "cs_binds st1 = cs_binds st"
      "cs_eof st1 \<and> buffer_holds st1 (?c @ ?S) \<or> \<not> cs_eof st1 \<and> (\<exists>B' T'. buffer_holds st1 (B' @ [nul_char]) \<and> B' @ T' = ?c @ ?S \<and>
        file_rest (cs_file st1) T' \<and> length (?c @ B) \<le> length B' \<and> (T = [] \<longrightarrow> BS_MAX - 1 \<le> length ((?c @ B) @ [nul_char])))"
    using config_fill [OF h assms(2) _ assms(3), of "?c @ B"] assms(4) by (simp only: append_assoc simp_thms) blast
  have ks: "Some (cs_keys st1) = mp_input_get_input_from_name n" using f(2) assms(6) by simp
  show ?thesis
  proof (cases "cs_eof st1")
    case True
    then show ?thesis using command_at_eof [OF f(1) _ True assms(5) ks assms(7)] f(3,4) by simp
  next
    case False
    then obtain B' T' where b: "buffer_holds st1 (B' @ [nul_char])" "B' @ T' = [] @ ?c @ ?S" "file_rest (cs_file st1) T'" "length ([] @ ?c) \<le> length B'"
        "T = [] \<Longrightarrow> BS_MAX - 1 \<le> length ((?c @ B) @ [nul_char])"
      using f(4) by auto
    obtain B2 where B2: "B' = [] @ ?c @ B2" "B2 @ T' = ?S" by (rule config_front [OF b(2,4)])
    have ne: "?S \<noteq> []" using b(5) assms(4,5) by (auto simp: binding_ok_def BS_MAX_def)
    have h1: "buffer_holds st1 (CHR '' '' # c @ CHR 0x0A # B2 @ [nul_char])" using b(1) B2(1) by simp
    obtain st2 where s2: "config_parse st1 = Again st2" "buffer_holds st2 (B2 @ [nul_char])" "cs_keys st2 = []"
        "cs_binds st2 = bind_entry (cs_binds st) (n, c)" "\<not> cs_eof st2" "file_rest (cs_file st2) T'"
      using parse_command [OF h1] binding_keys [OF assms(5) ks] f(3) False b(3) by auto
    show ?thesis
      using rest [OF s2(2,5,6) B2(2) s2(3)] loop_again [of st st2] f(1) s2(1,4) ne by (simp add: config_outcome_simps)
  qed
qed

lemma loop_file:
  assumes "buffer_holds st W" "\<not> cs_eof st" "W = [] \<and> B = [] \<or> W = B @ [nul_char]" "file_rest (cs_file st) T" "B @ T = config_text nl es"
    "cs_keys st = []" "\<forall>e \<in> set es. binding_ok e"
  shows "config_loop st = config_outcome nl es (cs_binds st)"
  using assms
proof (induction es arbitrary: st W B T)
  case Nil
  then show ?case
    using config_fill [OF Nil.prems(1-4)] loop_eof [of st _ nl "[]"] loop_end [of _ _ _ nl st] by (auto simp: config_outcome_simps)
next
  case (Cons e es)
  obtain n c where e: "e = (n, c)" by (cases e)
  have k: "binding_ok (n, c)" and ok: "\<forall>e \<in> set es. binding_ok e" using Cons.prems(7) e by auto
  let ?S = "config_text nl es" and ?c = "CHR '' '' # c @ [CHR 0x0A]"
  obtain st1 where f: "config_step st = config_parse st1" "cs_keys st1 = []" "cs_binds st1 = cs_binds st"
      "cs_eof st1 \<and> buffer_holds st1 (config_text nl (e # es)) \<or> \<not> cs_eof st1 \<and> (\<exists>B T. buffer_holds st1 (B @ [nul_char]) \<and> B @ T = config_text nl (e # es) \<and>
        file_rest (cs_file st1) T \<and> (254 \<le> length B \<or> T = []))"
    using config_fill [OF Cons.prems(1-4)] Cons.prems(5,6) by auto
  show ?case
  proof (cases "cs_eof st1")
    case True
    then show ?thesis using loop_eof [OF f(1)] f(2,3,4) Cons.prems(7) by simp
  next
    case False
    then obtain B1 T1 where b: "buffer_holds st1 (B1 @ [nul_char])" "B1 @ T1 = n @ ?c @ ?S" "file_rest (cs_file st1) T1" "254 \<le> length B1 \<or> T1 = []"
      using f(4) e by (auto simp: binding_line_def)
    have "length (n @ ?c) \<le> length B1" using b(2,4) k by (auto simp: binding_ok_def)
    then obtain B2 where B2: "B1 = n @ ?c @ B2" "B2 @ T1 = ?S" by (rule config_front [OF b(2)])
    obtain st2 where s2: "config_parse st1 = Again st2" "buffer_holds st2 (?c @ B2 @ [nul_char])" "Some (cs_keys st2) = mp_input_get_input_from_name n"
        "cs_binds st2 = cs_binds st" "\<not> cs_eof st2" "file_rest (cs_file st2) T1"
      using parse_key [OF _ k f(2), of "c @ CHR 0x0A # B2 @ [nul_char]"] b(1,3) B2(1) f(3) False by auto
    have "config_loop st2 = config_outcome nl (e # es) (cs_binds st2)"
      using command_phase [OF _ s2(5,6) B2(2) k s2(3) ok] Cons.IH s2(2) ok e by simp
    then show ?thesis using loop_again [of st st2] f(1) s2(1,4) by simp
  qed
qed

text \<open>
  C23: A file of bindings that ends with an empty line is read: every line binds the keys it names to its command, in the order of the file, a later line
  for the same keys replacing an earlier one, however long the file is and wherever the ends of the buffer fall in it. The same file without the empty
  line, as any editor writes it, makes the code write in front of its buffer, unless it is empty. Lines have at most 252 characters, one
  blank between the keys and the command, and no comments; a read gives all there is room for, as reading a file does.
\<close>

theorem config_file_read:
  assumes "length junk = BS_MAX" "\<forall>e \<in> set es. binding_ok e"
  shows "mp_input_parse_config junk (Some [Chunk (concat (List.map binding_line es) @ [CHR 0x0A])]) binds = Some (Some (True, foldl bind_entry binds es)) \<and>
    mp_input_parse_config junk (Some [Chunk (concat (List.map binding_line es))]) binds =
      (if es = [] then Some (Some (True, binds)) else Some None)"
proof -
  have *: "mp_input_parse_config junk (Some [Chunk (config_text nl es)]) binds = config_outcome nl es binds" for nl
  proof -
    define st where "st = \<lparr>cs_buffer = junk, cs_bs = 0, cs_eof = False, cs_comments = False, cs_keys = [], cs_binds = binds, cs_file = [Chunk (config_text nl es)]\<rparr>"
    have "config_loop st = config_outcome nl es (cs_binds st)"
      using assms by (intro loop_file [of st "[]" "[]" "config_text nl es"]) (simp_all add: st_def buffer_holds_def file_rest_def)
    then show ?thesis by (simp add: mp_input_parse_config_def st_def)
  qed
  show ?thesis using * [of True] * [of False] by (simp add: config_outcome_def config_text_def)
qed

theorem config_file_read_witness:
  "mp_input_parse_config (replicate 256 CHR ''x'') (Some [Chunk (concat (List.map binding_line [(''q'', ''quit''), (''F1-F2'', ''seek 10'')]) @ [CHR 0x0A])]) [] =
     Some (Some (True, [([113], ''quit''), ([321, 322], ''seek 10'')]))"
proof -
  have k: "mp_input_get_input_from_name ''q'' = Some [113]" "mp_input_get_input_from_name ''F1-F2'' = Some [321, 322]" by code_simp+
  have ok: "\<forall>e \<in> set [(''q'', ''quit''), (''F1-F2'', ''seek 10'')]. binding_ok e"
    by (simp add: binding_ok_def k key_char_def command_char_def SPACE_CHAR_def nul_char_def blank_def code_def)
  have "foldl bind_entry [] [(''q'', ''quit''), (''F1-F2'', ''seek 10'')] = [([113], ''quit''), ([321, 322], ''seek 10'')]"
    by (simp add: bind_entry_def k)
  then show ?thesis using config_file_read [OF _ ok, of "replicate 256 CHR ''x''" "[]"] by (simp add: BS_MAX_def)
qed

lemma config_faults:
  "mp_input_parse_config (replicate 256 CHR ''x'') (Some [Chunk ''q quit'']) [] = Some (Some (False, [])) \<and>
   mp_input_parse_config (replicate 256 CHR ''x'') (Some [Chunk ''q quit'', Interrupted, Chunk [CHR 0x0A, CHR 0x0A]]) [] = Some (Some (True, [([113], ''qui'')])) \<and>
   mp_input_parse_config (replicate 256 CHR ''x'') (Some [Chunk (''#'' @ [CHR 0x0A] @ ''q #x'' @ [CHR 0x0A] @ ''p pause'' @ [CHR 0x0A, CHR 0x0A])]) [] = Some (Some (True, [([112], ''pause'')]))"
  by (intro conjI; code_simp)

end
